(* ===== verification/Prelude.thy ===== *)
theory Prelude
  imports Main "HOL-Library.Finite_Map" "HOL-Library.Char_ord" "HOL-Library.List_Lexorder"
    "HOL-Library.Product_Lexorder" "HOL-Library.Monad_Syntax" "HOL-Library.Signed_Division"
    "HOL-Library.Multiset" "HOL-Library.Code_Target_Nat"
begin

text \<open>
  What every component shares: the wrap-around of the Go integer types, decimal printing, Go's
  \<^verbatim>\<open>byte\<close> tests on characters, and lemmas on finite maps and folds.

  \<^item> \<^verbatim>\<open>int64\<close> and \<^verbatim>\<open>int\<close> values are HOL integers; every operation of the source that could leave the
    64-bit range is wrapped by \<open>s64\<close>.
  \<^item> \<^verbatim>\<open>uint64\<close> and \<^verbatim>\<open>uint32\<close> counters are natural numbers; every increment is wrapped by \<open>u64\<close> or
    \<open>u32\<close>.
  \<^item> A Go string or byte slice is a \<open>string\<close>, one \<open>char\<close> per byte.
  \<^item> A Go map is a finite map \<open>('k, 'v) fmap\<close>, a Go map to \<^verbatim>\<open>struct{}\<close> a finite set \<open>'k fset\<close>.
\<close>

section \<open>Fixed-width integers\<close>

definition u64 :: "nat \<Rightarrow> nat" where
  "u64 n = n mod 2 ^ 64"

definition u32 :: "nat \<Rightarrow> nat" where
  "u32 n = n mod 2 ^ 32"

definition s64 :: "int \<Rightarrow> int" where
  "s64 x = (x + 2 ^ 63) mod 2 ^ 64 - 2 ^ 63"

definition in_s64 :: "int \<Rightarrow> bool" where
  "in_s64 x \<longleftrightarrow> - (2 ^ 63) \<le> x \<and> x < 2 ^ 63"

named_theorems wrap_simps \<open>equations that remove a wrap-around\<close>

lemma u64_less: "u64 n < 2 ^ 64"
  by (simp add: u64_def)

lemma u64_id [wrap_simps]: "n < 2 ^ 64 \<Longrightarrow> u64 n = n"
  by (simp add: u64_def)

lemma u64_Suc [wrap_simps]: "n < 2 ^ 64 - 1 \<Longrightarrow> u64 (n + 1) = n + 1"
  by (simp add: u64_def)

lemma u32_id [wrap_simps]: "n < 2 ^ 32 \<Longrightarrow> u32 n = n"
  by (simp add: u32_def)

lemma s64_in [simp]: "in_s64 (s64 x)"
  by (simp add: in_s64_def s64_def)

lemma s64_id [wrap_simps]: "in_s64 x \<Longrightarrow> s64 x = x"
  by (simp add: in_s64_def s64_def)

text \<open>Evaluation tests the range before it divides.\<close>

lemma u64_code [code]: "u64 n = (if n < 18446744073709551616 then n else n mod 18446744073709551616)"
  by (simp add: u64_def)

lemma u32_code [code]: "u32 n = (if n < 4294967296 then n else n mod 4294967296)"
  by (simp add: u32_def)

lemma s64_code [code]:
  "s64 x = (if - 9223372036854775808 \<le> x \<and> x < 9223372036854775808 then x
            else (x + 9223372036854775808) mod 18446744073709551616 - 9223372036854775808)"
  using s64_id [of x] by (auto simp: in_s64_def s64_def)

lemma s64_bounded: "0 \<le> x \<Longrightarrow> x \<le> 2 * 10 ^ 18 \<Longrightarrow> s64 x = x"
  by (rule s64_id) (simp add: in_s64_def)

lemma s64_s64 [simp]: "s64 (s64 x) = s64 x"
  by (rule s64_id) simp

lemma s64_mod: "s64 x mod 2 ^ 64 = x mod 2 ^ 64"
proof -
  have "s64 x mod 2 ^ 64 = (x + 2 ^ 63 - 2 ^ 63) mod 2 ^ 64"
    unfolding s64_def by (rule mod_diff_left_eq)
  then show ?thesis by simp
qed

lemma s64_cong: "x mod 2 ^ 64 = y mod 2 ^ 64 \<Longrightarrow> s64 x = s64 y"
  unfolding s64_def by (metis mod_add_left_eq)

lemma s64_add_left [simp]: "s64 (s64 x + y) = s64 (x + y)"
  by (rule s64_cong) (metis s64_mod mod_add_left_eq)

lemma s64_add_right [simp]: "s64 (x + s64 y) = s64 (x + y)"
  by (rule s64_cong) (metis s64_mod mod_add_right_eq)

lemma s64_diff_left [simp]: "s64 (s64 x - y) = s64 (x - y)"
  by (rule s64_cong) (metis s64_mod mod_diff_left_eq)

lemma s64_0 [simp]: "s64 0 = 0"
  by (simp add: s64_def)

lemma in_s64_0 [simp]: "in_s64 0"
  by (simp add: in_s64_def)

section \<open>Decimal printing and byte classes\<close>

fun nat_dec :: "nat \<Rightarrow> string" where
  "nat_dec n = (if n < 10 then [char_of (48 + n)] else nat_dec (n div 10) @ [char_of (48 + n mod 10)])"

declare nat_dec.simps [simp del]

definition itoa :: "int \<Rightarrow> string" where
  "itoa x = (if x < 0 then CHR ''-'' # nat_dec (nat (- x)) else nat_dec (nat x))"

definition byte_between :: "char \<Rightarrow> char \<Rightarrow> char \<Rightarrow> bool" where
  "byte_between lo hi c \<longleftrightarrow> lo \<le> c \<and> c \<le> hi"

text \<open>\<open>be_bytes k n\<close> is \<open>n\<close> as \<open>k\<close> big-endian bytes, what \<^verbatim>\<open>binary.BigEndian\<close> writes.\<close>

fun be_bytes :: "nat \<Rightarrow> nat \<Rightarrow> string" where
  "be_bytes 0 n = []"
| "be_bytes (Suc k) n = be_bytes k (n div 256) @ [char_of (n mod 256)]"

definition be_value :: "string \<Rightarrow> nat" where
  "be_value s = fold (\<lambda>c acc. 256 * acc + of_char c) s 0"

lemma length_be_bytes [simp]: "length (be_bytes k n) = k"
  by (induction k arbitrary: n) simp_all

lemma be_value_snoc [simp]: "be_value (s @ [c]) = 256 * be_value s + of_char c"
  by (simp add: be_value_def)

lemma be_value_be_bytes: "n < 256 ^ k \<Longrightarrow> be_value (be_bytes k n) = n"
proof (induction k arbitrary: n)
  case 0
  then show ?case by (simp add: be_value_def)
next
  case (Suc k)
  then have "n div 256 < 256 ^ k" by (simp add: less_mult_imp_div_less mult.commute)
  with Suc.IH show ?case by simp
qed

lemma be_bytes_inj: "be_bytes k m = be_bytes k n \<Longrightarrow> m < 256 ^ k \<Longrightarrow> n < 256 ^ k \<Longrightarrow> m = n"
  by (metis be_value_be_bytes)

section \<open>Hexadecimal text\<close>

definition hex_digit :: "nat \<Rightarrow> char" where
  "hex_digit n = ''0123456789abcdef'' ! n"

definition hex_value :: "char \<Rightarrow> nat option" where
  "hex_value c =
     (if byte_between (CHR ''0'') (CHR ''9'') c then Some (of_char c - 48)
      else if byte_between (CHR ''a'') (CHR ''f'') c then Some (of_char c - 87)
      else if byte_between (CHR ''A'') (CHR ''F'') c then Some (of_char c - 55)
      else None)"

definition lower_hex :: "char \<Rightarrow> bool" where
  "lower_hex c \<longleftrightarrow> byte_between (CHR ''0'') (CHR ''9'') c \<or> byte_between (CHR ''a'') (CHR ''f'') c"

fun hex_encode :: "string \<Rightarrow> string" where
  "hex_encode [] = []"
| "hex_encode (c # cs) = hex_digit (of_char c div 16) # hex_digit (of_char c mod 16) # hex_encode cs"

fun hex_decode :: "string \<Rightarrow> string option" where
  "hex_decode [] = Some []"
| "hex_decode [c] = None"
| "hex_decode (c # d # cs) =
     (case (hex_value c, hex_value d, hex_decode cs) of
        (Some a, Some b, Some r) \<Rightarrow> Some (char_of (16 * a + b) # r)
      | _ \<Rightarrow> None)"

lemma hex_digits_table:
  "list_all (\<lambda>n. hex_value (hex_digit n) = Some n \<and> lower_hex (hex_digit n)) [0..<16]"
  by code_simp

lemma hex_digit_inverse: "n < 16 \<Longrightarrow> hex_value (hex_digit n) = Some n \<and> lower_hex (hex_digit n)"
  using hex_digits_table by (simp add: list_all_iff)

lemma char_less_256: "of_char c < (256 :: nat)"
  by (cases c) (simp add: of_char_def)

lemma length_hex_encode [simp]: "length (hex_encode s) = 2 * length s"
  by (induction s) simp_all

lemma hex_nibbles: "of_char c div 16 < (16 :: nat)" "of_char c mod 16 < (16 :: nat)"
  using char_less_256 [of c] by (simp_all add: less_mult_imp_div_less)

lemma hex_decode_encode [simp]: "hex_decode (hex_encode s) = Some s"
  by (induction s) (simp_all add: hex_digit_inverse hex_nibbles)

lemma hex_encode_lower: "c \<in> set (hex_encode s) \<Longrightarrow> lower_hex c"
  by (induction s) (auto simp: hex_digit_inverse hex_nibbles)

lemma lower_hex_table:
  "list_all (\<lambda>n. case hex_value (char_of n) of None \<Rightarrow> False | Some a \<Rightarrow> a < 16 \<and> hex_digit a = char_of n)
     ([48..<58] @ [97..<103])"
  by code_simp

lemma lower_hex_range: "lower_hex c \<longleftrightarrow> of_char c \<in> set ([48..<58] @ [97..<103])"
  unfolding lower_hex_def byte_between_def less_eq_char_def set_append set_upt Un_iff atLeastLessThan_iff
  by auto

lemma lower_hex_digit:
  assumes "lower_hex c"
  obtains a where "hex_value c = Some a" "a < 16" "hex_digit a = c"
proof -
  have "case hex_value (char_of (of_char c :: nat)) of None \<Rightarrow> False
     | Some a \<Rightarrow> a < 16 \<and> hex_digit a = char_of (of_char c :: nat)"
    using lower_hex_table assms unfolding lower_hex_range list_all_iff by blast
  then show thesis by (auto split: option.splits intro: that)
qed

lemma hex_encode_decode:
  "hex_decode t = Some s \<Longrightarrow> (\<And>c. c \<in> set t \<Longrightarrow> lower_hex c) \<Longrightarrow> hex_encode s = t"
proof (induction t arbitrary: s rule: hex_decode.induct)
  case (3 c d cs)
  from "3.prems"(2) have lc: "lower_hex c" and ld: "lower_hex d" by auto
  obtain a where a: "hex_value c = Some a" "a < 16" "hex_digit a = c" using lower_hex_digit [OF lc] .
  obtain b where b: "hex_value d = Some b" "b < 16" "hex_digit b = d" using lower_hex_digit [OF ld] .
  from "3.prems" a b obtain r where r: "hex_decode cs = Some r" "s = char_of (16 * a + b) # r"
    by (auto split: option.splits)
  have "hex_encode r = cs" using "3.IH" r(1) "3.prems"(2) by auto
  moreover have "(of_char (char_of (16 * a + b)) :: nat) = 16 * a + b" using a b by simp
  ultimately show ?case using a b r by simp
qed auto

section \<open>Finite maps\<close>

definition fmget :: "('k, 'v) fmap \<Rightarrow> 'v \<Rightarrow> 'k \<Rightarrow> 'v" where
  "fmget m d k = (case fmlookup m k of Some v \<Rightarrow> v | None \<Rightarrow> d)"

lemma fmget_empty [simp]: "fmget fmempty d k = d"
  by (simp add: fmget_def)

lemma fmget_upd [simp]: "fmget (fmupd k v m) d k' = (if k = k' then v else fmget m d k')"
  by (simp add: fmget_def)

definition fmkeys :: "('k::linorder, 'v) fmap \<Rightarrow> 'k list" where
  "fmkeys m = sorted_list_of_fset (fmdom m)"

lemma set_fmkeys [simp]: "set (fmkeys m) = fmdom' m"
  by (simp add: fmkeys_def fmdom'_alt_def)

lemma sorted_fmkeys: "sorted (fmkeys m)"
  by (simp add: fmkeys_def sorted_list_of_fset.rep_eq)

lemma distinct_fmkeys [simp]: "distinct (fmkeys m)"
  by (simp add: fmkeys_def sorted_list_of_fset.rep_eq)

definition fmvals :: "('k::linorder, 'v) fmap \<Rightarrow> 'v list" where
  "fmvals m = map (\<lambda>k. the (fmlookup m k)) (fmkeys m)"

lemma set_fmvals: "set (fmvals m) = {v. \<exists>k. fmlookup m k = Some v}"
  by (force simp: fmvals_def fmlookup_dom'_iff)

definition fmsize :: "('k, 'v) fmap \<Rightarrow> nat" where
  "fmsize m = fcard (fmdom m)"

lemma fmsize_card: "fmsize m = card (fmdom' m)"
  by (simp add: fmsize_def fcard.rep_eq fmdom'_alt_def)

lemma find_False [simp]: "find (\<lambda>_. False) xs = None"
  by (induction xs) auto

lemma fold_max_ge: "x \<le> fold max xs (x :: 'a :: linorder)"
  by (induction xs arbitrary: x) (auto intro: order_trans [OF max.cobounded2])

lemma fold_max_mem_ge: "y \<in> set xs \<Longrightarrow> y \<le> fold max xs (x :: 'a :: linorder)"
proof (induction xs arbitrary: x)
  case (Cons z zs)
  show ?case
  proof (cases "y = z")
    case True
    have "z \<le> max z x" by simp
    also have "\<dots> \<le> fold max zs (max z x)" by (rule fold_max_ge)
    finally show ?thesis using True by simp
  qed (use Cons in simp)
qed simp

lemma fold_max_in: "fold max xs (x :: 'a :: linorder) = x \<or> fold max xs x \<in> set xs"
proof (induction xs arbitrary: x)
  case (Cons z zs)
  from Cons.IH [of "max z x"] show ?case by (auto simp: max_def split: if_splits)
qed simp

end
