(* ===== verification/Voting.thy ===== *)
theory Voting
  imports Prelude
begin

text \<open>
  The abstract specification both consensus layers implement: acceptors cast votes under ballots,
  a value is chosen when a majority voted for it under one ballot, and every vote is safe at its
  ballot. The locale \<open>voting_system\<close> is the contract; its lemmas (agreement, and safety of the value
  picked from a majority of promises) are proved once. The single-decree reference protocol of
  \<^verbatim>\<open>internal/paxos\<close> and the replicated log of \<^verbatim>\<open>internal/replog\<close> interpret it.
\<close>

section \<open>Majorities\<close>

definition Quorum :: "nat \<Rightarrow> nat" where
  "Quorum n = n div 2 + 1"

definition majority :: "'a list \<Rightarrow> 'a set \<Rightarrow> bool" where
  "majority P Q \<longleftrightarrow> Q \<subseteq> set P \<and> Quorum (length P) \<le> card Q"

lemma majority_nonempty: "majority P Q \<Longrightarrow> Q \<noteq> {}"
  by (auto simp: majority_def Quorum_def)

lemma majority_intersect:
  assumes "majority P Q" and "majority P R"
  shows "\<exists>a. a \<in> Q \<and> a \<in> R"
proof (rule ccontr)
  assume "\<not> ?thesis"
  then have dis: "Q \<inter> R = {}" by auto
  from assms have sub: "Q \<subseteq> set P" "R \<subseteq> set P" by (auto simp: majority_def)
  then have fin: "finite Q" "finite R" by (auto intro: finite_subset)
  have "card Q + card R = card (Q \<union> R)" using fin dis by (simp add: card_Un_disjoint)
  also have "\<dots> \<le> card (set P)" using sub by (intro card_mono) auto
  also have "\<dots> \<le> length P" by (rule card_length)
  finally show False using assms unfolding majority_def Quorum_def by linarith
qed

section \<open>Votes\<close>

type_synonym ('a, 'b, 'v) votes = "'a \<Rightarrow> 'b \<Rightarrow> 'v \<Rightarrow> bool"

definition chosen_at :: "'a list \<Rightarrow> ('a, 'b, 'v) votes \<Rightarrow> 'b \<Rightarrow> 'v \<Rightarrow> bool" where
  "chosen_at P vote b v \<longleftrightarrow> (\<exists>Q. majority P Q \<and> (\<forall>a\<in>Q. vote a b v))"

definition settled_below :: "('a, 'b::linorder, 'v) votes \<Rightarrow> ('a \<Rightarrow> 'b) \<Rightarrow> 'b \<Rightarrow> 'v \<Rightarrow> 'a \<Rightarrow> bool" where
  "settled_below vote prom c v a \<longleftrightarrow> vote a c v \<or> (c < prom a \<and> (\<forall>w. \<not> vote a c w))"

definition safe_at :: "'a list \<Rightarrow> ('a, 'b::linorder, 'v) votes \<Rightarrow> ('a \<Rightarrow> 'b) \<Rightarrow> 'b \<Rightarrow> 'v \<Rightarrow> bool" where
  "safe_at P vote prom b v \<longleftrightarrow>
     (\<forall>c<b. \<exists>Q. majority P Q \<and> (\<forall>a\<in>Q. settled_below vote prom c v a))"

definition free_at :: "'a list \<Rightarrow> ('a, 'b::linorder, 'v) votes \<Rightarrow> ('a \<Rightarrow> 'b) \<Rightarrow> 'b \<Rightarrow> bool" where
  "free_at P vote prom b \<longleftrightarrow>
     (\<exists>Q. majority P Q \<and> (\<forall>a\<in>Q. b \<le> prom a \<and> (\<forall>c<b. \<forall>w. \<not> vote a c w)))"

text \<open>The state of the votes only grows, and a new vote is never below the voter's promise.\<close>

definition votes_extend ::
  "('a, 'b::linorder, 'v) votes \<Rightarrow> ('a \<Rightarrow> 'b) \<Rightarrow> ('a, 'b, 'v) votes \<Rightarrow> ('a \<Rightarrow> 'b) \<Rightarrow> bool" where
  "votes_extend vote prom vote' prom' \<longleftrightarrow>
     (\<forall>a. prom a \<le> prom' a) \<and>
     (\<forall>a b v. vote a b v \<longrightarrow> vote' a b v) \<and>
     (\<forall>a b v. vote' a b v \<longrightarrow> vote a b v \<or> prom a \<le> b)"

lemma votes_extend_refl [simp]: "votes_extend vote prom vote prom"
  by (simp add: votes_extend_def)

lemma votes_extend_trans:
  "votes_extend v1 p1 v2 p2 \<Longrightarrow> votes_extend v2 p2 v3 p3 \<Longrightarrow> votes_extend v1 p1 v3 p3"
  unfolding votes_extend_def by (meson order_trans)

lemma settled_below_mono:
  assumes "votes_extend vote prom vote' prom'" and "settled_below vote prom c v a"
  shows "settled_below vote' prom' c v a"
  using assms unfolding votes_extend_def settled_below_def by (meson leD order_less_le_trans)

lemma safe_at_mono:
  assumes "votes_extend vote prom vote' prom'" and "safe_at P vote prom b v"
  shows "safe_at P vote' prom' b v"
  unfolding safe_at_def
proof (intro allI impI)
  fix c assume "c < b"
  with assms(2) obtain Q where "majority P Q" "\<forall>a\<in>Q. settled_below vote prom c v a"
    unfolding safe_at_def by blast
  with settled_below_mono [OF assms(1)]
  show "\<exists>Q. majority P Q \<and> (\<forall>a\<in>Q. settled_below vote' prom' c v a)" by blast
qed

lemma free_at_mono:
  assumes ext: "votes_extend vote prom vote' prom'" and free: "free_at P vote prom b"
  shows "free_at P vote' prom' b"
proof -
  from free obtain Q where Q: "majority P Q"
    and q: "\<And>a. a \<in> Q \<Longrightarrow> b \<le> prom a \<and> (\<forall>c<b. \<forall>w. \<not> vote a c w)"
    unfolding free_at_def by blast
  have "b \<le> prom' a \<and> (\<forall>c<b. \<forall>w. \<not> vote' a c w)" if "a \<in> Q" for a
    using q [OF that] ext unfolding votes_extend_def by (meson leD order_less_le_trans order_trans)
  with Q show ?thesis unfolding free_at_def by blast
qed

lemma chosen_at_mono:
  "votes_extend vote prom vote' prom' \<Longrightarrow> chosen_at P vote b v \<Longrightarrow> chosen_at P vote' b v"
  unfolding votes_extend_def chosen_at_def by meson

lemma free_at_safe: "free_at P vote prom b \<Longrightarrow> safe_at P vote prom b v"
  unfolding free_at_def safe_at_def settled_below_def by (meson order_less_le_trans)

section \<open>The contract\<close>

locale voting_system =
  fixes members :: "'s \<Rightarrow> 'a list"
    and vote :: "'s \<Rightarrow> ('a, 'b::linorder, 'v) votes"
    and prom :: "'s \<Rightarrow> 'a \<Rightarrow> 'b"
    and ok :: "'s \<Rightarrow> bool"
  assumes one_value: "ok s \<Longrightarrow> vote s a b v \<Longrightarrow> vote s a' b v' \<Longrightarrow> v = v'"
    and votes_safe: "ok s \<Longrightarrow> vote s a b v \<Longrightarrow> safe_at (members s) (vote s) (prom s) b v"
begin

lemma chosen_then_voted:
  assumes ok: "ok s" and ch: "chosen_at (members s) (vote s) b v"
    and later: "vote s a b' v'" and le: "b \<le> b'"
  shows "v' = v"
proof -
  from ch obtain Q where Q: "majority (members s) Q" and vQ: "\<And>a. a \<in> Q \<Longrightarrow> vote s a b v"
    unfolding chosen_at_def by blast
  show ?thesis
  proof (cases "b = b'")
    case True
    from majority_nonempty [OF Q] obtain q where "q \<in> Q" by blast
    with vQ True one_value [OF ok later] show ?thesis by blast
  next
    case False
    with le have "b < b'" by simp
    with votes_safe [OF ok later] obtain R where R: "majority (members s) R"
      and sR: "\<And>a. a \<in> R \<Longrightarrow> settled_below (vote s) (prom s) b v' a"
      unfolding safe_at_def by blast
    from majority_intersect [OF Q R] obtain q where "q \<in> Q" "q \<in> R" by blast
    with vQ sR have "vote s q b v" "vote s q b v'" by (auto simp: settled_below_def)
    then show ?thesis using one_value [OF ok] by blast
  qed
qed

theorem agreement:
  assumes ok: "ok s" and "chosen_at (members s) (vote s) b v"
    and "chosen_at (members s) (vote s) b' v'"
  shows "v = v'"
proof -
  have *: "w' = w" if "chosen_at (members s) (vote s) c w" "chosen_at (members s) (vote s) c' w'" "c \<le> c'"
    for c c' w w'
  proof -
    from that(2) obtain Q where "majority (members s) Q" "\<forall>a\<in>Q. vote s a c' w'"
      unfolding chosen_at_def by blast
    moreover from this(1) have "Q \<noteq> {}" by (rule majority_nonempty)
    ultimately obtain a where "vote s a c' w'" by blast
    with chosen_then_voted [OF ok that(1) _ that(3)] show ?thesis by blast
  qed
  show ?thesis using * [OF assms(2,3)] * [OF assms(3,2)] by (cases "b \<le> b'") auto
qed

text \<open>Rule P2c: the value reported under the highest ballot by a majority of promises is safe.\<close>

lemma highest_report_safe:
  assumes ok: "ok s" and Q: "majority (members s) Q"
    and prom: "\<And>a. a \<in> Q \<Longrightarrow> b \<le> prom s a"
    and top: "vote s t m v" "m < b"
    and none: "\<And>a c w. a \<in> Q \<Longrightarrow> vote s a c w \<Longrightarrow> c < b \<Longrightarrow> c \<le> m"
  shows "safe_at (members s) (vote s) (prom s) b v"
  unfolding safe_at_def
proof (intro allI impI)
  fix c assume "c < b"
  show "\<exists>Q. majority (members s) Q \<and> (\<forall>a\<in>Q. settled_below (vote s) (prom s) c v a)"
  proof (cases "c < m")
    case True
    with votes_safe [OF ok top(1)] show ?thesis unfolding safe_at_def by blast
  next
    case False
    have "settled_below (vote s) (prom s) c v a" if a: "a \<in> Q" for a
    proof (cases "\<exists>w. vote s a c w")
      case True
      then obtain w where w: "vote s a c w" by blast
      with none [OF a w \<open>c < b\<close>] False have "c = m" by simp
      with w top(1) one_value [OF ok] have "w = v" by blast
      with w show ?thesis by (simp add: settled_below_def)
    next
      case False
      with prom [OF a] \<open>c < b\<close> show ?thesis by (auto simp: settled_below_def)
    qed
    with Q show ?thesis by blast
  qed
qed

end

end
