(* ===== verification/Paxos.thy ===== *)
theory Paxos
  imports Voting
begin

text \<open>
  Package \<^verbatim>\<open>internal/paxos\<close>: ballots and their order, the protocol rules (\<open>MayPromise\<close>,
  \<open>MayAccept\<close>, \<open>Choose\<close>), and the reference single-decree acceptor and proposer, with their
  component lemmas. \<open>Quorum\<close> is declared in \<open>Voting\<close>. The protocol that joins acceptors and proposers
  over a lossy network is in \<open>Synod\<close>.
\<close>

section \<open>Identifiers, values and ballots (paxos.go)\<close>

type_synonym node_id = nat
type_synonym slot = nat
type_synonym paxos_value = string

datatype ballot = Ballot (Round: nat) (Node: node_id)

definition Compare :: "ballot \<Rightarrow> ballot \<Rightarrow> int" where
  "Compare b c =
     (if Round b < Round c then -1
      else if Round b > Round c then 1
      else if Node b < Node c then -1
      else if Node b > Node c then 1
      else 0)"

definition Less :: "ballot \<Rightarrow> ballot \<Rightarrow> bool" where
  "Less b c \<longleftrightarrow> Compare b c < 0"

definition IsZero :: "ballot \<Rightarrow> bool" where
  "IsZero b \<longleftrightarrow> Round b = 0 \<and> Node b = 0"

definition ballot_String :: "ballot \<Rightarrow> string" where
  "ballot_String b = ''r'' @ nat_dec (Round b) @ ''.n'' @ nat_dec (Node b)"

abbreviation zero_ballot :: ballot where
  "zero_ballot \<equiv> Ballot 0 0"

record pvalue =
  pv_Ballot :: ballot
  pv_Slot :: slot
  pv_Value :: paxos_value

definition MayPromise :: "ballot \<Rightarrow> ballot \<Rightarrow> bool" where
  "MayPromise promised b \<longleftrightarrow> Less promised b"

definition MayAccept :: "ballot \<Rightarrow> ballot \<Rightarrow> bool" where
  "MayAccept promised b \<longleftrightarrow> \<not> Less b promised"

fun choose_loop :: "pvalue list \<Rightarrow> pvalue option \<Rightarrow> pvalue option" where
  "choose_loop [] best = best"
| "choose_loop (r # rs) best =
     (if IsZero (pv_Ballot r) then choose_loop rs best
      else (case best of
              None \<Rightarrow> choose_loop rs (Some r)
            | Some p \<Rightarrow> if Less (pv_Ballot p) (pv_Ballot r) then choose_loop rs (Some r)
                        else choose_loop rs best))"

definition Choose :: "pvalue list \<Rightarrow> paxos_value \<Rightarrow> paxos_value" where
  "Choose reports fallback =
     (case choose_loop reports None of None \<Rightarrow> fallback | Some p \<Rightarrow> pv_Value p)"

definition ValueEqual :: "paxos_value \<Rightarrow> paxos_value \<Rightarrow> bool" where
  "ValueEqual a b \<longleftrightarrow> a = b"

section \<open>The order on ballots\<close>

instantiation ballot :: linorder
begin

definition less_ballot :: "ballot \<Rightarrow> ballot \<Rightarrow> bool" where
  "less_ballot b c \<longleftrightarrow> Less b c"

definition less_eq_ballot :: "ballot \<Rightarrow> ballot \<Rightarrow> bool" where
  "less_eq_ballot b c \<longleftrightarrow> Less b c \<or> b = c"

instance
proof
  fix x y z :: ballot
  show "(x < y) = (x \<le> y \<and> \<not> y \<le> x)" and "x \<le> x"
    and "x \<le> y \<Longrightarrow> y \<le> z \<Longrightarrow> x \<le> z" and "x \<le> y \<Longrightarrow> y \<le> x \<Longrightarrow> x = y" and "x \<le> y \<or> y \<le> x"
    by (cases x; cases y; cases z;
        auto simp: less_ballot_def less_eq_ballot_def Less_def Compare_def split: if_splits)+
qed

end

lemma Less_iff [simp]: "Less b c \<longleftrightarrow> b < c"
  by (simp add: less_ballot_def)

lemma less_ballot_iff: "b < c \<longleftrightarrow> Round b < Round c \<or> Round b = Round c \<and> Node b < Node c"
  unfolding less_ballot_def Less_def Compare_def by auto

lemma less_eq_ballot_iff: "b \<le> c \<longleftrightarrow> Round b < Round c \<or> Round b = Round c \<and> Node b \<le> Node c"
  unfolding less_eq_ballot_def Less_def Compare_def by (cases b; cases c) auto

lemma IsZero_iff [simp]: "IsZero b \<longleftrightarrow> b = zero_ballot"
  by (cases b) (simp add: IsZero_def)

lemma zero_ballot_le [simp]: "zero_ballot \<le> b"
  by (cases b) (auto simp: less_eq_ballot_iff)

lemma zero_ballot_less [simp]: "zero_ballot < b \<longleftrightarrow> b \<noteq> zero_ballot"
  using zero_ballot_le [of b] by (metis order.strict_iff_order)

lemma not_less_zero_ballot [simp]: "\<not> b < zero_ballot"
  by (simp add: not_less)

lemma ballot_Round_mono: "b \<le> c \<Longrightarrow> Round b \<le> Round c"
  by (auto simp: less_eq_ballot_iff)

lemma fresh_ballot_greater: "Round b \<le> r \<Longrightarrow> b < Ballot (Suc r) n"
  by (simp add: less_ballot_iff)

section \<open>The choice rule\<close>

definition reports_agree :: "pvalue list \<Rightarrow> bool" where
  "reports_agree rs \<longleftrightarrow>
     (\<forall>p\<in>set rs. \<forall>q\<in>set rs. pv_Ballot p = pv_Ballot q \<longrightarrow> pv_Value p = pv_Value q)"

lemma choose_loop_invariant:
  "choose_loop rs best = Some p \<Longrightarrow>
     (p \<in> set rs \<and> \<not> IsZero (pv_Ballot p) \<or> best = Some p) \<and>
     (\<forall>q\<in>set rs. \<not> IsZero (pv_Ballot q) \<longrightarrow> pv_Ballot q \<le> pv_Ballot p) \<and>
     (\<forall>q. best = Some q \<longrightarrow> pv_Ballot q \<le> pv_Ballot p)"
proof (induction rs best rule: choose_loop.induct)
  case (2 r rs best)
  show ?case
  proof (cases "IsZero (pv_Ballot r)")
    case True
    with 2 show ?thesis by auto
  next
    case False
    note nz = False
    show ?thesis
    proof (cases best)
      case None
      with False 2 show ?thesis by fastforce
    next
      case (Some q)
      show ?thesis
      proof (cases "Less (pv_Ballot q) (pv_Ballot r)")
        case True
        with 2 nz Some show ?thesis by fastforce
      next
        case False
        then have "pv_Ballot r \<le> pv_Ballot q" by simp
        with 2 nz Some False show ?thesis by fastforce
      qed
    qed
  qed
qed simp

lemma choose_loop_None:
  "choose_loop rs best = None \<longleftrightarrow> best = None \<and> (\<forall>q\<in>set rs. IsZero (pv_Ballot q))"
  by (induction rs best rule: choose_loop.induct) (auto split: option.splits)

lemma choose_loop_highest:
  assumes "choose_loop rs None = Some p"
  shows "p \<in> set rs" and "pv_Ballot p \<noteq> zero_ballot"
    and "\<And>q. q \<in> set rs \<Longrightarrow> pv_Ballot q \<noteq> zero_ballot \<Longrightarrow> pv_Ballot q \<le> pv_Ballot p"
  using choose_loop_invariant [OF assms] by auto

lemma Choose_cases:
  obtains (none) "\<And>q. q \<in> set rs \<Longrightarrow> pv_Ballot q = zero_ballot" "Choose rs d = d"
  | (some) p where "p \<in> set rs" "pv_Ballot p \<noteq> zero_ballot" "Choose rs d = pv_Value p"
      "\<And>q. q \<in> set rs \<Longrightarrow> pv_Ballot q \<noteq> zero_ballot \<Longrightarrow> pv_Ballot q \<le> pv_Ballot p"
proof (cases "choose_loop rs None")
  case None
  then have "\<And>q. q \<in> set rs \<Longrightarrow> pv_Ballot q = zero_ballot"
    using choose_loop_None [of rs None] by auto
  with None show thesis by (intro none) (auto simp: Choose_def)
next
  case (Some p)
  with choose_loop_highest [OF Some] show thesis by (intro some [of p]) (auto simp: Choose_def)
qed

section \<open>The reference acceptor (acceptor.go)\<close>

record acceptor =
  a_Promised :: ballot
  a_Accepted :: ballot
  a_Value :: paxos_value

record promise1 =
  p1_Ballot :: ballot
  p1_Accepted :: ballot
  p1_Value :: paxos_value

record nack1 =
  n1_Ballot :: ballot
  n1_Promised :: ballot

definition new_acceptor :: acceptor where
  "new_acceptor = \<lparr>a_Promised = zero_ballot, a_Accepted = zero_ballot, a_Value = []\<rparr>"

definition OnPrepare :: "ballot \<Rightarrow> acceptor \<Rightarrow> acceptor \<times> (nack1 + promise1)" where
  "OnPrepare b a =
     (if \<not> MayPromise (a_Promised a) b
      then (a, Inl \<lparr>n1_Ballot = b, n1_Promised = a_Promised a\<rparr>)
      else (a\<lparr>a_Promised := b\<rparr>,
            Inr \<lparr>p1_Ballot = b, p1_Accepted = a_Accepted a, p1_Value = a_Value a\<rparr>))"

definition OnAccept :: "ballot \<Rightarrow> paxos_value \<Rightarrow> acceptor \<Rightarrow> acceptor \<times> nack1 option" where
  "OnAccept b v a =
     (if \<not> MayAccept (a_Promised a) b
      then (a, Some \<lparr>n1_Ballot = b, n1_Promised = a_Promised a\<rparr>)
      else (let a1 = (if Less (a_Promised a) b then a\<lparr>a_Promised := b\<rparr> else a)
            in (a1\<lparr>a_Accepted := b, a_Value := v\<rparr>, None)))"

lemma OnPrepare_promise_mono: "a_Promised a \<le> a_Promised (fst (OnPrepare b a))"
  by (auto simp: OnPrepare_def MayPromise_def)

lemma OnAccept_promise_mono: "a_Promised a \<le> a_Promised (fst (OnAccept b v a))"
  by (auto simp: OnAccept_def MayAccept_def Let_def)

lemma OnAccept_accepted:
  "snd (OnAccept b v a) = None \<Longrightarrow>
     a_Promised a \<le> b \<and> a_Promised (fst (OnAccept b v a)) = b \<and>
     a_Accepted (fst (OnAccept b v a)) = b \<and> a_Value (fst (OnAccept b v a)) = v"
  by (auto simp: OnAccept_def MayAccept_def Let_def not_less split: if_splits)

section \<open>The reference proposer (proposer.go)\<close>

record proposer =
  pr_self :: node_id
  pr_n :: nat
  pr_ballot :: ballot
  pr_promises :: "(node_id, promise1) fmap option"
  pr_accepts :: "node_id fset"
  pr_abandoned :: bool
  pr_proposed :: bool
  pr_value :: paxos_value

datatype proposer_error = ErrNoQuorum

definition NewProposer :: "node_id \<Rightarrow> nat \<Rightarrow> proposer" where
  "NewProposer self n =
     \<lparr>pr_self = self, pr_n = n, pr_ballot = zero_ballot, pr_promises = None, pr_accepts = {||},
      pr_abandoned = False, pr_proposed = False, pr_value = []\<rparr>"

definition Start :: "nat \<Rightarrow> proposer \<Rightarrow> proposer \<times> ballot" where
  "Start rnd p =
     (let b = Ballot rnd (pr_self p)
      in (p\<lparr>pr_ballot := b, pr_promises := Some fmempty, pr_accepts := {||},
            pr_abandoned := False, pr_proposed := False, pr_value := []\<rparr>, b))"

definition ready :: "proposer \<Rightarrow> bool" where
  "ready p \<longleftrightarrow> \<not> pr_abandoned p \<and>
     (case pr_promises p of None \<Rightarrow> False | Some m \<Rightarrow> Quorum (pr_n p) \<le> fmsize m)"

definition OnPromise :: "node_id \<Rightarrow> promise1 \<Rightarrow> proposer \<Rightarrow> proposer \<times> bool" where
  "OnPromise from m p =
     (if pr_abandoned p \<or> pr_proposed p \<or> p1_Ballot m \<noteq> pr_ballot p then (p, ready p)
      else (case pr_promises p of
              None \<Rightarrow> (p, ready p)
            | Some ps \<Rightarrow> let p' = p\<lparr>pr_promises := Some (fmupd from m ps)\<rparr> in (p', ready p')))"

definition OnNack :: "nack1 \<Rightarrow> proposer \<Rightarrow> proposer" where
  "OnNack m p = (if n1_Ballot m = pr_ballot p then p\<lparr>pr_abandoned := True\<rparr> else p)"

definition promise_reports :: "promise1 list \<Rightarrow> pvalue list" where
  "promise_reports ms =
     map (\<lambda>m. \<lparr>pv_Ballot = p1_Accepted m, pv_Slot = 0, pv_Value = p1_Value m\<rparr>)
       (filter (\<lambda>m. \<not> IsZero (p1_Accepted m)) ms)"

definition Propose1 :: "paxos_value \<Rightarrow> proposer \<Rightarrow> proposer \<times> (proposer_error + ballot \<times> paxos_value)" where
  "Propose1 want p =
     (if \<not> ready p then (p, Inl ErrNoQuorum)
      else if pr_proposed p then (p, Inr (pr_ballot p, pr_value p))
      else (let reports = promise_reports (case pr_promises p of None \<Rightarrow> [] | Some ps \<Rightarrow> fmvals ps);
                v = Choose reports want
            in (p\<lparr>pr_value := v, pr_proposed := True\<rparr>, Inr (pr_ballot p, v))))"

definition OnAccepted :: "node_id \<Rightarrow> ballot \<Rightarrow> proposer \<Rightarrow> proposer \<times> bool" where
  "OnAccepted from b p =
     (if pr_abandoned p \<or> \<not> pr_proposed p \<or> b \<noteq> pr_ballot p then (p, False)
      else (let p' = p\<lparr>pr_accepts := finsert from (pr_accepts p)\<rparr>
            in (p', Quorum (pr_n p) \<le> fcard (pr_accepts p'))))"

end
