(* ===== verification/Synod.thy ===== *)
theory Synod
  imports Paxos
begin

text \<open>
  The single-decree protocol that the reference acceptor and proposer of \<^verbatim>\<open>internal/paxos\<close> run: any
  number of proposers and acceptors over a network that loses, duplicates and reorders messages (a
  message once sent may be delivered any number of times, in any order, or never). An acceptor's
  fields are durable, so its crash changes nothing; a proposer's crash forgets its attempt, and the
  caller keeps only the highest round it used. The protocol interprets \<open>voting_system\<close>, which gives
  agreement on the decided value.
\<close>

section \<open>The protocol\<close>

datatype synod_msg =
    MPrepare ballot
  | MPromise node_id promise1
  | MNack nack1
  | MAccept ballot paxos_value
  | MAccepted node_id ballot

record synod =
  sy_members :: "node_id list"
  sy_acceptors :: "node_id \<Rightarrow> acceptor"
  sy_proposers :: "node_id \<Rightarrow> proposer"
  sy_rounds :: "node_id \<Rightarrow> nat"
  sy_net :: "synod_msg set"
  sy_decided :: "(node_id \<times> paxos_value) set"

definition synod_init :: "node_id list \<Rightarrow> synod" where
  "synod_init P =
     \<lparr>sy_members = P, sy_acceptors = (\<lambda>_. new_acceptor),
      sy_proposers = (\<lambda>i. NewProposer i (length P)), sy_rounds = (\<lambda>_. 0),
      sy_net = {}, sy_decided = {}\<rparr>"

definition sy_reply :: "node_id \<Rightarrow> nack1 + promise1 \<Rightarrow> synod_msg" where
  "sy_reply a r = (case r of Inl n \<Rightarrow> MNack n | Inr m \<Rightarrow> MPromise a m)"

inductive synod_step :: "synod \<Rightarrow> synod \<Rightarrow> bool" where
  sy_start: "i \<in> set (sy_members s) \<Longrightarrow> sy_rounds s i < r \<Longrightarrow> Start r (sy_proposers s i) = (p, b) \<Longrightarrow>
     synod_step s (s\<lparr>sy_proposers := (sy_proposers s)(i := p), sy_rounds := (sy_rounds s)(i := r),
                     sy_net := insert (MPrepare b) (sy_net s)\<rparr>)"
| sy_crash: "synod_step s (s\<lparr>sy_proposers := (sy_proposers s)(i := NewProposer i (length (sy_members s)))\<rparr>)"
| sy_prepare: "a \<in> set (sy_members s) \<Longrightarrow> MPrepare b \<in> sy_net s \<Longrightarrow>
     OnPrepare b (sy_acceptors s a) = (acc, r) \<Longrightarrow>
     synod_step s (s\<lparr>sy_acceptors := (sy_acceptors s)(a := acc), sy_net := insert (sy_reply a r) (sy_net s)\<rparr>)"
| sy_promise: "MPromise a m \<in> sy_net s \<Longrightarrow> OnPromise a m (sy_proposers s i) = (p, rdy) \<Longrightarrow>
     synod_step s (s\<lparr>sy_proposers := (sy_proposers s)(i := p)\<rparr>)"
| sy_nack: "MNack m \<in> sy_net s \<Longrightarrow>
     synod_step s (s\<lparr>sy_proposers := (sy_proposers s)(i := OnNack m (sy_proposers s i))\<rparr>)"
| sy_propose: "i \<in> set (sy_members s) \<Longrightarrow> Propose1 want (sy_proposers s i) = (p, Inr (b, v)) \<Longrightarrow>
     synod_step s (s\<lparr>sy_proposers := (sy_proposers s)(i := p), sy_net := insert (MAccept b v) (sy_net s)\<rparr>)"
| sy_accept: "a \<in> set (sy_members s) \<Longrightarrow> MAccept b v \<in> sy_net s \<Longrightarrow>
     OnAccept b v (sy_acceptors s a) = (acc, None) \<Longrightarrow>
     synod_step s (s\<lparr>sy_acceptors := (sy_acceptors s)(a := acc), sy_net := insert (MAccepted a b) (sy_net s)\<rparr>)"
| sy_refuse: "a \<in> set (sy_members s) \<Longrightarrow> MAccept b v \<in> sy_net s \<Longrightarrow>
     OnAccept b v (sy_acceptors s a) = (acc, Some n) \<Longrightarrow>
     synod_step s (s\<lparr>sy_acceptors := (sy_acceptors s)(a := acc), sy_net := insert (MNack n) (sy_net s)\<rparr>)"
| sy_accepted: "MAccepted a b \<in> sy_net s \<Longrightarrow> OnAccepted a b (sy_proposers s i) = (p, ch) \<Longrightarrow>
     synod_step s (s\<lparr>sy_proposers := (sy_proposers s)(i := p),
                     sy_decided := (if ch then insert (i, pr_value p) (sy_decided s) else sy_decided s)\<rparr>)"

inductive synod_reachable :: "node_id list \<Rightarrow> synod \<Rightarrow> bool" for P where
  sy_init: "synod_reachable P (synod_init P)"
| sy_step: "synod_reachable P s \<Longrightarrow> synod_step s s' \<Longrightarrow> synod_reachable P s'"

section \<open>The invariant\<close>

definition sy_vote :: "synod \<Rightarrow> node_id \<Rightarrow> ballot \<Rightarrow> paxos_value \<Rightarrow> bool" where
  "sy_vote s a b v \<longleftrightarrow> MAccepted a b \<in> sy_net s \<and> MAccept b v \<in> sy_net s"

definition sy_prom :: "synod \<Rightarrow> node_id \<Rightarrow> ballot" where
  "sy_prom s a = a_Promised (sy_acceptors s a)"

definition sy_accept_ok :: "synod \<Rightarrow> bool" where
  "sy_accept_ok s \<longleftrightarrow>
     (\<forall>b v. MAccept b v \<in> sy_net s \<longrightarrow>
        b \<noteq> zero_ballot \<and> Round b \<le> sy_rounds s (Node b) \<and>
        (\<forall>v'. MAccept b v' \<in> sy_net s \<longrightarrow> v' = v) \<and>
        safe_at (sy_members s) (sy_vote s) (sy_prom s) b v)"

definition acceptor_ok :: "synod \<Rightarrow> node_id \<Rightarrow> bool" where
  "acceptor_ok s a \<longleftrightarrow>
     (let acc = sy_acceptors s a in
        a_Accepted acc \<le> a_Promised acc \<and>
        (a_Accepted acc \<noteq> zero_ballot \<longrightarrow> sy_vote s a (a_Accepted acc) (a_Value acc)) \<and>
        (\<forall>b. MAccepted a b \<in> sy_net s \<longrightarrow>
           a \<in> set (sy_members s) \<and> b \<le> a_Accepted acc \<and> (\<exists>v. MAccept b v \<in> sy_net s)))"

definition promise_valid :: "synod \<Rightarrow> node_id \<Rightarrow> promise1 \<Rightarrow> bool" where
  "promise_valid s a m \<longleftrightarrow>
     a \<in> set (sy_members s) \<and> p1_Ballot m \<le> sy_prom s a \<and> p1_Accepted m < p1_Ballot m \<and>
     (p1_Accepted m \<noteq> zero_ballot \<longrightarrow> sy_vote s a (p1_Accepted m) (p1_Value m)) \<and>
     (\<forall>c v. sy_vote s a c v \<longrightarrow> c < p1_Ballot m \<longrightarrow> c \<le> p1_Accepted m)"

definition proposer_ok :: "synod \<Rightarrow> node_id \<Rightarrow> proposer \<Rightarrow> bool" where
  "proposer_ok s i p \<longleftrightarrow>
     pr_self p = i \<and> pr_n p = length (sy_members s) \<and>
     (pr_ballot p \<noteq> zero_ballot \<longrightarrow> Node (pr_ballot p) = i \<and> Round (pr_ballot p) \<le> sy_rounds s i) \<and>
     (pr_promises p \<noteq> None \<longrightarrow> pr_ballot p \<noteq> zero_ballot) \<and>
     (\<forall>ps a m. pr_promises p = Some ps \<longrightarrow> fmlookup ps a = Some m \<longrightarrow>
        promise_valid s a m \<and> p1_Ballot m = pr_ballot p) \<and>
     (pr_proposed p \<longrightarrow> MAccept (pr_ballot p) (pr_value p) \<in> sy_net s) \<and>
     (\<forall>v. MAccept (pr_ballot p) v \<in> sy_net s \<longrightarrow> pr_proposed p \<and> pr_value p = v) \<and>
     (\<forall>a. a |\<in>| pr_accepts p \<longrightarrow> MAccepted a (pr_ballot p) \<in> sy_net s)"

definition sy_inv :: "synod \<Rightarrow> bool" where
  "sy_inv s \<longleftrightarrow>
     sy_accept_ok s \<and> (\<forall>a. acceptor_ok s a) \<and> (\<forall>i. proposer_ok s i (sy_proposers s i)) \<and>
     (\<forall>a m. MPromise a m \<in> sy_net s \<longrightarrow> promise_valid s a m) \<and>
     (\<forall>i v. (i, v) \<in> sy_decided s \<longrightarrow> (\<exists>b. chosen_at (sy_members s) (sy_vote s) b v))"

lemmas sy_inv_defs = sy_inv_def sy_accept_ok_def acceptor_ok_def proposer_ok_def Let_def

lemma sy_voteD: "sy_inv s \<Longrightarrow> sy_vote s a b v \<Longrightarrow> MAccept b v \<in> sy_net s \<and> a \<in> set (sy_members s) \<and> b \<noteq> zero_ballot"
  unfolding sy_inv_defs sy_vote_def by blast

interpretation sy: voting_system sy_members sy_vote sy_prom sy_inv
proof
  fix s a b v a' v'
  assume inv: "sy_inv s" and v: "sy_vote s a b v"
  show "safe_at (sy_members s) (sy_vote s) (sy_prom s) b v"
    using inv sy_voteD [OF inv v] unfolding sy_inv_def sy_accept_ok_def by blast
  assume v': "sy_vote s a' b v'"
  show "v = v'"
    using inv sy_voteD [OF inv v] sy_voteD [OF inv v'] unfolding sy_inv_def sy_accept_ok_def by blast
qed


section \<open>Every step keeps the invariant\<close>

abbreviation sy_extends :: "synod \<Rightarrow> synod \<Rightarrow> bool" where
  "sy_extends s s' \<equiv> votes_extend (sy_vote s) (sy_prom s) (sy_vote s') (sy_prom s')"

lemma promise_valid_mono:
  assumes ext: "sy_extends s s'" and mem: "sy_members s' = sy_members s" and pv: "promise_valid s a m"
  shows "promise_valid s' a m"
proof -
  from ext have prom: "sy_prom s a \<le> sy_prom s' a"
    and old: "\<And>b v. sy_vote s a b v \<Longrightarrow> sy_vote s' a b v"
    and new: "\<And>b v. sy_vote s' a b v \<Longrightarrow> sy_vote s a b v \<or> sy_prom s a \<le> b"
    unfolding votes_extend_def by auto
  have "c \<le> p1_Accepted m" if "sy_vote s' a c v" "c < p1_Ballot m" for c v
    using new [OF that(1)] that(2) pv unfolding promise_valid_def by fastforce
  then show ?thesis using pv prom old mem unfolding promise_valid_def by auto
qed

lemma sy_invI:
  assumes "sy_accept_ok s" and "\<And>a. acceptor_ok s a" and "\<And>i. proposer_ok s i (sy_proposers s i)"
    and "\<And>a m. MPromise a m \<in> sy_net s \<Longrightarrow> promise_valid s a m"
    and "\<And>i v. (i, v) \<in> sy_decided s \<Longrightarrow> \<exists>b. chosen_at (sy_members s) (sy_vote s) b v"
  shows "sy_inv s"
  using assms unfolding sy_inv_def by blast

lemma sy_invD:
  assumes "sy_inv s"
  shows "sy_accept_ok s" and "acceptor_ok s a" and "proposer_ok s i (sy_proposers s i)"
    and "MPromise a m \<in> sy_net s \<Longrightarrow> promise_valid s a m"
    and "(i, v) \<in> sy_decided s \<Longrightarrow> \<exists>b. chosen_at (sy_members s) (sy_vote s) b v"
  using assms unfolding sy_inv_def by blast+

lemma sy_acceptD:
  "sy_inv s \<Longrightarrow> MAccept b v \<in> sy_net s \<Longrightarrow> b \<noteq> zero_ballot \<and> Round b \<le> sy_rounds s (Node b)"
  unfolding sy_inv_def sy_accept_ok_def by blast

lemma sy_acceptedD:
  "sy_inv s \<Longrightarrow> MAccepted a b \<in> sy_net s \<Longrightarrow> a \<in> set (sy_members s) \<and> (\<exists>v. MAccept b v \<in> sy_net s)"
  unfolding sy_inv_def acceptor_ok_def Let_def by blast

text \<open>A step that only replaces one proposer.\<close>

lemma sy_inv_proposer:
  assumes inv: "sy_inv s" and p: "proposer_ok s i p"
  shows "sy_inv (s\<lparr>sy_proposers := (sy_proposers s)(i := p)\<rparr>)" (is "sy_inv ?s")
proof -
  have vp: "sy_vote ?s = sy_vote s" "sy_prom ?s = sy_prom s"
    by (auto simp: sy_vote_def sy_prom_def fun_eq_iff)
  have pv: "promise_valid ?s = promise_valid s"
    by (simp add: promise_valid_def vp fun_eq_iff)
  have "sy_accept_ok ?s = sy_accept_ok s" "acceptor_ok ?s = acceptor_ok s" "proposer_ok ?s = proposer_ok s"
    by (simp_all add: sy_accept_ok_def acceptor_ok_def proposer_ok_def vp pv fun_eq_iff)
  then show ?thesis using inv p unfolding sy_inv_def vp pv by auto
qed

lemma sy_inv_init: "sy_inv (synod_init P)"
  by (simp add: sy_inv_defs synod_init_def NewProposer_def new_acceptor_def sy_vote_def)

lemma sy_inv_proposerD: "sy_inv s \<Longrightarrow> proposer_ok s i (sy_proposers s i)"
  by (simp add: sy_inv_def)

lemma sy_inv_crash: "sy_inv s \<Longrightarrow>
    sy_inv (s\<lparr>sy_proposers := (sy_proposers s)(i := NewProposer i (length (sy_members s)))\<rparr>)"
  by (rule sy_inv_proposer) (auto simp: proposer_ok_def NewProposer_def sy_inv_def sy_accept_ok_def)

lemma sy_inv_promise:
  assumes inv: "sy_inv s" and m: "MPromise a m \<in> sy_net s" and p: "OnPromise a m (sy_proposers s i) = (p, rdy)"
  shows "sy_inv (s\<lparr>sy_proposers := (sy_proposers s)(i := p)\<rparr>)"
proof (rule sy_inv_proposer [OF inv])
  have "promise_valid s a m" using inv m unfolding sy_inv_def by blast
  then show "proposer_ok s i p"
    using p sy_inv_proposerD [OF inv, of i]
    by (auto simp: OnPromise_def Let_def proposer_ok_def split: if_splits option.splits)
qed

lemma sy_inv_nack:
  assumes "sy_inv s"
  shows "sy_inv (s\<lparr>sy_proposers := (sy_proposers s)(i := OnNack m (sy_proposers s i))\<rparr>)"
  using sy_inv_proposerD [OF assms, of i]
  by (intro sy_inv_proposer [OF assms]) (auto simp: OnNack_def proposer_ok_def)

lemma sy_inv_start:
  assumes inv: "sy_inv s" and r: "sy_rounds s i < r" and st: "Start r (sy_proposers s i) = (p, b)"
  shows "sy_inv (s\<lparr>sy_proposers := (sy_proposers s)(i := p), sy_rounds := (sy_rounds s)(i := r),
                   sy_net := insert (MPrepare b) (sy_net s)\<rparr>)" (is "sy_inv ?s")
proof -
  have vp: "sy_vote ?s = sy_vote s" "sy_prom ?s = sy_prom s"
    by (auto simp: sy_vote_def sy_prom_def fun_eq_iff)
  have pv: "promise_valid ?s = promise_valid s"
    by (simp add: promise_valid_def vp fun_eq_iff)
  have b: "b = Ballot r i" and p: "p = (sy_proposers s i)\<lparr>pr_ballot := Ballot r i,
      pr_promises := Some fmempty, pr_accepts := {||}, pr_abandoned := False, pr_proposed := False, pr_value := []\<rparr>"
    using st sy_inv_proposerD [OF inv, of i] by (auto simp: Start_def Let_def proposer_ok_def)
  have fresh: "MAccept (Ballot r i) v \<notin> sy_net s" for v
  proof
    assume "MAccept (Ballot r i) v \<in> sy_net s"
    from sy_acceptD [OF inv this] r show False by simp
  qed
  have "Round c \<le> ((sy_rounds s)(i := r)) (Node c)" if "MAccept c w \<in> sy_net s" for c w
    using sy_acceptD [OF inv that] r by auto
  then have "sy_accept_ok ?s"
    using sy_invD(1) [OF inv] unfolding sy_accept_ok_def vp by auto
  moreover have "acceptor_ok ?s = acceptor_ok s"
    by (simp add: acceptor_ok_def vp fun_eq_iff)
  moreover have "proposer_ok ?s j (sy_proposers ?s j)" for j
    using sy_inv_proposerD [OF inv, of j] r fresh
    unfolding proposer_ok_def pv by (cases "j = i") (auto simp: p)
  ultimately show ?thesis
    using sy_invD(2,4,5) [OF inv] by (intro sy_invI) (auto simp: vp pv)
qed

text \<open>A step of one acceptor: the votes extend, and the rest of the state is framed.\<close>

lemma sy_inv_acceptor:
  assumes inv: "sy_inv s"
    and s': "s' = s\<lparr>sy_acceptors := (sy_acceptors s)(a := acc), sy_net := insert m (sy_net s)\<rparr>"
    and ext: "sy_extends s s'"
    and acc: "acceptor_ok s' a"
    and m: "\<And>b v. m \<noteq> MAccept b v" "\<And>c b. m = MAccepted c b \<Longrightarrow> c = a"
      "\<And>c q. m = MPromise c q \<Longrightarrow> promise_valid s' c q"
  shows "sy_inv s'"
proof -
  have mem: "sy_members s' = sy_members s" by (simp add: s')
  note pv = promise_valid_mono [OF ext mem]
  have acc_net: "MAccept b v \<in> sy_net s' \<longleftrightarrow> MAccept b v \<in> sy_net s" for b v
    using m(1) by (auto simp: s')
  have "sy_accept_ok s'"
    using inv safe_at_mono [OF ext] unfolding sy_inv_def sy_accept_ok_def acc_net mem by (auto simp: s')
  moreover have "acceptor_ok s' c" for c
  proof (cases "c = a")
    case False
    have "sy_acceptors s' c = sy_acceptors s c" using False by (simp add: s')
    moreover have "MAccepted c b \<in> sy_net s' \<longleftrightarrow> MAccepted c b \<in> sy_net s" for b
      using m(2) False by (auto simp: s')
    moreover have "acceptor_ok s c" using inv by (simp add: sy_inv_def)
    ultimately show ?thesis
      using ext unfolding acceptor_ok_def acc_net mem votes_extend_def by (auto simp: Let_def)
  qed (use acc in simp)
  moreover have "proposer_ok s' i (sy_proposers s' i)" for i
  proof -
    have "proposer_ok s' i (sy_proposers s i)"
      using sy_inv_proposerD [OF inv, of i] pv unfolding proposer_ok_def acc_net mem by (auto simp: s')
    then show ?thesis by (simp add: s')
  qed
  moreover have "promise_valid s' c q" if "MPromise c q \<in> sy_net s'" for c q
    using that m(3) pv inv unfolding sy_inv_def by (auto simp: s')
  moreover have "\<exists>b. chosen_at (sy_members s') (sy_vote s') b v" if "(i, v) \<in> sy_decided s'" for i v
    using that inv chosen_at_mono [OF ext] unfolding sy_inv_def mem by (fastforce simp: s')
  ultimately show ?thesis unfolding sy_inv_def by blast
qed

lemma sy_inv_prepare:
  assumes inv: "sy_inv s" and a: "a \<in> set (sy_members s)"
    and pr: "OnPrepare b (sy_acceptors s a) = (acc, r)"
  shows "sy_inv (s\<lparr>sy_acceptors := (sy_acceptors s)(a := acc), sy_net := insert (sy_reply a r) (sy_net s)\<rparr>)"
    (is "sy_inv ?s")
proof (rule sy_inv_acceptor [OF inv refl])
  have ok: "acceptor_ok s a" using inv by (simp add: sy_inv_def)
  have acc: "a_Accepted acc = a_Accepted (sy_acceptors s a)" "a_Value acc = a_Value (sy_acceptors s a)"
    "a_Promised (sy_acceptors s a) \<le> a_Promised acc"
    using pr by (auto simp: OnPrepare_def MayPromise_def split: if_splits)
  have vote: "sy_vote ?s = sy_vote s"
    by (auto simp: sy_vote_def sy_reply_def fun_eq_iff split: sum.splits)
  show ext: "sy_extends s ?s"
    using acc(3) unfolding votes_extend_def vote by (auto simp: sy_prom_def)
  show "acceptor_ok ?s a"
    using ok acc unfolding acceptor_ok_def vote by (auto simp: Let_def sy_reply_def split: sum.splits)
  show "sy_reply a r \<noteq> MAccept c v" for c v by (simp add: sy_reply_def split: sum.splits)
  show "c = a" if "sy_reply a r = MAccepted c d" for c d
    using that by (simp add: sy_reply_def split: sum.splits)
  show "promise_valid ?s c q" if "sy_reply a r = MPromise c q" for c q
  proof -
    from that pr have q: "c = a" "p1_Ballot q = b" "p1_Accepted q = a_Accepted (sy_acceptors s a)"
      "p1_Value q = a_Value (sy_acceptors s a)" "a_Promised acc = b" "a_Promised (sy_acceptors s a) < b"
      by (auto simp: sy_reply_def OnPrepare_def MayPromise_def split: sum.splits if_splits)
    have "d \<le> a_Accepted (sy_acceptors s a)" if "sy_vote s a d v" for d v
      using ok that by (auto simp: acceptor_ok_def sy_vote_def Let_def)
    with q ok a show ?thesis unfolding promise_valid_def vote
      by (auto simp: sy_prom_def acceptor_ok_def Let_def intro: order_le_less_trans)
  qed
qed

lemma sy_inv_accept:
  assumes inv: "sy_inv s" and a: "a \<in> set (sy_members s)" and m: "MAccept b v \<in> sy_net s"
    and ac: "OnAccept b v (sy_acceptors s a) = (acc, None)"
  shows "sy_inv (s\<lparr>sy_acceptors := (sy_acceptors s)(a := acc), sy_net := insert (MAccepted a b) (sy_net s)\<rparr>)"
    (is "sy_inv ?s")
proof (rule sy_inv_acceptor [OF inv refl])
  have ok: "acceptor_ok s a" using inv by (simp add: sy_inv_def)
  have acc: "a_Promised (sy_acceptors s a) \<le> b" "a_Promised acc = b" "a_Accepted acc = b" "a_Value acc = v"
    using OnAccept_accepted [of b v "sy_acceptors s a"] ac by auto
  have vote: "sy_vote ?s c d w \<longleftrightarrow> sy_vote s c d w \<or> (c = a \<and> d = b \<and> MAccept b w \<in> sy_net s)" for c d w
    by (auto simp: sy_vote_def)
  show "sy_extends s ?s"
    unfolding votes_extend_def vote using acc by (auto simp: sy_prom_def)
  show "acceptor_ok ?s a"
    using ok acc m a unfolding acceptor_ok_def vote by (fastforce simp: Let_def intro: order_trans)
qed auto

lemma sy_inv_refuse:
  assumes inv: "sy_inv s" and ac: "OnAccept b v (sy_acceptors s a) = (acc, Some n)"
  shows "sy_inv (s\<lparr>sy_acceptors := (sy_acceptors s)(a := acc), sy_net := insert (MNack n) (sy_net s)\<rparr>)"
    (is "sy_inv ?s")
proof (rule sy_inv_acceptor [OF inv refl])
  have acc: "acc = sy_acceptors s a" using ac by (auto simp: OnAccept_def Let_def split: if_splits)
  have vp: "sy_vote ?s = sy_vote s" "sy_prom ?s = sy_prom s"
    by (auto simp: sy_vote_def sy_prom_def acc fun_eq_iff)
  show "sy_extends s ?s" by (simp add: vp)
  have "acceptor_ok s a" using inv by (simp add: sy_inv_def)
  then show "acceptor_ok ?s a" unfolding acceptor_ok_def vp by (simp add: acc Let_def)
qed auto

text \<open>What a ready proposer proposes is safe at its ballot.\<close>

lemma promise_quorum:
  assumes inv: "sy_inv s" and rdy: "ready (sy_proposers s i)"
  obtains ps where "pr_promises (sy_proposers s i) = Some ps"
    and "majority (sy_members s) (fmdom' ps)"
    and "\<And>a m. fmlookup ps a = Some m \<Longrightarrow> promise_valid s a m \<and> p1_Ballot m = pr_ballot (sy_proposers s i)"
proof -
  note ok = sy_inv_proposerD [OF inv, of i]
  from rdy obtain ps where ps: "pr_promises (sy_proposers s i) = Some ps"
    and q: "Quorum (pr_n (sy_proposers s i)) \<le> fmsize ps"
    by (auto simp: ready_def split: option.splits)
  have valid: "promise_valid s a m \<and> p1_Ballot m = pr_ballot (sy_proposers s i)" if "fmlookup ps a = Some m" for a m
    using ok ps that unfolding proposer_ok_def by blast
  have "fmdom' ps \<subseteq> set (sy_members s)"
    using valid by (auto simp: fmlookup_dom'_iff promise_valid_def)
  with q ok have "majority (sy_members s) (fmdom' ps)"
    by (simp add: majority_def fmsize_card proposer_ok_def)
  with ps show thesis using valid by (rule that)
qed

lemma proposed_value_safe:
  assumes inv: "sy_inv s" and rdy: "ready (sy_proposers s i)"
    and ps: "pr_promises (sy_proposers s i) = Some ps"
  shows "safe_at (sy_members s) (sy_vote s) (sy_prom s) (pr_ballot (sy_proposers s i))
           (Choose (promise_reports (fmvals ps)) want)"
    (is "safe_at _ _ _ ?b (Choose ?rs want)")
proof -
  from promise_quorum [OF inv rdy] ps
  have maj: "majority (sy_members s) (fmdom' ps)"
    and valid: "\<And>a m. fmlookup ps a = Some m \<Longrightarrow> promise_valid s a m \<and> p1_Ballot m = ?b" by auto
  have report: "\<exists>q\<in>set ?rs. pv_Ballot q \<noteq> zero_ballot \<and> c \<le> pv_Ballot q"
    if "a \<in> fmdom' ps" "sy_vote s a c w" "c < ?b" for a c w
  proof -
    from that(1) obtain m where m: "fmlookup ps a = Some m" by (auto simp: fmlookup_dom'_iff)
    from valid [OF m] that(2,3) have "c \<le> p1_Accepted m" unfolding promise_valid_def by metis
    moreover have "c \<noteq> zero_ballot" using sy_voteD [OF inv that(2)] by simp
    ultimately have nz: "p1_Accepted m \<noteq> zero_ballot" using zero_ballot_le antisym by metis
    have "\<lparr>pv_Ballot = p1_Accepted m, pv_Slot = 0, pv_Value = p1_Value m\<rparr> \<in> set ?rs"
      using m nz by (force simp: promise_reports_def set_fmvals)
    with \<open>c \<le> p1_Accepted m\<close> nz show ?thesis by force
  qed
  have ge: "?b \<le> sy_prom s a" if "a \<in> fmdom' ps" for a
    using that valid by (metis fmlookup_dom'_iff promise_valid_def)
  show ?thesis
  proof (cases rule: Choose_cases [of ?rs want])
    case none
    have "free_at (sy_members s) (sy_vote s) (sy_prom s) ?b"
      unfolding free_at_def
    proof (intro exI conjI ballI allI impI)
      fix a assume "a \<in> fmdom' ps"
      then show "?b \<le> sy_prom s a" by (rule ge)
      show "\<not> sy_vote s a c w" if "c < ?b" for c w
        using report [OF \<open>a \<in> fmdom' ps\<close> _ that] none(1) by blast
    qed (rule maj)
    then show ?thesis by (rule free_at_safe)
  next
    case (some p)
    from some(1) obtain a m where m: "fmlookup ps a = Some m" "p1_Accepted m \<noteq> zero_ballot"
      and p: "pv_Ballot p = p1_Accepted m" "pv_Value p = p1_Value m"
      by (auto simp: promise_reports_def set_fmvals)
    then have top: "sy_vote s a (pv_Ballot p) (pv_Value p)" "pv_Ballot p < ?b"
      using valid [OF m(1)] by (auto simp: promise_valid_def)
    show ?thesis unfolding some(3)
    proof (rule sy.highest_report_safe [OF inv maj _ top])
      show "?b \<le> sy_prom s a" if "a \<in> fmdom' ps" for a using that by (rule ge)
      show "c \<le> pv_Ballot p" if "a \<in> fmdom' ps" "sy_vote s a c w" "c < ?b" for a c w
        using report [OF that] some(4) order_trans by blast
    qed
  qed
qed


lemma Propose1_cases:
  assumes "Propose1 want p = (p', Inr (b, v))"
  obtains (again) "pr_proposed p" "p' = p" "b = pr_ballot p" "v = pr_value p"
  | (first) ps where "ready p" "\<not> pr_proposed p" "pr_promises p = Some ps" "b = pr_ballot p"
      "v = Choose (promise_reports (fmvals ps)) want" "p' = p\<lparr>pr_value := v, pr_proposed := True\<rparr>"
  using assms by (auto simp: Propose1_def ready_def Let_def split: if_splits option.splits)

lemma sy_inv_propose:
  assumes inv: "sy_inv s" and pr: "Propose1 want (sy_proposers s i) = (p, Inr (b, v))"
  shows "sy_inv (s\<lparr>sy_proposers := (sy_proposers s)(i := p), sy_net := insert (MAccept b v) (sy_net s)\<rparr>)"
    (is "sy_inv ?s")
  using pr
proof (cases rule: Propose1_cases)
  case again
  have "insert (MAccept b v) (sy_net s) = sy_net s"
    using sy_inv_proposerD [OF inv, of i] again by (auto simp: proposer_ok_def)
  then show ?thesis using inv again by simp
next
  case (first ps)
  note ok = sy_inv_proposerD [OF inv, of i]
  have b: "b \<noteq> zero_ballot" "Node b = i" "Round b \<le> sy_rounds s i"
    using ok first by (auto simp: proposer_ok_def)
  have fresh: "MAccept b w \<notin> sy_net s" for w
    using ok first by (auto simp: proposer_ok_def)
  then have none: "MAccepted a b \<notin> sy_net s" for a
    using sy_acceptedD [OF inv] by blast
  have vote: "sy_vote ?s = sy_vote s" using none by (auto simp: sy_vote_def fun_eq_iff)
  have prom: "sy_prom ?s = sy_prom s" by (simp add: sy_prom_def fun_eq_iff)
  have pv: "promise_valid ?s = promise_valid s" by (simp add: promise_valid_def vote prom fun_eq_iff)
  have "safe_at (sy_members s) (sy_vote s) (sy_prom s) b v"
    using proposed_value_safe [OF inv first(1,3)] first by simp
  then have "sy_accept_ok ?s"
    using inv b fresh unfolding sy_inv_def sy_accept_ok_def vote prom by auto
  moreover have "acceptor_ok ?s a" for a
    using inv unfolding sy_inv_def acceptor_ok_def vote by (fastforce simp: Let_def)
  moreover have "proposer_ok ?s j (sy_proposers ?s j)" for j
  proof (cases "j = i")
    case True
    then show ?thesis using ok first fresh unfolding proposer_ok_def pv by auto
  next
    case False
    then have "pr_ballot (sy_proposers s j) \<noteq> b"
      using sy_inv_proposerD [OF inv, of j] b by (auto simp: proposer_ok_def)
    then show ?thesis using sy_inv_proposerD [OF inv, of j] False unfolding proposer_ok_def pv by auto
  qed
  ultimately show ?thesis
    using sy_invD(4,5) [OF inv] by (intro sy_invI) (auto simp: vote pv)
qed

lemma sy_inv_accepted:
  assumes inv: "sy_inv s" and m: "MAccepted a b \<in> sy_net s"
    and oa: "OnAccepted a b (sy_proposers s i) = (p, ch)"
  shows "sy_inv (s\<lparr>sy_proposers := (sy_proposers s)(i := p),
                   sy_decided := (if ch then insert (i, pr_value p) (sy_decided s) else sy_decided s)\<rparr>)"
    (is "sy_inv ?s")
proof -
  let ?t = "s\<lparr>sy_proposers := (sy_proposers s)(i := p)\<rparr>"
  note ok = sy_inv_proposerD [OF inv, of i]
  have pcases: "p = sy_proposers s i \<or>
      b = pr_ballot (sy_proposers s i) \<and>
      p = (sy_proposers s i)\<lparr>pr_accepts := finsert a (pr_accepts (sy_proposers s i))\<rparr>"
    using oa by (auto simp: OnAccepted_def Let_def split: if_splits)
  have pok: "proposer_ok s i p"
    using pcases
  proof
    assume "p = sy_proposers s i"
    with ok show ?thesis by simp
  next
    assume "b = pr_ballot (sy_proposers s i) \<and>
      p = (sy_proposers s i)\<lparr>pr_accepts := finsert a (pr_accepts (sy_proposers s i))\<rparr>"
    with ok m show ?thesis unfolding proposer_ok_def by simp
  qed
  then have t: "sy_inv ?t" by (rule sy_inv_proposer [OF inv])
  have dec: "\<exists>b. chosen_at (sy_members s) (sy_vote s) b (pr_value p)" if ch
  proof -
    from oa that have "pr_proposed p" and q: "Quorum (pr_n p) \<le> fcard (pr_accepts p)"
      by (auto simp: OnAccepted_def Let_def split: if_splits)
    with pok have acc: "MAccept (pr_ballot p) (pr_value p) \<in> sy_net s"
      and votes: "\<And>a. a |\<in>| pr_accepts p \<Longrightarrow> MAccepted a (pr_ballot p) \<in> sy_net s"
      unfolding proposer_ok_def by blast+
    have "fset (pr_accepts p) \<subseteq> set (sy_members s)"
      using votes sy_acceptedD [OF inv] by (meson subsetI)
    with q pok have "majority (sy_members s) (fset (pr_accepts p))"
      by (simp add: majority_def fcard.rep_eq proposer_ok_def)
    with acc votes show ?thesis unfolding chosen_at_def sy_vote_def by blast
  qed
  have vp: "sy_vote ?s = sy_vote ?t" "sy_prom ?s = sy_prom ?t" "sy_vote ?t = sy_vote s"
    by (auto simp: sy_vote_def sy_prom_def fun_eq_iff)
  have pv: "promise_valid ?s = promise_valid ?t"
    by (simp add: promise_valid_def vp fun_eq_iff)
  have "sy_accept_ok ?s = sy_accept_ok ?t" "acceptor_ok ?s = acceptor_ok ?t" "proposer_ok ?s = proposer_ok ?t"
    by (simp_all add: sy_accept_ok_def acceptor_ok_def proposer_ok_def vp pv fun_eq_iff)
  then have "sy_accept_ok ?s" "\<And>c. acceptor_ok ?s c" "\<And>j. proposer_ok ?s j (sy_proposers ?s j)"
    "\<And>c m. MPromise c m \<in> sy_net ?s \<Longrightarrow> promise_valid ?s c m"
    using sy_invD [OF t] by (simp_all add: pv)
  then show ?thesis
    using dec sy_invD(5) [OF inv] by (intro sy_invI) (auto simp: vp split: if_splits)
qed

lemma sy_inv_step: "synod_step s s' \<Longrightarrow> sy_inv s \<Longrightarrow> sy_inv s'"
  by (induction rule: synod_step.induct)
    (blast intro: sy_inv_start sy_inv_crash sy_inv_prepare sy_inv_promise sy_inv_nack sy_inv_propose
      sy_inv_accept sy_inv_refuse sy_inv_accepted)+

lemma sy_reachable_inv: "synod_reachable P s \<Longrightarrow> sy_inv s"
  by (induction rule: synod_reachable.induct) (auto intro: sy_inv_init sy_inv_step)


section \<open>Runs\<close>

text \<open>
  An executable schedule of protocol steps: \<open>synod_exec\<close> performs one scheduled step when its guard
  holds. Every schedule it runs is a run of the protocol.
\<close>

datatype synod_act =
    AStart node_id nat
  | ACrash node_id
  | APrepare node_id ballot
  | APromise node_id promise1 node_id
  | APropose node_id paxos_value
  | AAccept node_id ballot paxos_value
  | AAccepted node_id ballot node_id

fun synod_exec :: "synod_act \<Rightarrow> synod \<Rightarrow> synod option" where
  "synod_exec (AStart i r) s =
     (if i \<in> set (sy_members s) \<and> sy_rounds s i < r
      then (let (p, b) = Start r (sy_proposers s i)
            in Some (s\<lparr>sy_proposers := (sy_proposers s)(i := p), sy_rounds := (sy_rounds s)(i := r),
                       sy_net := insert (MPrepare b) (sy_net s)\<rparr>))
      else None)"
| "synod_exec (ACrash i) s =
     Some (s\<lparr>sy_proposers := (sy_proposers s)(i := NewProposer i (length (sy_members s)))\<rparr>)"
| "synod_exec (APrepare a b) s =
     (if a \<in> set (sy_members s) \<and> MPrepare b \<in> sy_net s
      then (let (acc, r) = OnPrepare b (sy_acceptors s a)
            in Some (s\<lparr>sy_acceptors := (sy_acceptors s)(a := acc),
                       sy_net := insert (sy_reply a r) (sy_net s)\<rparr>))
      else None)"
| "synod_exec (APromise a m i) s =
     (if MPromise a m \<in> sy_net s
      then Some (s\<lparr>sy_proposers := (sy_proposers s)(i := fst (OnPromise a m (sy_proposers s i)))\<rparr>)
      else None)"
| "synod_exec (APropose i want) s =
     (if i \<in> set (sy_members s)
      then (case Propose1 want (sy_proposers s i) of
              (p, Inr (b, v)) \<Rightarrow>
                Some (s\<lparr>sy_proposers := (sy_proposers s)(i := p), sy_net := insert (MAccept b v) (sy_net s)\<rparr>)
            | (p, Inl _) \<Rightarrow> None)
      else None)"
| "synod_exec (AAccept a b v) s =
     (if a \<in> set (sy_members s) \<and> MAccept b v \<in> sy_net s
      then (case OnAccept b v (sy_acceptors s a) of
              (acc, None) \<Rightarrow>
                Some (s\<lparr>sy_acceptors := (sy_acceptors s)(a := acc), sy_net := insert (MAccepted a b) (sy_net s)\<rparr>)
            | (acc, Some n) \<Rightarrow>
                Some (s\<lparr>sy_acceptors := (sy_acceptors s)(a := acc), sy_net := insert (MNack n) (sy_net s)\<rparr>))
      else None)"
| "synod_exec (AAccepted a b i) s =
     (if MAccepted a b \<in> sy_net s
      then (let (p, ch) = OnAccepted a b (sy_proposers s i)
            in Some (s\<lparr>sy_proposers := (sy_proposers s)(i := p),
                 sy_decided := (if ch then insert (i, pr_value p) (sy_decided s) else sy_decided s)\<rparr>))
      else None)"

fun synod_run :: "synod_act list \<Rightarrow> synod \<Rightarrow> synod option" where
  "synod_run [] s = Some s"
| "synod_run (x # xs) s = (case synod_exec x s of None \<Rightarrow> None | Some s' \<Rightarrow> synod_run xs s')"

lemma synod_exec_step: "synod_exec x s = Some s' \<Longrightarrow> synod_step s s'"
proof (cases x)
  case (AAccepted a b i)
  assume ex: "synod_exec x s = Some s'"
  obtain p ch where oa: "OnAccepted a b (sy_proposers s i) = (p, ch)" by fastforce
  with ex AAccepted have "MAccepted a b \<in> sy_net s"
    and "s' = s\<lparr>sy_proposers := (sy_proposers s)(i := p),
                 sy_decided := (if ch then insert (i, pr_value p) (sy_decided s) else sy_decided s)\<rparr>"
    by (auto split: if_splits)
  then show ?thesis using sy_accepted [OF _ oa] by simp
qed (auto simp: Let_def split: if_splits prod.splits sum.splits option.splits
      intro: synod_step.intros surjective_pairing)

lemma synod_run_reachable:
  "synod_reachable P s \<Longrightarrow> synod_run xs s = Some s' \<Longrightarrow> synod_reachable P s'"
  by (induction xs arbitrary: s) (auto split: option.splits dest: synod_exec_step sy_step)

section \<open>Agreement\<close>

text \<open>
  C19: no two proposers of the single-decree protocol ever decide different values, however messages
  are lost, duplicated, delayed and reordered and however often proposers crash and retry.
\<close>

theorem synod_agreement:
  assumes "synod_reachable P s" and "(i, v) \<in> sy_decided s" and "(j, w) \<in> sy_decided s"
  shows "v = w"
  using sy_reachable_inv [OF assms(1)] assms(2,3) sy.agreement sy_invD(5) by metis

text \<open>
  The witness: proposer 1 decides "x" with the promises of 1 and 2; proposer 2 then wants "y", learns
  of "x" from acceptor 2 and decides "x" too.
\<close>

definition synod_example :: "synod_act list" where
  "synod_example =
     (let b = Ballot 1 1; c = Ballot 2 2;
          p = \<lparr>p1_Ballot = b, p1_Accepted = zero_ballot, p1_Value = []\<rparr>;
          q2 = \<lparr>p1_Ballot = c, p1_Accepted = b, p1_Value = ''x''\<rparr>;
          q3 = \<lparr>p1_Ballot = c, p1_Accepted = zero_ballot, p1_Value = []\<rparr>
      in [AStart 1 1, APrepare 1 b, APrepare 2 b, APromise 1 p 1, APromise 2 p 1, APropose 1 ''x'',
          AAccept 1 b ''x'', AAccept 2 b ''x'', AAccepted 1 b 1, AAccepted 2 b 1,
          AStart 2 2, APrepare 2 c, APrepare 3 c, APromise 2 q2 2, APromise 3 q3 2, APropose 2 ''y'',
          AAccept 2 c ''x'', AAccept 3 c ''x'', AAccepted 2 c 2, AAccepted 3 c 2])"

theorem synod_agreement_witness:
  "\<exists>s v w. synod_reachable [1, 2, 3] s \<and> (1, v) \<in> sy_decided s \<and> (2, w) \<in> sy_decided s \<and> v = w"
proof -
  define run where "run = synod_run synod_example (synod_init [1, 2, 3])"
  have ok: "map_option sy_decided run = Some {(2, ''x''), (1, ''x'')}"
    unfolding run_def by code_simp
  then obtain s where s: "run = Some s" "sy_decided s = {(2, ''x''), (1, ''x'')}" by auto
  from s(1) have r: "synod_reachable [1, 2, 3] s"
    unfolding run_def by (rule synod_run_reachable [OF sy_init])
  have "(1, ''x'') \<in> sy_decided s" and "(2, ''x'') \<in> sy_decided s" using s(2) by auto
  with r synod_agreement [OF r this] show ?thesis by blast
qed

end
