(* ===== verification/Ledger.thy ===== *)
theory Ledger
  imports Paxos
begin

text \<open>
  Package \<^verbatim>\<open>internal/ledger\<close>: the append-only double-entry book with idempotent postings. \<open>Money\<close> is
  an \<^verbatim>\<open>int64\<close>: balances wrap as the Go code's do, and the book's laws hold without any bound on the
  amounts. The locale \<open>posting_book\<close> is what the tournament state machine relies on.
\<close>

section \<open>Postings (ledger.go)\<close>

type_synonym money = int
type_synonym account = string
type_synonym posting_key = string

datatype kind = EntryFee | Rake | Prize | Withheld | Refund | Claim | OtherKind nat

fun kindNames :: "kind \<Rightarrow> string option" where
  "kindNames EntryFee = Some ''entry_fee''"
| "kindNames Rake = Some ''rake''"
| "kindNames Prize = Some ''prize''"
| "kindNames Withheld = Some ''withheld''"
| "kindNames Refund = Some ''refund''"
| "kindNames Claim = Some ''claim''"
| "kindNames (OtherKind _) = None"

fun kind_code :: "kind \<Rightarrow> nat" where
  "kind_code EntryFee = 1"
| "kind_code Rake = 2"
| "kind_code Prize = 3"
| "kind_code Withheld = 4"
| "kind_code Refund = 5"
| "kind_code Claim = 6"
| "kind_code (OtherKind n) = n"

definition kind_String :: "kind \<Rightarrow> string" where
  "kind_String k = (case kindNames k of Some s \<Rightarrow> s | None \<Rightarrow> ''kind('' @ nat_dec (kind_code k) @ '')'')"

definition kind_MarshalText :: "kind \<Rightarrow> string option" where
  "kind_MarshalText k = kindNames k"

definition kind_UnmarshalText :: "string \<Rightarrow> kind option" where
  "kind_UnmarshalText s = find (\<lambda>k. kindNames k = Some s) [EntryFee, Rake, Prize, Withheld, Refund, Claim]"

record posting =
  po_Seq :: nat
  po_Key :: posting_key
  po_Kind :: kind
  po_Debit :: account
  po_Credit :: account
  po_Amount :: money
  po_Tournament :: string
  po_Player :: string
  po_Place :: int
  po_ExclusionVersion :: nat
  po_Slot :: slot
  po_Ballot :: ballot

datatype ledger_error =
    EmptyKey
  | MissingAccount
  | SameAccount posting_key account
  | NonPositiveAmount posting_key money
  | UnknownKind posting_key nat
  | BadSeq nat nat
  | KeyPostedTwice posting_key
  | KeyNotIndexed posting_key nat
  | KeyCount nat nat
  | NonZeroSum money
  | BalanceMismatch account money money

definition posting_Validate :: "posting \<Rightarrow> ledger_error option" where
  "posting_Validate p =
     (if po_Key p = [] then Some EmptyKey
      else if po_Debit p = [] \<or> po_Credit p = [] then Some MissingAccount
      else if po_Debit p = po_Credit p then Some (SameAccount (po_Key p) (po_Debit p))
      else if po_Amount p \<le> 0 then Some (NonPositiveAmount (po_Key p) (po_Amount p))
      else if kindNames (po_Kind p) = None then Some (UnknownKind (po_Key p) (kind_code (po_Kind p)))
      else None)"

section \<open>The book\<close>

record book =
  bk_postings :: "posting list"
  bk_byKey :: "(posting_key, nat) fmap"
  bk_balances :: "(account, money) fmap"

definition NewBook :: book where
  "NewBook = \<lparr>bk_postings = [], bk_byKey = fmempty, bk_balances = fmempty\<rparr>"

definition move :: "posting \<Rightarrow> (account, money) fmap \<Rightarrow> (account, money) fmap" where
  "move p m =
     (let m1 = fmupd (po_Debit p) (s64 (fmget m 0 (po_Debit p) - po_Amount p)) m
      in fmupd (po_Credit p) (s64 (fmget m1 0 (po_Credit p) + po_Amount p)) m1)"

definition Post :: "posting \<Rightarrow> book \<Rightarrow> book \<times> (ledger_error + posting \<times> bool)" where
  "Post p b =
     (case posting_Validate p of
        Some err \<Rightarrow> (b, Inl err)
      | None \<Rightarrow>
          (case fmlookup (bk_byKey b) (po_Key p) of
             Some i \<Rightarrow> (b, Inr (bk_postings b ! i, False))
           | None \<Rightarrow>
               (let q = p\<lparr>po_Seq := u64 (length (bk_postings b) + 1)\<rparr>;
                    ps = bk_postings b @ [q]
                in (\<lparr>bk_postings = ps,
                     bk_byKey = fmupd (po_Key q) (length ps - 1) (bk_byKey b),
                     bk_balances = move q (bk_balances b)\<rparr>, Inr (q, True)))))"

definition Has :: "book \<Rightarrow> posting_key \<Rightarrow> bool" where
  "Has b k \<longleftrightarrow> fmlookup (bk_byKey b) k \<noteq> None"

definition Get :: "book \<Rightarrow> posting_key \<Rightarrow> posting option" where
  "Get b k = (case fmlookup (bk_byKey b) k of None \<Rightarrow> None | Some i \<Rightarrow> Some (bk_postings b ! i))"

definition Balance :: "book \<Rightarrow> account \<Rightarrow> money" where
  "Balance b a = fmget (bk_balances b) 0 a"

definition Len :: "book \<Rightarrow> nat" where
  "Len b = length (bk_postings b)"

definition Postings :: "book \<Rightarrow> posting list" where
  "Postings b = bk_postings b"

definition PostingsSince :: "book \<Rightarrow> int \<Rightarrow> posting list" where
  "PostingsSince b n =
     (let m = (if n < 0 then 0 else n)
      in if m \<ge> int (length (bk_postings b)) then [] else drop (nat m) (bk_postings b))"

definition ForTournament :: "book \<Rightarrow> string \<Rightarrow> posting list" where
  "ForTournament b tid = filter (\<lambda>p. po_Tournament p = tid) (bk_postings b)"

definition CheckBalances :: "book \<Rightarrow> ledger_error option" where
  "CheckBalances b =
     (let total = fold (\<lambda>v acc. s64 (acc + v)) (fmvals (bk_balances b)) 0
      in if total \<noteq> 0 then Some (NonZeroSum total) else None)"

fun check_postings ::
  "book \<Rightarrow> nat \<Rightarrow> posting list \<Rightarrow> posting_key fset \<Rightarrow> (account, money) fmap
     \<Rightarrow> ledger_error + (account, money) fmap" where
  "check_postings b i [] seen derived = Inr derived"
| "check_postings b i (p # ps) seen derived =
     (if po_Seq p \<noteq> u64 (i + 1) then Inl (BadSeq (i + 1) (po_Seq p))
      else case posting_Validate p of
        Some err \<Rightarrow> Inl err
      | None \<Rightarrow>
          if po_Key p |\<in>| seen then Inl (KeyPostedTwice (po_Key p))
          else if fmlookup (bk_byKey b) (po_Key p) \<noteq> Some i then Inl (KeyNotIndexed (po_Key p) (i + 1))
          else check_postings b (i + 1) ps (finsert (po_Key p) seen) (move p derived))"

definition sortedAccounts :: "(account, money) fmap \<Rightarrow> (account, money) fmap \<Rightarrow> account list" where
  "sortedAccounts m n = sorted_list_of_fset (fmdom m |\<union>| fmdom n)"

definition Check :: "book \<Rightarrow> ledger_error option" where
  "Check b =
     (case check_postings b 0 (bk_postings b) {||} fmempty of
        Inl err \<Rightarrow> Some err
      | Inr derived \<Rightarrow>
          if fmsize (bk_byKey b) \<noteq> length (bk_postings b)
          then Some (KeyCount (fmsize (bk_byKey b)) (length (bk_postings b)))
          else case CheckBalances b of
            Some err \<Rightarrow> Some err
          | None \<Rightarrow>
              (case find (\<lambda>a. fmget (bk_balances b) 0 a \<noteq> fmget derived 0 a)
                     (sortedAccounts (bk_balances b) derived) of
                 None \<Rightarrow> None
               | Some a \<Rightarrow> Some (BalanceMismatch a (fmget (bk_balances b) 0 a) (fmget derived 0 a))))"

section \<open>Accounts and keys\<close>

definition PlayerAccount :: "string \<Rightarrow> account" where
  "PlayerAccount pid = ''player:'' @ pid"

definition PoolAccount :: "string \<Rightarrow> account" where
  "PoolAccount tid = ''pool:'' @ tid"

definition RakeAccount :: "string \<Rightarrow> account" where
  "RakeAccount tid = ''rake:'' @ tid"

definition WithheldAccount :: "string \<Rightarrow> account" where
  "WithheldAccount tid = ''withheld:'' @ tid"

definition ClaimsAccount :: "string \<Rightarrow> account" where
  "ClaimsAccount tid = ''claims:'' @ tid"

definition FeeKey :: "string \<Rightarrow> string \<Rightarrow> posting_key" where
  "FeeKey tid pid = ''fee:'' @ tid @ '':'' @ pid"

definition RakeKey :: "string \<Rightarrow> posting_key" where
  "RakeKey tid = ''rake:'' @ tid"

definition PrizeKey :: "string \<Rightarrow> string \<Rightarrow> int \<Rightarrow> posting_key" where
  "PrizeKey tid pid place = ''prize:'' @ tid @ '':'' @ pid @ '':'' @ itoa place"

definition WithheldKey :: "string \<Rightarrow> string \<Rightarrow> int \<Rightarrow> posting_key" where
  "WithheldKey tid pid place = ''withheld:'' @ tid @ '':'' @ pid @ '':'' @ itoa place"

definition RefundKey :: "string \<Rightarrow> string \<Rightarrow> posting_key" where
  "RefundKey tid pid = ''refund:'' @ tid @ '':'' @ pid"

definition ClaimKey :: "string \<Rightarrow> string \<Rightarrow> posting_key" where
  "ClaimKey tid pid = ''claim:'' @ tid @ '':'' @ pid"

section \<open>Keys are unambiguous\<close>

definition no_colon :: "string \<Rightarrow> bool" where
  "no_colon s \<longleftrightarrow> CHR '':'' \<notin> set s"

lemma no_colon_split:
  "no_colon s \<Longrightarrow> no_colon t \<Longrightarrow> s @ '':'' @ x = t @ '':'' @ y \<Longrightarrow> s = t \<and> x = y"
proof (induction s arbitrary: t)
  case Nil
  then show ?case by (cases t) (auto simp: no_colon_def)
next
  case (Cons c s)
  from Cons.prems obtain t' where "t = c # t'" by (cases t) (auto simp: no_colon_def)
  with Cons show ?case by (auto simp: no_colon_def)
qed

lemmas key_defs = FeeKey_def RakeKey_def PrizeKey_def WithheldKey_def RefundKey_def ClaimKey_def
lemmas account_defs = PlayerAccount_def PoolAccount_def RakeAccount_def WithheldAccount_def ClaimsAccount_def

section \<open>The book's invariant\<close>

definition book_inv :: "book \<Rightarrow> bool" where
  "book_inv b \<longleftrightarrow>
     (\<forall>i<length (bk_postings b).
        po_Seq (bk_postings b ! i) = u64 (i + 1) \<and> posting_Validate (bk_postings b ! i) = None \<and>
        fmlookup (bk_byKey b) (po_Key (bk_postings b ! i)) = Some i) \<and>
     (\<forall>k i. fmlookup (bk_byKey b) k = Some i \<longrightarrow>
        i < length (bk_postings b) \<and> po_Key (bk_postings b ! i) = k) \<and>
     bk_balances b = fold move (bk_postings b) fmempty"

lemma Validate_seq [simp]: "posting_Validate (p\<lparr>po_Seq := n\<rparr>) = posting_Validate p"
  by (simp add: posting_Validate_def)

lemma Post_cases:
  obtains (invalid) err where "posting_Validate p = Some err" "Post p b = (b, Inl err)"
  | (replay) i where "posting_Validate p = None" "fmlookup (bk_byKey b) (po_Key p) = Some i"
      "Post p b = (b, Inr (bk_postings b ! i, False))"
  | (append) q where "posting_Validate p = None" "\<not> Has b (po_Key p)"
      "q = p\<lparr>po_Seq := u64 (length (bk_postings b) + 1)\<rparr>"
      "Post p b = (\<lparr>bk_postings = bk_postings b @ [q],
         bk_byKey = fmupd (po_Key p) (length (bk_postings b)) (bk_byKey b),
         bk_balances = move q (bk_balances b)\<rparr>, Inr (q, True))"
  by (cases "posting_Validate p"; cases "fmlookup (bk_byKey b) (po_Key p)")
    (auto simp: Post_def Has_def Let_def)

lemma book_invD:
  assumes "book_inv b" and "i < length (bk_postings b)"
  shows "po_Seq (bk_postings b ! i) = u64 (i + 1)" and "posting_Validate (bk_postings b ! i) = None"
    and "fmlookup (bk_byKey b) (po_Key (bk_postings b ! i)) = Some i"
  using assms by (simp_all add: book_inv_def)

lemma book_inv_index:
  assumes "book_inv b" and "fmlookup (bk_byKey b) k = Some i"
  shows "i < length (bk_postings b)" and "po_Key (bk_postings b ! i) = k"
  using assms by (simp_all add: book_inv_def)

lemma book_inv_New: "book_inv NewBook"
  by (simp add: book_inv_def NewBook_def)

lemma book_inv_Post:
  assumes inv: "book_inv b"
  shows "book_inv (fst (Post p b))"
proof (cases rule: Post_cases [of p b])
  case (append q)
  let ?n = "length (bk_postings b)"
  have q: "posting_Validate q = None" "po_Key q = po_Key p" "po_Seq q = u64 (?n + 1)"
    using append by simp_all
  have ne: "po_Key (bk_postings b ! i) \<noteq> po_Key p" if "i < ?n" for i
    using book_invD(3) [OF inv that] append(2) by (auto simp: Has_def)
  let ?b = "fst (Post p b)"
  have ps: "bk_postings ?b = bk_postings b @ [q]"
    and ix: "bk_byKey ?b = fmupd (po_Key p) ?n (bk_byKey b)"
    and bal: "bk_balances ?b = fold move (bk_postings ?b) fmempty"
    using inv by (simp_all add: append(4) book_inv_def)
  have "po_Seq (bk_postings ?b ! i) = u64 (i + 1) \<and> posting_Validate (bk_postings ?b ! i) = None \<and>
      fmlookup (bk_byKey ?b) (po_Key (bk_postings ?b ! i)) = Some i" if "i < length (bk_postings ?b)" for i
  proof (cases "i < ?n")
    case True
    with book_invD [OF inv True] ne [OF True] show ?thesis by (simp add: ps ix nth_append)
  next
    case False
    with that have "i = ?n" by (simp add: ps)
    with q show ?thesis by (simp add: ps ix)
  qed
  moreover have "i < length (bk_postings ?b) \<and> po_Key (bk_postings ?b ! i) = k"
    if "fmlookup (bk_byKey ?b) k = Some i" for k i
    using that q book_inv_index [OF inv, of k i]
    by (auto simp: ps ix nth_append less_Suc_eq split: if_splits)
  ultimately show ?thesis using bal unfolding book_inv_def by blast
qed (use inv in simp_all)

lemma book_keys_distinct: "book_inv b \<Longrightarrow> distinct (map po_Key (bk_postings b))"
  unfolding distinct_conv_nth book_inv_def by (metis length_map nth_map option.inject)

lemma book_keys_dom: "book_inv b \<Longrightarrow> fmdom' (bk_byKey b) = set (map po_Key (bk_postings b))"
  unfolding book_inv_def by (fastforce simp: fmlookup_dom'_iff in_set_conv_nth)

lemma book_byKey_size: "book_inv b \<Longrightarrow> fmsize (bk_byKey b) = length (bk_postings b)"
  by (metis book_keys_distinct book_keys_dom distinct_card fmsize_card length_map)

section \<open>Balances\<close>

definition fmtotal :: "('k, money) fmap \<Rightarrow> money" where
  "fmtotal m = (\<Sum>k\<in>fmdom' m. fmget m 0 k)"

lemma fmtotal_upd: "fmtotal (fmupd k v m) = fmtotal m - fmget m 0 k + v"
proof (cases "k \<in> fmdom' m")
  case True
  have "fmtotal (fmupd k v m) = v + (\<Sum>j\<in>fmdom' m - {k}. fmget (fmupd k v m) 0 j)"
    unfolding fmtotal_def using True by (simp add: insert_absorb sum.remove [of _ k])
  also have "(\<Sum>j\<in>fmdom' m - {k}. fmget (fmupd k v m) 0 j) = (\<Sum>j\<in>fmdom' m - {k}. fmget m 0 j)"
    by (intro sum.cong) auto
  also have "v + \<dots> = v + (fmtotal m - fmget m 0 k)"
    unfolding fmtotal_def using True by (simp add: sum.remove [of _ k])
  finally show ?thesis by simp
next
  case False
  then have "fmget m 0 k = 0" by (auto simp: fmget_def split: option.splits dest: fmdom'I)
  moreover have "(\<Sum>j\<in>fmdom' m. fmget (fmupd k v m) 0 j) = fmtotal m"
    unfolding fmtotal_def using False by (intro sum.cong) auto
  ultimately show ?thesis unfolding fmtotal_def using False by simp
qed

lemma s64_fmtotal_move:
  assumes "po_Debit p \<noteq> po_Credit p"
  shows "s64 (fmtotal (move p m)) = s64 (fmtotal m)"
proof -
  have "fmtotal (move p m) = fmtotal m - fmget m 0 (po_Debit p) + s64 (fmget m 0 (po_Debit p) - po_Amount p)
     - fmget m 0 (po_Credit p) + s64 (fmget m 0 (po_Credit p) + po_Amount p)"
    using assms by (simp add: move_def Let_def fmtotal_upd)
  also have "s64 \<dots> = s64 (fmtotal m - fmget m 0 (po_Debit p) + (fmget m 0 (po_Debit p) - po_Amount p)
     - fmget m 0 (po_Credit p) + (fmget m 0 (po_Credit p) + po_Amount p))"
    by (metis (no_types, lifting) s64_add_left s64_add_right s64_diff_left)
  finally show ?thesis by simp
qed

lemma s64_fmtotal_fold:
  "\<forall>p\<in>set ps. posting_Validate p = None \<Longrightarrow> s64 (fmtotal (fold move ps m)) = s64 (fmtotal m)"
proof (induction ps arbitrary: m)
  case (Cons p ps)
  then have "po_Debit p \<noteq> po_Credit p" by (auto simp: posting_Validate_def split: if_splits)
  with Cons show ?case by (simp add: s64_fmtotal_move)
qed simp

lemma fold_s64_sum: "fold (\<lambda>v acc. s64 (acc + v)) vs (s64 x) = s64 (x + sum_list vs)"
  by (induction vs arbitrary: x) (simp_all add: add.assoc)

lemma sum_fmvals: "sum_list (fmvals m) = fmtotal m"
proof -
  have "map (\<lambda>k. the (fmlookup m k)) (fmkeys m) = map (fmget m 0) (fmkeys m)"
    by (auto simp: fmget_def fmlookup_dom'_iff)
  then have "sum_list (fmvals m) = sum_list (map (fmget m 0) (fmkeys m))" by (simp only: fmvals_def)
  also have "\<dots> = fmtotal m"
    by (simp add: fmtotal_def sum_list_distinct_conv_sum_set)
  finally show ?thesis .
qed

lemma CheckBalances_total: "CheckBalances b = None \<longleftrightarrow> s64 (fmtotal (bk_balances b)) = 0"
  using fold_s64_sum [of "fmvals (bk_balances b)" 0]
  by (simp add: CheckBalances_def Let_def sum_fmvals)

lemma book_inv_total:
  assumes "book_inv b"
  shows "s64 (fmtotal (bk_balances b)) = 0"
proof -
  have "\<forall>p\<in>set (bk_postings b). posting_Validate p = None"
    using assms by (auto simp: book_inv_def in_set_conv_nth)
  from s64_fmtotal_fold [OF this, of fmempty] assms show ?thesis
    by (simp add: book_inv_def fmtotal_def)
qed

lemma check_postings_ok:
  assumes "book_inv b" and "bk_postings b = pre @ ps"
  shows "check_postings b (length pre) ps (fset_of_list (map po_Key pre)) (fold move pre fmempty)
           = Inr (fold move (bk_postings b) fmempty)"
  using assms(2)
proof (induction ps arbitrary: pre)
  case (Cons p ps)
  let ?i = "length pre"
  have i: "?i < length (bk_postings b)" "bk_postings b ! ?i = p" using Cons.prems by simp_all
  have "distinct (map po_Key (bk_postings b))" by (rule book_keys_distinct [OF assms(1)])
  then have "po_Key p \<notin> set (map po_Key pre)" using Cons.prems by simp
  moreover have "po_Seq p = u64 (?i + 1)" "posting_Validate p = None"
    "fmlookup (bk_byKey b) (po_Key p) = Some ?i"
    using book_invD [OF assms(1) i(1)] i(2) by simp_all
  moreover from Cons.IH [of "pre @ [p]"] Cons.prems
  have "check_postings b (?i + 1) ps (finsert (po_Key p) (fset_of_list (map po_Key pre)))
          (move p (fold move pre fmempty)) = Inr (fold move (bk_postings b) fmempty)"
    by (simp add: funion_commute)
  ultimately show ?case by (simp add: fset_of_list.rep_eq)
qed simp

lemma book_inv_Check: "book_inv b \<Longrightarrow> Check b = None"
proof -
  assume inv: "book_inv b"
  have "check_postings b 0 (bk_postings b) {||} fmempty = Inr (bk_balances b)"
    using check_postings_ok [OF inv, of "[]"] inv by (simp add: book_inv_def)
  moreover have "CheckBalances b = None"
    using book_inv_total [OF inv] by (simp add: CheckBalances_total)
  ultimately show ?thesis
    using book_byKey_size [OF inv] by (simp add: Check_def)
qed

definition net_flow :: "account \<Rightarrow> posting \<Rightarrow> money" where
  "net_flow a p = (if po_Credit p = a then po_Amount p else 0) - (if po_Debit p = a then po_Amount p else 0)"

lemma fmget_move: "fmget (move p m) 0 a = (if a \<in> {po_Debit p, po_Credit p} then s64 (fmget m 0 a + net_flow a p) else fmget m 0 a)"
  by (auto simp: move_def Let_def net_flow_def)

lemma fmget_fold_move:
  "s64 (fmget m 0 a) = fmget m 0 a \<Longrightarrow>
   fmget (fold move ps m) 0 a = s64 (fmget m 0 a + (\<Sum>p\<leftarrow>ps. net_flow a p))"
proof (induction ps arbitrary: m)
  case (Cons p ps)
  have "s64 (fmget (move p m) 0 a) = fmget (move p m) 0 a"
    using Cons.prems by (simp add: fmget_move)
  from Cons.IH [OF this] show ?case
    by (auto simp: fmget_move net_flow_def add.assoc split: if_splits)
qed simp

lemma Balance_postings:
  assumes "book_inv b"
  shows "Balance b a = s64 (\<Sum>p\<leftarrow>bk_postings b. net_flow a p)"
  using fmget_fold_move [of fmempty a "bk_postings b"] assms by (simp add: Balance_def book_inv_def)


section \<open>The interface the state machine relies on\<close>

text \<open>
  \<open>post_each\<close> is the loop of a command that posts a batch and stops the process (\<open>None\<close>) on a posting
  that was not appended. The contract of a book: a valid posting under an unused key is appended, and
  then exactly its key is new.
\<close>

primrec post_each :: "('p \<Rightarrow> 'b \<Rightarrow> 'b \<times> ('e + 'p \<times> bool)) \<Rightarrow> 'p list \<Rightarrow> 'b \<Rightarrow> 'b option" where
  "post_each post [] b = Some b"
| "post_each post (p # ps) b =
     (case post p b of
        (b', Inr (q, appended)) \<Rightarrow> if appended then post_each post ps b' else None
      | (b', Inl err) \<Rightarrow> None)"

locale posting_book =
  fixes post :: "'p \<Rightarrow> 'b \<Rightarrow> 'b \<times> ('e + 'p \<times> bool)"
    and has :: "'b \<Rightarrow> 'k \<Rightarrow> bool"
    and key :: "'p \<Rightarrow> 'k"
    and valid :: "'p \<Rightarrow> bool"
    and inv :: "'b \<Rightarrow> bool"
    and entries :: "'b \<Rightarrow> 'p list"
    and booked :: "'p \<Rightarrow> nat \<Rightarrow> 'p"
  assumes appended: "inv b \<Longrightarrow> valid p \<Longrightarrow> \<not> has b (key p) \<Longrightarrow>
      snd (post p b) = Inr (booked p (length (entries b)), True)"
    and entries_post: "inv b \<Longrightarrow> valid p \<Longrightarrow> \<not> has b (key p) \<Longrightarrow>
      entries (fst (post p b)) = entries b @ [booked p (length (entries b))]"
    and has_post: "inv b \<Longrightarrow> valid p \<Longrightarrow> \<not> has b (key p) \<Longrightarrow>
      has (fst (post p b)) k \<longleftrightarrow> k = key p \<or> has b k"
    and inv_post: "inv b \<Longrightarrow> inv (fst (post p b))"
begin

lemma post_each_appends:
  assumes "inv b" and "\<And>p. p \<in> set ps \<Longrightarrow> valid p \<and> \<not> has b (key p)" and "distinct (map key ps)"
  shows "\<exists>b'. post_each post ps b = Some b' \<and> inv b' \<and>
    (\<forall>k. has b' k \<longleftrightarrow> has b k \<or> k \<in> key ` set ps) \<and>
    (\<exists>qs. entries b' = entries b @ qs \<and> list_all2 (\<lambda>p q. \<exists>n. q = booked p n) ps qs)"
  using assms
proof (induction ps arbitrary: b)
  case (Cons p ps)
  let ?b = "fst (post p b)"
  have p: "valid p" "\<not> has b (key p)" using Cons.prems by auto
  note app = appended [OF Cons.prems(1) p] and has = has_post [OF Cons.prems(1) p]
  have "\<exists>b'. post_each post ps ?b = Some b' \<and> inv b' \<and>
    (\<forall>k. has b' k \<longleftrightarrow> has ?b k \<or> k \<in> key ` set ps) \<and>
    (\<exists>qs. entries b' = entries ?b @ qs \<and> list_all2 (\<lambda>p q. \<exists>n. q = booked p n) ps qs)"
    using Cons.prems by (intro Cons.IH) (force simp: has inv_post image_iff)+
  then obtain b' qs where "post_each post ps ?b = Some b'" "inv b'"
    "\<forall>k. has b' k \<longleftrightarrow> has ?b k \<or> k \<in> key ` set ps"
    "entries b' = entries ?b @ qs" "list_all2 (\<lambda>p q. \<exists>n. q = booked p n) ps qs" by blast
  moreover have "post_each post (p # ps) b = post_each post ps ?b"
    using app by (cases "post p b") auto
  ultimately show ?case
    using entries_post [OF Cons.prems(1) p]
    by (auto simp: has intro!: exI [of _ b'] exI [of _ "booked p (length (entries b)) # qs"])
qed simp

end

interpretation lb: posting_book Post Has po_Key "\<lambda>p. posting_Validate p = None" book_inv bk_postings
  "\<lambda>p n. p\<lparr>po_Seq := u64 (n + 1)\<rparr>"
proof
  fix b p k
  assume "book_inv b"
  then show "book_inv (fst (Post p b))" by (rule book_inv_Post)
  assume "posting_Validate p = None" and "\<not> Has b (po_Key p)"
  then show "snd (Post p b) = Inr (p\<lparr>po_Seq := u64 (length (bk_postings b) + 1)\<rparr>, True)"
    and "bk_postings (fst (Post p b)) = bk_postings b @ [p\<lparr>po_Seq := u64 (length (bk_postings b) + 1)\<rparr>]"
    and "Has (fst (Post p b)) k \<longleftrightarrow> k = po_Key p \<or> Has b k"
    by (auto simp: Post_def Has_def Let_def)
qed

section \<open>Properties of the book\<close>

definition post_run :: "posting list \<Rightarrow> book" where
  "post_run ps = fold (\<lambda>p b. fst (Post p b)) ps NewBook"

lemma book_inv_fold: "book_inv b \<Longrightarrow> book_inv (fold (\<lambda>p b. fst (Post p b)) ps b)"
  by (induction ps arbitrary: b) (auto intro: book_inv_Post)

lemma book_inv_run: "book_inv (post_run ps)"
  unfolding post_run_def by (rule book_inv_fold [OF book_inv_New])

text \<open>
  C20: whatever postings are offered, valid or not, repeated or not, the book passes its own full
  consistency check afterwards: positions, unique indexed keys, balances equal to the ones recomputed
  from the postings, and balances that sum to zero (in 64-bit arithmetic, so overflow included).
\<close>

theorem post_run_checks: "Check (post_run ps) = None"
  by (rule book_inv_Check [OF book_inv_run])

text \<open>
  Posting is idempotent per key: once a valid posting is booked, any later valid posting under
  the same key changes nothing and returns the booked posting with \<open>ok = False\<close>.
\<close>

theorem Post_idempotent:
  assumes "posting_Validate p = None" and "posting_Validate q = None" and "po_Key q = po_Key p"
  shows "\<exists>r. Get (fst (Post p (post_run ps))) (po_Key p) = Some r \<and>
    Post q (fst (Post p (post_run ps))) = (fst (Post p (post_run ps)), Inr (r, False))"
proof -
  have "Has (fst (Post p (post_run ps))) (po_Key p)"
    using assms(1) by (cases rule: Post_cases [of p "post_run ps"]) (auto simp: Has_def)
  then show ?thesis using assms(2,3) by (auto simp: Post_def Get_def Has_def)
qed

definition sample_posting :: posting where
  "sample_posting = \<lparr>po_Seq = 0, po_Key = ''fee:t:a'', po_Kind = EntryFee, po_Debit = ''player:a'',
     po_Credit = ''pool:t'', po_Amount = 5, po_Tournament = ''t'', po_Player = ''a'', po_Place = 0,
     po_ExclusionVersion = 1, po_Slot = 3, po_Ballot = Ballot 1 1\<rparr>"

theorem Post_idempotent_witness:
  "\<exists>r. Get (fst (Post sample_posting (post_run []))) (po_Key sample_posting) = Some r \<and>
     Post (sample_posting\<lparr>po_Amount := 7\<rparr>) (fst (Post sample_posting (post_run []))) =
       (fst (Post sample_posting (post_run [])), Inr (r, False))"
  by (rule Post_idempotent) (simp_all add: sample_posting_def posting_Validate_def)

text \<open>
  A balance is what the postings say: credits minus debits of the account over every booked
  posting, in 64-bit arithmetic.
\<close>

theorem Balance_is_net_flow:
  "Balance (post_run ps) a = s64 (\<Sum>p\<leftarrow>Postings (post_run ps). net_flow a p)"
  unfolding Postings_def by (rule Balance_postings [OF book_inv_run])

text \<open>
  The postings a command appended are exactly \<open>PostingsSince\<close> the length before it: after one
  \<open>Post\<close> that is the new posting, or nothing when the posting was refused or a repetition.
\<close>

theorem PostingsSince_Post:
  "PostingsSince (fst (Post p b)) (int (Len b)) =
     (case snd (Post p b) of Inr (q, True) \<Rightarrow> [q] | _ \<Rightarrow> [])"
  by (cases rule: Post_cases [of p b]) (auto simp: PostingsSince_def Len_def Let_def)

end
