(* ===== verification/Game.thy ===== *)
theory Game
  imports Prelude
begin

text \<open>
  Package \<^verbatim>\<open>internal/game\<close>: the rules engine of Ladder v1. Cards, seeds and commitments, the
  seed-driven shuffle, the board, legal moves, replay and scoring. SHA-256 and HMAC-SHA256 are
  arguments (\<open>sha\<close>, \<open>hmac\<close>) of the definitions that use them; a theorem that needs their output
  size says so. The rejection-sampling loop of the shuffle may run forever for some byte
  stream, so it is a \<open>partial_function\<close> whose \<open>None\<close> is "does not return".
\<close>

section \<open>Constants and data (game.go)\<close>

definition LadderV1 :: string where "LadderV1 = ''ladder-v1''"
definition DeckSize :: nat where "DeckSize = 52"
definition ColumnCount :: nat where "ColumnCount = 7"
definition ColumnDepth :: nat where "ColumnDepth = 5"
definition TableauSize :: nat where "TableauSize = ColumnCount * ColumnDepth"
definition StockSize :: nat where "StockSize = DeckSize - TableauSize - 1"
definition Rounds :: nat where "Rounds = 3"
definition RoundTimeLimitMs :: int where "RoundTimeLimitMs = 300000"
definition PointsPerCard :: int where "PointsPerCard = 100"
definition ClearBonus :: int where "ClearBonus = 500"
definition StockBonus :: int where "StockBonus = 50"
definition MaxRoundScore :: int where
  "MaxRoundScore = int TableauSize * PointsPerCard + ClearBonus + int StockSize * StockBonus"
definition MaxTotalScore :: int where "MaxTotalScore = int Rounds * MaxRoundScore"
definition DealDomain :: string where "DealDomain = ''paxos-arena/deal/v1''"
definition CommitDomain :: string where "CommitDomain = ''paxos-arena/commit/v1''"

lemmas game_consts = DeckSize_def ColumnCount_def ColumnDepth_def TableauSize_def StockSize_def
  Rounds_def PointsPerCard_def ClearBonus_def StockBonus_def MaxRoundScore_def MaxTotalScore_def

type_synonym card = nat
type_synonym seed = string

definition RankChars :: string where "RankChars = ''A23456789TJQK''"
definition SuitChars :: string where "SuitChars = ''cdhs''"

definition Play :: string where "Play = ''play''"
definition Draw :: string where "Draw = ''draw''"
definition NoColumn :: int where "NoColumn = -1"

record move =
  mv_Kind :: string
  mv_Column :: int

datatype finish_reason = Cleared | Blocked | Resigned | Expired | ClosedReason

fun finish_reason_String :: "finish_reason \<Rightarrow> string" where
  "finish_reason_String Cleared = ''cleared''"
| "finish_reason_String Blocked = ''blocked''"
| "finish_reason_String Resigned = ''resigned''"
| "finish_reason_String Expired = ''expired''"
| "finish_reason_String ClosedReason = ''closed''"

record board =
  bd_Columns :: "card list list"
  bd_Waste :: "card list"
  bd_Stock :: "card list"
  bd_Moves :: nat

datatype move_error = ErrUnknownMove | ErrBadColumn | ErrColumnEmpty | ErrNotAdjacent | ErrStockEmpty | ErrRoundOver

section \<open>Cards (rules.go)\<close>

definition card_Rank :: "card \<Rightarrow> int" where
  "card_Rank c = int (c div 4) + 1"

definition card_Suit :: "card \<Rightarrow> nat" where
  "card_Suit c = c mod 4"

definition card_Valid :: "card \<Rightarrow> bool" where
  "card_Valid c \<longleftrightarrow> c < DeckSize"

definition card_String :: "card \<Rightarrow> string" where
  "card_String c =
     (if \<not> card_Valid c then ''??''
      else [RankChars ! nat (card_Rank c - 1), SuitChars ! card_Suit c])"

definition last_index :: "char \<Rightarrow> string \<Rightarrow> nat option" where
  "last_index c s = fold (\<lambda>i r. if s ! i = c then Some i else r) [0..<length s] None"

definition ParseCard :: "string \<Rightarrow> card option" where
  "ParseCard s =
     (if length s \<noteq> 2 then None
      else case (last_index (s ! 0) RankChars, last_index (s ! 1) SuitChars) of
        (Some r, Some u) \<Rightarrow> Some (r * 4 + u)
      | _ \<Rightarrow> None)"

definition Adjacent :: "card \<Rightarrow> card \<Rightarrow> bool" where
  "Adjacent a b =
     (let d = ((card_Rank a - card_Rank b) smod 13 + 13) smod 13 in d = 1 \<or> d = 12)"

section \<open>Seeds and commitments (rules.go)\<close>

definition hexText :: "string \<Rightarrow> string" where
  "hexText b = hex_encode b"

datatype hex_error = BadLength nat | NotLowerHex | BadHex

definition parseHex32 :: "string \<Rightarrow> hex_error + string" where
  "parseHex32 b =
     (if length b \<noteq> 64 then Inl (BadLength (length b))
      else if \<exists>c\<in>set b. \<not> lower_hex c then Inl NotLowerHex
      else case hex_decode b of None \<Rightarrow> Inl BadHex | Some s \<Rightarrow> Inr s)"

definition deal_input :: "string \<Rightarrow> string \<Rightarrow> int \<Rightarrow> string" where
  "deal_input tournament player round_no =
     DealDomain @ [CHR 0x00] @ tournament @ [CHR 0x00] @ player @ [CHR 0x00] @
     be_bytes 4 (nat (round_no mod 2 ^ 32))"

definition DeriveSeed :: "(string \<Rightarrow> string \<Rightarrow> string) \<Rightarrow> string \<Rightarrow> string \<Rightarrow> string \<Rightarrow> int \<Rightarrow> seed" where
  "DeriveSeed hmac secret tournament player round_no = hmac secret (deal_input tournament player round_no)"

definition Commit :: "(string \<Rightarrow> string) \<Rightarrow> seed \<Rightarrow> string" where
  "Commit sha s = sha (CommitDomain @ [CHR 0x00] @ s)"

section \<open>The shuffle (rules.go)\<close>

record stream =
  st_seed :: seed
  st_block :: nat
  st_buf :: string
  st_off :: nat

definition newStream :: "seed \<Rightarrow> stream" where
  "newStream s = \<lparr>st_seed = s, st_block = 0, st_buf = replicate 32 (CHR 0x00), st_off = 32\<rparr>"

definition next_byte :: "(string \<Rightarrow> string) \<Rightarrow> stream \<Rightarrow> char \<times> stream" where
  "next_byte sha st =
     (let st1 = (if st_off st = 32
                 then st\<lparr>st_buf := sha (st_seed st @ be_bytes 8 (st_block st)),
                         st_block := u64 (st_block st + 1), st_off := 0\<rparr>
                 else st)
      in (st_buf st1 ! st_off st1, st1\<lparr>st_off := st_off st1 + 1\<rparr>))"

definition next32 :: "(string \<Rightarrow> string) \<Rightarrow> stream \<Rightarrow> nat \<times> stream" where
  "next32 sha s0 =
     (let (a, s1) = next_byte sha s0; (b, s2) = next_byte sha s1;
          (c, s3) = next_byte sha s2; (d, s4) = next_byte sha s3
      in (be_value [a, b, c, d], s4))"

partial_function (option) draw_below :: "('s \<Rightarrow> nat \<times> 's) \<Rightarrow> nat \<Rightarrow> 's \<Rightarrow> (nat \<times> 's) option" where
  "draw_below nxt limit st =
     (if fst (nxt st) \<ge> limit then draw_below nxt limit (snd (nxt st)) else Some (nxt st))"

definition draw_limit :: "nat \<Rightarrow> nat" where
  "draw_limit n = 2 ^ 32 - 2 ^ 32 mod n"

definition swap :: "'a list \<Rightarrow> nat \<Rightarrow> nat \<Rightarrow> 'a list" where
  "swap xs i j = xs[i := xs ! j, j := xs ! i]"

fun shuffle_loop :: "('s \<Rightarrow> nat \<times> 's) \<Rightarrow> nat \<Rightarrow> card list \<Rightarrow> 's \<Rightarrow> card list option" where
  "shuffle_loop nxt 0 deck st = Some deck"
| "shuffle_loop nxt (Suc i) deck st =
     (case draw_below nxt (draw_limit (Suc i + 1)) st of
        None \<Rightarrow> None
      | Some (x, st') \<Rightarrow> shuffle_loop nxt i (swap deck (Suc i) (x mod (Suc i + 1))) st')"

definition shuffleWith :: "('s \<Rightarrow> nat \<times> 's) \<Rightarrow> 's \<Rightarrow> card list option" where
  "shuffleWith nxt st = shuffle_loop nxt (DeckSize - 1) [0..<DeckSize] st"

definition Shuffle :: "(string \<Rightarrow> string) \<Rightarrow> seed \<Rightarrow> card list option" where
  "Shuffle sha s = shuffleWith (next32 sha) (newStream s)"

section \<open>The board (rules.go)\<close>

definition layout :: "card list \<Rightarrow> board" where
  "layout deck =
     \<lparr>bd_Columns = map (\<lambda>c. take ColumnDepth (drop (c * ColumnDepth) deck)) [0..<ColumnCount],
      bd_Waste = [deck ! TableauSize],
      bd_Stock = take StockSize (drop (TableauSize + 1) deck),
      bd_Moves = 0\<rparr>"

definition Deal :: "(string \<Rightarrow> string) \<Rightarrow> seed \<Rightarrow> board option" where
  "Deal sha s = map_option layout (Shuffle sha s)"

definition WasteCard :: "board \<Rightarrow> card" where
  "WasteCard b = last (bd_Waste b)"

definition board_Cleared :: "board \<Rightarrow> int" where
  "board_Cleared b = int TableauSize - sum_list (map (\<lambda>col. int (length col)) (bd_Columns b))"

definition Score :: "board \<Rightarrow> int" where
  "Score b =
     (let cleared = board_Cleared b; sc = PointsPerCard * cleared
      in if cleared = int TableauSize then sc + (ClearBonus + StockBonus * int (length (bd_Stock b))) else sc)"

definition Playable :: "board \<Rightarrow> nat list" where
  "Playable b =
     filter (\<lambda>c. let col = bd_Columns b ! c in col \<noteq> [] \<and> Adjacent (last col) (WasteCard b))
       [0..<length (bd_Columns b)]"

definition Over :: "board \<Rightarrow> finish_reason option" where
  "Over b =
     (if board_Cleared b = int TableauSize then Some Cleared
      else if bd_Stock b = [] \<and> Playable b = [] then Some Blocked
      else None)"

definition board_Check :: "move \<Rightarrow> board \<Rightarrow> move_error option" where
  "board_Check m b =
     (if mv_Kind m = Play \<and> (mv_Column m < 0 \<or> mv_Column m \<ge> int ColumnCount) then Some ErrBadColumn
      else if mv_Kind m = Draw \<and> mv_Column m \<noteq> NoColumn then Some ErrBadColumn
      else if mv_Kind m \<noteq> Play \<and> mv_Kind m \<noteq> Draw then Some ErrUnknownMove
      else if Over b \<noteq> None then Some ErrRoundOver
      else if mv_Kind m = Draw then (if bd_Stock b = [] then Some ErrStockEmpty else None)
      else (let col = bd_Columns b ! nat (mv_Column m)
            in if col = [] then Some ErrColumnEmpty
               else if \<not> Adjacent (last col) (WasteCard b) then Some ErrNotAdjacent
               else None))"

definition board_Apply :: "move \<Rightarrow> board \<Rightarrow> board \<times> move_error option" where
  "board_Apply m b =
     (case board_Check m b of
        Some err \<Rightarrow> (b, Some err)
      | None \<Rightarrow>
          (let b1 = (if mv_Kind m = Draw
                     then b\<lparr>bd_Waste := bd_Waste b @ [hd (bd_Stock b)], bd_Stock := tl (bd_Stock b)\<rparr>
                     else (let i = nat (mv_Column m); col = bd_Columns b ! i
                           in b\<lparr>bd_Waste := bd_Waste b @ [last col], bd_Columns := (bd_Columns b)[i := butlast col]\<rparr>))
           in (b1\<lparr>bd_Moves := bd_Moves b1 + 1\<rparr>, None)))"

fun replay_moves :: "nat \<Rightarrow> move list \<Rightarrow> board \<Rightarrow> board \<times> (nat \<times> move_error) option" where
  "replay_moves i [] b = (b, None)"
| "replay_moves i (m # ms) b =
     (case board_Apply m b of
        (b', Some err) \<Rightarrow> (b', Some (i, err))
      | (b', None) \<Rightarrow> replay_moves (i + 1) ms b')"

definition Replay :: "(string \<Rightarrow> string) \<Rightarrow> seed \<Rightarrow> move list \<Rightarrow> (board \<times> (nat \<times> move_error) option) option" where
  "Replay sha s moves = map_option (replay_moves 0 moves) (Deal sha s)"

section \<open>Cards and text forms\<close>

lemma last_index_Some:
  assumes "last_index c s = Some i"
  shows "i < length s \<and> s ! i = c"
proof -
  have "fold (\<lambda>i r. if s ! i = c then Some i else r) xs r = Some i \<Longrightarrow>
      r = Some i \<or> i \<in> set xs \<and> s ! i = c" for xs r
    by (induction xs arbitrary: r) (auto split: if_splits)
  from this [of "[0..<length s]" None] assms show ?thesis by (auto simp: last_index_def)
qed

lemma card_table: "list_all (\<lambda>c. ParseCard (card_String c) = Some c) [0..<52]"
  by code_simp

lemma ParseCard_inverse:
  assumes "ParseCard s = Some c"
  shows "card_Valid c \<and> card_String c = s"
proof -
  from assms obtain r u where len: "length s = 2" and r: "last_index (s ! 0) RankChars = Some r"
    and u: "last_index (s ! 1) SuitChars = Some u" and c: "c = r * 4 + u"
    by (auto simp: ParseCard_def split: if_splits option.splits)
  have "r < 13" "RankChars ! r = s ! 0" "u < 4" "SuitChars ! u = s ! 1"
    using last_index_Some [OF r] last_index_Some [OF u] by (auto simp: RankChars_def SuitChars_def)
  moreover from len have "s = [s ! 0, s ! 1]" by (auto simp: length_Suc_conv numeral_2_eq_2)
  ultimately show ?thesis using c
    by (simp add: card_Valid_def card_String_def card_Rank_def card_Suit_def DeckSize_def)
qed

lemma parseHex32_inverse:
  assumes "parseHex32 t = Inr s"
  shows "length s = 32 \<and> hexText s = t"
proof -
  from assms have "length t = 64" and low: "\<And>c. c \<in> set t \<Longrightarrow> lower_hex c" and "hex_decode t = Some s"
    by (auto simp: parseHex32_def split: if_splits option.splits)
  with hex_encode_decode [of t s] have "hex_encode s = t" by blast
  moreover from this \<open>length t = 64\<close> length_hex_encode [of s] have "length s = 32" by simp
  ultimately show ?thesis by (simp add: hexText_def)
qed

lemma parseHex32_hexText: "length s = 32 \<Longrightarrow> parseHex32 (hexText s) = Inr s"
  by (auto simp: parseHex32_def hexText_def dest: hex_encode_lower)

lemma zero_split:
  "CHR 0x00 \<notin> set s \<Longrightarrow> CHR 0x00 \<notin> set t \<Longrightarrow> s @ CHR 0x00 # x = t @ CHR 0x00 # y \<Longrightarrow> s = t \<and> x = y"
proof (induction s arbitrary: t)
  case Nil
  then show ?case by (cases t) auto
next
  case (Cons c s)
  from Cons.prems obtain t' where "t = c # t'" by (cases t) auto
  with Cons show ?case by auto
qed

lemma deal_input_inj:
  assumes "CHR 0x00 \<notin> set t" "CHR 0x00 \<notin> set t'" "CHR 0x00 \<notin> set p" "CHR 0x00 \<notin> set p'"
    and "0 \<le> r" "r < 2 ^ 32" "0 \<le> r'" "r' < 2 ^ 32"
    and eq: "deal_input t p r = deal_input t' p' r'"
  shows "t = t' \<and> p = p' \<and> r = r'"
proof -
  from eq have "t @ CHR 0x00 # p @ CHR 0x00 # be_bytes 4 (nat (r mod 2 ^ 32)) =
      t' @ CHR 0x00 # p' @ CHR 0x00 # be_bytes 4 (nat (r' mod 2 ^ 32))" by (simp add: deal_input_def)
  from zero_split [OF assms(1,2) this] have t: "t = t'" and
    ps: "p @ CHR 0x00 # be_bytes 4 (nat (r mod 2 ^ 32)) = p' @ CHR 0x00 # be_bytes 4 (nat (r' mod 2 ^ 32))"
    by (rule conjunct1, rule conjunct2)
  from zero_split [OF assms(3,4) ps] have p: "p = p'"
    and b: "be_bytes 4 (nat (r mod 2 ^ 32)) = be_bytes 4 (nat (r' mod 2 ^ 32))"
    by (rule conjunct1, rule conjunct2)
  have m: "r mod 2 ^ 32 = r" "r' mod 2 ^ 32 = r'" using assms(5-8) by (simp_all del: power_numeral)
  have "nat r < 256 ^ 4" "nat r' < 256 ^ 4" using assms(5-8) by simp_all
  with b have "nat r = nat r'" unfolding m by (rule be_bytes_inj)
  with t p assms(5,7) show ?thesis by simp
qed

section \<open>The shuffle\<close>

lemma mset_swapped: "i < length xs \<Longrightarrow> j < length xs \<Longrightarrow> mset (swap xs i j) = mset xs"
  unfolding swap_def by (rule mset_swap)

lemma length_swap [simp]: "length (swap xs i j) = length xs"
  by (simp add: swap_def)

lemma shuffle_loop_perm:
  "shuffle_loop nxt i deck st = Some d \<Longrightarrow> i < length deck \<Longrightarrow> mset d = mset deck"
proof (induction nxt i deck st arbitrary: d rule: shuffle_loop.induct)
  case (2 nxt i deck st)
  from "2.prems"(1) obtain x st' where dr: "draw_below nxt (draw_limit (Suc i + 1)) st = Some (x, st')"
    and rest: "shuffle_loop nxt i (swap deck (Suc i) (x mod (Suc i + 1))) st' = Some d"
    by (auto split: option.splits)
  let ?deck = "swap deck (Suc i) (x mod (Suc i + 1))"
  have "x mod (Suc i + 1) < Suc i + 1" by (rule mod_less_divisor) simp
  with "2.prems"(2) have j: "x mod (Suc i + 1) < length deck" by linarith
  have "mset d = mset ?deck" using "2.IH" [OF dr refl rest] "2.prems"(2) by simp
  with j "2.prems"(2) show ?case by (simp add: mset_swapped)
qed simp

lemma Shuffle_perm: "Shuffle sha s = Some d \<Longrightarrow> mset d = mset [0..<DeckSize]"
  unfolding Shuffle_def shuffleWith_def by (drule shuffle_loop_perm) (simp_all add: DeckSize_def)

text \<open>\<open>small_again nxt st\<close>: from every point on, the stream yields a word no shuffle step rejects.\<close>

definition small_again :: "('s \<Rightarrow> nat \<times> 's) \<Rightarrow> 's \<Rightarrow> bool" where
  "small_again nxt st \<longleftrightarrow>
     (\<forall>n. \<exists>k\<ge>n. fst (nxt (((\<lambda>s. snd (nxt s)) ^^ k) st)) < 2 ^ 32 - DeckSize)"

lemma small_again_snd:
  assumes "small_again nxt st"
  shows "small_again nxt (snd (nxt st))"
  unfolding small_again_def
proof
  fix n
  obtain k where k: "Suc n \<le> k" "fst (nxt (((\<lambda>s. snd (nxt s)) ^^ k) st)) < 2 ^ 32 - DeckSize"
    using assms unfolding small_again_def by blast
  then obtain m where "k = Suc m" by (cases k) auto
  with k have "n \<le> m" "fst (nxt (((\<lambda>s. snd (nxt s)) ^^ m) (snd (nxt st)))) < 2 ^ 32 - DeckSize"
    by (simp_all add: funpow_Suc_right del: funpow.simps)
  then show "\<exists>k\<ge>n. fst (nxt (((\<lambda>s. snd (nxt s)) ^^ k) (snd (nxt st)))) < 2 ^ 32 - DeckSize" by blast
qed

lemma draw_below_returns:
  assumes "fst (nxt (((\<lambda>s. snd (nxt s)) ^^ k) st)) < limit" and "small_again nxt st"
  shows "\<exists>x st'. draw_below nxt limit st = Some (x, st') \<and> small_again nxt st'"
  using assms
proof (induction k arbitrary: st)
  case 0
  from small_again_snd [OF 0(2)] 0(1) show ?case
    by (subst draw_below.simps) (cases "nxt st", auto)
next
  case (Suc k)
  have "fst (nxt (((\<lambda>s. snd (nxt s)) ^^ k) (snd (nxt st)))) < limit"
    using Suc.prems(1) by (simp add: funpow_Suc_right del: funpow.simps)
  from Suc.IH [OF this small_again_snd [OF Suc.prems(2)]] small_again_snd [OF Suc.prems(2)]
  show ?case by (subst draw_below.simps) (cases "nxt st", auto)
qed

lemma draw_limit_ge: "0 < n \<Longrightarrow> n \<le> DeckSize \<Longrightarrow> 2 ^ 32 - DeckSize \<le> draw_limit n"
proof -
  assume "0 < n" "n \<le> DeckSize"
  then have "2 ^ 32 mod n < n" by simp
  with \<open>n \<le> DeckSize\<close> have "2 ^ 32 mod n \<le> DeckSize" by linarith
  then show ?thesis by (simp add: draw_limit_def diff_le_mono2)
qed

lemma shuffle_loop_returns:
  "small_again nxt st \<Longrightarrow> i < DeckSize \<Longrightarrow> \<exists>d. shuffle_loop nxt i deck st = Some d"
proof (induction i arbitrary: deck st)
  case (Suc i)
  obtain k where "fst (nxt (((\<lambda>s. snd (nxt s)) ^^ k) st)) < 2 ^ 32 - DeckSize"
    using Suc.prems(1) unfolding small_again_def by blast
  also have "\<dots> \<le> draw_limit (Suc i + 1)" using Suc.prems by (intro draw_limit_ge) auto
  finally obtain x st' where "draw_below nxt (draw_limit (Suc i + 1)) st = Some (x, st')" "small_again nxt st'"
    using draw_below_returns [OF _ Suc.prems(1)] by blast
  with Suc show ?case by simp
qed simp

lemma shuffleWith_some:
  assumes "small_again nxt st"
  shows "\<exists>d. shuffleWith nxt st = Some d \<and> mset d = mset [0..<DeckSize]"
proof -
  have lt: "DeckSize - 1 < DeckSize" by (simp add: DeckSize_def)
  obtain d where d: "shuffle_loop nxt (DeckSize - 1) [0..<DeckSize] st = Some d"
    using shuffle_loop_returns [OF assms lt] by blast
  with shuffle_loop_perm [OF d] lt show ?thesis by (simp add: shuffleWith_def)
qed

lemma card_residue:
  assumes "0 < n" and "j < n"
  shows "card {x. x < q * n \<and> x mod n = j} = q"
proof -
  have "{x. x < q * n \<and> x mod n = j} = (\<lambda>k. k * n + j) ` {..<q}"
  proof (intro equalityI subsetI)
    fix x assume "x \<in> {x. x < q * n \<and> x mod n = j}"
    then have "x div n * n + j = x" and "x div n < q"
      by (auto simp: less_mult_imp_div_less)
    then show "x \<in> (\<lambda>k. k * n + j) ` {..<q}" by (metis imageI lessThan_iff)
  next
    fix x assume "x \<in> (\<lambda>k. k * n + j) ` {..<q}"
    then obtain k where "x = k * n + j" "k < q" by blast
    moreover from this have "k * n + j < q * n"
      using assms by (metis add.commute add_less_le_mono mult_Suc mult_le_mono1 order_less_le_trans Suc_leI nat_add_left_cancel_less)
    ultimately show "x \<in> {x. x < q * n \<and> x mod n = j}" using assms by simp
  qed
  moreover have "inj_on (\<lambda>k. k * n + j) {..<q}" using assms(1) by (auto simp: inj_on_def)
  ultimately show ?thesis by (simp add: card_image)
qed

section \<open>The board's invariant\<close>

definition board_cards :: "board \<Rightarrow> card multiset" where
  "board_cards b = mset (concat (bd_Columns b)) + mset (bd_Waste b) + mset (bd_Stock b)"

definition tableau_left :: "board \<Rightarrow> nat" where
  "tableau_left b = sum_list (map length (bd_Columns b))"

definition board_wf :: "board \<Rightarrow> bool" where
  "board_wf b \<longleftrightarrow>
     length (bd_Columns b) = ColumnCount \<and> bd_Waste b \<noteq> [] \<and>
     board_cards b = mset [0..<DeckSize] \<and>
     tableau_left b \<le> TableauSize \<and> length (bd_Stock b) \<le> StockSize \<and>
     length (bd_Waste b) = bd_Moves b + 1"

lemma concat_chunks: "concat (map (\<lambda>c. take k (drop (c * k) xs)) [0..<n]) = take (n * k) xs"
proof (induction n)
  case (Suc n)
  have "Suc n * k = n * k + k" by simp
  with Suc show ?case by (simp only: take_add) simp
qed simp

lemma board_Cleared_left: "board_Cleared b = int TableauSize - int (tableau_left b)"
proof -
  have "sum_list (map (\<lambda>c. int (length c)) cs) = int (sum_list (map length cs))" for cs :: "card list list"
    by (induction cs) simp_all
  then show ?thesis by (simp add: board_Cleared_def tableau_left_def)
qed

lemma layout_wf:
  assumes "mset d = mset [0..<DeckSize]"
  shows "board_wf (layout d)"
proof -
  have len: "length d = 52" using assms by (metis DeckSize_def diff_zero length_upt size_mset)
  have d: "d = take 35 d @ d ! 35 # drop 36 d"
    using len id_take_nth_drop [of 35 d] by simp
  have cols: "concat (bd_Columns (layout d)) = take 35 d"
    using concat_chunks [of 5 d 7] by (simp add: layout_def game_consts)
  have left: "tableau_left (layout d) = length (concat (bd_Columns (layout d)))"
    by (simp add: tableau_left_def length_concat)
  have "board_cards (layout d) = mset (take 35 d @ d ! 35 # drop 36 d)"
    unfolding board_cards_def cols using len by (simp add: layout_def game_consts)
  then have "board_cards (layout d) = mset [0..<DeckSize]" using d assms by simp
  moreover have "tableau_left (layout d) = 35" unfolding left cols using len by simp
  ultimately show ?thesis by (simp add: board_wf_def layout_def game_consts)
qed

lemma mset_butlast_last: "xs \<noteq> [] \<Longrightarrow> mset (butlast xs) + {#last xs#} = mset xs"
  by (metis append_butlast_last_id mset.simps(1) mset.simps(2) mset_append)

lemma column_update:
  assumes "i < length cs" and "cs ! i \<noteq> []"
  shows "mset (concat (cs[i := butlast (cs ! i)])) + {#last (cs ! i)#} = mset (concat cs)"
    and "sum_list (map length (cs[i := butlast (cs ! i)])) + 1 = sum_list (map length cs)"
  using assms
proof (induction cs arbitrary: i)
  case (Cons c cs)
  case 1
  show ?case
  proof (cases i)
    case 0
    then show ?thesis using 1 mset_butlast_last [of c] by (simp add: add.commute add.left_commute)
  next
    case (Suc j)
    then show ?thesis using 1 Cons.IH(1) [of j] by (simp add: add.commute add.left_commute)
  qed
  case 2
  show ?case
  proof (cases i)
    case 0
    then show ?thesis using 2 by (cases c) simp_all
  next
    case (Suc j)
    then show ?thesis using 2 Cons.IH(2) [of j] by simp
  qed
qed simp_all

lemma board_Apply_wf:
  assumes wf: "board_wf b" and ap: "board_Apply m b = (b', None)"
  shows "board_wf b' \<and> bd_Moves b' = bd_Moves b + 1"
proof -
  from ap have chk: "board_Check m b = None" by (auto simp: board_Apply_def split: option.splits)
  show ?thesis
  proof (cases "mv_Kind m = Draw")
    case True
    with chk have "bd_Stock b \<noteq> []" by (auto simp: board_Check_def Draw_def Play_def split: if_splits)
    then obtain x xs where st: "bd_Stock b = x # xs" by (cases "bd_Stock b") auto
    with ap chk True have "b' = b\<lparr>bd_Waste := bd_Waste b @ [x], bd_Stock := xs, bd_Moves := bd_Moves b + 1\<rparr>"
      by (simp add: board_Apply_def Let_def)
    with wf st show ?thesis
      by (simp add: board_wf_def board_cards_def tableau_left_def add.commute add.left_commute)
  next
    case False
    let ?i = "nat (mv_Column m)" and ?col = "bd_Columns b ! nat (mv_Column m)"
    from False chk have i: "?i < length (bd_Columns b)" and col: "?col \<noteq> []"
      using wf by (auto simp: board_Check_def board_wf_def Let_def split: if_splits)
    from ap chk False have b': "b' = b\<lparr>bd_Waste := bd_Waste b @ [last ?col],
        bd_Columns := (bd_Columns b)[?i := butlast ?col], bd_Moves := bd_Moves b + 1\<rparr>"
      by (simp add: board_Apply_def Let_def)
    note cu = column_update [OF i col]
    have "board_cards b' = mset (concat ((bd_Columns b)[?i := butlast ?col])) + {#last ?col#} +
        mset (bd_Waste b) + mset (bd_Stock b)" by (simp add: b' board_cards_def)
    also have "\<dots> = board_cards b" unfolding cu(1) by (simp add: board_cards_def)
    finally have "board_cards b' = board_cards b" .
    with wf cu(2) show ?thesis by (simp add: board_wf_def b' tableau_left_def)
  qed
qed

lemma replay_moves_wf:
  "board_wf b \<Longrightarrow> replay_moves i ms b = (b', e) \<Longrightarrow>
     board_wf b' \<and> bd_Moves b' = bd_Moves b + (case e of None \<Rightarrow> length ms | Some (j, _) \<Rightarrow> j - i) \<and>
     (case e of None \<Rightarrow> True | Some (j, _) \<Rightarrow> i \<le> j)"
proof (induction ms arbitrary: i b)
  case (Cons m ms)
  show ?case
  proof (cases "board_Apply m b")
    case (Pair b1 e1)
    show ?thesis
    proof (cases e1)
      case None
      with Pair board_Apply_wf [OF Cons.prems(1)] have wf1: "board_wf b1" "bd_Moves b1 = bd_Moves b + 1" by auto
      from Cons.prems(2) Pair None have "replay_moves (i + 1) ms b1 = (b', e)" by simp
      from Cons.IH [OF wf1(1) this] wf1(2) show ?thesis by (auto split: option.splits)
    next
      case (Some err)
      with Pair have "b1 = b" by (auto simp: board_Apply_def Let_def split: option.splits)
      with Cons.prems Pair Some show ?thesis by (cases e) auto
    qed
  qed
qed simp

lemma replay_moves_append:
  "replay_moves i (ms @ ns) b =
     (case replay_moves i ms b of (b', None) \<Rightarrow> replay_moves (i + length ms) ns b' | r \<Rightarrow> r)"
  by (induction ms arbitrary: i b) (auto split: prod.splits option.splits)

lemma board_size:
  assumes "board_wf b"
  shows "tableau_left b + length (bd_Waste b) + length (bd_Stock b) = 52"
proof -
  have "size (board_cards b) = 52" using assms by (simp add: board_wf_def DeckSize_def)
  then show ?thesis by (simp add: board_cards_def tableau_left_def length_concat)
qed

lemma Score_bounds:
  assumes "board_wf b"
  shows "0 \<le> Score b \<and> Score b \<le> MaxRoundScore"
proof -
  have "tableau_left b \<le> 35" "length (bd_Stock b) \<le> 16" using assms by (auto simp: board_wf_def game_consts)
  then show ?thesis by (auto simp: Score_def board_Cleared_left Let_def game_consts)
qed

lemma Over_iff_stuck:
  assumes wf: "board_wf b"
  shows "Over b \<noteq> None \<longleftrightarrow> (\<forall>m. board_Check m b \<noteq> None)"
proof
  assume "Over b \<noteq> None"
  then show "\<forall>m. board_Check m b \<noteq> None" by (auto simp: board_Check_def)
next
  assume all: "\<forall>m. board_Check m b \<noteq> None"
  show "Over b \<noteq> None"
  proof
    assume nover: "Over b = None"
    then consider "bd_Stock b \<noteq> []" | c where "c \<in> set (Playable b)"
      by (cases "Playable b") (auto simp: Over_def split: if_splits)
    then show False
    proof cases
      case 1
      with nover have "board_Check \<lparr>mv_Kind = Draw, mv_Column = NoColumn\<rparr> b = None"
        by (simp add: board_Check_def Draw_def Play_def)
      with all show False by blast
    next
      case 2
      with wf have c: "c < ColumnCount" "bd_Columns b ! c \<noteq> []"
        "Adjacent (last (bd_Columns b ! c)) (WasteCard b)"
        by (auto simp: Playable_def board_wf_def Let_def)
      with nover have "board_Check \<lparr>mv_Kind = Play, mv_Column = int c\<rparr> b = None"
        by (simp add: board_Check_def Draw_def Play_def Let_def)
      with all show False by blast
    qed
  qed
qed

lemma Replay_wf:
  assumes "Replay sha s ms = Some (b, e)"
  shows "board_wf b"
proof -
  from assms obtain d where d: "Shuffle sha s = Some d" and r: "replay_moves 0 ms (layout d) = (b, e)"
    by (auto simp: Replay_def Deal_def)
  from replay_moves_wf [OF layout_wf [OF Shuffle_perm [OF d]] r] show ?thesis by blast
qed

section \<open>Properties\<close>

text \<open>The two-character wire form of a card. ParseCard accepts a string exactly when it is what
  String prints for a card of the deck, and it returns that card.\<close>

theorem ParseCard_iff: "ParseCard s = Some c \<longleftrightarrow> card_Valid c \<and> card_String c = s"
  using ParseCard_inverse card_table by (auto simp: list_all_iff card_Valid_def DeckSize_def)

text \<open>One seed or commitment has one spelling. parseHex32 accepts a text exactly when it is the
  rendering of a 32-byte value, and returns that value: upper-case digits, short or long texts and
  other bytes are all refused.\<close>

theorem parseHex32_iff: "parseHex32 t = Inr s \<longleftrightarrow> length s = 32 \<and> t = hexText s"
  using parseHex32_inverse parseHex32_hexText by blast

text \<open>No two rounds share a seed derivation input. With identifiers that hold no zero byte (the
  charset checks of the tournament package see to that) and a 32-bit round number, the bytes given
  to HMAC determine the tournament, the player and the round.\<close>

theorem deal_input_injective:
  assumes "CHR 0x00 \<notin> set t" "CHR 0x00 \<notin> set t'" "CHR 0x00 \<notin> set p" "CHR 0x00 \<notin> set p'"
    and "0 \<le> r" "r < 2 ^ 32" "0 \<le> r'" "r' < 2 ^ 32"
    and "deal_input t p r = deal_input t' p' r'"
  shows "t = t' \<and> p = p' \<and> r = r'"
  using assms by (rule deal_input_inj)

theorem deal_input_injective_witness:
  "deal_input ''t1'' ''ann'' 2 = deal_input ''t1'' ''ann'' 2 \<and> ''ann'' = ''ann''"
  using deal_input_injective [of "''t1''" "''t1''" "''ann''" "''ann''" 2 2] by simp

text \<open>C21: every replay of every seed keeps the deck. Whatever moves are replayed, and whether or not
  one of them is refused on the way, the board holds the 52 cards, each exactly once, over seven
  columns, a non-empty waste and the stock; the waste grew by one card per applied move, so no round
  has more than 51 of them; and the score is between zero and MaxRoundScore.\<close>

theorem Replay_keeps_deck:
  assumes "Replay sha s ms = Some (b, e)"
  shows "mset (concat (bd_Columns b)) + mset (bd_Waste b) + mset (bd_Stock b) = mset [0..<52] \<and>
    length (bd_Columns b) = 7 \<and> bd_Waste b \<noteq> [] \<and> length (bd_Waste b) = bd_Moves b + 1 \<and>
    bd_Moves b = (case e of None \<Rightarrow> length ms | Some (i, _) \<Rightarrow> i) \<and> bd_Moves b \<le> 51 \<and>
    0 \<le> Score b \<and> Score b \<le> 4800"
proof -
  from assms obtain d where d: "Shuffle sha s = Some d" and r: "replay_moves 0 ms (layout d) = (b, e)"
    by (auto simp: Replay_def Deal_def)
  from replay_moves_wf [OF layout_wf [OF Shuffle_perm [OF d]] r]
  have wf: "board_wf b" and mv: "bd_Moves b = (case e of None \<Rightarrow> length ms | Some (i, _) \<Rightarrow> i)"
    by (auto simp: layout_def split: option.splits)
  from board_size [OF wf] wf have "bd_Moves b \<le> 51" by (simp add: board_wf_def)
  with wf mv Score_bounds [OF wf] show ?thesis
    by (simp add: board_wf_def board_cards_def game_consts)
qed

text \<open>The end of a round. On every board a replay reaches, Over reports a reason exactly when no
  move is legal any more; until then some move is.\<close>

theorem Over_iff_no_move:
  assumes "Replay sha s ms = Some (b, e)"
  shows "Over b \<noteq> None \<longleftrightarrow> (\<forall>m. board_Check m b \<noteq> None)"
  by (rule Over_iff_stuck) (rule Replay_wf [OF assms])

text \<open>C22: the shuffle returns. Its rejection loop ends for every stream of words that, from every
  point on, still yields a word below 2^32 - 52, and the result is a permutation of the deck.\<close>

theorem shuffleWith_returns:
  assumes "\<And>n. \<exists>k\<ge>n. fst (nxt (((\<lambda>s. snd (nxt s)) ^^ k) st)) < 2 ^ 32 - DeckSize"
  shows "\<exists>d. shuffleWith nxt st = Some d \<and> mset d = mset [0..<DeckSize]"
  by (rule shuffleWith_some) (use assms in \<open>simp add: small_again_def\<close>)

text \<open>The draws are unbiased. Below the rejection limit every residue modulo n has the same number
  of 32-bit words, 2^32 div n of them, and the limit rejects fewer than n words.\<close>

theorem draw_limit_unbiased:
  assumes "0 < n" and "n \<le> DeckSize" and "j < n"
  shows "card {x. x < draw_limit n \<and> x mod n = j} = 2 ^ 32 div n \<and> 2 ^ 32 - n < draw_limit n \<and> draw_limit n \<le> 2 ^ 32"
proof -
  have "draw_limit n = 2 ^ 32 div n * n" unfolding draw_limit_def by (simp only: minus_mod_eq_div_mult)
  with card_residue [OF assms(1,3)] have "card {x. x < draw_limit n \<and> x mod n = j} = 2 ^ 32 div n" by simp
  moreover have "2 ^ 32 mod n < n" "n \<le> 2 ^ 32" using assms by (simp_all add: DeckSize_def)
  ultimately show ?thesis unfolding draw_limit_def by linarith
qed

theorem draw_limit_unbiased_witness:
  "card {x. x < draw_limit 52 \<and> x mod 52 = 51} = 2 ^ 32 div 52"
  using draw_limit_unbiased [of 52 51] by (simp add: DeckSize_def)

definition flat_sha :: "string \<Rightarrow> string" where
  "flat_sha s = replicate 32 (CHR 0x01)"

definition flat_state :: "stream \<Rightarrow> bool" where
  "flat_state st \<longleftrightarrow> st_off st = 32 \<or> st_off st < 32 \<and> st_buf st = replicate 32 (CHR 0x01)"

lemma next_byte_flat: "flat_state st \<Longrightarrow> fst (next_byte flat_sha st) = CHR 0x01 \<and> flat_state (snd (next_byte flat_sha st))"
  by (auto simp: flat_state_def next_byte_def flat_sha_def Let_def)

lemma next32_flat:
  assumes "flat_state st"
  shows "fst (next32 flat_sha st) = 16843009 \<and> flat_state (snd (next32 flat_sha st))"
proof -
  obtain a s1 where 1: "next_byte flat_sha st = (a, s1)" by force
  obtain b s2 where 2: "next_byte flat_sha s1 = (b, s2)" by force
  obtain c s3 where 3: "next_byte flat_sha s2 = (c, s3)" by force
  obtain d s4 where 4: "next_byte flat_sha s3 = (d, s4)" by force
  have "a = CHR 0x01" "flat_state s1" using next_byte_flat [OF assms] 1 by auto
  moreover from this have "b = CHR 0x01" "flat_state s2" using next_byte_flat [of s1] 2 by auto
  moreover from this have "c = CHR 0x01" "flat_state s3" using next_byte_flat [of s2] 3 by auto
  moreover from this have "d = CHR 0x01" "flat_state s4" using next_byte_flat [of s3] 4 by auto
  ultimately show ?thesis by (simp add: next32_def 1 2 3 4 be_value_def)
qed

lemma flat_words: "fst (next32 flat_sha (((\<lambda>s. snd (next32 flat_sha s)) ^^ k) (newStream seed))) = 16843009"
proof -
  have "flat_state (((\<lambda>s. snd (next32 flat_sha s)) ^^ k) (newStream seed))"
    by (induction k) (simp add: flat_state_def newStream_def, simp add: next32_flat)
  then show ?thesis by (simp add: next32_flat)
qed

lemma flat_small: "small_again (next32 flat_sha) (newStream seed)"
  unfolding small_again_def flat_words by (auto simp: DeckSize_def)

definition one_draw :: "move list" where
  "one_draw = [\<lparr>mv_Kind = Draw, mv_Column = NoColumn\<rparr>]"

lemma flat_replay: "\<exists>b. Replay flat_sha seed one_draw = Some (b, None) \<and> bd_Moves b = 1"
proof -
  obtain d where d: "Shuffle flat_sha seed = Some d" "mset d = mset [0..<DeckSize]"
    using shuffleWith_some [OF flat_small] by (auto simp: Shuffle_def)
  from d(2) have len: "length d = 52" by (metis DeckSize_def diff_zero length_upt size_mset)
  have wf: "board_wf (layout d)" by (rule layout_wf) (rule d(2))
  have "Over (layout d) = None"
    using len by (simp add: Over_def board_Cleared_def layout_def game_consts upt_rec)
  then show ?thesis using d len
    by (simp add: Replay_def Deal_def one_draw_def board_Apply_def board_Check_def Draw_def Play_def layout_def
        game_consts Let_def)
qed

theorem Replay_keeps_deck_witness:
  "\<exists>b. Replay flat_sha [] one_draw = Some (b, None) \<and> bd_Moves b = 1 \<and> Score b \<le> 4800"
proof -
  obtain b where b: "Replay flat_sha [] one_draw = Some (b, None)" "bd_Moves b = 1"
    using flat_replay by blast
  with Replay_keeps_deck [OF b(1)] show ?thesis by blast
qed

theorem Over_iff_no_move_witness:
  "\<exists>b. Replay flat_sha [] one_draw = Some (b, None) \<and> (Over b \<noteq> None \<longleftrightarrow> (\<forall>m. board_Check m b \<noteq> None))"
proof -
  obtain b where b: "Replay flat_sha [] one_draw = Some (b, None)" using flat_replay by blast
  with Over_iff_no_move [OF b] show ?thesis by blast
qed

theorem shuffleWith_returns_witness:
  "\<exists>d. shuffleWith (next32 flat_sha) (newStream []) = Some d \<and> mset d = mset [0..<DeckSize]"
  by (rule shuffleWith_returns) (use flat_small in \<open>simp add: small_again_def\<close>)

end
