(* ===== verification/Tournament.thy ===== *)
theory Tournament
  imports Ledger Game
begin

text \<open>
  Package \<^verbatim>\<open>internal/tournament\<close>, its data: \<^verbatim>\<open>tournament.go\<close> (rules, commands, results, the tournament
  record), \<^verbatim>\<open>play.go\<close> (device bindings, play commands, rounds, events) and the shape checks and
  canonical forms of \<^verbatim>\<open>codec.go\<close>.

  A rejection's text is kept as its format string with the arguments given to \<^verbatim>\<open>fmt.Sprintf\<close>
  (\<open>detail\<close>), not rendered. Result codes and other enumerations that the source keeps as strings
  are datatypes. A nil or foreign \<^verbatim>\<open>Op\<close> is the constructor \<open>UnknownOp\<close>.
\<close>

section \<open>Rules and players (tournament.go)\<close>

type_synonym tournament_id = string
type_synonym player_id = string
type_synonym idempotency_key = string
type_synonym device_id = string
type_synonym digest = string

datatype status = Open | Closed | Voided | Settled

fun status_String :: "status \<Rightarrow> string" where
  "status_String Open = ''open''"
| "status_String Closed = ''closed''"
| "status_String Voided = ''voided''"
| "status_String Settled = ''settled''"

definition status_UnmarshalText :: "string \<Rightarrow> status option" where
  "status_UnmarshalText b = find (\<lambda>s. status_String s = b) [Open, Closed, Voided, Settled]"

definition EarliestSubmission :: string where "EarliestSubmission = ''earliest_submission''"
definition Split :: string where "Split = ''split''"

record exclusions =
  ex_Version :: nat
  ex_Jurisdictions :: "string list"

definition Contains :: "exclusions \<Rightarrow> string \<Rightarrow> bool" where
  "Contains e j \<longleftrightarrow> j \<in> set (ex_Jurisdictions e)"

record player =
  pl_ID :: player_id
  pl_Jurisdiction :: string
  pl_Age :: int

record rules =
  ru_EntryFee :: money
  ru_RakeBps :: nat
  ru_PrizeBps :: "nat list"
  ru_MinEntrants :: int
  ru_MaxEntrants :: int
  ru_MaxScore :: int
  ru_MinAge :: int
  ru_TieBreak :: string
  ru_Exclusions :: exclusions
  ru_Game :: string

section \<open>Commands (tournament.go, play.go)\<close>

record createTournament =
  ct_ID :: tournament_id
  ct_Seed :: nat
  ct_Rules :: rules

record joinCmd =
  jo_Tournament :: tournament_id
  jo_Player :: player

record submitScore =
  ss_Tournament :: tournament_id
  ss_Player :: player_id
  ss_Score :: int
  ss_DealSeed :: nat
  ss_InputDigest :: digest

record closeCmd =
  cl_Tournament :: tournament_id

record settleCmd =
  se_Tournament :: tournament_id
  se_Exclusions :: exclusions

record openSessionCmd =
  os_Device :: device_id
  os_Verifier :: digest
  os_Player :: player_id
  os_Jurisdiction :: string
  os_Age :: int

record enterCmd =
  et_Tournament :: tournament_id
  et_Player :: player_id
  et_Seq :: nat

record startRoundCmd =
  sr_Tournament :: tournament_id
  sr_Player :: player_id
  sr_Seq :: nat
  sr_Round :: int
  sr_Seed :: seed

record playMoveCmd =
  pm_Tournament :: tournament_id
  pm_Player :: player_id
  pm_Seq :: nat
  pm_Round :: int
  pm_MoveIndex :: int
  pm_Move :: move

record finishRoundOp =
  fr_Tournament :: tournament_id
  fr_Player :: player_id
  fr_Seq :: nat
  fr_Round :: int

record claimPayoutCmd =
  cp_Tournament :: tournament_id
  cp_Player :: player_id
  cp_Seq :: nat

datatype op =
    CreateTournament createTournament
  | Join joinCmd
  | SubmitScore submitScore
  | Close closeCmd
  | Settle settleCmd
  | OpenSession openSessionCmd
  | Enter enterCmd
  | StartRound startRoundCmd
  | PlayMove playMoveCmd
  | FinishRound finishRoundOp
  | ClaimPayout claimPayoutCmd
  | UnknownOp

record command =
  cm_Key :: idempotency_key
  cm_ReceivedAt :: int
  cm_Op :: op

section \<open>Results (tournament.go, play.go)\<close>

datatype code =
    OK | KeyReused | InvalidKey | OutOfOrder | InvalidOp | InvalidRules | TournamentExists
  | UnknownTournament | NotOpen | TournamentFull | AlreadyJoined | JurisdictionExcluded | Underage
  | InvalidPlayer | NotJoined | AlreadyScored | SeedMismatch | ScoreOutOfRange | NotClosed
  | InvalidExclusions | LedgerConflict
  | InvalidDevice | DeviceMismatch | PlayerExists | UnknownPlayer | StaleSeq | SeqGap
  | NotPlayTournament | PlayIntentRequired | InvalidRound | RoundAlreadyStarted
  | PreviousRoundUnfinished | RoundNotStarted | RoundFinished | RoundExpired | MoveIndexMismatch
  | IllegalMove | NotSettled | NoPayout | AlreadyClaimed

text \<open>\<open>Fmt f args\<close> is \<^verbatim>\<open>fmt.Sprintf(f, args...)\<close>; \<open>NoDetail\<close> the empty string.\<close>

datatype detail_arg =
    ArgStr string | ArgInt int | ArgNat nat | ArgLedger ledger_error | ArgMove move_error
  | ArgReason "finish_reason option"

datatype detail = NoDetail | Fmt string "detail_arg list"

record playOutcome =
  oc_Player :: player_id
  oc_NewPlayer :: bool
  oc_IssuedAtMs :: int
  oc_NextSeq :: nat
  oc_Round :: int
  oc_MoveIndex :: int
  oc_JoinSeq :: nat
  oc_Amount :: money

definition no_outcome :: playOutcome where
  "no_outcome = \<lparr>oc_Player = [], oc_NewPlayer = False, oc_IssuedAtMs = 0, oc_NextSeq = 0, oc_Round = 0,
     oc_MoveIndex = 0, oc_JoinSeq = 0, oc_Amount = 0\<rparr>"

record result =
  re_Code :: code
  re_Replayed :: bool
  re_Detail :: detail
  re_Slot :: slot
  re_Seed :: nat
  re_Play :: playOutcome

definition result_OK :: "result \<Rightarrow> bool" where
  "result_OK r \<longleftrightarrow> re_Code r = OK"

section \<open>The tournament record (tournament.go)\<close>

record entry =
  en_Player :: player
  en_JoinSeq :: nat
  en_ExclusionVersion :: nat
  en_Scored :: bool
  en_Score :: int
  en_SubmitSeq :: nat
  en_InputDigest :: digest

record standing =
  sg_Place :: int
  sg_Player :: player_id
  sg_Score :: int
  sg_Scored :: bool
  sg_SubmitSeq :: nat

record payout =
  pa_Player :: player_id
  pa_Place :: int
  pa_Amount :: money
  pa_Withheld :: bool
  pa_Reason :: string
  pa_ExclusionVersion :: nat
  pa_Key :: posting_key

record tournament =
  to_ID :: tournament_id
  to_Seed :: nat
  to_Rules :: rules
  to_Status :: status
  to_Entries :: "entry list"
  to_Fees :: money
  to_Rake :: money
  to_Pool :: money
  to_Standings :: "standing list"
  to_Payouts :: "payout list"
  to_CreatedAt :: slot
  to_ClosedAt :: slot
  to_SettledAt :: slot
  to_Ballot :: ballot

definition zero_digest :: digest where
  "zero_digest = replicate 32 (CHR 0x00)"

definition entry_id :: "entry \<Rightarrow> player_id" where
  "entry_id e = pl_ID (en_Player e)"

definition tournament_Entry :: "tournament \<Rightarrow> player_id \<Rightarrow> entry option" where
  "tournament_Entry t p = find (\<lambda>e. entry_id e = p) (to_Entries t)"

definition ScoredCount :: "tournament \<Rightarrow> nat" where
  "ScoredCount t = length (filter en_Scored (to_Entries t))"

definition Voids :: "tournament \<Rightarrow> bool" where
  "Voids t \<longleftrightarrow> int (ScoredCount t) < ru_MinEntrants (to_Rules t)"

section \<open>Play records (play.go)\<close>

record binding =
  bi_Device :: device_id
  bi_Verifier :: digest
  bi_Player :: player_id
  bi_Jurisdiction :: string
  bi_Age :: int
  bi_BoundAt :: slot

record playerRecord =
  pr_Binding :: binding
  pr_LastSeq :: nat

datatype roundStatus = RoundInPlay | RoundDone

fun roundStatus_String :: "roundStatus \<Rightarrow> string" where
  "roundStatus_String RoundInPlay = ''playing''"
| "roundStatus_String RoundDone = ''finished''"

record roundRecord =
  rr_Tournament :: tournament_id
  rr_Player :: player_id
  rr_Round :: int
  rr_Seed :: seed
  rr_Moves :: "move list"
  rr_Status :: roundStatus
  rr_Reason :: "finish_reason option"
  rr_Cleared :: int
  rr_Score :: int
  rr_StartedAt :: slot
  rr_StartedAtMs :: int
  rr_DeadlineMs :: int
  rr_FinishedAt :: slot
  rr_UpdatedAt :: slot

datatype eventType =
    EventTournamentStatus | EventLeaderboardChanged | EventRoundStarted | EventRoundFinished
  | EventEntryScored | EventPayoutAvailable | EventPayoutClaimed

record eventRecord =
  ev_Slot :: slot
  ev_Type :: eventType
  ev_Tournament :: tournament_id
  ev_Player :: player_id
  ev_Round :: int
  ev_Status :: string
  ev_Score :: int
  ev_TotalScore :: int
  ev_RoundsFinished :: int
  ev_Amount :: money
  ev_TimeMs :: int

text \<open>An event literal of the source names the fields it sets; the others are zero.\<close>

definition mk_event :: "slot \<Rightarrow> eventType \<Rightarrow> tournament_id \<Rightarrow> eventRecord" where
  "mk_event sl ty tid = \<lparr>ev_Slot = sl, ev_Type = ty, ev_Tournament = tid, ev_Player = [], ev_Round = 0,
     ev_Status = [], ev_Score = 0, ev_TotalScore = 0, ev_RoundsFinished = 0, ev_Amount = 0, ev_TimeMs = 0\<rparr>"

section \<open>Names and canonical forms (codec.go)\<close>

fun OpName :: "op \<Rightarrow> string" where
  "OpName (CreateTournament _) = ''create_tournament''"
| "OpName (Join _) = ''join''"
| "OpName (SubmitScore _) = ''submit_score''"
| "OpName (Close _) = ''close''"
| "OpName (Settle _) = ''settle''"
| "OpName (OpenSession _) = ''open_session''"
| "OpName (Enter _) = ''enter''"
| "OpName (StartRound _) = ''start_round''"
| "OpName (PlayMove _) = ''play_move''"
| "OpName (FinishRound _) = ''finish_round''"
| "OpName (ClaimPayout _) = ''claim_payout''"
| "OpName UnknownOp = []"

fun TournamentOf :: "op \<Rightarrow> tournament_id" where
  "TournamentOf (CreateTournament c) = ct_ID c"
| "TournamentOf (Join c) = jo_Tournament c"
| "TournamentOf (SubmitScore c) = ss_Tournament c"
| "TournamentOf (Close c) = cl_Tournament c"
| "TournamentOf (Settle c) = se_Tournament c"
| "TournamentOf (Enter c) = et_Tournament c"
| "TournamentOf (StartRound c) = sr_Tournament c"
| "TournamentOf (PlayMove c) = pm_Tournament c"
| "TournamentOf (FinishRound c) = fr_Tournament c"
| "TournamentOf (ClaimPayout c) = cp_Tournament c"
| "TournamentOf (OpenSession _) = []"
| "TournamentOf UnknownOp = []"

definition dedup_first :: "string list \<Rightarrow> string list" where
  "dedup_first xs = fold (\<lambda>j out. if j \<in> set out then out else out @ [j]) xs []"

definition canonicalExclusions :: "exclusions \<Rightarrow> exclusions" where
  "canonicalExclusions e = \<lparr>ex_Version = ex_Version e, ex_Jurisdictions = sort (dedup_first (ex_Jurisdictions e))\<rparr>"

definition canonicalRules :: "rules \<Rightarrow> rules" where
  "canonicalRules r = r\<lparr>ru_Exclusions := canonicalExclusions (ru_Exclusions r)\<rparr>"

fun Canonical :: "op \<Rightarrow> op" where
  "Canonical (CreateTournament c) = CreateTournament (c\<lparr>ct_Rules := canonicalRules (ct_Rules c)\<rparr>)"
| "Canonical (Settle c) = Settle (c\<lparr>se_Exclusions := canonicalExclusions (se_Exclusions c)\<rparr>)"
| "Canonical x = x"

text \<open>The part of a command a fingerprint covers: the canonical payload with the values a server draws
  cleared. \<open>fp\<close> stands for SHA-256 over the op name, a zero byte and the JSON of the payload.\<close>

definition zero_seed :: seed where
  "zero_seed = replicate 32 (CHR 0x00)"

fun clear_drawn :: "op \<Rightarrow> op" where
  "clear_drawn (CreateTournament c) = CreateTournament (c\<lparr>ct_Seed := 0\<rparr>)"
| "clear_drawn (OpenSession c) = OpenSession (c\<lparr>os_Player := []\<rparr>)"
| "clear_drawn (StartRound c) = StartRound (c\<lparr>sr_Seed := zero_seed\<rparr>)"
| "clear_drawn x = x"

definition Fingerprint :: "(string \<Rightarrow> op \<Rightarrow> string) \<Rightarrow> command \<Rightarrow> string" where
  "Fingerprint fp c = (let x = clear_drawn (Canonical (cm_Op c)) in fp (OpName x) x)"

section \<open>Shape checks (codec.go)\<close>

definition MaxKeyLen :: nat where "MaxKeyLen = 128"
definition MaxIDLen :: nat where "MaxIDLen = 64"
definition MaxEntryFee :: int where "MaxEntryFee = 1000000000000"
definition MaxEntrantsBound :: int where "MaxEntrantsBound = 1000000"
definition MaxPrizePlaces :: nat where "MaxPrizePlaces = 1000"
definition MaxJurisdictions :: nat where "MaxJurisdictions = 1000"

definition ValidateKey :: "idempotency_key \<Rightarrow> detail option" where
  "ValidateKey k =
     (if k = [] then Some (Fmt ''idempotency key is empty'' [])
      else if length k > MaxKeyLen
      then Some (Fmt ''idempotency key is %d bytes, limit %d'' [ArgNat (length k), ArgNat MaxKeyLen])
      else case find (\<lambda>i. k ! i \<le> CHR '' '' \<or> CHR ''~'' < k ! i) [0..<length k] of
        Some i \<Rightarrow> Some (Fmt ''idempotency key has a byte 0x%02x at position %d that is not printable ASCII''
                     [ArgNat (of_char (k ! i)), ArgNat i])
      | None \<Rightarrow> None)"

definition id_char :: "char \<Rightarrow> bool" where
  "id_char c \<longleftrightarrow> byte_between (CHR ''a'') (CHR ''z'') c \<or> byte_between (CHR ''A'') (CHR ''Z'') c \<or>
     byte_between (CHR ''0'') (CHR ''9'') c \<or> c = CHR ''.'' \<or> c = CHR ''_'' \<or> c = CHR ''-''"

definition validID :: "string \<Rightarrow> bool" where
  "validID s \<longleftrightarrow> 1 \<le> length s \<and> length s \<le> MaxIDLen \<and> list_all id_char s"

definition ValidateTournamentID :: "tournament_id \<Rightarrow> detail option" where
  "ValidateTournamentID i = (if validID i then None else Some (Fmt ''tournament id must be %s'' []))"

definition validJurisdiction :: "string \<Rightarrow> bool" where
  "validJurisdiction j \<longleftrightarrow> 2 \<le> length j \<and> length j \<le> 8 \<and> list_all (byte_between (CHR ''A'') (CHR ''Z'')) j"

definition ValidateExclusions :: "exclusions \<Rightarrow> detail option" where
  "ValidateExclusions e =
     (if length (ex_Jurisdictions e) > MaxJurisdictions
      then Some (Fmt ''exclusion list has %d jurisdictions, limit %d''
             [ArgNat (length (ex_Jurisdictions e)), ArgNat MaxJurisdictions])
      else case find (\<lambda>j. \<not> validJurisdiction j) (ex_Jurisdictions e) of
        Some j \<Rightarrow> Some (Fmt ''jurisdiction %q is not 2 to 8 upper-case letters'' [ArgStr j])
      | None \<Rightarrow> None)"

definition ValidatePlayer :: "player \<Rightarrow> detail option" where
  "ValidatePlayer p =
     (if \<not> validID (pl_ID p) then Some (Fmt ''player id must be %s'' [])
      else if \<not> validJurisdiction (pl_Jurisdiction p)
      then Some (Fmt ''jurisdiction %q is not 2 to 8 upper-case letters'' [ArgStr (pl_Jurisdiction p)])
      else if pl_Age p < 0 \<or> pl_Age p > 150 then Some (Fmt ''age %d is outside 0..150'' [ArgInt (pl_Age p)])
      else None)"

definition first_zero :: "nat list \<Rightarrow> nat option" where
  "first_zero bs = find (\<lambda>i. bs ! i = 0) [0..<length bs]"

definition bps_sum :: "nat list \<Rightarrow> nat" where
  "bps_sum bs = fold (\<lambda>b s. u64 (s + b)) bs 0"

definition validate_game :: "rules \<Rightarrow> detail option" where
  "validate_game r =
     (if ru_Game r = [] then None
      else if ru_Game r = LadderV1 then
        (if ru_MaxScore r \<noteq> MaxTotalScore
         then Some (Fmt ''max_score %d must be %d for game %q''
                [ArgInt (ru_MaxScore r), ArgInt MaxTotalScore, ArgStr (ru_Game r)])
         else None)
      else Some (Fmt ''game %q is not %q'' [ArgStr (ru_Game r), ArgStr LadderV1]))"

definition ValidateRules :: "rules \<Rightarrow> detail option" where
  "ValidateRules r =
     (if ru_EntryFee r \<le> 0 then Some (Fmt ''entry_fee must be positive'' [])
      else if ru_EntryFee r > MaxEntryFee
      then Some (Fmt ''entry_fee %d exceeds the limit %d'' [ArgInt (ru_EntryFee r), ArgInt MaxEntryFee])
      else if ru_RakeBps r > 9999 then Some (Fmt ''rake_bps %d exceeds 9999'' [ArgNat (ru_RakeBps r)])
      else if ru_PrizeBps r = [] then Some (Fmt ''prize_bps must have at least one place'' [])
      else if length (ru_PrizeBps r) > MaxPrizePlaces
      then Some (Fmt ''prize_bps has %d places, limit %d'' [ArgNat (length (ru_PrizeBps r)), ArgNat MaxPrizePlaces])
      else case first_zero (ru_PrizeBps r) of
        Some i \<Rightarrow> Some (Fmt ''prize_bps[%d] is zero'' [ArgNat i])
      | None \<Rightarrow>
     (if bps_sum (ru_PrizeBps r) \<noteq> 10000
      then Some (Fmt ''prize_bps sum to %d, want 10000'' [ArgNat (bps_sum (ru_PrizeBps r))])
      else if ru_MinEntrants r < int (length (ru_PrizeBps r))
      then Some (Fmt ''min_entrants %d is below the %d prize places''
             [ArgInt (ru_MinEntrants r), ArgNat (length (ru_PrizeBps r))])
      else if ru_MaxEntrants r < ru_MinEntrants r
      then Some (Fmt ''max_entrants %d is below min_entrants %d'' [ArgInt (ru_MaxEntrants r), ArgInt (ru_MinEntrants r)])
      else if ru_MaxEntrants r > MaxEntrantsBound
      then Some (Fmt ''max_entrants %d exceeds the limit %d'' [ArgInt (ru_MaxEntrants r), ArgInt MaxEntrantsBound])
      else if ru_MaxScore r < 0 then Some (Fmt ''max_score must not be negative'' [])
      else if ru_MinAge r < 0 then Some (Fmt ''min_age must not be negative'' [])
      else if ru_TieBreak r \<noteq> EarliestSubmission \<and> ru_TieBreak r \<noteq> Split
      then Some (Fmt ''tie_break %q is not %q or %q'' [ArgStr (ru_TieBreak r), ArgStr EarliestSubmission, ArgStr Split])
      else case ValidateExclusions (ru_Exclusions r) of
        Some err \<Rightarrow> Some err
      | None \<Rightarrow> validate_game r))"

section \<open>What the checks establish\<close>

lemma find_index_None: "find P xs = None \<longleftrightarrow> (\<forall>x\<in>set xs. \<not> P x)"
  by (auto simp: find_None_iff)

lemma fold_u64_sum:
  "(\<And>b. b \<in> set bs \<Longrightarrow> b < 2 ^ 32) \<Longrightarrow> s + length bs * 2 ^ 32 < 2 ^ 64 \<Longrightarrow>
     fold (\<lambda>b s. u64 (s + b)) bs s = s + sum_list bs"
proof (induction bs arbitrary: s)
  case (Cons b bs)
  have b: "b < 2 ^ 32" using Cons.prems(1) by simp
  with Cons.prems(2) have lt: "s + b + length bs * 2 ^ 32 < 2 ^ 64" by simp
  then have "u64 (s + b) = s + b" by (intro u64_id) simp
  with Cons.IH [OF _ lt] Cons.prems(1) show ?case by simp
qed simp

definition rules_ok :: "rules \<Rightarrow> bool" where
  "rules_ok r \<longleftrightarrow>
     0 < ru_EntryFee r \<and> ru_EntryFee r \<le> MaxEntryFee \<and> ru_RakeBps r \<le> 9999 \<and>
     ru_PrizeBps r \<noteq> [] \<and> length (ru_PrizeBps r) \<le> MaxPrizePlaces \<and>
     (\<forall>b\<in>set (ru_PrizeBps r). 0 < b) \<and> sum_list (ru_PrizeBps r) = 10000 \<and>
     int (length (ru_PrizeBps r)) \<le> ru_MinEntrants r \<and> ru_MinEntrants r \<le> ru_MaxEntrants r \<and>
     ru_MaxEntrants r \<le> MaxEntrantsBound \<and> 0 \<le> ru_MaxScore r \<and>
     (ru_TieBreak r = EarliestSubmission \<or> ru_TieBreak r = Split) \<and>
     (ru_Game r = [] \<or> ru_Game r = LadderV1 \<and> ru_MaxScore r = MaxTotalScore)"

text \<open>\<open>rules_typed\<close>: the shares fit the source's \<^verbatim>\<open>uint32\<close>.\<close>

definition rules_typed :: "rules \<Rightarrow> bool" where
  "rules_typed r \<longleftrightarrow> (\<forall>b\<in>set (ru_PrizeBps r). b < 2 ^ 32)"

lemma ValidateRules_ok:
  assumes v: "ValidateRules r = None" and ty: "rules_typed r"
  shows "rules_ok r"
proof -
  from v have len: "length (ru_PrizeBps r) \<le> MaxPrizePlaces" and z: "first_zero (ru_PrizeBps r) = None"
    and s: "bps_sum (ru_PrizeBps r) = 10000"
    by (auto simp: ValidateRules_def split: if_splits option.splits)
  have "0 + length (ru_PrizeBps r) * 2 ^ 32 < (2 :: nat) ^ 64" using len by (simp add: MaxPrizePlaces_def)
  with ty s have sum: "sum_list (ru_PrizeBps r) = 10000"
    by (simp only: rules_typed_def bps_sum_def fold_u64_sum)
  from z have "\<forall>i<length (ru_PrizeBps r). ru_PrizeBps r ! i \<noteq> 0"
    by (auto simp: first_zero_def find_index_None)
  then have pos: "\<forall>b\<in>set (ru_PrizeBps r). 0 < b" by (metis in_set_conv_nth neq0_conv)
  have game: "ru_Game r = [] \<or> ru_Game r = LadderV1 \<and> ru_MaxScore r = MaxTotalScore"
    using v by (auto simp: ValidateRules_def validate_game_def split: if_splits option.splits)
  show ?thesis using v len sum pos game unfolding rules_ok_def
    by (simp add: ValidateRules_def split: if_splits option.splits)
qed

lemma id_char_not: "id_char c \<Longrightarrow> c \<noteq> CHR '':'' \<and> c \<noteq> CHR 0x00"
  by (auto simp: id_char_def byte_between_def less_eq_char_def)

lemma validID_no_colon: "validID s \<Longrightarrow> no_colon s"
  by (auto simp: validID_def no_colon_def list_all_iff dest: id_char_not)

lemma set_dedup_fold: "set (fold (\<lambda>j out. if j \<in> set out then out else out @ [j]) xs ys) = set xs \<union> set ys"
  by (induction xs arbitrary: ys) auto

lemma distinct_dedup_fold:
  "distinct ys \<Longrightarrow> distinct (fold (\<lambda>j out. if j \<in> set out then out else out @ [j]) xs ys)"
  by (induction xs arbitrary: ys) auto

lemma Contains_canonical [simp]: "Contains (canonicalExclusions e) j = Contains e j"
  by (simp add: Contains_def canonicalExclusions_def dedup_first_def set_dedup_fold)

lemma rules_ok_canonical [simp]: "rules_ok (canonicalRules r) = rules_ok r"
  by (simp add: rules_ok_def canonicalRules_def)

lemma Canonical_idem [simp]: "Canonical (Canonical x) = Canonical x"
proof -
  have "dedup_first xs = xs" if "distinct xs" for xs
  proof -
    have "distinct (ys @ xs) \<Longrightarrow> fold (\<lambda>j out. if j \<in> set out then out else out @ [j]) xs ys = ys @ xs" for ys
      by (induction xs arbitrary: ys) auto
    from this [of "[]"] that show ?thesis by (simp add: dedup_first_def)
  qed
  moreover have "distinct (dedup_first xs)" for xs by (simp add: dedup_first_def distinct_dedup_fold)
  ultimately have "canonicalExclusions (canonicalExclusions e) = canonicalExclusions e" for e
    by (simp add: canonicalExclusions_def sorted_sort_id)
  then show ?thesis by (cases x) (simp_all add: canonicalRules_def)
qed

end
