(* ===== verification/Compute.thy ===== *)
theory Compute
  imports Tournament
begin

text \<open>
  Package \<^verbatim>\<open>internal/tournament\<close>, \<^verbatim>\<open>compute.go\<close>: standings, prize pool and payouts in integer arithmetic.
  Every addition, subtraction and product is wrapped to 64 bits and the divisions truncate as Go's
  do; the lemmas show that under the bounds of \<^verbatim>\<open>ValidateRules\<close> nothing wraps and that no unit of
  money is lost or made by the rounding.
\<close>

section \<open>Definitions (compute.go)\<close>

definition bps :: "money \<Rightarrow> nat \<Rightarrow> money" where
  "bps x b =
     (let q = x sdiv 10000; r = x smod 10000
      in s64 (s64 (q * int b) + s64 (r * int b) sdiv 10000))"

fun rank_scored :: "bool \<Rightarrow> nat \<Rightarrow> standing option \<Rightarrow> entry list \<Rightarrow> standing list" where
  "rank_scored split i prev [] = []"
| "rank_scored split i prev (e # es) =
     (let place = (case prev of
                     Some p \<Rightarrow> if split \<and> en_Score e = sg_Score p then sg_Place p else int i + 1
                   | None \<Rightarrow> int i + 1);
          s = \<lparr>sg_Place = place, sg_Player = entry_id e, sg_Score = en_Score e, sg_Scored = True,
               sg_SubmitSeq = en_SubmitSeq e\<rparr>
      in s # rank_scored split (i + 1) (Some s) es)"

fun rank_unscored :: "nat \<Rightarrow> entry list \<Rightarrow> standing list" where
  "rank_unscored n [] = []"
| "rank_unscored n (e # es) =
     \<lparr>sg_Place = int n + 1, sg_Player = entry_id e, sg_Score = 0, sg_Scored = False, sg_SubmitSeq = 0\<rparr>
     # rank_unscored (n + 1) es"

definition score_key :: "entry \<Rightarrow> int \<times> nat" where
  "score_key e = (- en_Score e, en_SubmitSeq e)"

definition ComputeStandings :: "tournament \<Rightarrow> standing list" where
  "ComputeStandings t =
     (let scored = sort_key score_key (filter en_Scored (to_Entries t));
          unscored = sort_key en_JoinSeq (filter (\<lambda>e. \<not> en_Scored e) (to_Entries t));
          out = rank_scored (ru_TieBreak (to_Rules t) = Split) 0 None scored
      in out @ rank_unscored (length out) unscored)"

definition ComputePool :: "tournament \<Rightarrow> money \<times> money \<times> money" where
  "ComputePool t =
     (let fees = s64 (ru_EntryFee (to_Rules t) * int (length (to_Entries t)))
      in if Voids t then (fees, 0, fees)
         else (let rake = bps fees (ru_RakeBps (to_Rules t)) in (fees, rake, s64 (fees - rake))))"

definition prize_shares :: "money \<Rightarrow> nat list \<Rightarrow> money list" where
  "prize_shares pool bs =
     (let share = map (bps pool) bs; total = fold (\<lambda>v acc. s64 (acc + v)) share 0
      in case share of [] \<Rightarrow> [] | x # xs \<Rightarrow> s64 (x + s64 (pool - total)) # xs)"

definition same_score :: "standing \<Rightarrow> standing \<Rightarrow> bool" where
  "same_score s s' \<longleftrightarrow> sg_Score s' = sg_Score s \<and> sg_Scored s' = sg_Scored s"

definition group_amounts :: "money list \<Rightarrow> money list" where
  "group_amounts ms =
     (let total = fold (\<lambda>v acc. s64 (acc + v)) ms 0; cnt = int (length ms);
          each = total sdiv cnt; rest = total smod cnt
      in map (\<lambda>k. if int k < rest then s64 (each + 1) else each) [0..<length ms])"

function split_amounts :: "(standing \<times> money) list \<Rightarrow> money list" where
  "split_amounts [] = []"
| "split_amounts (x # xs) =
     group_amounts (snd x # map snd (takeWhile (\<lambda>y. same_score (fst x) (fst y)) xs)) @
     split_amounts (dropWhile (\<lambda>y. same_score (fst x) (fst y)) xs)"
  by pat_completeness auto
termination
  by (relation "measure length") (auto simp: le_imp_less_Suc length_dropWhile_le)

definition refund_payout :: "tournament \<Rightarrow> exclusions \<Rightarrow> entry \<Rightarrow> payout" where
  "refund_payout t ex e =
     \<lparr>pa_Player = entry_id e, pa_Place = 0, pa_Amount = ru_EntryFee (to_Rules t), pa_Withheld = False,
      pa_Reason = [], pa_ExclusionVersion = ex_Version ex, pa_Key = RefundKey (to_ID t) (entry_id e)\<rparr>"

definition prize_payout :: "tournament \<Rightarrow> exclusions \<Rightarrow> standing \<Rightarrow> money \<Rightarrow> payout" where
  "prize_payout t ex s amount =
     (let pid = sg_Player s;
          jur = (case tournament_Entry t pid of Some e \<Rightarrow> pl_Jurisdiction (en_Player e) | None \<Rightarrow> []);
          p = \<lparr>pa_Player = pid, pa_Place = sg_Place s, pa_Amount = amount, pa_Withheld = False, pa_Reason = [],
               pa_ExclusionVersion = ex_Version ex, pa_Key = []\<rparr>
      in if Contains ex jur
         then p\<lparr>pa_Withheld := True, pa_Reason := ''jurisdiction_excluded'',
                pa_Key := WithheldKey (to_ID t) pid (sg_Place s)\<rparr>
         else p\<lparr>pa_Key := PrizeKey (to_ID t) pid (sg_Place s)\<rparr>)"

definition payout_standings :: "tournament \<Rightarrow> standing list" where
  "payout_standings t = (if to_Standings t = [] then ComputeStandings t else to_Standings t)"

definition prize_amounts :: "tournament \<Rightarrow> money list" where
  "prize_amounts t =
     (let (_, _, pool) = ComputePool t; sts = payout_standings t;
          n = min (length (ru_PrizeBps (to_Rules t))) (length sts);
          share = prize_shares pool (take n (ru_PrizeBps (to_Rules t)))
      in if ru_TieBreak (to_Rules t) = Split then split_amounts (zip (take n sts) share) else share)"

definition ComputePayouts :: "tournament \<Rightarrow> exclusions \<Rightarrow> payout list" where
  "ComputePayouts t ex =
     (if Voids t then map (refund_payout t ex) (to_Entries t)
      else map (\<lambda>(s, amount). prize_payout t ex s amount) (zip (payout_standings t) (prize_amounts t)))"

section \<open>Standings\<close>

lemma rank_scored_length [simp]: "length (rank_scored sp i prev es) = length es"
  by (induction sp i prev es rule: rank_scored.induct) (simp_all add: Let_def)

lemma rank_unscored_length [simp]: "length (rank_unscored n es) = length es"
  by (induction n es rule: rank_unscored.induct) simp_all

lemma rank_scored_players [simp]: "map sg_Player (rank_scored sp i prev es) = map entry_id es"
  by (induction sp i prev es rule: rank_scored.induct) (simp_all add: Let_def)

lemma rank_unscored_players [simp]: "map sg_Player (rank_unscored n es) = map entry_id es"
  by (induction n es rule: rank_unscored.induct) simp_all

lemma standings_players: "mset (map sg_Player (ComputeStandings t)) = mset (map entry_id (to_Entries t))"
  by (simp add: ComputeStandings_def Let_def flip: image_mset_union)

lemma standings_length [simp]: "length (ComputeStandings t) = length (to_Entries t)"
  using arg_cong [OF standings_players, of size t] by simp

definition above :: "entry list \<Rightarrow> int \<Rightarrow> nat" where
  "above es sc = length (filter (\<lambda>x. sc < en_Score x) es)"

lemma above_append [simp]: "above (xs @ ys) sc = above xs sc + above ys sc"
  by (simp add: above_def)

lemma above_none: "(\<And>x. x \<in> set xs \<Longrightarrow> en_Score x \<le> sc) \<Longrightarrow> above xs sc = 0"
  by (auto simp: above_def filter_empty_conv not_less)

lemma above_all: "(\<And>x. x \<in> set xs \<Longrightarrow> sc < en_Score x) \<Longrightarrow> above xs sc = length xs"
  by (simp add: above_def filter_id_conv)

definition falling :: "entry list \<Rightarrow> bool" where
  "falling es \<longleftrightarrow> sorted_wrt (\<lambda>x y. en_Score y \<le> en_Score x) es"

lemma falling_middle:
  assumes "falling (pre @ e # es)"
  shows "above (pre @ e # es) (en_Score e) = above pre (en_Score e)"
proof -
  have "above (e # es) (en_Score e) = 0"
    by (rule above_none) (use assms in \<open>auto simp: falling_def sorted_wrt_append\<close>)
  then show ?thesis by simp
qed

lemma falling_place:
  assumes "falling (pre @ e # es)" and "pre \<noteq> []" and "en_Score e \<noteq> en_Score (last pre)"
  shows "above pre (en_Score e) = length pre"
proof (rule above_all)
  fix x assume x: "x \<in> set pre"
  have "en_Score e \<le> en_Score (last pre)" using assms(1,2) by (simp add: falling_def sorted_wrt_append)
  with assms(3) have lt: "en_Score e < en_Score (last pre)" by simp
  have "falling (butlast pre @ [last pre])" using assms(1,2) by (simp add: falling_def sorted_wrt_append)
  then have "\<forall>x\<in>set (butlast pre). en_Score (last pre) \<le> en_Score x"
    by (simp add: falling_def sorted_wrt_append del: append_butlast_last_id)
  moreover have "x \<in> set (butlast pre) \<or> x = last pre"
    using x assms(2) by (metis Un_iff append_butlast_last_id empty_iff empty_set set_ConsD set_append)
  ultimately have "en_Score (last pre) \<le> en_Score x" by auto
  with lt show "en_Score e < en_Score x" by simp
qed

definition prev_ok :: "entry list \<Rightarrow> standing option \<Rightarrow> bool" where
  "prev_ok pre prev \<longleftrightarrow>
     (case prev of None \<Rightarrow> pre = []
      | Some p \<Rightarrow> pre \<noteq> [] \<and> sg_Score p = en_Score (last pre) \<and> sg_Place p = int (above pre (sg_Score p)) + 1)"

lemma rank_scored_split_places:
  "falling (pre @ es) \<Longrightarrow> prev_ok pre prev \<Longrightarrow>
     map sg_Place (rank_scored True (length pre) prev es) =
     map (\<lambda>e. int (above (pre @ es) (en_Score e)) + 1) es"
proof (induction es arbitrary: pre prev)
  case (Cons e es)
  define s where "s = hd (rank_scored True (length pre) prev (e # es))"
  have sc: "sg_Score s = en_Score e" by (simp add: s_def Let_def)
  have place: "sg_Place s = int (above pre (en_Score e)) + 1"
  proof (cases prev)
    case None
    with Cons.prems(2) show ?thesis by (simp add: prev_ok_def s_def Let_def above_def)
  next
    case (Some p)
    with Cons.prems(2) have p: "pre \<noteq> []" "sg_Score p = en_Score (last pre)"
      "sg_Place p = int (above pre (sg_Score p)) + 1" by (auto simp: prev_ok_def)
    with Some falling_place [OF Cons.prems(1) p(1)] show ?thesis by (auto simp: s_def Let_def)
  qed
  have mid: "above (pre @ e # es) (en_Score e) = above pre (en_Score e)" by (rule falling_middle [OF Cons.prems(1)])
  have "above (pre @ [e]) (en_Score e) = above pre (en_Score e)" by (simp add: above_def)
  then have "prev_ok (pre @ [e]) (Some s)" by (simp add: prev_ok_def sc place)
  with Cons.IH [of "pre @ [e]" "Some s"] Cons.prems(1)
  have "map sg_Place (rank_scored True (length pre + 1) (Some s) es) =
      map (\<lambda>x. int (above (pre @ e # es) (en_Score x)) + 1) es" by simp
  then show ?case using place mid by (simp add: s_def Let_def)
qed simp

lemma rank_scored_places:
  "map sg_Place (rank_scored False i prev es) = map (\<lambda>k. int (i + k) + 1) [0..<length es]"
proof (induction es arbitrary: i prev)
  case (Cons e es)
  have "[0..<length (e # es)] = 0 # map Suc [0..<length es]" by (simp add: upt_conv_Cons map_Suc_upt del: upt_Suc)
  with Cons show ?case by (auto simp: Let_def split: option.splits)
qed simp

lemma sort_score_falling: "falling (sort_key score_key es)"
proof -
  have "sorted_wrt (\<lambda>x y. score_key x \<le> score_key y) (sort_key score_key es)"
    using sorted_sort_key [of score_key es] by (simp add: sorted_map)
  then show ?thesis unfolding falling_def
    by (rule sorted_wrt_mono_rel [rotated]) (auto simp: score_key_def less_eq_prod_def)
qed

section \<open>Basis points and shares\<close>

lemma sdiv_nonneg: "0 \<le> x \<Longrightarrow> 0 < d \<Longrightarrow> (x :: int) sdiv d = x div d"
  by (auto simp: signed_divide_int_def sgn_if)

lemma smod_nonneg: "0 \<le> x \<Longrightarrow> 0 < d \<Longrightarrow> (x :: int) smod d = x mod d"
  by (auto simp: signed_modulo_int_def sgn_if)

lemma bps_exact:
  assumes "0 \<le> x" and "x \<le> 10 ^ 18" and "b \<le> 10000"
  shows "bps x b = x * int b div 10000"
proof -
  let ?q = "x div 10000" and ?r = "x mod 10000"
  have q: "0 \<le> ?q" "?q \<le> 10 ^ 14" and r: "0 \<le> ?r" "?r \<le> 9999" using assms by auto
  have qb: "0 \<le> ?q * int b" "?q * int b \<le> 10 ^ 14 * 10000"
    using q assms(3) by (simp, intro mult_mono, simp_all)
  have rb: "0 \<le> ?r * int b" "?r * int b \<le> 9999 * 10000"
    using r assms(3) by (simp, intro mult_mono, simp_all)
  have d: "0 \<le> ?r * int b div 10000" "?r * int b div 10000 \<le> 9999"
    using rb(1) by (simp add: pos_imp_zdiv_nonneg_iff, use rb(2) in linarith)
  have s1: "s64 (?q * int b) = ?q * int b" using qb by (intro s64_bounded) simp_all
  have s2: "s64 (?r * int b) = ?r * int b" using rb by (intro s64_bounded) simp_all
  have s3: "s64 (?q * int b + ?r * int b div 10000) = ?q * int b + ?r * int b div 10000"
    using qb d by (intro s64_bounded) simp_all
  have "bps x b = ?q * int b + ?r * int b div 10000"
    using assms(1) rb by (simp add: bps_def Let_def sdiv_nonneg smod_nonneg s1 s2 s3)
  also have "\<dots> = (?q * 10000 + ?r) * int b div 10000"
    by (simp only: distrib_right mult.assoc mult.commute [of 10000] div_mult_self3)
  finally show ?thesis by simp
qed

lemma sum_div_le: "(\<Sum>b\<leftarrow>bs. x * int b div 10000) * 10000 \<le> x * int (sum_list bs)"
proof (induction bs)
  case (Cons b bs)
  have "x * int b div 10000 * 10000 \<le> x * int b" by simp
  with Cons show ?case by (simp add: distrib_left)
qed simp

lemma fold_s64_total:
  assumes "in_s64 (sum_list ms)"
  shows "fold (\<lambda>v acc. s64 (acc + v)) ms 0 = sum_list ms"
  using fold_s64_sum [of ms 0] assms by (simp add: s64_id)

lemma sum_list_nonneg_le: "(\<And>x. x \<in> set xs \<Longrightarrow> 0 \<le> x) \<Longrightarrow> x \<in> set xs \<Longrightarrow> (x :: int) \<le> sum_list xs"
  by (rule member_le_sum_list) auto

lemma prize_shares_exact:
  assumes "0 \<le> pool" and "pool \<le> 10 ^ 18" and "bs \<noteq> []" and "sum_list bs = 10000"
  shows "sum_list (prize_shares pool bs) = pool \<and> (\<forall>m\<in>set (prize_shares pool bs). 0 \<le> m) \<and>
    length (prize_shares pool bs) = length bs"
proof -
  let ?f = "\<lambda>b. pool * int b div 10000"
  have le: "b \<le> 10000" if "b \<in> set bs" for b using member_le_sum_list [OF that] assms(4) by simp
  have share: "map (bps pool) bs = map ?f bs" using le assms by (simp add: bps_exact)
  have sum: "(\<Sum>b\<leftarrow>bs. ?f b) \<le> pool" using sum_div_le [of pool bs] assms(4) by simp
  have nonneg: "0 \<le> ?f b" for b using assms(1) by (simp add: pos_imp_zdiv_nonneg_iff)
  have sum0: "0 \<le> (\<Sum>b\<leftarrow>bs. ?f b)" by (rule sum_list_nonneg) (use nonneg in auto)
  have tot: "fold (\<lambda>v acc. s64 (acc + v)) (map ?f bs) 0 = (\<Sum>b\<leftarrow>bs. ?f b)"
    using sum sum0 assms(2) by (intro fold_s64_total) (simp add: in_s64_def)
  obtain b bs' where bs: "bs = b # bs'" using assms(3) by (cases bs) auto
  have rest0: "0 \<le> (\<Sum>b\<leftarrow>bs'. ?f b)" by (rule sum_list_nonneg) (use nonneg in auto)
  have s1: "s64 (pool - (\<Sum>b\<leftarrow>bs. ?f b)) = pool - (\<Sum>b\<leftarrow>bs. ?f b)"
    using sum sum0 assms(1,2) by (intro s64_id) (simp add: in_s64_def)
  have s2: "s64 (?f b + (pool - (\<Sum>b\<leftarrow>bs. ?f b))) = pool - (\<Sum>b\<leftarrow>bs'. ?f b)"
    using sum sum0 rest0 nonneg [of b] assms(1,2) by (subst s64_id) (simp_all add: in_s64_def bs)
  have "prize_shares pool bs = (pool - (\<Sum>b\<leftarrow>bs'. ?f b)) # map ?f bs'"
    unfolding prize_shares_def share Let_def tot s1 using s2 by (simp add: bs)
  moreover have "(\<Sum>b\<leftarrow>bs'. ?f b) \<le> pool" using sum nonneg [of b] by (simp add: bs)
  ultimately show ?thesis using nonneg by (auto simp: bs)
qed

section \<open>Tie groups\<close>

lemma count_below: "(\<Sum>k\<leftarrow>[0..<n]. if int k < r then (1 :: int) else 0) = max 0 (min (int n) r)"
  by (induction n) auto

lemma group_amounts_exact:
  assumes nonneg: "\<And>m. m \<in> set ms \<Longrightarrow> 0 \<le> m" and le: "sum_list ms \<le> 10 ^ 18" and ne: "ms \<noteq> []"
  shows "sum_list (group_amounts ms) = sum_list ms \<and> (\<forall>m\<in>set (group_amounts ms). 0 \<le> m) \<and>
    length (group_amounts ms) = length ms"
proof -
  let ?n = "int (length ms)" and ?t = "sum_list ms"
  have t0: "0 \<le> ?t" using nonneg by (auto intro: sum_list_nonneg)
  have n: "0 < ?n" using ne by simp
  have tot: "fold (\<lambda>v acc. s64 (acc + v)) ms 0 = ?t"
    using t0 le by (intro fold_s64_total) (simp add: in_s64_def)
  have each: "0 \<le> ?t div ?n" "?t div ?n \<le> 10 ^ 18"
  proof -
    show "0 \<le> ?t div ?n" using t0 n by (simp add: pos_imp_zdiv_nonneg_iff)
    have "?t div ?n \<le> ?t div 1" by (rule zdiv_mono2) (use t0 n in linarith)+
    with le show "?t div ?n \<le> 10 ^ 18" by simp
  qed
  have inc: "s64 (?t div ?n + 1) = ?t div ?n + 1" using each by (intro s64_id) (simp add: in_s64_def)
  have eq: "group_amounts ms = map (\<lambda>k. ?t div ?n + (if int k < ?t mod ?n then 1 else 0)) [0..<length ms]"
    using t0 n by (auto simp: group_amounts_def Let_def tot sdiv_nonneg smod_nonneg inc)
  have "0 \<le> ?t mod ?n" "?t mod ?n < ?n" using n by simp_all
  then have "sum_list (group_amounts ms) = ?n * (?t div ?n) + ?t mod ?n"
    unfolding eq by (simp add: sum_list_addf count_below sum_list_triv)
  then have "sum_list (group_amounts ms) = ?t" by simp
  moreover have "\<forall>m\<in>set (group_amounts ms). 0 \<le> m" unfolding eq using each by auto
  moreover have "length (group_amounts ms) = length ms" unfolding eq by simp
  ultimately show ?thesis by blast
qed

lemma split_amounts_exact:
  "\<forall>x\<in>set xs. 0 \<le> snd x \<Longrightarrow> sum_list (map snd xs) \<le> 10 ^ 18 \<Longrightarrow>
     sum_list (split_amounts xs) = sum_list (map snd xs) \<and> (\<forall>m\<in>set (split_amounts xs). 0 \<le> m) \<and>
     length (split_amounts xs) = length xs"
proof (induction xs rule: split_amounts.induct)
  case (2 x xs)
  let ?P = "\<lambda>y. same_score (fst x) (fst y)"
  let ?g = "snd x # map snd (takeWhile ?P xs)" and ?r = "dropWhile ?P xs"
  have xs: "sum_list (map snd xs) = sum_list (map snd (takeWhile ?P xs)) + sum_list (map snd ?r)"
    by (metis map_append sum_list_append takeWhile_dropWhile_id)
  have len: "length xs = length (takeWhile ?P xs) + length ?r"
    by (metis length_append takeWhile_dropWhile_id)
  note all = "2.prems"(1)
  have gn: "\<And>m. m \<in> set ?g \<Longrightarrow> 0 \<le> m" using all by (auto dest: set_takeWhileD)
  have rn: "\<forall>y\<in>set ?r. 0 \<le> snd y" using all by (auto dest: set_dropWhileD)
  have g0: "0 \<le> sum_list ?g" by (rule sum_list_nonneg) (rule gn)
  have r0: "0 \<le> sum_list (map snd ?r)" by (rule sum_list_nonneg) (use rn in auto)
  have gl: "sum_list ?g \<le> 10 ^ 18" and rl: "sum_list (map snd ?r) \<le> 10 ^ 18"
    using "2.prems"(2) xs g0 r0 by simp_all
  from group_amounts_exact [OF gn gl] "2.IH" [OF rn rl] xs len show ?case by auto
qed simp

section \<open>Payouts\<close>

definition entries_ok :: "tournament \<Rightarrow> bool" where
  "entries_ok t \<longleftrightarrow>
     rules_ok (to_Rules t) \<and> int (length (to_Entries t)) \<le> ru_MaxEntrants (to_Rules t)"

lemma fees_exact:
  assumes "entries_ok t"
  shows "s64 (ru_EntryFee (to_Rules t) * int (length (to_Entries t))) =
      ru_EntryFee (to_Rules t) * int (length (to_Entries t)) \<and>
    0 \<le> ru_EntryFee (to_Rules t) * int (length (to_Entries t)) \<and>
    ru_EntryFee (to_Rules t) * int (length (to_Entries t)) \<le> 10 ^ 18"
proof -
  let ?f = "ru_EntryFee (to_Rules t)" and ?n = "int (length (to_Entries t))"
  have f: "0 \<le> ?f" "?f \<le> 10 ^ 12" and n: "?n \<le> 10 ^ 6"
    using assms by (auto simp: entries_ok_def rules_ok_def MaxEntryFee_def MaxEntrantsBound_def)
  have "?f * ?n \<le> 10 ^ 12 * 10 ^ 6" using f n by (intro mult_mono) simp_all
  then have le: "?f * ?n \<le> 10 ^ 18" by simp
  have "0 \<le> ?f * ?n" using f by simp
  with le show ?thesis by (simp add: s64_bounded)
qed

lemma ComputePool_exact:
  assumes ok: "entries_ok t" and pool: "ComputePool t = (fees, rake, pool)"
  shows "fees = ru_EntryFee (to_Rules t) * int (length (to_Entries t)) \<and> fees = rake + pool \<and>
    0 \<le> rake \<and> 0 \<le> pool \<and> pool \<le> 10 ^ 18 \<and>
    rake = (if Voids t then 0 else fees * int (ru_RakeBps (to_Rules t)) div 10000)"
proof -
  let ?F = "ru_EntryFee (to_Rules t) * int (length (to_Entries t))" and ?b = "ru_RakeBps (to_Rules t)"
  note F = fees_exact [OF ok]
  have b: "?b \<le> 9999" using ok by (simp add: entries_ok_def rules_ok_def)
  have rk: "bps ?F ?b = ?F * int ?b div 10000" using F b by (intro bps_exact) simp_all
  have "?F * int ?b \<le> ?F * 10000" using F b by (intro mult_left_mono) simp_all
  then have r: "0 \<le> ?F * int ?b div 10000" "?F * int ?b div 10000 \<le> ?F"
    using F by (simp add: pos_imp_zdiv_nonneg_iff, linarith)
  have "s64 (?F - ?F * int ?b div 10000) = ?F - ?F * int ?b div 10000"
    using F r by (intro s64_bounded) simp_all
  with pool F rk r show ?thesis by (auto simp: ComputePool_def Let_def split: if_splits)
qed

text \<open>\<open>closed_ok t\<close>: the standings, if recorded at all, are the ranking of the entries.\<close>

definition closed_ok :: "tournament \<Rightarrow> bool" where
  "closed_ok t \<longleftrightarrow> to_Standings t = [] \<or> to_Standings t = ComputeStandings t"

lemma payout_standings_eq: "closed_ok t \<Longrightarrow> payout_standings t = ComputeStandings t"
  by (auto simp: closed_ok_def payout_standings_def)

lemma places_le_entries:
  assumes "entries_ok t" and "\<not> Voids t"
  shows "length (ru_PrizeBps (to_Rules t)) \<le> length (to_Entries t)"
proof -
  have "int (length (ru_PrizeBps (to_Rules t))) \<le> int (ScoredCount t)"
    using assms by (simp add: entries_ok_def rules_ok_def Voids_def)
  then show ?thesis unfolding ScoredCount_def using length_filter_le [of en_Scored "to_Entries t"] by linarith
qed

lemma prize_amounts_exact:
  assumes ok: "entries_ok t" and cl: "closed_ok t" and nv: "\<not> Voids t"
  shows "sum_list (prize_amounts t) = snd (snd (ComputePool t)) \<and> (\<forall>m\<in>set (prize_amounts t). 0 \<le> m) \<and>
    length (prize_amounts t) = length (ru_PrizeBps (to_Rules t))"
proof -
  obtain fees rake pool where p: "ComputePool t = (fees, rake, pool)" by (cases "ComputePool t")
  let ?bs = "ru_PrizeBps (to_Rules t)"
  let ?sh = "prize_shares pool ?bs" and ?sts = "ComputeStandings t"
  have bs: "?bs \<noteq> []" "sum_list ?bs = 10000" using ok by (auto simp: entries_ok_def rules_ok_def)
  have n: "min (length ?bs) (length (to_Entries t)) = length ?bs" using places_le_entries [OF ok nv] by simp
  have sh: "sum_list ?sh = pool" "\<forall>m\<in>set ?sh. 0 \<le> m" "length ?sh = length ?bs" and pl: "pool \<le> 10 ^ 18"
    using prize_shares_exact [OF _ _ bs] ComputePool_exact [OF ok p] by auto
  have am: "prize_amounts t = (if ru_TieBreak (to_Rules t) = Split
      then split_amounts (zip (take (length ?bs) ?sts) ?sh) else ?sh)"
    by (simp add: prize_amounts_def p payout_standings_eq [OF cl] Let_def n)
  show ?thesis
  proof (cases "ru_TieBreak (to_Rules t) = Split")
    case True
    let ?z = "zip (take (length ?bs) ?sts) ?sh"
    have lz: "length (take (length ?bs) ?sts) = length ?sh" using n sh(3) by simp
    have mz: "map snd ?z = ?sh" and lz2: "length ?z = length ?bs" using lz sh(3) by simp_all
    have nz: "0 \<le> snd x" if "x \<in> set ?z" for x
    proof -
      from that have "snd x \<in> set (map snd ?z)" by simp
      with sh(2) show ?thesis unfolding mz by blast
    qed
    have tz: "sum_list (map snd ?z) = pool" unfolding mz by (rule sh(1))
    have le: "sum_list (map snd ?z) \<le> 10 ^ 18" unfolding tz by (rule pl)
    have sp: "sum_list (split_amounts ?z) = pool \<and> (\<forall>m\<in>set (split_amounts ?z). 0 \<le> m) \<and>
        length (split_amounts ?z) = length ?bs"
      using split_amounts_exact [OF ballI [OF nz] le] unfolding tz lz2 .
    have "prize_amounts t = split_amounts ?z" unfolding am by (rule if_P) (rule True)
    with sp show ?thesis unfolding p snd_conv by simp
  next
    case False
    with sh show ?thesis by (simp add: am p)
  qed
qed

lemma prize_payout_amount [simp]: "pa_Amount (prize_payout t ex s m) = m"
  by (simp add: prize_payout_def Let_def)

lemma map_zip_amount: "length ms \<le> length sts \<Longrightarrow>
    map (\<lambda>x. pa_Amount (case x of (s, m) \<Rightarrow> prize_payout t ex s m)) (zip sts ms) = ms"
proof -
  assume len: "length ms \<le> length sts"
  have "map (\<lambda>x. pa_Amount (case x of (s, m) \<Rightarrow> prize_payout t ex s m)) (zip sts ms) = map snd (zip sts ms)"
    by (rule map_cong) auto
  with len show ?thesis by (simp add: map_snd_zip_take)
qed

text \<open>\<open>total_paid\<close> is the exact, unwrapped sum of the amounts.\<close>

definition total_paid :: "payout list \<Rightarrow> int" where
  "total_paid ps = sum_list (map pa_Amount ps)"

lemma ComputePayouts_exact:
  assumes ok: "entries_ok t" and cl: "closed_ok t" and pool: "ComputePool t = (fees, rake, pool)"
  shows "total_paid (ComputePayouts t ex) = pool \<and> (\<forall>p\<in>set (ComputePayouts t ex). 0 \<le> pa_Amount p) \<and>
    length (ComputePayouts t ex) = (if Voids t then length (to_Entries t) else length (ru_PrizeBps (to_Rules t)))"
proof (cases "Voids t")
  case True
  with pool ComputePool_exact [OF ok pool] ok show ?thesis
    by (auto simp: ComputePayouts_def total_paid_def refund_payout_def comp_def sum_list_triv entries_ok_def rules_ok_def)
next
  case False
  note pa = prize_amounts_exact [OF ok cl False]
  have len: "length (prize_amounts t) \<le> length (ComputeStandings t)"
    using pa places_le_entries [OF ok False] by simp
  have am: "map pa_Amount (ComputePayouts t ex) = prize_amounts t"
    using False map_zip_amount [OF len] by (simp add: ComputePayouts_def payout_standings_eq [OF cl] comp_def)
  then have "length (ComputePayouts t ex) = length (prize_amounts t)" by (metis length_map)
  moreover have "\<forall>p\<in>set (ComputePayouts t ex). 0 \<le> pa_Amount p"
    using pa am by (metis imageI list.set_map)
  ultimately show ?thesis using am pa pool False by (simp add: total_paid_def)
qed

section \<open>Properties\<close>

text \<open>C11: money is conserved by the payouts. For rules that ValidateRules accepts and no more entries
  than they allow, the payouts of a tournament with its computed standings sum exactly, without any
  64-bit wrap-around, to the prize pool; pool and rake sum to the entry fees; no payout is negative;
  there is one payout per prize place, or one refund per entry when the tournament voids.\<close>

theorem payouts_sum_to_pool:
  assumes "ValidateRules (to_Rules t) = None" and "rules_typed (to_Rules t)"
    and "int (length (to_Entries t)) \<le> ru_MaxEntrants (to_Rules t)"
    and "to_Standings t = [] \<or> to_Standings t = ComputeStandings t"
    and "ComputePool t = (fees, rake, pool)"
  shows "(\<Sum>p\<leftarrow>ComputePayouts t ex. pa_Amount p) = pool \<and> rake + pool = fees \<and>
    fees = ru_EntryFee (to_Rules t) * int (length (to_Entries t)) \<and>
    (\<forall>p\<in>set (ComputePayouts t ex). 0 \<le> pa_Amount p) \<and>
    length (ComputePayouts t ex) = (if Voids t then length (to_Entries t) else length (ru_PrizeBps (to_Rules t)))"
proof -
  have ok: "entries_ok t" using ValidateRules_ok assms by (simp add: entries_ok_def)
  have "closed_ok t" using assms(4) by (simp add: closed_ok_def)
  from ComputePayouts_exact [OF ok this assms(5)] ComputePool_exact [OF ok assms(5)] show ?thesis
    by (simp add: total_paid_def)
qed

text \<open>C18: the ranking. The standings list every entrant exactly once, scored entrants first by score,
  highest first, equal scores by submission order; under earliest_submission the places are 1, 2, 3
  and so on, and under split a scored entrant's place is one more than the number of strictly higher
  scores.\<close>

theorem standings_ranking:
  "mset (map sg_Player (ComputeStandings t)) = mset (map entry_id (to_Entries t)) \<and>
   (\<exists>scored unscored.
      mset scored = mset (filter en_Scored (to_Entries t)) \<and>
      mset unscored = mset (filter (\<lambda>e. \<not> en_Scored e) (to_Entries t)) \<and>
      map sg_Player (ComputeStandings t) = map entry_id (scored @ unscored) \<and>
      sorted (map (\<lambda>e. (- en_Score e, en_SubmitSeq e)) scored) \<and> sorted (map en_JoinSeq unscored) \<and>
      map sg_Place (take (length scored) (ComputeStandings t)) =
        (if ru_TieBreak (to_Rules t) = Split
         then map (\<lambda>e. int (length (filter (\<lambda>x. en_Score e < en_Score x) scored)) + 1) scored
         else map (\<lambda>k. int k + 1) [0..<length scored]))"
proof -
  let ?sc = "sort_key score_key (filter en_Scored (to_Entries t))"
  let ?un = "sort_key en_JoinSeq (filter (\<lambda>e. \<not> en_Scored e) (to_Entries t))"
  have key: "(\<lambda>e. (- en_Score e, en_SubmitSeq e)) = score_key" by (simp add: score_key_def fun_eq_iff)
  have "take (length ?sc) (ComputeStandings t) = rank_scored (ru_TieBreak (to_Rules t) = Split) 0 None ?sc"
    by (simp add: ComputeStandings_def Let_def)
  moreover have "map sg_Place (rank_scored True 0 None ?sc) = map (\<lambda>e. int (above ?sc (en_Score e)) + 1) ?sc"
    using rank_scored_split_places [of "[]" ?sc None] sort_score_falling by (simp add: prev_ok_def)
  moreover have "map sg_Place (rank_scored False 0 None ?sc) = map (\<lambda>k. int k + 1) [0..<length ?sc]"
    by (simp only: rank_scored_places add_0)
  ultimately have "map sg_Place (take (length ?sc) (ComputeStandings t)) =
      (if ru_TieBreak (to_Rules t) = Split
       then map (\<lambda>e. int (length (filter (\<lambda>x. en_Score e < en_Score x) ?sc)) + 1) ?sc
       else map (\<lambda>k. int k + 1) [0..<length ?sc])" by (simp add: above_def)
  moreover have "map sg_Player (ComputeStandings t) = map entry_id (?sc @ ?un)"
    by (simp add: ComputeStandings_def Let_def)
  ultimately have "mset ?sc = mset (filter en_Scored (to_Entries t)) \<and>
      mset ?un = mset (filter (\<lambda>e. \<not> en_Scored e) (to_Entries t)) \<and>
      map sg_Player (ComputeStandings t) = map entry_id (?sc @ ?un) \<and>
      sorted (map (\<lambda>e. (- en_Score e, en_SubmitSeq e)) ?sc) \<and> sorted (map en_JoinSeq ?un) \<and>
      map sg_Place (take (length ?sc) (ComputeStandings t)) =
        (if ru_TieBreak (to_Rules t) = Split
         then map (\<lambda>e. int (length (filter (\<lambda>x. en_Score e < en_Score x) ?sc)) + 1) ?sc
         else map (\<lambda>k. int k + 1) [0..<length ?sc])" by (simp add: key del: map_append)
  with standings_players show ?thesis by blast
qed

text \<open>The example of the comment on ComputePayouts: three places, scores 100, 90, 80, 80.\<close>

definition sample_rules :: rules where
  "sample_rules = \<lparr>ru_EntryFee = 101, ru_RakeBps = 1000, ru_PrizeBps = [5000, 3000, 2000], ru_MinEntrants = 3,
     ru_MaxEntrants = 10, ru_MaxScore = 100, ru_MinAge = 18, ru_TieBreak = Split,
     ru_Exclusions = \<lparr>ex_Version = 1, ex_Jurisdictions = []\<rparr>, ru_Game = []\<rparr>"

definition sample_entry :: "nat \<Rightarrow> string \<Rightarrow> int \<Rightarrow> entry" where
  "sample_entry i p sc = \<lparr>en_Player = \<lparr>pl_ID = p, pl_Jurisdiction = ''TR'', pl_Age = 30\<rparr>, en_JoinSeq = i,
     en_ExclusionVersion = 1, en_Scored = True, en_Score = sc, en_SubmitSeq = i, en_InputDigest = []\<rparr>"

definition sample_tournament :: tournament where
  "sample_tournament = \<lparr>to_ID = ''t1'', to_Seed = 7, to_Rules = sample_rules, to_Status = Open,
     to_Entries = [sample_entry 1 ''a'' 100, sample_entry 2 ''b'' 90, sample_entry 3 ''c'' 80, sample_entry 4 ''d'' 80],
     to_Fees = 0, to_Rake = 0, to_Pool = 0, to_Standings = [], to_Payouts = [], to_CreatedAt = 1, to_ClosedAt = 0,
     to_SettledAt = 0, to_Ballot = zero_ballot\<rparr>"

lemma sample_facts:
  "ValidateRules (to_Rules sample_tournament) = None" "rules_typed (to_Rules sample_tournament)"
  "int (length (to_Entries sample_tournament)) \<le> ru_MaxEntrants (to_Rules sample_tournament)"
  "to_Standings sample_tournament = []" "ComputePool sample_tournament = (404, 40, 364)"
  by (simp_all add: sample_tournament_def sample_rules_def ValidateRules_def first_zero_def find_index_None
      bps_sum_def ValidateExclusions_def validate_game_def rules_typed_def MaxEntryFee_def MaxEntrantsBound_def
      MaxPrizePlaces_def MaxJurisdictions_def ComputePool_def Voids_def ScoredCount_def sample_entry_def
      bps_def sdiv_nonneg smod_nonneg u64_def s64_def nth_Cons' upt_rec)

theorem payouts_sum_to_pool_witness:
  "(\<Sum>p\<leftarrow>ComputePayouts sample_tournament (ru_Exclusions sample_rules). pa_Amount p) = 364"
  using payouts_sum_to_pool [OF sample_facts(1-3) disjI1 [OF sample_facts(4)] sample_facts(5)] by blast

text \<open>Basis points are exact. For every amount up to the module's money bound, bps is the floor of
  amount times share over 10000; the split into quotient and remainder keeps every intermediate value
  inside 64 bits.\<close>

theorem bps_is_floor:
  assumes "0 \<le> x" and "x \<le> 10 ^ 18" and "b \<le> 10000"
  shows "bps x b = x * int b div 10000"
  using assms by (rule bps_exact)

theorem bps_is_floor_witness: "bps 999999999999999999 3333 = 999999999999999999 * 3333 div 10000"
  using bps_is_floor [of 999999999999999999 3333] by simp

end
