(* ===== verification/State.thy ===== *)
theory State
  imports Compute
begin

text \<open>
  Package \<^verbatim>\<open>internal/tournament\<close>, \<^verbatim>\<open>state.go\<close> and \<^verbatim>\<open>play_state.go\<close>: the replicated state machine.

  The state is a record of maps passed through every handler. A handler that can panic or run
  forever in the source returns an option, \<open>None\<close> for that case: the panic of \<^verbatim>\<open>settle\<close>, the nil
  player of \<^verbatim>\<open>openSession\<close> and \<^verbatim>\<open>mixPlay\<close>, and a deal whose shuffle does not return. The tournament a
  handler holds a pointer to is looked up once, changed as a value and written back under the key
  it was found with. The hash functions are the fields of \<open>hashes\<close>: SHA-256 over the JSON encoding
  of the value each is applied to.
\<close>

section \<open>The state (state.go, play_state.go)\<close>

type_synonym roundKey = "tournament_id \<times> player_id \<times> int"

record playerState =
  ps_rec :: playerRecord
  ps_entered :: "tournament_id list"

record playState =
  pl_bindings :: "(device_id, binding) fmap"
  pl_players :: "(player_id, playerState) fmap"
  pl_rounds :: "(roundKey, roundRecord) fmap"
  pl_events :: "eventRecord list"
  pl_shared :: "(tournament_id, nat list) fmap"
  pl_own :: "(player_id, nat list) fmap"
  pl_boardAt :: "(tournament_id, slot) fmap"
  pl_dirtyBindings :: "device_id list"
  pl_dirtyPlayers :: "player_id list"
  pl_dirtyRounds :: "roundKey list"
  pl_eventsBefore :: nat

record resultRecord =
  rc_fingerprint :: string
  rc_result :: result

record tstate =
  ts_tournaments :: "(tournament_id, tournament) fmap"
  ts_order :: "tournament_id list"
  ts_results :: "(idempotency_key, resultRecord) fmap"
  ts_book :: book
  ts_applied :: slot
  ts_hash :: string
  ts_commands :: int
  ts_mutations :: nat
  ts_play :: playState
  ts_clock :: int

datatype playLine =
    BindingLine "binding option" | PlayerLine playerRecord | RoundLine "roundRecord option" | EventLine eventRecord

record mixInput =
  mi_hash :: string
  mi_slot :: slot
  mi_cmd :: "(idempotency_key \<times> int \<times> string \<times> op) option"
  mi_res :: result
  mi_tournament :: "tournament option"
  mi_postings :: "posting list"
  mi_play :: "playLine list"

record hashes =
  hx_sha :: "string \<Rightarrow> string"
  hx_fp :: "string \<Rightarrow> op \<Rightarrow> string"
  hx_skip :: "string \<Rightarrow> slot \<Rightarrow> string"
  hx_mix :: "mixInput \<Rightarrow> string"

definition newPlayState :: playState where
  "newPlayState = \<lparr>pl_bindings = fmempty, pl_players = fmempty, pl_rounds = fmempty, pl_events = [],
     pl_shared = fmempty, pl_own = fmempty, pl_boardAt = fmempty, pl_dirtyBindings = [],
     pl_dirtyPlayers = [], pl_dirtyRounds = [], pl_eventsBefore = 0\<rparr>"

definition NewState :: tstate where
  "NewState = \<lparr>ts_tournaments = fmempty, ts_order = [], ts_results = fmempty, ts_book = NewBook,
     ts_applied = 0, ts_hash = replicate 32 (CHR 0x00), ts_commands = 0, ts_mutations = 0,
     ts_play = newPlayState, ts_clock = 0\<rparr>"

definition set_tournament :: "tournament_id \<Rightarrow> tournament \<Rightarrow> tstate \<Rightarrow> tstate" where
  "set_tournament tid t s = s\<lparr>ts_tournaments := fmupd tid t (ts_tournaments s)\<rparr>"

definition set_play :: "(playState \<Rightarrow> playState) \<Rightarrow> tstate \<Rightarrow> tstate" where
  "set_play f s = s\<lparr>ts_play := f (ts_play s)\<rparr>"

section \<open>Change tracking and events (play_state.go)\<close>

definition begin_command :: "playState \<Rightarrow> playState" where
  "begin_command p = p\<lparr>pl_dirtyBindings := [], pl_dirtyPlayers := [], pl_dirtyRounds := [],
     pl_eventsBefore := length (pl_events p)\<rparr>"

definition touchPlayer :: "player_id \<Rightarrow> playState \<Rightarrow> playState" where
  "touchPlayer i p =
     (if i \<in> set (pl_dirtyPlayers p) then p else p\<lparr>pl_dirtyPlayers := pl_dirtyPlayers p @ [i]\<rparr>)"

definition touchRound :: "roundKey \<Rightarrow> playState \<Rightarrow> playState" where
  "touchRound k p =
     (if k \<in> set (pl_dirtyRounds p) then p else p\<lparr>pl_dirtyRounds := pl_dirtyRounds p @ [k]\<rparr>)"

definition recordEvent :: "eventRecord \<Rightarrow> tstate \<Rightarrow> tstate" where
  "recordEvent ev0 s =
     (let ev = ev0\<lparr>ev_TimeMs := ts_clock s\<rparr>; p = ts_play s; idx = length (pl_events p);
          p1 = p\<lparr>pl_events := pl_events p @ [ev]\<rparr>
      in s\<lparr>ts_play :=
           (if ev_Player ev = []
            then p1\<lparr>pl_shared := fmupd (ev_Tournament ev) (fmget (pl_shared p1) [] (ev_Tournament ev) @ [idx]) (pl_shared p1)\<rparr>
            else p1\<lparr>pl_own := fmupd (ev_Player ev) (fmget (pl_own p1) [] (ev_Player ev) @ [idx]) (pl_own p1)\<rparr>)\<rparr>)"

definition recordLeaderboard :: "slot \<Rightarrow> tournament_id \<Rightarrow> tstate \<Rightarrow> tstate" where
  "recordLeaderboard sl tid s =
     (if fmlookup (pl_boardAt (ts_play s)) tid = Some sl then s
      else recordEvent (mk_event sl EventLeaderboardChanged tid)
             (set_play (\<lambda>p. p\<lparr>pl_boardAt := fmupd tid sl (pl_boardAt p)\<rparr>) s))"

definition recordStatus :: "slot \<Rightarrow> tournament \<Rightarrow> tstate \<Rightarrow> tstate" where
  "recordStatus sl t s =
     recordLeaderboard sl (to_ID t)
       (recordEvent ((mk_event sl EventTournamentStatus (to_ID t))\<lparr>ev_Status := status_String (to_Status t)\<rparr>) s)"

section \<open>Entry progress (play_state.go)\<close>

record entryProgress =
  ep_Dealt :: int
  ep_Finished :: int
  ep_Total :: int
  ep_ReachedAt :: slot
  ep_InPlay :: int
  ep_Next :: int

definition round_numbers :: "int list" where
  "round_numbers = map int [1..<Rounds + 1]"

definition progress_step ::
  "tstate \<Rightarrow> tournament_id \<Rightarrow> player_id \<Rightarrow> int \<Rightarrow> entryProgress \<times> int \<Rightarrow> entryProgress \<times> int" where
  "progress_step s t p r acc =
     (let (out, nx) = acc
      in case fmlookup (pl_rounds (ts_play s)) (t, p, r) of
           None \<Rightarrow> (out, if nx = 0 \<and> ep_InPlay out = 0 then r else nx)
         | Some rec \<Rightarrow>
             (let out1 = out\<lparr>ep_Dealt := ep_Dealt out + 1\<rparr>
              in (if rr_Status rec = RoundDone
                  then out1\<lparr>ep_Finished := ep_Finished out1 + 1, ep_Total := s64 (ep_Total out1 + rr_Score rec),
                            ep_ReachedAt := max (ep_ReachedAt out1) (rr_FinishedAt rec)\<rparr>
                  else out1\<lparr>ep_InPlay := r\<rparr>, nx)))"

definition Progress :: "tstate \<Rightarrow> tournament_id \<Rightarrow> player_id \<Rightarrow> entryProgress" where
  "Progress s t p =
     (let (out, nx) = fold (progress_step s t p) round_numbers
            (\<lparr>ep_Dealt = 0, ep_Finished = 0, ep_Total = 0, ep_ReachedAt = 0, ep_InPlay = 0, ep_Next = 0\<rparr>, 0)
      in if ep_InPlay out = 0 then out\<lparr>ep_Next := nx\<rparr> else out)"

section \<open>Results (state.go, play_state.go)\<close>

definition reject :: "code \<Rightarrow> detail \<Rightarrow> result" where
  "reject c d = \<lparr>re_Code = c, re_Replayed = False, re_Detail = d, re_Slot = 0, re_Seed = 0, re_Play = no_outcome\<rparr>"

definition playReject :: "code \<Rightarrow> detail \<Rightarrow> playOutcome \<Rightarrow> result" where
  "playReject c d out = \<lparr>re_Code = c, re_Replayed = False, re_Detail = d, re_Slot = 0, re_Seed = 0, re_Play = out\<rparr>"

definition ok_result :: "playOutcome \<Rightarrow> result" where
  "ok_result out = playReject OK NoDetail out"

definition status_detail :: "tournament \<Rightarrow> detail" where
  "status_detail t = Fmt ''tournament %q is %s'' [ArgStr (to_ID t), ArgStr (status_String (to_Status t))]"

definition unknown_detail :: "tournament_id \<Rightarrow> detail" where
  "unknown_detail tid = Fmt ''no tournament %q'' [ArgStr tid]"

definition not_joined_detail :: "player_id \<Rightarrow> detail" where
  "not_joined_detail p = Fmt ''player %q has not entered'' [ArgStr p]"

section \<open>Creation and entry (state.go)\<close>

definition create :: "slot \<Rightarrow> createTournament \<Rightarrow> tstate \<Rightarrow> result \<times> tstate" where
  "create sl c s =
     (case ValidateTournamentID (ct_ID c) of
        Some err \<Rightarrow> (reject InvalidRules err, s)
      | None \<Rightarrow>
     (case ValidateRules (ct_Rules c) of
        Some err \<Rightarrow> (reject InvalidRules err, s)
      | None \<Rightarrow>
          if fmlookup (ts_tournaments s) (ct_ID c) \<noteq> None
          then (reject TournamentExists (Fmt ''tournament %q exists'' [ArgStr (ct_ID c)]), s)
          else
            (let t = \<lparr>to_ID = ct_ID c, to_Seed = ct_Seed c, to_Rules = canonicalRules (ct_Rules c), to_Status = Open,
                      to_Entries = [], to_Fees = 0, to_Rake = 0, to_Pool = 0, to_Standings = [], to_Payouts = [],
                      to_CreatedAt = sl, to_ClosedAt = 0, to_SettledAt = 0, to_Ballot = zero_ballot\<rparr>
             in (reject OK NoDetail, (set_tournament (to_ID t) t s)\<lparr>ts_order := ts_order s @ [to_ID t]\<rparr>))))"

definition key_taken :: "book \<Rightarrow> posting_key list \<Rightarrow> posting_key \<Rightarrow> bool" where
  "key_taken b seen k \<longleftrightarrow> Has b k \<or> k \<in> set seen"

fun check_fresh :: "book \<Rightarrow> posting_key list \<Rightarrow> posting list \<Rightarrow> posting_key option" where
  "check_fresh b seen [] = None"
| "check_fresh b seen (p # ps) =
     (if key_taken b seen (po_Key p) then Some (po_Key p) else check_fresh b (po_Key p # seen) ps)"

definition checkFresh :: "book \<Rightarrow> posting list \<Rightarrow> detail option" where
  "checkFresh b ps =
     (case check_fresh b [] ps of None \<Rightarrow> None
      | Some k \<Rightarrow> Some (Fmt ''posting key %q already exists'' [ArgStr k]))"

definition fee_posting :: "slot \<Rightarrow> ballot \<Rightarrow> tournament \<Rightarrow> player \<Rightarrow> posting" where
  "fee_posting sl b t p =
     \<lparr>po_Seq = 0, po_Key = FeeKey (to_ID t) (pl_ID p), po_Kind = EntryFee,
      po_Debit = PlayerAccount (pl_ID p), po_Credit = PoolAccount (to_ID t),
      po_Amount = ru_EntryFee (to_Rules t), po_Tournament = to_ID t, po_Player = pl_ID p, po_Place = 0,
      po_ExclusionVersion = ex_Version (ru_Exclusions (to_Rules t)), po_Slot = sl, po_Ballot = b\<rparr>"

definition new_entry :: "tournament \<Rightarrow> player \<Rightarrow> entry" where
  "new_entry t p =
     \<lparr>en_Player = p, en_JoinSeq = u32 (length (to_Entries t) + 1),
      en_ExclusionVersion = ex_Version (ru_Exclusions (to_Rules t)), en_Scored = False, en_Score = 0,
      en_SubmitSeq = 0, en_InputDigest = zero_digest\<rparr>"

definition admit_check :: "tournament \<Rightarrow> player \<Rightarrow> result option" where
  "admit_check t p =
     (if to_Status t \<noteq> Open then Some (reject NotOpen (status_detail t))
      else if int (length (to_Entries t)) \<ge> ru_MaxEntrants (to_Rules t)
      then Some (reject TournamentFull
             (Fmt ''tournament %q has %d entrants'' [ArgStr (to_ID t), ArgNat (length (to_Entries t))]))
      else if tournament_Entry t (pl_ID p) \<noteq> None
      then Some (reject AlreadyJoined (Fmt ''player %q has entered'' [ArgStr (pl_ID p)]))
      else if Contains (ru_Exclusions (to_Rules t)) (pl_Jurisdiction p)
      then Some (reject JurisdictionExcluded
             (Fmt ''jurisdiction %q is excluded by list version %d''
               [ArgStr (pl_Jurisdiction p), ArgNat (ex_Version (ru_Exclusions (to_Rules t)))]))
      else if pl_Age p < ru_MinAge (to_Rules t)
      then Some (reject Underage
             (Fmt ''age %d is below the minimum %d'' [ArgInt (pl_Age p), ArgInt (ru_MinAge (to_Rules t))]))
      else None)"

definition admit :: "slot \<Rightarrow> ballot \<Rightarrow> tournament_id \<Rightarrow> tournament \<Rightarrow> player \<Rightarrow> tstate \<Rightarrow> result \<times> tstate" where
  "admit sl b tid t p s =
     (case admit_check t p of
        Some r \<Rightarrow> (r, s)
      | None \<Rightarrow>
     (let fee = fee_posting sl b t p
      in case checkFresh (ts_book s) [fee] of
           Some err \<Rightarrow> (reject LedgerConflict err, s)
         | None \<Rightarrow>
             (case Post fee (ts_book s) of
                (_, Inl err) \<Rightarrow> (reject InvalidRules (Fmt ''entry fee posting rejected: '' [ArgLedger err]), s)
              | (book, Inr (_, posted)) \<Rightarrow>
                  if \<not> posted
                  then (reject LedgerConflict (Fmt ''posting key %q already exists'' [ArgStr (po_Key fee)]), s\<lparr>ts_book := book\<rparr>)
                  else (reject OK NoDetail,
                        set_tournament tid (t\<lparr>to_Entries := to_Entries t @ [new_entry t p]\<rparr>) (s\<lparr>ts_book := book\<rparr>)))))"

definition join :: "slot \<Rightarrow> ballot \<Rightarrow> joinCmd \<Rightarrow> tstate \<Rightarrow> result \<times> tstate" where
  "join sl b c s =
     (case ValidatePlayer (jo_Player c) of
        Some err \<Rightarrow> (reject InvalidPlayer err, s)
      | None \<Rightarrow>
     (case fmlookup (ts_tournaments s) (jo_Tournament c) of
        None \<Rightarrow> (reject UnknownTournament (unknown_detail (jo_Tournament c)), s)
      | Some t \<Rightarrow>
          if ru_Game (to_Rules t) \<noteq> []
          then (reject PlayIntentRequired (Fmt ''tournament %q plays %s: entries come from play intents''
                  [ArgStr (to_ID t), ArgStr (ru_Game (to_Rules t))]), s)
          else (case admit sl b (jo_Tournament c) t (jo_Player c) s of
                  (res, s') \<Rightarrow> (if re_Code res = OK then res\<lparr>re_Seed := to_Seed t\<rparr> else res, s'))))"

section \<open>Client-reported scores (state.go)\<close>

definition entry_index :: "tournament \<Rightarrow> player_id \<Rightarrow> nat option" where
  "entry_index t p = find (\<lambda>i. entry_id (to_Entries t ! i) = p) [0..<length (to_Entries t)]"

definition update_entry :: "nat \<Rightarrow> (entry \<Rightarrow> entry) \<Rightarrow> tournament \<Rightarrow> tournament" where
  "update_entry i f t = t\<lparr>to_Entries := (to_Entries t)[i := f (to_Entries t ! i)]\<rparr>"

definition set_score :: "nat \<Rightarrow> int \<Rightarrow> tournament \<Rightarrow> tournament" where
  "set_score i sc t =
     (let t1 = update_entry i (\<lambda>e. e\<lparr>en_Scored := True, en_Score := sc\<rparr>) t
      in update_entry i (\<lambda>e. e\<lparr>en_SubmitSeq := u32 (ScoredCount t1)\<rparr>) t1)"

definition score :: "submitScore \<Rightarrow> tstate \<Rightarrow> result \<times> tstate" where
  "score c s =
     (case fmlookup (ts_tournaments s) (ss_Tournament c) of
        None \<Rightarrow> (reject UnknownTournament (unknown_detail (ss_Tournament c)), s)
      | Some t \<Rightarrow>
          if ru_Game (to_Rules t) \<noteq> []
          then (reject PlayIntentRequired (Fmt ''tournament %q plays %s: scores come from the rounds played''
                  [ArgStr (to_ID t), ArgStr (ru_Game (to_Rules t))]), s)
          else if to_Status t \<noteq> Open then (reject NotOpen (status_detail t), s)
          else case entry_index t (ss_Player c) of
            None \<Rightarrow> (reject NotJoined (not_joined_detail (ss_Player c)), s)
          | Some i \<Rightarrow>
              if en_Scored (to_Entries t ! i)
              then (reject AlreadyScored (Fmt ''player %q already has a score'' [ArgStr (ss_Player c)]), s)
              else if ss_DealSeed c \<noteq> to_Seed t
              then (reject SeedMismatch (Fmt ''deal seed does not match the tournament's seed'' []), s)
              else if ss_Score c < 0 \<or> ss_Score c > ru_MaxScore (to_Rules t)
              then (reject ScoreOutOfRange (Fmt ''score %d is outside 0..%d'' [ArgInt (ss_Score c), ArgInt (ru_MaxScore (to_Rules t))]), s)
              else (reject OK NoDetail,
                    set_tournament (ss_Tournament c)
                      (update_entry i (\<lambda>e. e\<lparr>en_InputDigest := ss_InputDigest c\<rparr>) (set_score i (ss_Score c) t)) s))"

section \<open>Finishing rounds (play_state.go)\<close>

definition set_round :: "roundKey \<Rightarrow> roundRecord \<Rightarrow> playState \<Rightarrow> playState" where
  "set_round k r p = p\<lparr>pl_rounds := fmupd k r (pl_rounds p)\<rparr>"

definition scoreEntry :: "slot \<Rightarrow> nat \<Rightarrow> tournament \<times> tstate \<Rightarrow> tournament \<times> tstate" where
  "scoreEntry sl i ts =
     (let (t, s) = ts; pid = entry_id (to_Entries t ! i); prog = Progress s (to_ID t) pid
      in (set_score i (ep_Total prog) t,
          recordEvent ((mk_event sl EventEntryScored (to_ID t))
            \<lparr>ev_Player := pid, ev_TotalScore := ep_Total prog, ev_RoundsFinished := ep_Finished prog\<rparr>) s))"

definition finish_record :: "slot \<Rightarrow> board \<Rightarrow> finish_reason \<Rightarrow> roundRecord \<Rightarrow> roundRecord" where
  "finish_record sl b reason r =
     r\<lparr>rr_Status := RoundDone, rr_Reason := Some reason, rr_Cleared := board_Cleared b, rr_Score := Score b,
       rr_FinishedAt := sl, rr_UpdatedAt := sl\<rparr>"

definition finishRound ::
  "hashes \<Rightarrow> slot \<Rightarrow> nat \<Rightarrow> roundKey \<Rightarrow> roundRecord \<Rightarrow> board option \<Rightarrow> finish_reason \<Rightarrow> bool \<Rightarrow>
   tournament \<times> tstate \<Rightarrow> (tournament \<times> tstate) option" where
  "finishRound hx sl i k r0 bopt reason closing ts =
     (case (case bopt of Some b \<Rightarrow> Some b | None \<Rightarrow> map_option fst (Replay (hx_sha hx) (rr_Seed r0) (rr_Moves r0))) of
        None \<Rightarrow> None
      | Some b \<Rightarrow>
          (let (t, s) = ts; r = finish_record sl b reason r0;
               s1 = set_play (\<lambda>p. touchRound (rr_Tournament r, rr_Player r, rr_Round r) (set_round k r p)) s;
               prog = Progress s1 (to_ID t) (rr_Player r);
               s2 = recordEvent ((mk_event sl EventRoundFinished (to_ID t))
                      \<lparr>ev_Player := rr_Player r, ev_Round := rr_Round r, ev_Status := roundStatus_String RoundDone,
                       ev_Score := rr_Score r, ev_TotalScore := ep_Total prog, ev_RoundsFinished := ep_Finished prog\<rparr>) s1;
               s3 = (if closing then s2 else recordLeaderboard sl (to_ID t) s2)
           in Some (if rr_Round r = int Rounds \<and> \<not> en_Scored (to_Entries t ! i) then scoreEntry sl i (t, s3) else (t, s3))))"

definition deadline_reason :: "int \<Rightarrow> roundRecord \<Rightarrow> finish_reason \<Rightarrow> finish_reason" where
  "deadline_reason clock r reason = (if clock > rr_DeadlineMs r then Expired else reason)"

definition close_round :: "hashes \<Rightarrow> slot \<Rightarrow> nat \<times> int \<Rightarrow> tournament \<times> tstate \<Rightarrow> (tournament \<times> tstate) option" where
  "close_round hx sl ir ts =
     (let (i, r) = ir; (t, s) = ts; k = (to_ID t, entry_id (to_Entries t ! i), r)
      in case fmlookup (pl_rounds (ts_play s)) k of
           None \<Rightarrow> Some ts
         | Some rec \<Rightarrow>
             if rr_Status rec = RoundDone then Some ts
             else finishRound hx sl i k rec None (deadline_reason (ts_clock s) rec ClosedReason) True ts)"

fun close_all_rounds :: "hashes \<Rightarrow> slot \<Rightarrow> (nat \<times> int) list \<Rightarrow> tournament \<times> tstate \<Rightarrow> (tournament \<times> tstate) option" where
  "close_all_rounds hx sl [] ts = Some ts"
| "close_all_rounds hx sl (ir # irs) ts =
     (case close_round hx sl ir ts of None \<Rightarrow> None | Some ts' \<Rightarrow> close_all_rounds hx sl irs ts')"

definition close_score :: "slot \<Rightarrow> nat \<Rightarrow> tournament \<times> tstate \<Rightarrow> tournament \<times> tstate" where
  "close_score sl i ts =
     (let (t, s) = ts; e = to_Entries t ! i
      in if en_Scored e then ts
         else if ep_Dealt (Progress s (to_ID t) (entry_id e)) > 0 then scoreEntry sl i ts else ts)"

definition closeRounds :: "hashes \<Rightarrow> slot \<Rightarrow> tournament \<times> tstate \<Rightarrow> (tournament \<times> tstate) option" where
  "closeRounds hx sl ts =
     (let n = length (to_Entries (fst ts))
      in map_option (fold (close_score sl) [0..<n])
           (close_all_rounds hx sl (concat (map (\<lambda>i. map (Pair i) round_numbers) [0..<n])) ts))"

section \<open>Close and settle (state.go)\<close>

definition close_record :: "slot \<Rightarrow> tournament \<Rightarrow> tournament" where
  "close_record sl t =
     (let t1 = t\<lparr>to_Standings := ComputeStandings t\<rparr>; (fees, rake, pool) = ComputePool t1;
          t2 = t1\<lparr>to_Fees := fees, to_Rake := rake, to_Pool := pool, to_ClosedAt := sl\<rparr>
      in t2\<lparr>to_Status := (if Voids t2 then Voided else Closed)\<rparr>)"

definition close :: "hashes \<Rightarrow> slot \<Rightarrow> closeCmd \<Rightarrow> tstate \<Rightarrow> (result \<times> tstate) option" where
  "close hx sl c s =
     (case fmlookup (ts_tournaments s) (cl_Tournament c) of
        None \<Rightarrow> Some (reject UnknownTournament (unknown_detail (cl_Tournament c)), s)
      | Some t \<Rightarrow>
          if to_Status t \<noteq> Open then Some (reject NotOpen (status_detail t), s)
          else
            (case (if ru_Game (to_Rules t) \<noteq> [] then closeRounds hx sl (t, s) else Some (t, s)) of
               None \<Rightarrow> None
             | Some (t1, s1) \<Rightarrow>
                 (let t2 = close_record sl t1; s2 = set_tournament (cl_Tournament c) t2 s1
                  in Some (reject OK NoDetail, if ru_Game (to_Rules t) \<noteq> [] then recordStatus sl t2 s2 else s2))))"

definition rake_posting :: "slot \<Rightarrow> ballot \<Rightarrow> tournament \<Rightarrow> exclusions \<Rightarrow> posting" where
  "rake_posting sl b t ex =
     \<lparr>po_Seq = 0, po_Key = RakeKey (to_ID t), po_Kind = Rake, po_Debit = PoolAccount (to_ID t),
      po_Credit = RakeAccount (to_ID t), po_Amount = to_Rake t, po_Tournament = to_ID t, po_Player = [],
      po_Place = 0, po_ExclusionVersion = ex_Version ex, po_Slot = sl, po_Ballot = b\<rparr>"

definition payout_posting :: "slot \<Rightarrow> ballot \<Rightarrow> tournament \<Rightarrow> exclusions \<Rightarrow> payout \<Rightarrow> posting" where
  "payout_posting sl b t ex p =
     \<lparr>po_Seq = 0, po_Key = pa_Key p,
      po_Kind = (if to_Status t = Voided then Refund else if pa_Withheld p then Withheld else Prize),
      po_Debit = PoolAccount (to_ID t),
      po_Credit = (if to_Status t = Voided then PlayerAccount (pa_Player p)
                   else if pa_Withheld p then WithheldAccount (to_ID t) else PlayerAccount (pa_Player p)),
      po_Amount = pa_Amount p, po_Tournament = to_ID t, po_Player = pa_Player p, po_Place = pa_Place p,
      po_ExclusionVersion = ex_Version ex, po_Slot = sl, po_Ballot = b\<rparr>"

definition settle_postings :: "slot \<Rightarrow> ballot \<Rightarrow> tournament \<Rightarrow> exclusions \<Rightarrow> payout list \<Rightarrow> posting list" where
  "settle_postings sl b t ex payouts =
     (if to_Status t = Closed \<and> to_Rake t > 0 then [rake_posting sl b t ex] else []) @
     map (payout_posting sl b t ex) (filter (\<lambda>p. pa_Amount p > 0) payouts)"

fun first_invalid :: "posting list \<Rightarrow> ledger_error option" where
  "first_invalid [] = None"
| "first_invalid (p # ps) = (case posting_Validate p of Some err \<Rightarrow> Some err | None \<Rightarrow> first_invalid ps)"

fun post_all :: "posting list \<Rightarrow> book \<Rightarrow> book option" where
  "post_all [] b = Some b"
| "post_all (p # ps) b =
     (case Post p b of (b', Inr (_, True)) \<Rightarrow> post_all ps b' | _ \<Rightarrow> None)"

definition record_payout :: "slot \<Rightarrow> tournament \<Rightarrow> payout \<Rightarrow> tstate \<Rightarrow> tstate" where
  "record_payout sl t p s =
     (if \<not> pa_Withheld p \<and> pa_Amount p > 0
      then recordEvent ((mk_event sl EventPayoutAvailable (to_ID t))\<lparr>ev_Player := pa_Player p, ev_Amount := pa_Amount p\<rparr>) s
      else s)"

definition settle :: "slot \<Rightarrow> ballot \<Rightarrow> settleCmd \<Rightarrow> tstate \<Rightarrow> (result \<times> tstate) option" where
  "settle sl b c s =
     (case ValidateExclusions (se_Exclusions c) of
        Some err \<Rightarrow> Some (reject InvalidExclusions err, s)
      | None \<Rightarrow>
     (case fmlookup (ts_tournaments s) (se_Tournament c) of
        None \<Rightarrow> Some (reject UnknownTournament (unknown_detail (se_Tournament c)), s)
      | Some t \<Rightarrow>
          if to_Status t \<noteq> Closed \<and> to_Status t \<noteq> Voided then Some (reject NotClosed (status_detail t), s)
          else
            (let ex = canonicalExclusions (se_Exclusions c); payouts = ComputePayouts t ex;
                 posts = settle_postings sl b t ex payouts
             in case first_invalid posts of
                  Some err \<Rightarrow> Some (reject InvalidRules (Fmt ''payout posting rejected: '' [ArgLedger err]), s)
                | None \<Rightarrow>
                    (case checkFresh (ts_book s) posts of
                       Some err \<Rightarrow> Some (reject LedgerConflict err, s)
                     | None \<Rightarrow>
                         (case post_all posts (ts_book s) of
                            None \<Rightarrow> None
                          | Some book \<Rightarrow>
                              (let t1 = t\<lparr>to_Payouts := payouts, to_Status := Settled, to_SettledAt := sl, to_Ballot := b\<rparr>;
                                   s1 = set_tournament (se_Tournament c) t1 (s\<lparr>ts_book := book\<rparr>)
                               in Some (reject OK NoDetail,
                                        if ru_Game (to_Rules t) \<noteq> []
                                        then fold (record_payout sl t1) payouts (recordStatus sl t1 s1) else s1)))))))"

section \<open>Sessions and sequenced commands (play_state.go)\<close>

definition deviceIDLen :: nat where "deviceIDLen = 32"

definition validLowerHex :: "string \<Rightarrow> nat \<Rightarrow> bool" where
  "validLowerHex s n \<longleftrightarrow> length s = n \<and> list_all lower_hex s"

definition openSession :: "slot \<Rightarrow> int \<Rightarrow> openSessionCmd \<Rightarrow> tstate \<Rightarrow> (result \<times> tstate) option" where
  "openSession sl received c s =
     (if \<not> validLowerHex (os_Device c) deviceIDLen \<or> os_Verifier c = zero_digest
      then Some (reject InvalidDevice
             (Fmt ''the device id must be 32 lower-case hex characters and the verifier not zero'' []), s)
      else case fmlookup (pl_bindings (ts_play s)) (os_Device c) of
        Some b \<Rightarrow>
          if bi_Verifier b \<noteq> os_Verifier c
          then Some (reject DeviceMismatch (Fmt ''the device secret does not match the device's binding'' []), s)
          else (case fmlookup (pl_players (ts_play s)) (bi_Player b) of
                  None \<Rightarrow> None
                | Some ps \<Rightarrow>
                    Some (ok_result (no_outcome\<lparr>oc_Player := bi_Player b, oc_IssuedAtMs := received,
                            oc_NextSeq := u64 (pr_LastSeq (ps_rec ps) + 1)\<rparr>), s))
      | None \<Rightarrow>
          (case ValidatePlayer \<lparr>pl_ID = os_Player c, pl_Jurisdiction = os_Jurisdiction c, pl_Age = os_Age c\<rparr> of
             Some err \<Rightarrow> Some (reject InvalidPlayer err, s)
           | None \<Rightarrow>
               if fmlookup (pl_players (ts_play s)) (os_Player c) \<noteq> None
               then Some (reject PlayerExists (Fmt ''player %q is bound to another device'' [ArgStr (os_Player c)]), s)
               else
                 (let b = \<lparr>bi_Device = os_Device c, bi_Verifier = os_Verifier c, bi_Player = os_Player c,
                           bi_Jurisdiction = os_Jurisdiction c, bi_Age = os_Age c, bi_BoundAt = sl\<rparr>;
                      f = (\<lambda>p. touchPlayer (os_Player c)
                            (p\<lparr>pl_bindings := fmupd (os_Device c) b (pl_bindings p),
                               pl_players := fmupd (os_Player c)
                                 \<lparr>ps_rec = \<lparr>pr_Binding = b, pr_LastSeq = 0\<rparr>, ps_entered = []\<rparr> (pl_players p),
                               pl_dirtyBindings := pl_dirtyBindings p @ [os_Device c]\<rparr>))
                  in Some (ok_result (no_outcome\<lparr>oc_Player := os_Player c, oc_NewPlayer := True,
                             oc_IssuedAtMs := received, oc_NextSeq := 1\<rparr>), set_play f s))))"

definition sequenced ::
  "player_id \<Rightarrow> nat \<Rightarrow> tournament_id \<Rightarrow> tstate \<Rightarrow> (result + playerState \<times> tournament) \<times> tstate" where
  "sequenced pid seq tid s =
     (case fmlookup (pl_players (ts_play s)) pid of
        None \<Rightarrow> (Inl (playReject UnknownPlayer (Fmt ''no device is bound to player %q'' [ArgStr pid])
                  (no_outcome\<lparr>oc_Player := pid\<rparr>)), s)
      | Some ps \<Rightarrow>
          (let last = pr_LastSeq (ps_rec ps); out = no_outcome\<lparr>oc_Player := pid, oc_NextSeq := u64 (last + 1)\<rparr>
           in if seq \<le> last
              then (Inl (playReject StaleSeq (Fmt ''seq %d is not above the last consumed %d'' [ArgNat seq, ArgNat last]) out), s)
              else if seq > u64 (last + 1)
              then (Inl (playReject SeqGap (Fmt ''seq %d skips from the last consumed %d'' [ArgNat seq, ArgNat last]) out), s)
              else
                (let ps1 = ps\<lparr>ps_rec := (ps_rec ps)\<lparr>pr_LastSeq := seq\<rparr>\<rparr>;
                     s1 = set_play (\<lambda>p. touchPlayer pid (p\<lparr>pl_players := fmupd pid ps1 (pl_players p)\<rparr>)) s;
                     out1 = out\<lparr>oc_NextSeq := u64 (seq + 1)\<rparr>
                 in case fmlookup (ts_tournaments s1) tid of
                      None \<Rightarrow> (Inl (playReject UnknownTournament (unknown_detail tid) out1), s1)
                    | Some t \<Rightarrow>
                        if ru_Game (to_Rules t) = []
                        then (Inl (playReject NotPlayTournament
                                 (Fmt ''tournament %q takes client-reported scores'' [ArgStr tid]) out1), s1)
                        else (Inr (ps1, t), s1))))"

definition outcome :: "player_id \<Rightarrow> playerState \<Rightarrow> playOutcome" where
  "outcome pid ps = no_outcome\<lparr>oc_Player := pid, oc_NextSeq := u64 (pr_LastSeq (ps_rec ps) + 1)\<rparr>"

definition enterPlay :: "slot \<Rightarrow> ballot \<Rightarrow> enterCmd \<Rightarrow> tstate \<Rightarrow> result \<times> tstate" where
  "enterPlay sl b c s =
     (case sequenced (et_Player c) (et_Seq c) (et_Tournament c) s of
        (Inl rej, s1) \<Rightarrow> (rej, s1)
      | (Inr (ps, t), s1) \<Rightarrow>
          (let bi = pr_Binding (ps_rec ps);
               (res, s2) = admit sl b (et_Tournament c) t
                 \<lparr>pl_ID = et_Player c, pl_Jurisdiction = bi_Jurisdiction bi, pl_Age = bi_Age bi\<rparr> s1;
               res1 = res\<lparr>re_Play := outcome (et_Player c) ps\<rparr>
           in if re_Code res = OK
              then (res1\<lparr>re_Play := (re_Play res1)\<lparr>oc_JoinSeq := u32 (length (to_Entries t) + 1)\<rparr>\<rparr>,
                    set_play (\<lambda>p. p\<lparr>pl_players := fmupd (et_Player c)
                      (ps\<lparr>ps_entered := ps_entered ps @ [to_ID t]\<rparr>) (pl_players p)\<rparr>) s2)
              else (res1, s2)))"

definition validRound :: "int \<Rightarrow> bool" where
  "validRound r \<longleftrightarrow> r \<ge> 1 \<and> r \<le> int Rounds"

definition previous_unfinished :: "tstate \<Rightarrow> roundKey \<Rightarrow> bool" where
  "previous_unfinished s k =
     (case k of (tid, pid, r) \<Rightarrow>
        (case fmlookup (pl_rounds (ts_play s)) (tid, pid, r - 1) of
           None \<Rightarrow> True | Some prev \<Rightarrow> rr_Status prev \<noteq> RoundDone))"

definition startRound :: "slot \<Rightarrow> startRoundCmd \<Rightarrow> tstate \<Rightarrow> result \<times> tstate" where
  "startRound sl c s =
     (case sequenced (sr_Player c) (sr_Seq c) (sr_Tournament c) s of
        (Inl rej, s1) \<Rightarrow> (rej, s1)
      | (Inr (ps, t), s1) \<Rightarrow>
          (let out = (outcome (sr_Player c) ps)\<lparr>oc_Round := sr_Round c\<rparr>; key = (to_ID t, sr_Player c, sr_Round c)
           in if to_Status t \<noteq> Open then (playReject NotOpen (status_detail t) out, s1)
              else if tournament_Entry t (sr_Player c) = None
              then (playReject NotJoined (not_joined_detail (sr_Player c)) out, s1)
              else if \<not> validRound (sr_Round c)
              then (playReject InvalidRound (Fmt ''round %d is outside 1..%d'' [ArgInt (sr_Round c), ArgNat Rounds]) out, s1)
              else if fmlookup (pl_rounds (ts_play s1)) key \<noteq> None
              then (playReject RoundAlreadyStarted (Fmt ''round %d was dealt before'' [ArgInt (sr_Round c)]) out, s1)
              else if sr_Round c > 1 \<and> previous_unfinished s1 key
              then (playReject PreviousRoundUnfinished (Fmt ''round %d is not finished'' [ArgInt (sr_Round c - 1)]) out, s1)
              else
                (let r = \<lparr>rr_Tournament = to_ID t, rr_Player = sr_Player c, rr_Round = sr_Round c, rr_Seed = sr_Seed c,
                          rr_Moves = [], rr_Status = RoundInPlay, rr_Reason = None, rr_Cleared = 0, rr_Score = 0,
                          rr_StartedAt = sl, rr_StartedAtMs = ts_clock s1,
                          rr_DeadlineMs = s64 (ts_clock s1 + RoundTimeLimitMs), rr_FinishedAt = 0, rr_UpdatedAt = sl\<rparr>
                 in (ok_result out,
                     recordEvent ((mk_event sl EventRoundStarted (to_ID t))
                       \<lparr>ev_Player := sr_Player c, ev_Round := sr_Round c, ev_Status := roundStatus_String RoundInPlay\<rparr>)
                       (set_play (\<lambda>p. touchRound key (set_round key r p)) s1)))))"

definition roundFor ::
  "tstate \<Rightarrow> tournament \<Rightarrow> player_id \<Rightarrow> int \<Rightarrow> playOutcome \<Rightarrow> result + roundRecord \<times> nat" where
  "roundFor s t pid r out =
     (case entry_index t pid of
        None \<Rightarrow> Inl (playReject NotJoined (not_joined_detail pid) out)
      | Some i \<Rightarrow>
          if \<not> validRound r
          then Inl (playReject InvalidRound (Fmt ''round %d is outside 1..%d'' [ArgInt r, ArgNat Rounds]) out)
          else case fmlookup (pl_rounds (ts_play s)) (to_ID t, pid, r) of
            None \<Rightarrow> Inl (playReject RoundNotStarted (Fmt ''round %d was never dealt'' [ArgInt r]) out)
          | Some rec \<Rightarrow> Inr (rec, i))"

definition write_back :: "tournament_id \<Rightarrow> result \<Rightarrow> (tournament \<times> tstate) option \<Rightarrow> (result \<times> tstate) option" where
  "write_back tid res r = map_option (\<lambda>(t, s). (res, set_tournament tid t s)) r"

definition accept_move ::
  "hashes \<Rightarrow> slot \<Rightarrow> playMoveCmd \<Rightarrow> nat \<Rightarrow> roundRecord \<Rightarrow> playOutcome \<Rightarrow> board \<Rightarrow> tournament \<Rightarrow> tstate \<Rightarrow>
   (result \<times> tstate) option" where
  "accept_move hx sl c i rec out board1 t s =
     (let k = (to_ID t, pm_Player c, pm_Round c);
          rec1 = rec\<lparr>rr_Moves := rr_Moves rec @ [pm_Move c], rr_UpdatedAt := sl\<rparr>;
          s1 = set_play (\<lambda>p. touchRound k (set_round k rec1 p)) s;
          res = ok_result (out\<lparr>oc_MoveIndex := int (length (rr_Moves rec1))\<rparr>)
      in case Over board1 of
           Some reason \<Rightarrow> write_back (pm_Tournament c) res
             (finishRound hx sl i k rec1 (Some board1) reason False (t, s1))
         | None \<Rightarrow> Some (res, s1))"

definition playMove :: "hashes \<Rightarrow> slot \<Rightarrow> playMoveCmd \<Rightarrow> tstate \<Rightarrow> (result \<times> tstate) option" where
  "playMove hx sl c s =
     (case sequenced (pm_Player c) (pm_Seq c) (pm_Tournament c) s of
        (Inl rej, s1) \<Rightarrow> Some (rej, s1)
      | (Inr (ps, t), s1) \<Rightarrow>
          (let out0 = (outcome (pm_Player c) ps)\<lparr>oc_Round := pm_Round c\<rparr>
           in if to_Status t \<noteq> Open then Some (playReject NotOpen (status_detail t) out0, s1)
              else case roundFor s1 t (pm_Player c) (pm_Round c) out0 of
                Inl rej \<Rightarrow> Some (rej, s1)
              | Inr (rec, i) \<Rightarrow>
                  (let n = int (length (rr_Moves rec)); out = out0\<lparr>oc_MoveIndex := n\<rparr>
                   in if rr_Status rec = RoundDone
                      then Some (playReject RoundFinished (Fmt ''round %d finished (%s)'' [ArgInt (pm_Round c), ArgReason (rr_Reason rec)]) out, s1)
                      else if ts_clock s1 > rr_DeadlineMs rec
                      then Some (playReject RoundExpired (Fmt ''the deadline %d has passed (clock %d)''
                             [ArgInt (rr_DeadlineMs rec), ArgInt (ts_clock s1)]) out, s1)
                      else if pm_MoveIndex c \<noteq> n
                      then Some (playReject MoveIndexMismatch (Fmt ''move_index %d, the round has %d accepted moves''
                             [ArgInt (pm_MoveIndex c), ArgInt n]) out, s1)
                      else case Replay (hx_sha hx) (rr_Seed rec) (rr_Moves rec) of
                        None \<Rightarrow> None
                      | Some (_, Some (j, err)) \<Rightarrow> Some (playReject IllegalMove (Fmt ''game: move %d: %w'' [ArgNat j, ArgMove err]) out, s1)
                      | Some (board, None) \<Rightarrow>
                          (case board_Apply (pm_Move c) board of
                             (_, Some err) \<Rightarrow> Some (playReject IllegalMove (Fmt ''%w'' [ArgMove err]) out, s1)
                           | (board1, None) \<Rightarrow>
                               accept_move hx sl c i rec out board1 t s1))))"

definition finishRoundCmd :: "hashes \<Rightarrow> slot \<Rightarrow> finishRoundOp \<Rightarrow> tstate \<Rightarrow> (result \<times> tstate) option" where
  "finishRoundCmd hx sl c s =
     (case sequenced (fr_Player c) (fr_Seq c) (fr_Tournament c) s of
        (Inl rej, s1) \<Rightarrow> Some (rej, s1)
      | (Inr (ps, t), s1) \<Rightarrow>
          (let out0 = (outcome (fr_Player c) ps)\<lparr>oc_Round := fr_Round c\<rparr>
           in case roundFor s1 t (fr_Player c) (fr_Round c) out0 of
                Inl rej \<Rightarrow> Some (rej, s1)
              | Inr (rec, i) \<Rightarrow>
                  (let out = out0\<lparr>oc_MoveIndex := int (length (rr_Moves rec))\<rparr>;
                       k = (to_ID t, fr_Player c, fr_Round c)
                   in if rr_Status rec = RoundDone then Some (ok_result out, s1)
                      else if to_Status t \<noteq> Open then Some (playReject NotOpen (status_detail t) out, s1)
                      else write_back (fr_Tournament c) (ok_result out)
                             (finishRound hx sl i k rec None (deadline_reason (ts_clock s1) rec Resigned) False (t, s1)))))"

definition ClaimableAmount :: "tournament \<Rightarrow> player_id \<Rightarrow> money" where
  "ClaimableAmount t p =
     fold (\<lambda>po acc. s64 (acc + pa_Amount po)) (filter (\<lambda>po. pa_Player po = p \<and> \<not> pa_Withheld po) (to_Payouts t)) 0"

definition claim_posting :: "slot \<Rightarrow> ballot \<Rightarrow> tournament \<Rightarrow> player_id \<Rightarrow> money \<Rightarrow> posting" where
  "claim_posting sl b t pid amount =
     \<lparr>po_Seq = 0, po_Key = ClaimKey (to_ID t) pid, po_Kind = Claim, po_Debit = PlayerAccount pid,
      po_Credit = ClaimsAccount (to_ID t), po_Amount = amount, po_Tournament = to_ID t, po_Player = pid,
      po_Place = 0, po_ExclusionVersion = 0, po_Slot = sl, po_Ballot = b\<rparr>"

definition claimPayout :: "slot \<Rightarrow> ballot \<Rightarrow> claimPayoutCmd \<Rightarrow> tstate \<Rightarrow> result \<times> tstate" where
  "claimPayout sl b c s =
     (case sequenced (cp_Player c) (cp_Seq c) (cp_Tournament c) s of
        (Inl rej, s1) \<Rightarrow> (rej, s1)
      | (Inr (ps, t), s1) \<Rightarrow>
          (let out = outcome (cp_Player c) ps; amount = ClaimableAmount t (cp_Player c);
               post = claim_posting sl b t (cp_Player c) amount
           in if tournament_Entry t (cp_Player c) = None
              then (playReject NotJoined (not_joined_detail (cp_Player c)) out, s1)
              else if to_Status t \<noteq> Settled then (playReject NotSettled (status_detail t) out, s1)
              else if amount \<le> 0
              then (playReject NoPayout (Fmt ''player %q has nothing to claim'' [ArgStr (cp_Player c)]) out, s1)
              else if Has (ts_book s1) (po_Key post)
              then (playReject AlreadyClaimed (Fmt ''posting %q exists'' [ArgStr (po_Key post)]) out, s1)
              else case Post post (ts_book s1) of
                (book, Inr (_, True)) \<Rightarrow>
                  (ok_result (out\<lparr>oc_Amount := amount\<rparr>),
                   recordEvent ((mk_event sl EventPayoutClaimed (to_ID t))\<lparr>ev_Player := cp_Player c, ev_Amount := amount\<rparr>)
                     (s1\<lparr>ts_book := book\<rparr>))
              | (book, Inr (_, False)) \<Rightarrow>
                  (playReject LedgerConflict (Fmt ''claim posting %q not appended (%v)'' [ArgStr (po_Key post)]) out, s1\<lparr>ts_book := book\<rparr>)
              | (book, Inl err) \<Rightarrow>
                  (playReject LedgerConflict (Fmt ''claim posting %q not appended (%v)'' [ArgStr (po_Key post), ArgLedger err]) out, s1\<lparr>ts_book := book\<rparr>)))"

section \<open>Apply (state.go)\<close>

definition Encode :: "command \<Rightarrow> (idempotency_key \<times> int \<times> string \<times> op) option" where
  "Encode c = (if OpName (cm_Op c) = [] then None
               else Some (cm_Key c, cm_ReceivedAt c, OpName (cm_Op c), Canonical (cm_Op c)))"

definition EncodeTournament :: "tournament \<Rightarrow> tournament" where
  "EncodeTournament t = t\<lparr>to_Ballot := zero_ballot\<rparr>"

definition EncodePostings :: "posting list \<Rightarrow> posting list" where
  "EncodePostings ps = map (\<lambda>p. p\<lparr>po_Ballot := zero_ballot\<rparr>) ps"

definition mixPlay :: "playState \<Rightarrow> playLine list option" where
  "mixPlay p =
     (if \<exists>i\<in>set (pl_dirtyPlayers p). fmlookup (pl_players p) i = None then None
      else Some (map (\<lambda>d. BindingLine (fmlookup (pl_bindings p) d)) (pl_dirtyBindings p) @
                 map (\<lambda>i. PlayerLine (ps_rec (the (fmlookup (pl_players p) i)))) (pl_dirtyPlayers p) @
                 map (\<lambda>k. RoundLine (fmlookup (pl_rounds p) k)) (pl_dirtyRounds p) @
                 map EventLine (drop (pl_eventsBefore p) (pl_events p))))"

definition mix :: "hashes \<Rightarrow> slot \<Rightarrow> command \<Rightarrow> result \<Rightarrow> nat \<Rightarrow> tstate \<Rightarrow> tstate option" where
  "mix hx sl cmd res before s =
     map_option (\<lambda>lines.
         s\<lparr>ts_hash := hx_mix hx
             \<lparr>mi_hash = ts_hash s, mi_slot = sl, mi_cmd = Encode cmd, mi_res = res,
              mi_tournament = map_option EncodeTournament (fmlookup (ts_tournaments s) (TournamentOf (cm_Op cmd))),
              mi_postings = EncodePostings (PostingsSince (ts_book s) (int before)), mi_play = lines\<rparr>\<rparr>)
       (mixPlay (ts_play s))"

definition dispatch :: "hashes \<Rightarrow> slot \<Rightarrow> ballot \<Rightarrow> command \<Rightarrow> tstate \<Rightarrow> (result \<times> tstate) option" where
  "dispatch hx sl b cmd s =
     (case cm_Op cmd of
        CreateTournament c \<Rightarrow> Some (create sl c s)
      | Join c \<Rightarrow> Some (join sl b c s)
      | SubmitScore c \<Rightarrow> Some (score c s)
      | Close c \<Rightarrow> close hx sl c s
      | Settle c \<Rightarrow> settle sl b c s
      | OpenSession c \<Rightarrow> openSession sl (cm_ReceivedAt cmd) c s
      | Enter c \<Rightarrow> Some (enterPlay sl b c s)
      | StartRound c \<Rightarrow> Some (startRound sl c s)
      | PlayMove c \<Rightarrow> playMove hx sl c s
      | FinishRound c \<Rightarrow> finishRoundCmd hx sl c s
      | ClaimPayout c \<Rightarrow> Some (claimPayout sl b c s)
      | UnknownOp \<Rightarrow> Some (reject InvalidOp (Fmt ''unknown op %T'' []), s))"

definition key_reused :: result where
  "key_reused = reject KeyReused (Fmt ''idempotency key was used with a different command'' [])"

definition execute :: "hashes \<Rightarrow> slot \<Rightarrow> ballot \<Rightarrow> command \<Rightarrow> tstate \<Rightarrow> (result \<times> tstate) option" where
  "execute hx sl b cmd s =
     (case ValidateKey (cm_Key cmd) of
        Some err \<Rightarrow> Some ((reject InvalidKey err)\<lparr>re_Slot := sl\<rparr>, s)
      | None \<Rightarrow>
     (let fp = Fingerprint (hx_fp hx) cmd
      in case fmlookup (ts_results s) (cm_Key cmd) of
           Some rec \<Rightarrow>
             if rc_fingerprint rec \<noteq> fp then Some (key_reused\<lparr>re_Slot := sl\<rparr>, s)
             else Some ((rc_result rec)\<lparr>re_Replayed := True\<rparr>, s)
         | None \<Rightarrow>
             (case dispatch hx sl b cmd s of
                None \<Rightarrow> None
              | Some (res0, s1) \<Rightarrow>
                  (let res = res0\<lparr>re_Slot := sl\<rparr>
                   in if cm_Op cmd = UnknownOp then Some (res, s1)
                      else Some (res, s1\<lparr>ts_mutations := (if re_Code res = OK then u64 (ts_mutations s1 + 1) else ts_mutations s1),
                                         ts_results := fmupd (cm_Key cmd) \<lparr>rc_fingerprint = fp, rc_result = res\<rparr> (ts_results s1)\<rparr>)))))"

definition start_command :: "slot \<Rightarrow> command \<Rightarrow> tstate \<Rightarrow> tstate" where
  "start_command sl cmd s =
     s\<lparr>ts_applied := sl, ts_commands := s64 (ts_commands s + 1),
       ts_clock := (if cm_ReceivedAt cmd > ts_clock s then cm_ReceivedAt cmd else ts_clock s),
       ts_play := begin_command (ts_play s)\<rparr>"

definition Apply :: "hashes \<Rightarrow> slot \<Rightarrow> ballot \<Rightarrow> command \<Rightarrow> tstate \<Rightarrow> (result \<times> tstate) option" where
  "Apply hx sl b cmd s =
     (if sl \<le> ts_applied s
      then Some ((reject OutOfOrder (Fmt ''slot %d is not above the applied slot %d'' [ArgNat sl, ArgNat (ts_applied s)]))
                   \<lparr>re_Slot := sl\<rparr>, s)
      else
        (let s0 = start_command sl cmd s; before = Len (ts_book s0)
         in case execute hx sl b cmd s0 of
              None \<Rightarrow> None
            | Some (res, s1) \<Rightarrow> map_option (Pair res) (mix hx sl cmd res before s1)))"

definition Skip :: "hashes \<Rightarrow> slot \<Rightarrow> tstate \<Rightarrow> tstate" where
  "Skip hx sl s =
     (if sl \<le> ts_applied s then s
      else s\<lparr>ts_applied := sl, ts_hash := hx_skip hx (ts_hash s) sl\<rparr>)"

definition State_Replay :: "hashes \<Rightarrow> command \<Rightarrow> tstate \<Rightarrow> result option" where
  "State_Replay hx cmd s =
     (case fmlookup (ts_results s) (cm_Key cmd) of
        None \<Rightarrow> None
      | Some rec \<Rightarrow>
          if rc_fingerprint rec \<noteq> Fingerprint (hx_fp hx) cmd then Some key_reused
          else Some ((rc_result rec)\<lparr>re_Replayed := True\<rparr>))"

section \<open>Reads of the play state (play_state.go)\<close>

definition event_at :: "tstate \<Rightarrow> nat \<Rightarrow> eventRecord" where
  "event_at s i = pl_events (ts_play s) ! i"

function first_after :: "tstate \<Rightarrow> nat list \<Rightarrow> slot \<Rightarrow> nat \<Rightarrow> nat \<Rightarrow> nat" where
  "first_after s list after lo hi =
     (if lo < hi then
        (let mid = (lo + hi) div 2
         in if ev_Slot (event_at s (list ! mid)) > after then first_after s list after lo mid
            else first_after s list after (mid + 1) hi)
      else lo)"
  by pat_completeness auto
termination
  by (relation "measure (\<lambda>(s, list, after, lo, hi). hi - lo)") auto

declare first_after.simps [simp del]

definition firstAfter :: "tstate \<Rightarrow> nat list \<Rightarrow> slot \<Rightarrow> nat" where
  "firstAfter s list after = first_after s list after 0 (length list)"

fun pick_events :: "tstate \<Rightarrow> tournament_id \<Rightarrow> int \<Rightarrow> nat \<Rightarrow> slot \<Rightarrow> nat list \<Rightarrow> nat list" where
  "pick_events s t mx n lst [] = []"
| "pick_events s t mx n lst (i # is) =
     (let ev = event_at s i
      in if t \<noteq> [] \<and> ev_Tournament ev \<noteq> t then pick_events s t mx n lst is
         else if mx > 0 \<and> int n \<ge> mx \<and> ev_Slot ev \<noteq> lst then []
         else i # pick_events s t mx (n + 1) (ev_Slot ev) is)"

fun cut_events :: "tstate \<Rightarrow> int \<Rightarrow> nat \<Rightarrow> slot \<Rightarrow> nat list \<Rightarrow> eventRecord list" where
  "cut_events s mx n lst [] = []"
| "cut_events s mx n lst (i # is) =
     (let ev = event_at s i
      in if mx > 0 \<and> int n \<ge> mx \<and> ev_Slot ev \<noteq> lst then []
         else ev # cut_events s mx (n + 1) (ev_Slot ev) is)"

definition event_lists :: "tstate \<Rightarrow> tournament_id \<Rightarrow> player_id \<Rightarrow> playerState \<Rightarrow> nat list list" where
  "event_lists s t p ps =
     fmget (pl_own (ts_play s)) [] p #
     map (fmget (pl_shared (ts_play s)) []) (filter (\<lambda>tid. t = [] \<or> tid = t) (ps_entered ps))"

definition Events :: "tstate \<Rightarrow> slot \<Rightarrow> tournament_id \<Rightarrow> player_id \<Rightarrow> int \<Rightarrow> eventRecord list" where
  "Events s after t p mx =
     (case fmlookup (pl_players (ts_play s)) p of
        None \<Rightarrow> []
      | Some ps \<Rightarrow>
          cut_events s mx 0 0
            (sort (concat (map (\<lambda>list. pick_events s t mx 0 0 (drop (firstAfter s list after) list))
               (event_lists s t p ps)))))"

definition HasEvents :: "tstate \<Rightarrow> slot \<Rightarrow> tournament_id \<Rightarrow> player_id \<Rightarrow> bool" where
  "HasEvents s after t p =
     (case fmlookup (pl_players (ts_play s)) p of
        None \<Rightarrow> False
      | Some ps \<Rightarrow>
          (let own = fmget (pl_own (ts_play s)) [] p
           in (\<exists>i\<in>set (drop (firstAfter s own after) own). t = [] \<or> ev_Tournament (event_at s i) = t) \<or>
              (\<exists>tid\<in>set (ps_entered ps). (t = [] \<or> tid = t) \<and>
                 (let list = fmget (pl_shared (ts_play s)) [] tid in firstAfter s list after < length list))))"

section \<open>Plain reads (state.go, play_state.go)\<close>

text \<open>A deep copy of the source is the value itself. A read that returns a zero value and false in the
  source returns \<open>None\<close>.\<close>

definition State_Tournament :: "tstate \<Rightarrow> tournament_id \<Rightarrow> tournament option" where
  "State_Tournament s tid = fmlookup (ts_tournaments s) tid"

definition State_Tournaments :: "tstate \<Rightarrow> tournament_id list" where
  "State_Tournaments s = ts_order s"

definition TournamentCount :: "tstate \<Rightarrow> nat" where
  "TournamentCount s = length (ts_order s)"

definition Recorded :: "tstate \<Rightarrow> nat" where
  "Recorded s = fcard (fmdom (ts_results s))"

definition State_Result :: "tstate \<Rightarrow> idempotency_key \<Rightarrow> result option" where
  "State_Result s k = map_option rc_result (fmlookup (ts_results s) k)"

definition State_Binding :: "tstate \<Rightarrow> device_id \<Rightarrow> binding option" where
  "State_Binding s d = fmlookup (pl_bindings (ts_play s)) d"

definition State_Player :: "tstate \<Rightarrow> player_id \<Rightarrow> playerRecord option" where
  "State_Player s p = map_option ps_rec (fmlookup (pl_players (ts_play s)) p)"

record header =
  hd_ID :: tournament_id
  hd_Rules :: rules
  hd_Status :: status
  hd_Entrants :: nat
  hd_Pool :: money
  hd_CreatedAt :: slot

definition State_Header :: "tstate \<Rightarrow> tournament_id \<Rightarrow> header option" where
  "State_Header s tid =
     map_option (\<lambda>t. \<lparr>hd_ID = to_ID t, hd_Rules = to_Rules t, hd_Status = to_Status t,
       hd_Entrants = length (to_Entries t), hd_Pool = to_Pool t, hd_CreatedAt = to_CreatedAt t\<rparr>)
       (fmlookup (ts_tournaments s) tid)"

definition State_Entry :: "tstate \<Rightarrow> tournament_id \<Rightarrow> player_id \<Rightarrow> entry option option" where
  "State_Entry s tid p = map_option (\<lambda>t. tournament_Entry t p) (fmlookup (ts_tournaments s) tid)"

definition State_Round :: "tstate \<Rightarrow> tournament_id \<Rightarrow> player_id \<Rightarrow> int \<Rightarrow> roundRecord option" where
  "State_Round s tid p r = fmlookup (pl_rounds (ts_play s)) (tid, p, r)"

definition EventCount :: "tstate \<Rightarrow> nat" where
  "EventCount s = length (pl_events (ts_play s))"

end
