(* ===== verification/Replicas.thy ===== *)
theory Replicas
  imports State
begin

text \<open>
  Two replicas that apply the same commands in the same slots hold the same state, whatever ballots
  they learned the slots under. \<open>erase\<close> forgets the ballots of tournaments and postings; every
  handler commutes with it, so the result and the hash of a command are those of the erased state.
  The frame lemmas of the shared helpers are here too.
\<close>

section \<open>Frame lemmas\<close>

lemma set_tournament_sel [simp]:
  "ts_tournaments (set_tournament k t s) = fmupd k t (ts_tournaments s)"
  "ts_order (set_tournament k t s) = ts_order s" "ts_results (set_tournament k t s) = ts_results s"
  "ts_book (set_tournament k t s) = ts_book s" "ts_applied (set_tournament k t s) = ts_applied s"
  "ts_hash (set_tournament k t s) = ts_hash s" "ts_commands (set_tournament k t s) = ts_commands s"
  "ts_mutations (set_tournament k t s) = ts_mutations s" "ts_play (set_tournament k t s) = ts_play s"
  "ts_clock (set_tournament k t s) = ts_clock s"
  by (simp_all add: set_tournament_def)

lemma set_play_sel [simp]:
  "ts_tournaments (set_play f s) = ts_tournaments s"
  "ts_order (set_play f s) = ts_order s" "ts_results (set_play f s) = ts_results s"
  "ts_book (set_play f s) = ts_book s" "ts_applied (set_play f s) = ts_applied s"
  "ts_hash (set_play f s) = ts_hash s" "ts_commands (set_play f s) = ts_commands s"
  "ts_mutations (set_play f s) = ts_mutations s" "ts_play (set_play f s) = f (ts_play s)"
  "ts_clock (set_play f s) = ts_clock s"
  by (simp_all add: set_play_def)

lemma touchPlayer_sel [simp]:
  "pl_bindings (touchPlayer i p) = pl_bindings p" "pl_players (touchPlayer i p) = pl_players p"
  "pl_rounds (touchPlayer i p) = pl_rounds p" "pl_events (touchPlayer i p) = pl_events p"
  "pl_shared (touchPlayer i p) = pl_shared p" "pl_own (touchPlayer i p) = pl_own p"
  "pl_boardAt (touchPlayer i p) = pl_boardAt p" "pl_eventsBefore (touchPlayer i p) = pl_eventsBefore p"
  "pl_dirtyBindings (touchPlayer i p) = pl_dirtyBindings p" "pl_dirtyRounds (touchPlayer i p) = pl_dirtyRounds p"
  "set (pl_dirtyPlayers (touchPlayer i p)) = insert i (set (pl_dirtyPlayers p))"
  by (auto simp: touchPlayer_def)

lemma touchRound_sel [simp]:
  "pl_bindings (touchRound k p) = pl_bindings p" "pl_players (touchRound k p) = pl_players p"
  "pl_rounds (touchRound k p) = pl_rounds p" "pl_events (touchRound k p) = pl_events p"
  "pl_shared (touchRound k p) = pl_shared p" "pl_own (touchRound k p) = pl_own p"
  "pl_boardAt (touchRound k p) = pl_boardAt p" "pl_eventsBefore (touchRound k p) = pl_eventsBefore p"
  "pl_dirtyBindings (touchRound k p) = pl_dirtyBindings p" "pl_dirtyPlayers (touchRound k p) = pl_dirtyPlayers p"
  "set (pl_dirtyRounds (touchRound k p)) = insert k (set (pl_dirtyRounds p))"
  by (auto simp: touchRound_def)

lemma set_round_sel [simp]:
  "pl_bindings (set_round k r p) = pl_bindings p" "pl_players (set_round k r p) = pl_players p"
  "pl_rounds (set_round k r p) = fmupd k r (pl_rounds p)" "pl_events (set_round k r p) = pl_events p"
  "pl_shared (set_round k r p) = pl_shared p" "pl_own (set_round k r p) = pl_own p"
  "pl_boardAt (set_round k r p) = pl_boardAt p" "pl_eventsBefore (set_round k r p) = pl_eventsBefore p"
  "pl_dirtyBindings (set_round k r p) = pl_dirtyBindings p" "pl_dirtyPlayers (set_round k r p) = pl_dirtyPlayers p"
  "pl_dirtyRounds (set_round k r p) = pl_dirtyRounds p"
  by (simp_all add: set_round_def)

lemma recordEvent_sel [simp]:
  "ts_tournaments (recordEvent e s) = ts_tournaments s"
  "ts_order (recordEvent e s) = ts_order s" "ts_results (recordEvent e s) = ts_results s"
  "ts_book (recordEvent e s) = ts_book s" "ts_applied (recordEvent e s) = ts_applied s"
  "ts_hash (recordEvent e s) = ts_hash s" "ts_commands (recordEvent e s) = ts_commands s"
  "ts_mutations (recordEvent e s) = ts_mutations s" "ts_clock (recordEvent e s) = ts_clock s"
  by (simp_all add: recordEvent_def Let_def)

lemma recordEvent_play [simp]:
  "pl_bindings (ts_play (recordEvent e s)) = pl_bindings (ts_play s)"
  "pl_players (ts_play (recordEvent e s)) = pl_players (ts_play s)"
  "pl_rounds (ts_play (recordEvent e s)) = pl_rounds (ts_play s)"
  "pl_boardAt (ts_play (recordEvent e s)) = pl_boardAt (ts_play s)"
  "pl_dirtyBindings (ts_play (recordEvent e s)) = pl_dirtyBindings (ts_play s)"
  "pl_dirtyPlayers (ts_play (recordEvent e s)) = pl_dirtyPlayers (ts_play s)"
  "pl_dirtyRounds (ts_play (recordEvent e s)) = pl_dirtyRounds (ts_play s)"
  "pl_events (ts_play (recordEvent e s)) = pl_events (ts_play s) @ [e\<lparr>ev_TimeMs := ts_clock s\<rparr>]"
  by (simp_all add: recordEvent_def Let_def)

lemma recordLeaderboard_sel [simp]:
  "ts_tournaments (recordLeaderboard sl tid s) = ts_tournaments s"
  "ts_order (recordLeaderboard sl tid s) = ts_order s" "ts_results (recordLeaderboard sl tid s) = ts_results s"
  "ts_book (recordLeaderboard sl tid s) = ts_book s" "ts_applied (recordLeaderboard sl tid s) = ts_applied s"
  "ts_hash (recordLeaderboard sl tid s) = ts_hash s" "ts_commands (recordLeaderboard sl tid s) = ts_commands s"
  "ts_mutations (recordLeaderboard sl tid s) = ts_mutations s" "ts_clock (recordLeaderboard sl tid s) = ts_clock s"
  "pl_bindings (ts_play (recordLeaderboard sl tid s)) = pl_bindings (ts_play s)"
  "pl_players (ts_play (recordLeaderboard sl tid s)) = pl_players (ts_play s)"
  "pl_rounds (ts_play (recordLeaderboard sl tid s)) = pl_rounds (ts_play s)"
  "pl_dirtyBindings (ts_play (recordLeaderboard sl tid s)) = pl_dirtyBindings (ts_play s)"
  "pl_dirtyPlayers (ts_play (recordLeaderboard sl tid s)) = pl_dirtyPlayers (ts_play s)"
  by (simp_all add: recordLeaderboard_def)

lemma recordStatus_sel [simp]:
  "ts_tournaments (recordStatus sl t s) = ts_tournaments s"
  "ts_order (recordStatus sl t s) = ts_order s" "ts_results (recordStatus sl t s) = ts_results s"
  "ts_book (recordStatus sl t s) = ts_book s" "ts_applied (recordStatus sl t s) = ts_applied s"
  "ts_hash (recordStatus sl t s) = ts_hash s" "ts_commands (recordStatus sl t s) = ts_commands s"
  "ts_mutations (recordStatus sl t s) = ts_mutations s" "ts_clock (recordStatus sl t s) = ts_clock s"
  "pl_bindings (ts_play (recordStatus sl t s)) = pl_bindings (ts_play s)"
  "pl_players (ts_play (recordStatus sl t s)) = pl_players (ts_play s)"
  "pl_rounds (ts_play (recordStatus sl t s)) = pl_rounds (ts_play s)"
  "pl_dirtyBindings (ts_play (recordStatus sl t s)) = pl_dirtyBindings (ts_play s)"
  "pl_dirtyPlayers (ts_play (recordStatus sl t s)) = pl_dirtyPlayers (ts_play s)"
  by (simp_all add: recordStatus_def)

section \<open>Forgetting ballots\<close>

definition erase_t :: "tournament \<Rightarrow> tournament" where
  "erase_t t = t\<lparr>to_Ballot := zero_ballot\<rparr>"

definition erase_p :: "posting \<Rightarrow> posting" where
  "erase_p p = p\<lparr>po_Ballot := zero_ballot\<rparr>"

definition erase_b :: "book \<Rightarrow> book" where
  "erase_b b = b\<lparr>bk_postings := map erase_p (bk_postings b)\<rparr>"

definition erase :: "tstate \<Rightarrow> tstate" where
  "erase s = s\<lparr>ts_tournaments := fmmap erase_t (ts_tournaments s), ts_book := erase_b (ts_book s)\<rparr>"

lemma erase_t_sel [simp]:
  "to_ID (erase_t t) = to_ID t" "to_Seed (erase_t t) = to_Seed t" "to_Rules (erase_t t) = to_Rules t"
  "to_Status (erase_t t) = to_Status t" "to_Entries (erase_t t) = to_Entries t" "to_Fees (erase_t t) = to_Fees t"
  "to_Rake (erase_t t) = to_Rake t" "to_Pool (erase_t t) = to_Pool t" "to_Standings (erase_t t) = to_Standings t"
  "to_Payouts (erase_t t) = to_Payouts t"
  by (simp_all add: erase_t_def)

lemma erase_t_upd:
  "erase_t (t\<lparr>to_Entries := es\<rparr>) = (erase_t t)\<lparr>to_Entries := es\<rparr>"
  by (simp add: erase_t_def)

lemma erase_p_sel [simp]:
  "po_Key (erase_p p) = po_Key p" "po_Debit (erase_p p) = po_Debit p" "po_Credit (erase_p p) = po_Credit p"
  "po_Amount (erase_p p) = po_Amount p" "po_Kind (erase_p p) = po_Kind p" "po_Seq (erase_p p) = po_Seq p"
  "posting_Validate (erase_p p) = posting_Validate p" "move (erase_p p) m = move p m"
  by (simp_all add: erase_p_def posting_Validate_def move_def)

lemma erase_b_sel [simp]:
  "bk_postings (erase_b b) = map erase_p (bk_postings b)" "bk_byKey (erase_b b) = bk_byKey b"
  "bk_balances (erase_b b) = bk_balances b" "Has (erase_b b) k = Has b k" "Len (erase_b b) = Len b"
  by (simp_all add: erase_b_def Has_def Len_def)

lemma erase_sel [simp]:
  "ts_tournaments (erase s) = fmmap erase_t (ts_tournaments s)"
  "ts_order (erase s) = ts_order s" "ts_results (erase s) = ts_results s"
  "ts_book (erase s) = erase_b (ts_book s)" "ts_applied (erase s) = ts_applied s"
  "ts_hash (erase s) = ts_hash s" "ts_commands (erase s) = ts_commands s"
  "ts_mutations (erase s) = ts_mutations s" "ts_play (erase s) = ts_play s" "ts_clock (erase s) = ts_clock s"
  by (simp_all add: erase_def)

lemma fmmap_fmupd [simp]: "fmmap f (fmupd k v m) = fmupd k (f v) (fmmap f m)"
  by (rule fmap_ext) simp

lemma erase_set_tournament: "erase (set_tournament k t s) = set_tournament k (erase_t t) (erase s)"
  by (simp add: erase_def set_tournament_def)

lemma erase_set_play: "erase (set_play f s) = set_play f (erase s)"
  by (simp add: erase_def set_play_def)

lemma erase_recordEvent: "erase (recordEvent e s) = recordEvent e (erase s)"
  by (simp add: erase_def recordEvent_def Let_def)

lemma erase_book: "erase (s\<lparr>ts_book := b\<rparr>) = (erase s)\<lparr>ts_book := erase_b b\<rparr>"
  by (simp add: erase_def)

lemma erase_order: "erase (s\<lparr>ts_order := b\<rparr>) = (erase s)\<lparr>ts_order := b\<rparr>"
  by (simp add: erase_def)

lemma erase_recordLeaderboard: "erase (recordLeaderboard sl tid s) = recordLeaderboard sl tid (erase s)"
  by (simp add: recordLeaderboard_def erase_recordEvent erase_set_play)

lemma recordStatus_cong: "to_ID t = to_ID t' \<Longrightarrow> to_Status t = to_Status t' \<Longrightarrow> recordStatus sl t s = recordStatus sl t' s"
  by (simp add: recordStatus_def)

lemma erase_recordStatus: "erase (recordStatus sl t s) = recordStatus sl (erase_t t) (erase s)"
  by (simp add: recordStatus_def erase_recordLeaderboard erase_recordEvent)

lemmas erase_push = erase_set_tournament erase_set_play erase_recordEvent erase_book erase_order
  erase_recordLeaderboard erase_recordStatus

lemma Progress_erase [simp]: "Progress (erase s) t p = Progress s t p"
proof -
  have "progress_step (erase s) t p = progress_step s t p" by (simp add: progress_step_def fun_eq_iff)
  then show ?thesis by (simp add: Progress_def)
qed

lemma Progress_play_erase: "Progress (set_play f (erase s)) t p = Progress (set_play f s) t p"
  by (metis Progress_erase erase_set_play)

lemma Post_erase_error: "Post p b = (b', Inl e) \<Longrightarrow> Post (erase_p p) (erase_b b) = (erase_b b', Inl e)"
  by (auto simp: Post_def Let_def split: option.splits)

lemma Post_erase_ok:
  "Post p b = (b', Inr (q, ok)) \<Longrightarrow> \<exists>q'. Post (erase_p p) (erase_b b) = (erase_b b', Inr (q', ok))"
  by (auto simp: Post_def erase_b_def erase_p_def Let_def posting_Validate_def move_def split: option.splits if_splits)

section \<open>Every handler commutes with erasure\<close>

abbreviation erased :: "result \<times> tstate \<Rightarrow> result \<times> tstate" where
  "erased \<equiv> map_prod id erase"

abbreviation erased_pair :: "tournament \<times> tstate \<Rightarrow> tournament \<times> tstate" where
  "erased_pair \<equiv> map_prod erase_t erase"

lemma create_erase: "erased (create sl c s) = create sl c (erase s)"
  by (auto simp: create_def erase_push Let_def erase_t_def split: option.splits)

lemma ComputePool_erase [simp]: "ComputePool (erase_t t) = ComputePool t"
  by (simp add: ComputePool_def Voids_def ScoredCount_def Let_def)

lemma ComputeStandings_erase [simp]: "ComputeStandings (erase_t t) = ComputeStandings t"
  by (simp add: ComputeStandings_def)

lemma tournament_Entry_erase [simp]: "tournament_Entry (erase_t t) p = tournament_Entry t p"
  by (simp add: tournament_Entry_def)

lemma Voids_erase [simp]: "Voids (erase_t t) = Voids t"
  by (simp add: Voids_def ScoredCount_def)

lemma ComputePayouts_erase [simp]: "ComputePayouts (erase_t t) ex = ComputePayouts t ex"
proof -
  have "payout_standings (erase_t t) = payout_standings t" by (simp add: payout_standings_def)
  moreover from this have "prize_amounts (erase_t t) = prize_amounts t" by (simp add: prize_amounts_def Let_def case_prod_beta)
  moreover have "prize_payout (erase_t t) = prize_payout t" by (simp add: prize_payout_def fun_eq_iff Let_def)
  moreover have "refund_payout (erase_t t) = refund_payout t" by (simp add: refund_payout_def fun_eq_iff)
  ultimately show ?thesis by (simp add: ComputePayouts_def)
qed

lemma check_fresh_erase: "check_fresh (erase_b b) seen (map erase_p ps) = check_fresh b seen ps"
  by (induction b seen ps rule: check_fresh.induct) (simp_all add: key_taken_def)

lemma checkFresh_erase: "checkFresh (erase_b b) (map erase_p ps) = checkFresh b ps"
  by (simp add: checkFresh_def check_fresh_erase)

lemma fee_posting_erase [simp]: "fee_posting sl zero_ballot (erase_t t) p = erase_p (fee_posting sl b t p)"
  by (simp add: fee_posting_def erase_p_def)

lemma status_detail_erase [simp]: "status_detail (erase_t t) = status_detail t"
  by (simp add: status_detail_def)

lemma admit_check_erase [simp]: "admit_check (erase_t t) p = admit_check t p"
  by (simp add: admit_check_def)

lemma admit_erase: "erased (admit sl b tid t p s) = admit sl zero_ballot tid (erase_t t) p (erase s)"
proof (cases "admit_check t p")
  case None
  let ?fee = "fee_posting sl b t p"
  show ?thesis
  proof (cases "checkFresh (ts_book s) [?fee]")
    case fresh: None
    have fe: "checkFresh (erase_b (ts_book s)) [erase_p ?fee] = None"
      using fresh checkFresh_erase [of "ts_book s" "[?fee]"] by simp
    obtain book r where po: "Post ?fee (ts_book s) = (book, r)" by (cases "Post ?fee (ts_book s)")
    show ?thesis
    proof (cases r)
      case (Inl e)
      with po Post_erase_error [of ?fee "ts_book s" book e] None fresh fe show ?thesis
        by (simp add: admit_def Let_def fee_posting_erase [of sl t p b])
    next
      case (Inr x)
      obtain q ok where x: "x = (q, ok)" by (cases x)
      with po Inr Post_erase_ok [of ?fee "ts_book s" book q ok] obtain q'
        where "Post (erase_p ?fee) (erase_b (ts_book s)) = (erase_b book, Inr (q', ok))" by auto
      with po Inr x None fresh fe show ?thesis
        by (simp add: admit_def Let_def fee_posting_erase [of sl t p b] erase_push erase_t_upd new_entry_def)
    qed
  next
    case (Some err)
    then have "checkFresh (erase_b (ts_book s)) [erase_p ?fee] = Some err"
      using checkFresh_erase [of "ts_book s" "[?fee]"] by simp
    with None Some show ?thesis by (simp add: admit_def Let_def fee_posting_erase [of sl t p b])
  qed
qed (simp add: admit_def)

lemma join_erase: "erased (join sl b c s) = join sl zero_ballot c (erase s)"
  by (simp add: join_def case_prod_beta admit_erase [of sl b "jo_Tournament c" _ "jo_Player c" s, symmetric]
      split: option.splits)

lemma entry_index_erase [simp]: "entry_index (erase_t t) p = entry_index t p"
  by (simp add: entry_index_def)

lemma update_entry_erase: "update_entry i f (erase_t t) = erase_t (update_entry i f t)"
  by (simp add: update_entry_def erase_t_def)

lemma ScoredCount_erase [simp]: "ScoredCount (erase_t t) = ScoredCount t"
  by (simp add: ScoredCount_def)

lemma set_score_erase: "set_score i sc (erase_t t) = erase_t (set_score i sc t)"
  by (simp add: set_score_def Let_def update_entry_erase)

lemma score_erase: "erased (score c s) = score c (erase s)"
  by (auto simp: score_def erase_push set_score_erase update_entry_erase split: option.splits)

lemma scoreEntry_erase: "erased_pair (scoreEntry sl i (t, s)) = scoreEntry sl i (erase_t t, erase s)"
  by (simp add: scoreEntry_def Let_def set_score_erase erase_push)

lemma finishRound_erase:
  "map_option erased_pair (finishRound hx sl i k r bo reason cl (t, s)) =
     finishRound hx sl i k r bo reason cl (erase_t t, erase s)"
  by (simp add: finishRound_def Let_def erase_push scoreEntry_erase Progress_play_erase split: option.splits)

lemma close_round_erase:
  "map_option erased_pair (close_round hx sl ir ts) = close_round hx sl ir (erased_pair ts)"
  by (cases ts; cases ir) (simp add: close_round_def Let_def finishRound_erase split: option.splits)

lemma close_all_rounds_erase:
  "map_option erased_pair (close_all_rounds hx sl irs ts) = close_all_rounds hx sl irs (erased_pair ts)"
proof (induction irs arbitrary: ts)
  case (Cons ir irs)
  from close_round_erase [of hx sl ir ts] Cons show ?case
    by (cases "close_round hx sl ir ts") (auto dest: sym)
qed simp

lemma close_score_erase: "erased_pair (close_score sl i ts) = close_score sl i (erased_pair ts)"
  by (cases ts) (simp add: close_score_def Let_def scoreEntry_erase)

lemma close_score_fold_erase:
  "erased_pair (fold (close_score sl) is ts) = fold (close_score sl) is (erased_pair ts)"
  by (induction "is" arbitrary: ts) (simp_all add: close_score_erase)

lemma closeRounds_erase:
  "map_option erased_pair (closeRounds hx sl (t, s)) = closeRounds hx sl (erase_t t, erase s)"
proof -
  let ?irs = "concat (map (\<lambda>i. map (Pair i) round_numbers) [0..<length (to_Entries t)])"
  have "close_all_rounds hx sl ?irs (erase_t t, erase s) = map_option erased_pair (close_all_rounds hx sl ?irs (t, s))"
    by (simp add: close_all_rounds_erase)
  then show ?thesis
    by (simp add: closeRounds_def Let_def option.map_comp comp_def close_score_fold_erase)
qed

lemma close_record_erase: "close_record sl (erase_t t) = erase_t (close_record sl t)"
proof -
  have "Voids (x\<lparr>to_Standings := a\<rparr>) = Voids x" "ComputePool (x\<lparr>to_Standings := a\<rparr>) = ComputePool x"
    "Voids (x\<lparr>to_Fees := f, to_Rake := r, to_Pool := p, to_ClosedAt := c\<rparr>) = Voids x" for x a f r p c
    by (simp_all add: Voids_def ScoredCount_def ComputePool_def Let_def)
  moreover obtain f r p where "ComputePool t = (f, r, p)" by (cases "ComputePool t")
  ultimately show ?thesis by (simp add: close_record_def Let_def) (simp add: erase_t_def)
qed

lemma close_erase: "map_option erased (close hx sl c s) = close hx sl c (erase s)"
proof (cases "fmlookup (ts_tournaments s) (cl_Tournament c)")
  case (Some t)
  show ?thesis
  proof (cases "to_Status t \<noteq> Open")
    case False
    let ?cr = "\<lambda>ts. if ru_Game (to_Rules t) \<noteq> [] then closeRounds hx sl ts else Some ts"
    have cr: "map_option erased_pair (?cr (t, s)) = ?cr (erase_t t, erase s)" by (simp add: closeRounds_erase)
    show ?thesis
    proof (cases "?cr (t, s)")
      case None
      with cr False Some show ?thesis by (simp add: close_def split: if_splits)
    next
      case (Some ts)
      obtain t1 s1 where "ts = (t1, s1)" by (cases ts)
      with Some cr have "?cr (erase_t t, erase s) = Some (erase_t t1, erase s1)" "?cr (t, s) = Some (t1, s1)" by auto
      with \<open>fmlookup _ _ = Some t\<close> False show ?thesis
        by (simp add: close_def Let_def erase_push close_record_erase)
    qed
  qed (use Some in \<open>simp add: close_def\<close>)
qed (simp add: close_def)

lemma settle_postings_erase:
  "settle_postings sl zero_ballot (erase_t t) ex ps = map erase_p (settle_postings sl b t ex ps)"
  by (simp add: settle_postings_def rake_posting_def payout_posting_def erase_p_def)

lemma first_invalid_erase [simp]: "first_invalid (map erase_p ps) = first_invalid ps"
  by (induction ps) (simp_all split: option.splits)

lemma post_all_erase: "post_all (map erase_p ps) (erase_b b) = map_option erase_b (post_all ps b)"
proof (induction ps arbitrary: b)
  case (Cons p ps)
  obtain b' r where po: "Post p b = (b', r)" by (cases "Post p b")
  show ?case
  proof (cases r)
    case (Inl e)
    with po Post_erase_error show ?thesis by fastforce
  next
    case (Inr x)
    obtain q ok where "x = (q, ok)" by (cases x)
    with po Inr Post_erase_ok [of p b b' q ok] Cons show ?thesis by (cases ok) auto
  qed
qed simp

lemma record_payout_erase: "erase (record_payout sl t p s) = record_payout sl (erase_t t) p (erase s)"
  by (simp add: record_payout_def erase_recordEvent)

lemma record_payouts_erase:
  "erase (fold (record_payout sl t) ps s) = fold (record_payout sl (erase_t t)) ps (erase s)"
  by (induction ps arbitrary: s) (simp_all add: record_payout_erase)

lemma settle_erase: "map_option erased (settle sl b c s) = settle sl zero_ballot c (erase s)"
proof (cases "fmlookup (ts_tournaments s) (se_Tournament c)")
  case (Some t)
  let ?ex = "canonicalExclusions (se_Exclusions c)"
  let ?po = "settle_postings sl b t ?ex (ComputePayouts t ?ex)"
  have po: "settle_postings sl zero_ballot (erase_t t) ?ex (ComputePayouts t ?ex) = map erase_p ?po"
    by (rule settle_postings_erase)
  have er: "(erase_t t)\<lparr>to_Payouts := ps, to_Status := Settled, to_SettledAt := sl, to_Ballot := zero_ballot\<rparr> =
      erase_t (t\<lparr>to_Payouts := ps, to_Status := Settled, to_SettledAt := sl, to_Ballot := b\<rparr>)" for ps
    by (simp add: erase_t_def)
  show ?thesis
    by (simp add: settle_def Some Let_def po checkFresh_erase post_all_erase er erase_push record_payouts_erase
        split: option.splits)
qed (simp add: settle_def split: option.splits)

lemma openSession_erase: "map_option erased (openSession sl ra c s) = openSession sl ra c (erase s)"
  by (auto simp: openSession_def Let_def erase_push split: option.splits)

lemma sequenced_erase:
  "sequenced pid seq tid (erase s) =
     (case sequenced pid seq tid s of
        (Inl r, s1) \<Rightarrow> (Inl r, erase s1) | (Inr (ps, t), s1) \<Rightarrow> (Inr (ps, erase_t t), erase s1))"
  by (simp add: sequenced_def Let_def erase_push split: option.splits)

lemma enterPlay_erase: "erased (enterPlay sl b c s) = enterPlay sl zero_ballot c (erase s)"
proof (cases "sequenced (et_Player c) (et_Seq c) (et_Tournament c) s")
  case (Pair r s1)
  show ?thesis
  proof (cases r)
    case (Inr x)
    obtain ps t where x: "x = (ps, t)" by (cases x)
    show ?thesis
      by (simp add: enterPlay_def sequenced_erase Pair Inr x Let_def case_prod_beta erase_push
          admit_erase [of sl b "et_Tournament c" t _ s1, symmetric])
  qed (simp add: enterPlay_def sequenced_erase Pair)
qed

lemma startRound_erase: "erased (startRound sl c s) = startRound sl c (erase s)"
proof (cases "sequenced (sr_Player c) (sr_Seq c) (sr_Tournament c) s")
  case (Pair r s1)
  show ?thesis
  proof (cases r)
    case (Inr x)
    obtain ps t where x: "x = (ps, t)" by (cases x)
    show ?thesis
      by (simp add: startRound_def sequenced_erase Pair Inr x Let_def erase_push previous_unfinished_def)
  qed (simp add: startRound_def sequenced_erase Pair)
qed

lemma roundFor_erase [simp]: "roundFor (erase s) (erase_t t) p r out = roundFor s t p r out"
  by (simp add: roundFor_def split: option.splits)

lemma write_back_erase:
  "map_option erased (write_back tid res r) = write_back tid res (map_option erased_pair r)"
  by (cases r) (auto simp: write_back_def erase_push)

lemma accept_move_erase:
  "map_option erased (accept_move hx sl c i rec out bd t s) = accept_move hx sl c i rec out bd (erase_t t) (erase s)"
  by (simp add: accept_move_def Let_def write_back_erase finishRound_erase erase_push split: option.splits)

lemma playMove_erase: "map_option erased (playMove hx sl c s) = playMove hx sl c (erase s)"
proof (cases "sequenced (pm_Player c) (pm_Seq c) (pm_Tournament c) s")
  case (Pair r s1)
  show ?thesis
  proof (cases r)
    case (Inr x)
    obtain ps t where x: "x = (ps, t)" by (cases x)
    show ?thesis
      by (simp add: playMove_def sequenced_erase Pair Inr x Let_def accept_move_erase
          split: sum.splits option.splits prod.splits)
  qed (simp add: playMove_def sequenced_erase Pair)
qed

lemma finishRoundCmd_erase: "map_option erased (finishRoundCmd hx sl c s) = finishRoundCmd hx sl c (erase s)"
proof (cases "sequenced (fr_Player c) (fr_Seq c) (fr_Tournament c) s")
  case (Pair r s1)
  show ?thesis
  proof (cases r)
    case (Inr x)
    obtain ps t where x: "x = (ps, t)" by (cases x)
    show ?thesis
      by (simp add: finishRoundCmd_def sequenced_erase Pair Inr x Let_def write_back_erase finishRound_erase
          split: sum.splits prod.splits)
  qed (simp add: finishRoundCmd_def sequenced_erase Pair)
qed

lemma claimPayout_erase: "erased (claimPayout sl b c s) = claimPayout sl zero_ballot c (erase s)"
proof (cases "sequenced (cp_Player c) (cp_Seq c) (cp_Tournament c) s")
  case (Pair r s1)
  show ?thesis
  proof (cases r)
    case (Inr x)
    obtain ps t where x: "x = (ps, t)" by (cases x)
    let ?a = "ClaimableAmount t (cp_Player c)"
    let ?p = "claim_posting sl b t (cp_Player c) ?a"
    have am: "ClaimableAmount (erase_t t) (cp_Player c) = ?a" by (simp add: ClaimableAmount_def)
    have cp: "claim_posting sl zero_ballot (erase_t t) (cp_Player c) ?a = erase_p ?p"
      by (simp add: claim_posting_def erase_p_def)
    obtain book y where po: "Post ?p (ts_book s1) = (book, y)" by (cases "Post ?p (ts_book s1)")
    show ?thesis
    proof (cases y)
      case (Inl e)
      with Post_erase_error po have "Post (erase_p ?p) (erase_b (ts_book s1)) = (erase_b book, Inl e)" by blast
      with po Inl show ?thesis
        by (simp add: claimPayout_def sequenced_erase Pair Inr x Let_def am cp erase_push)
    next
      case (Inr z)
      obtain q ok where z: "z = (q, ok)" by (cases z)
      with Post_erase_ok po Inr obtain q' where "Post (erase_p ?p) (erase_b (ts_book s1)) = (erase_b book, Inr (q', ok))" by blast
      with po Inr z \<open>r = Inr x\<close> show ?thesis
        by (cases ok) (simp_all add: claimPayout_def sequenced_erase Pair x Let_def am cp erase_push)
    qed
  qed (simp add: claimPayout_def sequenced_erase Pair)
qed

lemmas handlers_erase = create_erase join_erase score_erase close_erase settle_erase openSession_erase
  enterPlay_erase startRound_erase playMove_erase finishRoundCmd_erase claimPayout_erase

lemma dispatch_erase: "map_option erased (dispatch hx sl b cmd s) = dispatch hx sl zero_ballot cmd (erase s)"
  by (simp add: dispatch_def handlers_erase split: op.split)

lemma erase_results:
  "erase (s\<lparr>ts_mutations := m, ts_results := r\<rparr>) = (erase s)\<lparr>ts_mutations := m, ts_results := r\<rparr>"
  by (simp add: erase_def)

lemma execute_erase: "map_option erased (execute hx sl b cmd s) = execute hx sl zero_ballot cmd (erase s)"
  by (simp add: execute_def Let_def erase_results dispatch_erase [of hx sl b, symmetric] split: option.splits)

lemma PostingsSince_erase: "EncodePostings (PostingsSince (erase_b b) n) = EncodePostings (PostingsSince b n)"
  by (simp add: PostingsSince_def Let_def EncodePostings_def drop_map erase_p_def)

lemma erase_hash: "erase (s\<lparr>ts_hash := h\<rparr>) = (erase s)\<lparr>ts_hash := h\<rparr>"
  by (simp add: erase_def)

lemma mix_erase: "map_option erase (mix hx sl cmd res n s) = mix hx sl cmd res n (erase s)"
proof -
  have "EncodeTournament (erase_t t) = EncodeTournament t" for t by (simp add: EncodeTournament_def erase_t_def)
  then show ?thesis
    by (cases "mixPlay (ts_play s)")
      (simp_all add: mix_def PostingsSince_erase option.map_comp comp_def erase_hash)
qed

lemma start_command_erase: "start_command sl cmd (erase s) = erase (start_command sl cmd s)"
  by (simp add: start_command_def erase_def)

lemma Apply_erase: "map_option erased (Apply hx sl b cmd s) = Apply hx sl zero_ballot cmd (erase s)"
proof (cases "sl \<le> ts_applied s")
  case False
  let ?s0 = "start_command sl cmd s"
  have len: "Len (ts_book (erase ?s0)) = Len (ts_book ?s0)" by simp
  have ex: "execute hx sl zero_ballot cmd (erase ?s0) = map_option erased (execute hx sl b cmd ?s0)"
    by (simp add: execute_erase)
  show ?thesis
  proof (cases "execute hx sl b cmd ?s0")
    case (Some rs)
    obtain res s1 where "rs = (res, s1)" by (cases rs)
    with Some False ex show ?thesis
      by (simp add: Apply_def Let_def start_command_erase len mix_erase [symmetric] option.map_comp comp_def)
  qed (use False ex in \<open>simp add: Apply_def Let_def start_command_erase\<close>)
qed (simp add: Apply_def)

section \<open>What no handler touches\<close>

text \<open>\<open>admin s\<close> is the part of the state only \<open>Apply\<close> and \<open>execute\<close> themselves write.\<close>

definition admin :: "tstate \<Rightarrow> (idempotency_key, resultRecord) fmap \<times> slot \<times> string \<times> int \<times> nat \<times> int" where
  "admin s = (ts_results s, ts_applied s, ts_hash s, ts_commands s, ts_mutations s, ts_clock s)"

lemma admin_push [simp]:
  "admin (set_tournament k t s) = admin s" "admin (set_play f s) = admin s" "admin (recordEvent e s) = admin s"
  "admin (recordLeaderboard sl tid s) = admin s" "admin (recordStatus sl t s) = admin s"
  "admin (s\<lparr>ts_book := b\<rparr>) = admin s" "admin (s\<lparr>ts_order := os\<rparr>) = admin s"
  by (simp_all add: admin_def)

lemma sndD: "x = (r, s') \<Longrightarrow> admin (snd x) = admin s \<Longrightarrow> admin s' = admin s"
  by simp

lemma create_admin: "admin (snd (create sl c s)) = admin s"
  by (simp add: create_def Let_def split: option.splits)

lemma admit_admin: "admin (snd (admit sl b tid t p s)) = admin s"
  by (simp add: admit_def Let_def split: option.splits prod.splits sum.splits)

lemma join_admin: "admin (snd (join sl b c s)) = admin s"
  by (simp add: join_def admit_admin case_prod_beta split: option.splits)

lemma score_admin: "admin (snd (score c s)) = admin s"
  by (simp add: score_def split: option.splits)

lemma scoreEntry_admin: "admin (snd (scoreEntry sl i ts)) = admin (snd ts)"
  by (simp add: scoreEntry_def Let_def case_prod_beta)

lemma finishRound_admin: "finishRound hx sl i k r bo re cl ts = Some ts' \<Longrightarrow> admin (snd ts') = admin (snd ts)"
  by (auto simp: finishRound_def Let_def case_prod_beta scoreEntry_admin split: option.splits if_splits)

lemma close_round_admin: "close_round hx sl ir ts = Some ts' \<Longrightarrow> admin (snd ts') = admin (snd ts)"
  by (auto simp: close_round_def Let_def case_prod_beta dest: finishRound_admin split: option.splits if_splits)

lemma close_all_rounds_admin: "close_all_rounds hx sl irs ts = Some ts' \<Longrightarrow> admin (snd ts') = admin (snd ts)"
  by (induction irs arbitrary: ts) (auto dest: close_round_admin split: option.splits)

lemma close_scores_admin: "admin (snd (fold (close_score sl) is ts)) = admin (snd ts)"
proof (induction "is" arbitrary: ts)
  case (Cons i "is")
  have "admin (snd (close_score sl i ts)) = admin (snd ts)"
    by (simp add: close_score_def Let_def case_prod_beta scoreEntry_admin)
  with Cons show ?case by simp
qed simp

lemma closeRounds_admin: "closeRounds hx sl ts = Some ts' \<Longrightarrow> admin (snd ts') = admin (snd ts)"
  by (auto simp: closeRounds_def Let_def close_scores_admin dest: close_all_rounds_admin)

lemma close_admin: "close hx sl c s = Some (r, s') \<Longrightarrow> admin s' = admin s"
  by (auto simp: close_def Let_def dest: closeRounds_admin split: option.splits if_splits)

lemma record_payouts_admin [simp]: "admin (fold (record_payout sl t) ps s) = admin s"
  by (induction ps arbitrary: s) (simp_all add: record_payout_def)

lemma settle_admin: "settle sl b c s = Some (r, s') \<Longrightarrow> admin s' = admin s"
  by (auto simp: settle_def Let_def split: option.splits if_splits)

lemma openSession_admin: "openSession sl ra c s = Some (r, s') \<Longrightarrow> admin s' = admin s"
  by (auto simp: openSession_def Let_def split: option.splits if_splits)

lemma sequenced_admin: "sequenced pid seq tid s = (r, s') \<Longrightarrow> admin s' = admin s"
  by (auto simp: sequenced_def Let_def split: option.splits if_splits)

lemma enterPlay_admin: "admin (snd (enterPlay sl b c s)) = admin s"
  using sequenced_admin [OF surjective_pairing, of "et_Player c" "et_Seq c" "et_Tournament c" s]
  by (simp add: enterPlay_def Let_def case_prod_beta admit_admin split: sum.splits)

lemma startRound_admin: "admin (snd (startRound sl c s)) = admin s"
  by (auto simp: startRound_def Let_def dest: sequenced_admin split: prod.splits sum.splits)

lemma accept_move_admin: "accept_move hx sl c i rec out bd t s = Some (r, s') \<Longrightarrow> admin s' = admin s"
  by (auto simp: accept_move_def Let_def write_back_def dest: finishRound_admin split: option.splits prod.splits)

lemma playMove_admin: "playMove hx sl c s = Some (r, s') \<Longrightarrow> admin s' = admin s"
  by (auto simp: playMove_def Let_def dest!: sequenced_admin dest: accept_move_admin
      split: prod.splits sum.splits option.splits if_splits)

lemma finishRoundCmd_admin: "finishRoundCmd hx sl c s = Some (r, s') \<Longrightarrow> admin s' = admin s"
  by (auto simp: finishRoundCmd_def Let_def write_back_def dest!: sequenced_admin finishRound_admin
      split: prod.splits sum.splits if_splits)

lemma claimPayout_admin: "admin (snd (claimPayout sl b c s)) = admin s"
  by (auto simp: claimPayout_def Let_def dest!: sequenced_admin split: prod.splits sum.splits bool.splits)

lemma dispatch_admin: "dispatch hx sl b cmd s = Some (r, s') \<Longrightarrow> admin s' = admin s"
proof (cases "cm_Op cmd")
qed (auto simp: dispatch_def dest: close_admin settle_admin openSession_admin playMove_admin finishRoundCmd_admin
    sndD [OF _ create_admin] sndD [OF _ join_admin] sndD [OF _ score_admin] sndD [OF _ enterPlay_admin]
    sndD [OF _ startRound_admin] sndD [OF _ claimPayout_admin])

section \<open>Applying a log\<close>

text \<open>A log position holds a command with the ballot this replica learned it under, or nothing the
  state machine runs (a no-op, an undecodable value).\<close>

type_synonym log_item = "slot \<times> (ballot \<times> command) option"

fun apply_log :: "hashes \<Rightarrow> log_item list \<Rightarrow> tstate \<Rightarrow> (result option list \<times> tstate) option" where
  "apply_log hx [] s = Some ([], s)"
| "apply_log hx ((sl, None) # log) s = map_option (\<lambda>(rs, s'). (None # rs, s')) (apply_log hx log (Skip hx sl s))"
| "apply_log hx ((sl, Some (b, cmd)) # log) s =
     (case Apply hx sl b cmd s of
        None \<Rightarrow> None
      | Some (res, s1) \<Rightarrow> map_option (\<lambda>(rs, s'). (Some res # rs, s')) (apply_log hx log s1))"

definition commands_of :: "log_item list \<Rightarrow> (slot \<times> command option) list" where
  "commands_of log = map (\<lambda>(sl, x). (sl, map_option snd x)) log"

definition clear_ballots :: "log_item list \<Rightarrow> log_item list" where
  "clear_ballots log = map (\<lambda>(sl, x). (sl, map_option (\<lambda>bc. (zero_ballot, snd bc)) x)) log"

lemma clear_ballots_simps [simp]:
  "clear_ballots [] = []" "clear_ballots ((sl, None) # log) = (sl, None) # clear_ballots log"
  "clear_ballots ((sl, Some (b, cmd)) # log) = (sl, Some (zero_ballot, cmd)) # clear_ballots log"
  by (simp_all add: clear_ballots_def)

lemma Skip_erase: "Skip hx sl (erase s) = erase (Skip hx sl s)"
  by (simp add: Skip_def erase_def)

lemma apply_log_erase:
  "apply_log hx (clear_ballots log) (erase s) = map_option (map_prod id erase) (apply_log hx log s)"
proof (induction hx log s rule: apply_log.induct)
  case (2 hx sl log s)
  then show ?case by (cases "apply_log hx log (Skip hx sl s)") (auto simp: Skip_erase)
next
  case (3 hx sl b cmd log s)
  have ap: "Apply hx sl zero_ballot cmd (erase s) = map_option erased (Apply hx sl b cmd s)"
    by (simp add: Apply_erase)
  show ?case
  proof (cases "Apply hx sl b cmd s")
    case (Some rs)
    obtain res s1 where rs: "rs = (res, s1)" by (cases rs)
    from "3.IH" [OF Some [unfolded rs] refl] show ?thesis
      by (cases "apply_log hx log s1") (auto simp: ap Some rs)
  qed (simp add: ap)
qed simp

lemma clear_ballots_eq: "commands_of l1 = commands_of l2 \<Longrightarrow> clear_ballots l1 = clear_ballots l2"
proof -
  have "clear_ballots l = map (\<lambda>(sl, c). (sl, map_option (Pair zero_ballot) c)) (commands_of l)" for l
    by (simp add: clear_ballots_def commands_of_def case_prod_beta option.map_comp comp_def)
  then show "commands_of l1 = commands_of l2 \<Longrightarrow> ?thesis" by simp
qed

lemma same_commands:
  assumes "commands_of log = commands_of log'" and "erase s = erase s'"
  shows "map_option (map_prod id erase) (apply_log hx log s) = map_option (map_prod id erase) (apply_log hx log' s')"
  using clear_ballots_eq [OF assms(1)] apply_log_erase [of hx _ s] apply_log_erase [of hx _ s'] assms(2) by metis

section \<open>The results table\<close>

lemma admin_results: "admin s = admin s' \<Longrightarrow> ts_results s = ts_results s' \<and> ts_applied s = ts_applied s'"
  by (simp add: admin_def)

lemma execute_results:
  assumes "execute hx sl b cmd s = Some (res, s')" and "fmlookup (ts_results s) k = Some rec"
  shows "fmlookup (ts_results s') k = Some rec"
  using assms by (auto simp: execute_def Let_def split: option.splits if_splits prod.splits
      dest!: dispatch_admin admin_results)

lemma start_command_sel [simp]:
  "ts_results (start_command sl cmd s) = ts_results s" "ts_tournaments (start_command sl cmd s) = ts_tournaments s"
  "ts_book (start_command sl cmd s) = ts_book s" "ts_order (start_command sl cmd s) = ts_order s"
  "ts_mutations (start_command sl cmd s) = ts_mutations s" "ts_play (start_command sl cmd s) = begin_command (ts_play s)"
  "ts_applied (start_command sl cmd s) = sl" "ts_hash (start_command sl cmd s) = ts_hash s"
  by (simp_all add: start_command_def)

lemma begin_command_sel [simp]:
  "pl_bindings (begin_command p) = pl_bindings p" "pl_players (begin_command p) = pl_players p"
  "pl_rounds (begin_command p) = pl_rounds p" "pl_events (begin_command p) = pl_events p"
  "pl_shared (begin_command p) = pl_shared p" "pl_own (begin_command p) = pl_own p"
  "pl_boardAt (begin_command p) = pl_boardAt p" "pl_dirtyPlayers (begin_command p) = []"
  by (simp_all add: begin_command_def)

lemma mix_sel:
  "mix hx sl cmd res n s = Some s' \<Longrightarrow> \<exists>h. s' = s\<lparr>ts_hash := h\<rparr>"
  by (auto simp: mix_def)

lemma Apply_results:
  assumes "Apply hx sl b cmd s = Some (res, s')" and "fmlookup (ts_results s) k = Some rec"
  shows "fmlookup (ts_results s') k = Some rec"
  using assms by (auto simp: Apply_def Let_def split: option.splits if_splits dest!: mix_sel execute_results)

lemma apply_log_results:
  "apply_log hx log s = Some (rs, s') \<Longrightarrow> fmlookup (ts_results s) k = Some rec \<Longrightarrow>
     fmlookup (ts_results s') k = Some rec"
proof (induction hx log s arbitrary: rs rule: apply_log.induct)
  case (2 hx sl log s)
  then show ?case by (auto simp: Skip_def split: if_splits)
next
  case (3 hx sl b cmd log s)
  then show ?case by (auto split: option.splits dest: Apply_results)
qed simp

text \<open>The data of a state: everything but the applied slot, the command counter, the clock, the hash and
  the change tracking of the command in hand.\<close>

definition same_data :: "tstate \<Rightarrow> tstate \<Rightarrow> bool" where
  "same_data s s' \<longleftrightarrow>
     ts_tournaments s = ts_tournaments s' \<and> ts_order s = ts_order s' \<and> ts_results s = ts_results s' \<and>
     ts_book s = ts_book s' \<and> ts_mutations s = ts_mutations s' \<and>
     pl_bindings (ts_play s) = pl_bindings (ts_play s') \<and> pl_players (ts_play s) = pl_players (ts_play s') \<and>
     pl_rounds (ts_play s) = pl_rounds (ts_play s') \<and> pl_events (ts_play s) = pl_events (ts_play s') \<and>
     pl_shared (ts_play s) = pl_shared (ts_play s') \<and> pl_own (ts_play s) = pl_own (ts_play s')"

lemma Apply_known_key:
  assumes "ts_applied s < sl" and "ValidateKey (cm_Key cmd) = None"
    and "fmlookup (ts_results s) (cm_Key cmd) = Some rec"
  shows "\<exists>s'. Apply hx sl b cmd s =
      Some (if rc_fingerprint rec = Fingerprint (hx_fp hx) cmd then (rc_result rec)\<lparr>re_Replayed := True\<rparr>
            else key_reused\<lparr>re_Slot := sl\<rparr>, s') \<and> same_data s s' \<and> ts_applied s' = sl"
proof -
  let ?s0 = "start_command sl cmd s"
  let ?r = "if rc_fingerprint rec = Fingerprint (hx_fp hx) cmd then (rc_result rec)\<lparr>re_Replayed := True\<rparr>
    else key_reused\<lparr>re_Slot := sl\<rparr>"
  have ex: "execute hx sl b cmd ?s0 = Some (?r, ?s0)" using assms by (simp add: execute_def Let_def)
  have "mixPlay (ts_play ?s0) \<noteq> None" by (simp add: mixPlay_def)
  then obtain s' where mx: "mix hx sl cmd ?r (Len (ts_book s)) ?s0 = Some s'" by (auto simp: mix_def)
  then obtain h where h: "s' = ?s0\<lparr>ts_hash := h\<rparr>" using mix_sel by blast
  have "Apply hx sl b cmd s = Some (?r, s')" using assms(1) ex mx by (simp add: Apply_def Let_def)
  moreover have "same_data s s'" "ts_applied s' = sl" by (simp_all add: h same_data_def)
  ultimately show ?thesis by blast
qed

lemma Apply_records:
  assumes "Apply hx sl b cmd s = Some (res, s')" and "ts_applied s < sl" and "ValidateKey (cm_Key cmd) = None"
    and "cm_Op cmd \<noteq> UnknownOp" and "fmlookup (ts_results s) (cm_Key cmd) = None"
  shows "fmlookup (ts_results s') (cm_Key cmd) = Some \<lparr>rc_fingerprint = Fingerprint (hx_fp hx) cmd, rc_result = res\<rparr>"
  using assms by (auto simp: Apply_def execute_def Let_def split: option.splits prod.splits if_splits dest!: mix_sel)

section \<open>Properties\<close>

definition plain_hashes :: hashes where
  "plain_hashes = \<lparr>hx_sha = flat_sha, hx_fp = (\<lambda>name x. name @ TournamentOf x), hx_skip = (\<lambda>h _. h), hx_mix = mi_hash\<rparr>"

definition create_cmd :: command where
  "create_cmd = \<lparr>cm_Key = ''k1'', cm_ReceivedAt = 5,
     cm_Op = CreateTournament \<lparr>ct_ID = ''t1'', ct_Seed = 7, ct_Rules = sample_rules\<rparr>\<rparr>"

definition join_cmd :: "string \<Rightarrow> command" where
  "join_cmd p = \<lparr>cm_Key = ''j'' @ p, cm_ReceivedAt = 6,
     cm_Op = Join \<lparr>jo_Tournament = ''t1'', jo_Player = \<lparr>pl_ID = p, pl_Jurisdiction = ''TR'', pl_Age = 30\<rparr>\<rparr>\<rparr>"

definition sample_log :: "ballot \<Rightarrow> log_item list" where
  "sample_log b = [(1, Some (b, create_cmd)), (2, None), (3, Some (b, join_cmd ''a''))]"

lemma sample_log_runs: "apply_log plain_hashes (sample_log (Ballot 1 1)) NewState \<noteq> None"
  by code_simp

text \<open>Replicas agree. Two replicas that apply the same commands in the same slots produce the same
  results and the same state and state hash, whatever ballot each of them learned each slot under:
  the states differ at most in the ballots recorded on settled tournaments and on postings. One of
  them stops exactly when the other does.\<close>

theorem replicas_agree:
  assumes "commands_of log = commands_of log'"
  shows "map_option (map_prod id erase) (apply_log hx log NewState) =
      map_option (map_prod id erase) (apply_log hx log' NewState)"
  using assms by (intro same_commands) simp_all

theorem replicas_agree_witness:
  "map_option (map_prod id erase) (apply_log plain_hashes (sample_log (Ballot 1 1)) NewState) =
     map_option (map_prod id erase) (apply_log plain_hashes (sample_log (Ballot 9 2)) NewState) \<and>
   apply_log plain_hashes (sample_log (Ballot 1 1)) NewState \<noteq> None"
proof -
  have "commands_of (sample_log (Ballot 1 1)) = commands_of (sample_log (Ballot 9 2))"
    by (simp add: commands_of_def sample_log_def)
  from replicas_agree [OF this, of plain_hashes] sample_log_runs show ?thesis by blast
qed

text \<open>C10: a command takes effect at most once. After a command with a fresh, well-formed key was
  applied, and however many commands and skips follow, a later command with the same key changes no
  tournament, result, posting, binding, player, round or event: it is answered with the recorded
  result, flagged as replayed, when its fingerprint is the same, and with key_reused when not.\<close>

theorem command_applied_once:
  assumes "Apply hx sl b cmd s = Some (res, s1)" and "ts_applied s < sl"
    and "ValidateKey (cm_Key cmd) = None" and "cm_Op cmd \<noteq> UnknownOp"
    and "fmlookup (ts_results s) (cm_Key cmd) = None"
    and "apply_log hx log s1 = Some (rs, s2)"
    and "cm_Key cmd' = cm_Key cmd" and "ts_applied s2 < sl'"
  shows "\<exists>s3. Apply hx sl' b' cmd' s2 =
      Some (if Fingerprint (hx_fp hx) cmd' = Fingerprint (hx_fp hx) cmd then res\<lparr>re_Replayed := True\<rparr>
            else (reject KeyReused (Fmt ''idempotency key was used with a different command'' []))\<lparr>re_Slot := sl'\<rparr>, s3)
      \<and> same_data s2 s3"
proof -
  let ?rec = "\<lparr>rc_fingerprint = Fingerprint (hx_fp hx) cmd, rc_result = res\<rparr>"
  have "fmlookup (ts_results s2) (cm_Key cmd') = Some ?rec"
    using apply_log_results [OF assms(6) Apply_records [OF assms(1-5)]] assms(7) by simp
  from Apply_known_key [OF assms(8) _ this, of hx b'] show ?thesis
    using assms(3,7) by (auto simp: key_reused_def eq_commute [of "Fingerprint (hx_fp hx) cmd"])
qed

lemma create_runs:
  "map_option (\<lambda>(r, s). (re_Code r, ts_applied s)) (Apply plain_hashes 1 (Ballot 1 1) create_cmd NewState) = Some (OK, 1)"
  by code_simp

lemma create_facts:
  "ts_applied NewState < 1" "ValidateKey (cm_Key create_cmd) = None" "cm_Op create_cmd \<noteq> UnknownOp"
  "fmlookup (ts_results NewState) (cm_Key create_cmd) = None"
  by code_simp+

theorem command_applied_once_witness:
  "\<exists>res s1 s3. Apply plain_hashes 1 (Ballot 1 1) create_cmd NewState = Some (res, s1) \<and>
     Apply plain_hashes 7 (Ballot 3 2) create_cmd s1 = Some (res\<lparr>re_Replayed := True\<rparr>, s3) \<and> same_data s1 s3"
proof -
  obtain res s1 where r: "Apply plain_hashes 1 (Ballot 1 1) create_cmd NewState = Some (res, s1)" "ts_applied s1 = 1"
    using create_runs by auto
  have "ts_applied s1 < 7" using r(2) by simp
  from command_applied_once [OF r(1) create_facts apply_log.simps(1) refl this, of "Ballot 3 2"] r(1) show ?thesis by auto
qed

end
