(* ===== verification/Money.thy ===== *)
theory Money
  imports Replicas
begin

text \<open>
  The money invariant of the state machine, over the tournaments and the book: every tournament
  record is well formed for its life-cycle state, every posting belongs to a tournament and has one
  of the shapes the handlers make, and the pool account of a tournament holds its entry fees until
  it is settled and nothing afterwards. Posting keys of different commands never meet, because
  identifiers hold no colon.
\<close>

section \<open>Keys and accounts\<close>

lemma FeeKey_inj:
  "FeeKey t p = FeeKey t' p' \<Longrightarrow> no_colon t \<Longrightarrow> no_colon t' \<Longrightarrow> t = t' \<and> p = p'"
  using no_colon_split [of t t' p p'] by (simp add: FeeKey_def)

lemma PrizeKey_inj: "PrizeKey t p n = PrizeKey t p' n' \<Longrightarrow> no_colon p \<Longrightarrow> no_colon p' \<Longrightarrow> p = p'"
  using no_colon_split [of p p'] by (simp add: PrizeKey_def)

lemma WithheldKey_inj: "WithheldKey t p n = WithheldKey t p' n' \<Longrightarrow> no_colon p \<Longrightarrow> no_colon p' \<Longrightarrow> p = p'"
  using no_colon_split [of p p'] by (simp add: WithheldKey_def)

lemma RefundKey_inj: "RefundKey t p = RefundKey t p' \<Longrightarrow> p = p'"
  by (simp add: RefundKey_def)

lemma key_kinds [simp]:
  "FeeKey t p \<noteq> RakeKey t'" "FeeKey t p \<noteq> PrizeKey t' p' n" "FeeKey t p \<noteq> WithheldKey t' p' n"
  "FeeKey t p \<noteq> RefundKey t' p'" "FeeKey t p \<noteq> ClaimKey t' p'" "RakeKey t \<noteq> FeeKey t' p'"
  "PrizeKey t p n \<noteq> FeeKey t' p'" "WithheldKey t p n \<noteq> FeeKey t' p'" "RefundKey t p \<noteq> FeeKey t' p'"
  "ClaimKey t p \<noteq> FeeKey t' p'"
  "ClaimKey t p \<noteq> RakeKey t'" "ClaimKey t p \<noteq> PrizeKey t' p' n" "ClaimKey t p \<noteq> WithheldKey t' p' n"
  "ClaimKey t p \<noteq> RefundKey t' p'" "RakeKey t \<noteq> ClaimKey t' p'" "PrizeKey t p n \<noteq> ClaimKey t' p'" "WithheldKey t p n \<noteq> ClaimKey t' p'"
  "RefundKey t p \<noteq> ClaimKey t' p'"
  "RakeKey t \<noteq> PrizeKey t' p' n" "RakeKey t \<noteq> WithheldKey t' p' n" "RakeKey t \<noteq> RefundKey t' p'"
  "PrizeKey t p n \<noteq> RakeKey t'" "WithheldKey t p n \<noteq> RakeKey t'" "RefundKey t p \<noteq> RakeKey t'"
  "PrizeKey t p n \<noteq> RefundKey t' p'" "RefundKey t p \<noteq> PrizeKey t' p' n" "WithheldKey t p n \<noteq> RefundKey t' p'"
  "RefundKey t p \<noteq> WithheldKey t' p' n" "PrizeKey t p n \<noteq> WithheldKey t' p' m" "WithheldKey t p n \<noteq> PrizeKey t' p' m"
  by (simp_all add: key_defs)

lemma account_kinds [simp]:
  "PlayerAccount p \<noteq> PoolAccount t" "PoolAccount t \<noteq> PlayerAccount p" "RakeAccount t \<noteq> PoolAccount t'"
  "WithheldAccount t \<noteq> PoolAccount t'" "ClaimsAccount t \<noteq> PoolAccount t'" "PoolAccount t \<noteq> RakeAccount t'"
  "PoolAccount t \<noteq> WithheldAccount t'" "PoolAccount t \<noteq> ClaimsAccount t'" "PlayerAccount p \<noteq> ClaimsAccount t"
  "PoolAccount t = PoolAccount t' \<longleftrightarrow> t = t'"
  by (simp_all add: account_defs)

lemma key_nonempty [simp]:
  "FeeKey t p \<noteq> []" "RakeKey t \<noteq> []" "PrizeKey t p n \<noteq> []" "WithheldKey t p n \<noteq> []" "RefundKey t p \<noteq> []" "ClaimKey t p \<noteq> []"
  by (simp_all add: key_defs)

lemma account_nonempty [simp]:
  "PlayerAccount p \<noteq> []" "PoolAccount t \<noteq> []" "RakeAccount t \<noteq> []" "WithheldAccount t \<noteq> []" "ClaimsAccount t \<noteq> []"
  by (simp_all add: account_defs)

section \<open>Well-formed tournaments\<close>

definition ids :: "tournament \<Rightarrow> player_id list" where
  "ids t = map entry_id (to_Entries t)"

definition t_ok :: "tournament_id \<Rightarrow> tournament \<Rightarrow> bool" where
  "t_ok tid t \<longleftrightarrow>
     to_ID t = tid \<and> validID tid \<and> entries_ok t \<and> distinct (ids t) \<and> (\<forall>p\<in>set (ids t). validID p) \<and>
     (to_Status t = Open \<longrightarrow> to_Standings t = [] \<and> to_Payouts t = []) \<and>
     (to_Status t \<noteq> Open \<longrightarrow>
        to_Standings t = ComputeStandings t \<and> ComputePool t = (to_Fees t, to_Rake t, to_Pool t)) \<and>
     (to_Status t = Closed \<longrightarrow> \<not> Voids t) \<and> (to_Status t = Voided \<longrightarrow> Voids t) \<and>
     (to_Status t = Settled \<longrightarrow> (\<exists>ex. to_Payouts t = ComputePayouts t ex))"

lemma t_okD:
  assumes "t_ok tid t"
  shows "to_ID t = tid" "validID tid" "entries_ok t" "distinct (ids t)" "\<And>p. p \<in> set (ids t) \<Longrightarrow> validID p"
    "to_Status t \<noteq> Open \<Longrightarrow> to_Standings t = ComputeStandings t"
    "to_Status t \<noteq> Open \<Longrightarrow> ComputePool t = (to_Fees t, to_Rake t, to_Pool t)"
    "to_Status t = Closed \<Longrightarrow> \<not> Voids t" "to_Status t = Voided \<Longrightarrow> Voids t"
  using assms by (auto simp: t_ok_def)

lemma t_ok_closed: "t_ok tid t \<Longrightarrow> closed_ok t"
  by (cases "to_Status t = Open") (auto simp: t_ok_def closed_ok_def)

lemma tournament_Entry_ids: "tournament_Entry t p = None \<longleftrightarrow> p \<notin> set (ids t)"
  by (auto simp: tournament_Entry_def find_None_iff ids_def)

section \<open>Shapes of postings\<close>

definition settle_keys :: "tournament_id \<Rightarrow> posting_key set" where
  "settle_keys tid = {RakeKey tid} \<union> {k. \<exists>p n. k = PrizeKey tid p n} \<union> {k. \<exists>p n. k = WithheldKey tid p n} \<union>
     {k. \<exists>p. k = RefundKey tid p}"

lemma settle_keysI [simp]:
  "RakeKey t \<in> settle_keys t" "PrizeKey t p n \<in> settle_keys t" "WithheldKey t p n \<in> settle_keys t"
  "RefundKey t p \<in> settle_keys t"
  by (auto simp: settle_keys_def)

definition fee_shape :: "tournament \<Rightarrow> posting \<Rightarrow> bool" where
  "fee_shape t p \<longleftrightarrow>
     po_Key p = FeeKey (po_Tournament p) (po_Player p) \<and> po_Player p \<in> set (ids t) \<and>
     po_Debit p = PlayerAccount (po_Player p) \<and> po_Credit p = PoolAccount (po_Tournament p) \<and>
     po_Amount p = ru_EntryFee (to_Rules t)"

definition settle_shape :: "tournament \<Rightarrow> posting \<Rightarrow> bool" where
  "settle_shape t p \<longleftrightarrow>
     to_Status t = Settled \<and> po_Key p \<in> settle_keys (po_Tournament p) \<and>
     po_Debit p = PoolAccount (po_Tournament p) \<and> (\<forall>x. po_Credit p \<noteq> PoolAccount x)"

definition claim_shape :: "tournament \<Rightarrow> posting \<Rightarrow> bool" where
  "claim_shape t p \<longleftrightarrow>
     to_Status t = Settled \<and> po_Key p = ClaimKey (po_Tournament p) (po_Player p) \<and>
     po_Debit p = PlayerAccount (po_Player p) \<and> po_Credit p = ClaimsAccount (po_Tournament p)"

definition post_ok :: "(tournament_id, tournament) fmap \<Rightarrow> posting \<Rightarrow> bool" where
  "post_ok ts p \<longleftrightarrow>
     (\<exists>t. fmlookup ts (po_Tournament p) = Some t \<and> (fee_shape t p \<or> settle_shape t p \<or> claim_shape t p))"

definition pool_flow :: "tournament_id \<Rightarrow> posting list \<Rightarrow> int" where
  "pool_flow tid ps = (\<Sum>p\<leftarrow>ps. net_flow (PoolAccount tid) p)"

definition pool_due :: "tournament \<Rightarrow> int" where
  "pool_due t = (if to_Status t = Settled then 0 else ru_EntryFee (to_Rules t) * int (length (to_Entries t)))"

definition money_ok :: "(tournament_id, tournament) fmap \<Rightarrow> book \<Rightarrow> bool" where
  "money_ok ts b \<longleftrightarrow>
     book_inv b \<and> (\<forall>tid t. fmlookup ts tid = Some t \<longrightarrow> t_ok tid t \<and> pool_flow tid (bk_postings b) = pool_due t) \<and>
     (\<forall>p\<in>set (bk_postings b). post_ok ts p)"

lemma money_okI:
  "book_inv b \<Longrightarrow> (\<And>tid t. fmlookup ts tid = Some t \<Longrightarrow> t_ok tid t) \<Longrightarrow>
   (\<And>tid t. fmlookup ts tid = Some t \<Longrightarrow> pool_flow tid (bk_postings b) = pool_due t) \<Longrightarrow>
   (\<And>p. p \<in> set (bk_postings b) \<Longrightarrow> post_ok ts p) \<Longrightarrow> money_ok ts b"
  by (auto simp: money_ok_def)

lemma money_okD:
  assumes "money_ok ts b"
  shows "book_inv b" "fmlookup ts tid = Some t \<Longrightarrow> t_ok tid t"
    "fmlookup ts tid = Some t \<Longrightarrow> pool_flow tid (bk_postings b) = pool_due t"
    "p \<in> set (bk_postings b) \<Longrightarrow> post_ok ts p"
  using assms by (auto simp: money_ok_def)

lemma pool_flow_simps [simp]:
  "pool_flow tid [] = 0" "pool_flow tid (ps @ qs) = pool_flow tid ps + pool_flow tid qs"
  "pool_flow tid (p # ps) = net_flow (PoolAccount tid) p + pool_flow tid ps"
  by (simp_all add: pool_flow_def)

lemma post_ok_flow: "post_ok ts p \<Longrightarrow> po_Tournament p \<noteq> tid \<Longrightarrow> net_flow (PoolAccount tid) p = 0"
  by (auto simp: post_ok_def fee_shape_def settle_shape_def claim_shape_def net_flow_def)

lemma pool_flow_other:
  "(\<And>p. p \<in> set ps \<Longrightarrow> post_ok ts p) \<Longrightarrow> fmlookup ts tid = None \<Longrightarrow> pool_flow tid ps = 0"
proof (induction ps)
  case (Cons p ps)
  then have "post_ok ts p" by simp
  with Cons.prems(2) have "po_Tournament p \<noteq> tid" by (auto simp: post_ok_def)
  with Cons post_ok_flow [OF \<open>post_ok ts p\<close>] show ?case by simp
qed simp

text \<open>A tournament may change in place as long as it keeps its entrants, its rules and its settlement.\<close>

lemma post_ok_update:
  assumes "post_ok ts p" and "fmlookup ts tid = Some t" and "set (ids t) \<subseteq> set (ids t')"
    and "to_Rules t' = to_Rules t" and "to_Status t = Settled \<Longrightarrow> to_Status t' = Settled"
  shows "post_ok (fmupd tid t' ts) p"
  using assms by (auto simp: post_ok_def fee_shape_def settle_shape_def claim_shape_def)

lemma money_ok_update:
  assumes ok: "money_ok ts b" and t: "fmlookup ts tid = Some t" and t': "t_ok tid t'"
    and "ids t' = ids t" and "to_Rules t' = to_Rules t" and "to_Status t \<noteq> Settled" and "to_Status t' \<noteq> Settled"
  shows "money_ok (fmupd tid t' ts) b"
proof (rule money_okI)
  show "book_inv b" by (rule money_okD [OF ok])
  have len: "length (to_Entries t') = length (to_Entries t)" using assms(4) by (metis ids_def length_map)
  fix k u assume "fmlookup (fmupd tid t' ts) k = Some u"
  then consider "k = tid" "u = t'" | "k \<noteq> tid" "fmlookup ts k = Some u" by (auto split: if_splits)
  then show "t_ok k u" using t' money_okD(2) [OF ok] by cases auto
  then show "pool_flow k (bk_postings b) = pool_due u"
    using \<open>fmlookup (fmupd tid t' ts) k = Some u\<close> money_okD(3) [OF ok] t assms(5-7) len
    by (auto simp: pool_due_def split: if_splits)
next
  fix p assume "p \<in> set (bk_postings b)"
  with money_okD(4) [OF ok] have "post_ok ts p" by blast
  then show "post_ok (fmupd tid t' ts) p" using post_ok_update [OF _ t, of p t'] assms by auto
qed

lemma Has_posting:
  assumes "book_inv b" and "Has b k"
  obtains p where "p \<in> set (bk_postings b)" "po_Key p = k"
  using assms book_inv_index by (metis Has_def not_Some_eq nth_mem)

section \<open>Creating and entering\<close>

lemma post_ok_new: "post_ok ts p \<Longrightarrow> fmlookup ts tid = None \<Longrightarrow> post_ok (fmupd tid t ts) p"
  by (auto simp: post_ok_def)

lemma create_money:
  assumes ok: "money_ok (ts_tournaments s) (ts_book s)" and ty: "rules_typed (ct_Rules c)"
  shows "money_ok (ts_tournaments (snd (create sl c s))) (ts_book (snd (create sl c s)))"
proof (cases "ValidateTournamentID (ct_ID c) = None \<and> ValidateRules (ct_Rules c) = None \<and>
    fmlookup (ts_tournaments s) (ct_ID c) = None")
  case False
  with ok show ?thesis by (auto simp: create_def split: option.splits)
next
  case True
  let ?t = "\<lparr>to_ID = ct_ID c, to_Seed = ct_Seed c, to_Rules = canonicalRules (ct_Rules c), to_Status = Open,
    to_Entries = [], to_Fees = 0, to_Rake = 0, to_Pool = 0, to_Standings = [], to_Payouts = [],
    to_CreatedAt = sl, to_ClosedAt = 0, to_SettledAt = 0, to_Ballot = zero_ballot\<rparr>"
  have r: "rules_ok (ct_Rules c)" using ValidateRules_ok True ty by blast
  have v: "validID (ct_ID c)" using True by (simp add: ValidateTournamentID_def split: if_splits)
  have t_ok: "t_ok (ct_ID c) ?t"
    using r v by (auto simp: t_ok_def entries_ok_def ids_def) (auto simp: rules_ok_def canonicalRules_def)
  have eq: "create sl c s = (reject OK NoDetail, (set_tournament (ct_ID c) ?t s)\<lparr>ts_order := ts_order s @ [ct_ID c]\<rparr>)"
    using True by (simp add: create_def Let_def)
  have "money_ok (fmupd (ct_ID c) ?t (ts_tournaments s)) (ts_book s)"
  proof (rule money_okI)
    show "book_inv (ts_book s)" by (rule money_okD [OF ok])
    fix k u assume k: "fmlookup (fmupd (ct_ID c) ?t (ts_tournaments s)) k = Some u"
    then show "t_ok k u" using t_ok money_okD(2) [OF ok] by (auto split: if_splits)
    show "pool_flow k (bk_postings (ts_book s)) = pool_due u"
    proof (cases "k = ct_ID c")
      case True
      with k pool_flow_other [OF money_okD(4) [OF ok]] \<open>ValidateTournamentID (ct_ID c) = None \<and> _\<close>
      show ?thesis by (auto simp: pool_due_def)
    qed (use k money_okD(3) [OF ok] in auto)
  qed (use True money_okD(4) [OF ok] post_ok_new in blast)
  then show ?thesis by (simp add: eq)
qed

lemma fee_fresh:
  assumes ok: "money_ok ts b" and t: "fmlookup ts tid = Some t" and p: "pl_ID p \<notin> set (ids t)" and v: "validID (pl_ID p)"
  shows "\<not> Has b (FeeKey tid (pl_ID p))"
proof
  assume "Has b (FeeKey tid (pl_ID p))"
  then obtain q where q: "q \<in> set (bk_postings b)" "po_Key q = FeeKey tid (pl_ID p)"
    using Has_posting money_okD(1) [OF ok] by blast
  from money_okD(4) [OF ok q(1)] obtain u where u: "fmlookup ts (po_Tournament q) = Some u"
    and sh: "fee_shape u q \<or> settle_shape u q \<or> claim_shape u q" by (auto simp: post_ok_def)
  from sh q(2) have fee: "fee_shape u q"
    by (auto simp: settle_shape_def claim_shape_def settle_keys_def)
  have "no_colon tid" "no_colon (po_Tournament q)"
    using money_okD(2) [OF ok] t u by (auto dest!: t_okD(2) validID_no_colon)
  with fee q(2) have "po_Tournament q = tid" "po_Player q = pl_ID p"
    by (auto simp: fee_shape_def dest!: FeeKey_inj)
  with u t fee p show False by (auto simp: fee_shape_def)
qed

lemma fee_valid:
  assumes "t_ok tid t"
  shows "posting_Validate (fee_posting sl b t p) = None"
  using t_okD(3) [OF assms] by (simp add: posting_Validate_def fee_posting_def entries_ok_def rules_ok_def)

lemma checkFresh_single: "checkFresh b [p] = None \<longleftrightarrow> \<not> Has b (po_Key p)"
  by (simp add: checkFresh_def key_taken_def)

lemma admit_check_None:
  assumes "admit_check t p = None"
  shows "to_Status t = Open" "int (length (to_Entries t)) < ru_MaxEntrants (to_Rules t)" "pl_ID p \<notin> set (ids t)"
  using assms by (auto simp: admit_check_def tournament_Entry_ids split: if_splits)

lemma admit_cases:
  assumes ok: "money_ok (ts_tournaments s) (ts_book s)" and t: "fmlookup (ts_tournaments s) tid = Some t"
    and v: "validID (pl_ID p)"
  obtains (refused) r where "admit_check t p = Some r" "admit sl b tid t p s = (r, s)"
  | (entered) book where "admit_check t p = None"
      "book = fst (Post (fee_posting sl b t p) (ts_book s))"
      "bk_postings book = bk_postings (ts_book s) @
         [(fee_posting sl b t p)\<lparr>po_Seq := u64 (length (bk_postings (ts_book s)) + 1)\<rparr>]"
      "admit sl b tid t p s = (reject OK NoDetail,
         set_tournament tid (t\<lparr>to_Entries := to_Entries t @ [new_entry t p]\<rparr>) (s\<lparr>ts_book := book\<rparr>))"
proof (cases "admit_check t p")
  case (Some r)
  then show thesis by (intro refused) (auto simp: admit_def)
next
  case None
  let ?f = "fee_posting sl b t p"
  have tok: "t_ok tid t" by (rule money_okD(2) [OF ok t])
  have key: "po_Key ?f = FeeKey tid (pl_ID p)" using t_okD(1) [OF tok] by (simp add: fee_posting_def)
  have fresh: "\<not> Has (ts_book s) (po_Key ?f)"
    unfolding key using fee_fresh [OF ok t admit_check_None(3) [OF None] v] .
  note app = lb.appended [OF money_okD(1) [OF ok] fee_valid [OF tok] fresh]
    lb.entries_post [OF money_okD(1) [OF ok] fee_valid [OF tok] fresh]
  obtain book r where po: "Post ?f (ts_book s) = (book, r)" by (cases "Post ?f (ts_book s)")
  show thesis
    by (rule entered [of book]) (use app po None fresh checkFresh_single [of "ts_book s" ?f] in \<open>simp_all add: admit_def Let_def\<close>)
qed

lemma new_entry_id [simp]: "entry_id (new_entry t p) = pl_ID p"
  by (simp add: new_entry_def entry_id_def)

lemma admit_money:
  assumes ok: "money_ok (ts_tournaments s) (ts_book s)" and t: "fmlookup (ts_tournaments s) tid = Some t"
    and v: "validID (pl_ID p)"
  shows "money_ok (ts_tournaments (snd (admit sl b tid t p s))) (ts_book (snd (admit sl b tid t p s))) \<and>
    re_Code (fst (admit sl b tid t p s)) \<noteq> LedgerConflict"
  using ok t v
proof (cases rule: admit_cases [where sl = sl and b = b])
  case (refused r)
  then have "re_Code r \<noteq> LedgerConflict" by (auto simp: admit_check_def reject_def split: if_splits)
  with refused ok show ?thesis by simp
next
  case (entered book)
  let ?t = "t\<lparr>to_Entries := to_Entries t @ [new_entry t p]\<rparr>"
  let ?f = "(fee_posting sl b t p)\<lparr>po_Seq := u64 (length (bk_postings (ts_book s)) + 1)\<rparr>"
  note chk = admit_check_None [OF entered(1)] and tok = money_okD(2) [OF ok t]
  have ids: "ids ?t = ids t @ [pl_ID p]" by (simp add: ids_def)
  have tok': "t_ok tid ?t"
    using tok chk v unfolding t_ok_def ids by (auto simp: entries_ok_def)
  have po: "post_ok (fmupd tid ?t (ts_tournaments s)) ?f"
    using t_okD(1) [OF tok] by (simp add: post_ok_def fee_shape_def fee_posting_def ids)
  have "money_ok (fmupd tid ?t (ts_tournaments s)) book"
  proof (rule money_okI)
    show "book_inv book" unfolding entered(2) by (rule book_inv_Post [OF money_okD(1) [OF ok]])
    fix k u assume k: "fmlookup (fmupd tid ?t (ts_tournaments s)) k = Some u"
    then show "t_ok k u" using tok' money_okD(2) [OF ok] by (auto split: if_splits)
    have "net_flow (PoolAccount k) ?f = (if k = tid then ru_EntryFee (to_Rules t) else 0)"
      using t_okD(1) [OF tok] by (simp add: net_flow_def fee_posting_def)
    then show "pool_flow k (bk_postings book) = pool_due u"
      using k money_okD(3) [OF ok] t chk(1)
      by (auto simp: entered(3) pool_due_def distrib_left split: if_splits)
  next
    fix q assume "q \<in> set (bk_postings book)"
    then show "post_ok (fmupd tid ?t (ts_tournaments s)) q"
      using po post_ok_update [OF money_okD(4) [OF ok] t, of q ?t] ids by (auto simp: entered(3))
  qed
  then show ?thesis by (simp add: entered(4) reject_def)
qed

lemma ValidatePlayer_id: "ValidatePlayer p = None \<Longrightarrow> validID (pl_ID p)"
  by (auto simp: ValidatePlayer_def split: if_splits)

lemma join_money:
  assumes ok: "money_ok (ts_tournaments s) (ts_book s)"
  shows "money_ok (ts_tournaments (snd (join sl b c s))) (ts_book (snd (join sl b c s))) \<and>
    re_Code (fst (join sl b c s)) \<noteq> LedgerConflict"
  using ok admit_money [OF ok, of "jo_Tournament c" _ "jo_Player c" sl b] ValidatePlayer_id [of "jo_Player c"]
  by (auto simp: join_def case_prod_beta reject_def split: option.splits)

section \<open>Scores and rounds\<close>

lemma result_codes [simp]:
  "re_Code (reject c d) = c" "re_Code (playReject c d out) = c" "re_Code (ok_result out) = OK"
  by (simp_all add: reject_def playReject_def ok_result_def)

text \<open>\<open>scored_from t t'\<close>: at most the entries' scores differ.\<close>

definition scored_from :: "tournament \<Rightarrow> tournament \<Rightarrow> bool" where
  "scored_from t t' \<longleftrightarrow> (\<exists>es. t' = t\<lparr>to_Entries := es\<rparr> \<and> map entry_id es = ids t)"

lemma scored_from_refl [simp]: "scored_from t t"
  by (auto simp: scored_from_def ids_def intro: exI [of _ "to_Entries t"])

lemma scored_from_trans: "scored_from t t' \<Longrightarrow> scored_from t' t'' \<Longrightarrow> scored_from t t''"
  by (auto simp: scored_from_def ids_def)

lemma scored_fromD:
  assumes "scored_from t t'"
  shows "ids t' = ids t" "to_Rules t' = to_Rules t" "to_Status t' = to_Status t" "to_ID t' = to_ID t"
    "length (to_Entries t') = length (to_Entries t)"
proof -
  from assms obtain es where es: "t' = t\<lparr>to_Entries := es\<rparr>" "map entry_id es = ids t" by (auto simp: scored_from_def)
  then show "ids t' = ids t" "to_Rules t' = to_Rules t" "to_Status t' = to_Status t" "to_ID t' = to_ID t"
    by (simp_all add: ids_def)
  from es have "length es = length (ids t)" by (metis length_map)
  with es show "length (to_Entries t') = length (to_Entries t)" by (simp add: ids_def)
qed

lemma update_entry_scored:
  assumes "\<And>e. entry_id (f e) = entry_id e"
  shows "scored_from t (update_entry i f t)"
proof -
  have "map entry_id ((to_Entries t)[i := f (to_Entries t ! i)]) = ids t"
    by (simp add: map_update assms ids_def) (metis list_update_id list_update_beyond linorder_not_le nth_map length_map)
  then show ?thesis by (auto simp: scored_from_def update_entry_def)
qed

lemma entry_id_updates [simp]:
  "entry_id (e\<lparr>en_Scored := a, en_Score := b\<rparr>) = entry_id e" "entry_id (e\<lparr>en_SubmitSeq := c\<rparr>) = entry_id e"
  "entry_id (e\<lparr>en_InputDigest := d\<rparr>) = entry_id e"
  by (simp_all add: entry_id_def)

lemma set_score_scored: "scored_from t (set_score i sc t)"
  unfolding set_score_def Let_def
  by (rule scored_from_trans [OF update_entry_scored update_entry_scored]) simp_all

lemma t_ok_scored:
  assumes ok: "t_ok tid t" and op: "to_Status t = Open" and sc: "scored_from t t'"
  shows "t_ok tid t'"
proof -
  note d = scored_fromD [OF sc]
  have st: "to_Standings t' = to_Standings t" "to_Payouts t' = to_Payouts t" using sc by (auto simp: scored_from_def)
  have "entries_ok t'" using t_okD(3) [OF ok] d by (simp add: entries_ok_def)
  then show ?thesis using ok op unfolding t_ok_def d st by simp
qed

lemma score_money:
  assumes ok: "money_ok (ts_tournaments s) (ts_book s)"
  shows "money_ok (ts_tournaments (snd (score c s))) (ts_book (snd (score c s))) \<and>
    re_Code (fst (score c s)) \<noteq> LedgerConflict"
proof (cases "re_Code (fst (score c s)) = OK")
  case True
  then obtain t i where t: "fmlookup (ts_tournaments s) (ss_Tournament c) = Some t" "to_Status t = Open"
    and eq: "score c s = (reject OK NoDetail, set_tournament (ss_Tournament c)
      (update_entry i (\<lambda>e. e\<lparr>en_InputDigest := ss_InputDigest c\<rparr>) (set_score i (ss_Score c) t)) s)"
    by (auto simp: score_def split: option.splits if_splits)
  let ?t = "update_entry i (\<lambda>e. e\<lparr>en_InputDigest := ss_InputDigest c\<rparr>) (set_score i (ss_Score c) t)"
  have sc: "scored_from t ?t"
    by (rule scored_from_trans [OF set_score_scored update_entry_scored]) simp
  note d = scored_fromD [OF sc]
  have "money_ok (fmupd (ss_Tournament c) ?t (ts_tournaments s)) (ts_book s)"
    by (rule money_ok_update [OF ok t(1)]) (use t_ok_scored [OF money_okD(2) [OF ok t(1)] t(2) sc] d t(2) in auto)
  then show ?thesis by (simp add: eq)
next
  case False
  then have "snd (score c s) = s" "re_Code (fst (score c s)) \<noteq> LedgerConflict"
    by (auto simp: score_def split: option.splits if_splits)
  with ok show ?thesis by simp
qed

definition quiet :: "tournament \<times> tstate \<Rightarrow> tournament \<times> tstate \<Rightarrow> bool" where
  "quiet ts ts' \<longleftrightarrow> scored_from (fst ts) (fst ts') \<and> ts_tournaments (snd ts') = ts_tournaments (snd ts) \<and>
     ts_book (snd ts') = ts_book (snd ts)"

lemma quiet_refl [simp]: "quiet ts ts"
  by (simp add: quiet_def)

lemma quiet_trans: "quiet a b \<Longrightarrow> quiet b c \<Longrightarrow> quiet a c"
  by (auto simp: quiet_def intro: scored_from_trans)

lemma scoreEntry_quiet: "quiet ts (scoreEntry sl i ts)"
  by (simp add: quiet_def scoreEntry_def Let_def case_prod_beta set_score_scored)

lemma quiet_pair: "ts_tournaments s3 = ts_tournaments s \<Longrightarrow> ts_book s3 = ts_book s \<Longrightarrow> quiet (t, s) (t, s3)"
  by (simp add: quiet_def)

lemma quiet_score:
  "ts_tournaments s3 = ts_tournaments s \<Longrightarrow> ts_book s3 = ts_book s \<Longrightarrow> quiet (t, s) (scoreEntry sl i (t, s3))"
  using quiet_trans [OF quiet_pair scoreEntry_quiet] by blast

lemma finishRound_quiet: "finishRound hx sl i k r bo re cl ts = Some ts' \<Longrightarrow> quiet ts ts'"
  by (cases ts) (auto simp: finishRound_def Let_def intro!: quiet_pair quiet_score split: option.splits if_splits)

lemma close_round_quiet: "close_round hx sl ir ts = Some ts' \<Longrightarrow> quiet ts ts'"
  by (auto simp: close_round_def Let_def case_prod_beta dest: finishRound_quiet split: option.splits if_splits)

lemma close_all_rounds_quiet: "close_all_rounds hx sl irs ts = Some ts' \<Longrightarrow> quiet ts ts'"
  by (induction irs arbitrary: ts) (auto dest: close_round_quiet intro: quiet_trans split: option.splits)

lemma close_scores_quiet: "quiet ts (fold (close_score sl) is ts)"
proof (induction "is" arbitrary: ts)
  case (Cons i "is")
  have "quiet ts (close_score sl i ts)"
    using scoreEntry_quiet by (simp add: close_score_def Let_def case_prod_beta)
  from quiet_trans [OF this Cons.IH] show ?case by simp
qed simp

lemma closeRounds_quiet: "closeRounds hx sl ts = Some ts' \<Longrightarrow> quiet ts ts'"
  by (auto simp: closeRounds_def Let_def intro: quiet_trans [OF close_all_rounds_quiet close_scores_quiet])

section \<open>Close\<close>

lemma close_record_sel:
  shows "to_ID (close_record sl t) = to_ID t" "to_Rules (close_record sl t) = to_Rules t"
    "to_Entries (close_record sl t) = to_Entries t" "to_Standings (close_record sl t) = ComputeStandings t"
    "ComputePool (close_record sl t) = (to_Fees (close_record sl t), to_Rake (close_record sl t), to_Pool (close_record sl t))"
    "ComputeStandings (close_record sl t) = ComputeStandings t" "Voids (close_record sl t) = Voids t"
    "to_Status (close_record sl t) = (if Voids t then Voided else Closed)"
  by (simp_all add: close_record_def Let_def case_prod_beta ComputeStandings_def Voids_def ScoredCount_def ComputePool_def)

lemma t_ok_close: "t_ok tid t \<Longrightarrow> to_Status t = Open \<Longrightarrow> t_ok tid (close_record sl t)"
  by (auto simp: t_ok_def close_record_sel entries_ok_def ids_def)

lemma close_money:
  assumes ok: "money_ok (ts_tournaments s) (ts_book s)" and cl: "close hx sl c s = Some (r, s')"
  shows "money_ok (ts_tournaments s') (ts_book s') \<and> re_Code r \<noteq> LedgerConflict"
proof (cases "re_Code r = OK")
  case False
  with cl have "s' = s" "re_Code r \<noteq> LedgerConflict"
    by (auto simp: close_def Let_def split: option.splits if_splits)
  with ok show ?thesis by simp
next
  case True
  with cl obtain t where t: "fmlookup (ts_tournaments s) (cl_Tournament c) = Some t" "to_Status t = Open"
    by (auto simp: close_def split: option.splits if_splits)
  let ?cr = "if ru_Game (to_Rules t) \<noteq> [] then closeRounds hx sl (t, s) else Some (t, s)"
  from cl t obtain ts where ts: "?cr = Some ts" by (auto simp: close_def split: option.splits if_splits)
  obtain t1 s1 where ts1: "ts = (t1, s1)" by (cases ts)
  have q: "quiet (t, s) (t1, s1)" using ts ts1 closeRounds_quiet by (auto split: if_splits)
  have s': "ts_tournaments s' = fmupd (cl_Tournament c) (close_record sl t1) (ts_tournaments s1)" "ts_book s' = ts_book s1"
    using cl t ts ts1 by (auto simp: close_def Let_def split: if_splits)
  from q have sc: "scored_from t t1" and s1: "ts_tournaments s1 = ts_tournaments s" "ts_book s1 = ts_book s"
    by (auto simp: quiet_def)
  note d = scored_fromD [OF sc]
  have "t_ok (cl_Tournament c) t1" by (rule t_ok_scored [OF money_okD(2) [OF ok t(1)] t(2) sc])
  then have "t_ok (cl_Tournament c) (close_record sl t1)" using d t(2) by (simp add: t_ok_close)
  then have "money_ok (fmupd (cl_Tournament c) (close_record sl t1) (ts_tournaments s)) (ts_book s)"
    by (rule money_ok_update [OF ok t(1)]) (use d t(2) in \<open>simp_all add: close_record_sel ids_def\<close>)
  with True s' s1 show ?thesis by simp
qed

section \<open>Settle\<close>

definition payout_key :: "tournament \<Rightarrow> payout \<Rightarrow> posting_key" where
  "payout_key t p =
     (if Voids t then RefundKey (to_ID t) (pa_Player p)
      else if pa_Withheld p then WithheldKey (to_ID t) (pa_Player p) (pa_Place p)
      else PrizeKey (to_ID t) (pa_Player p) (pa_Place p))"

lemma prize_payout_sel:
  "pa_Player (prize_payout t ex s m) = sg_Player s"
  "\<not> Voids t \<Longrightarrow> pa_Key (prize_payout t ex s m) = payout_key t (prize_payout t ex s m)"
  by (simp_all add: prize_payout_def Let_def payout_key_def)

lemma payout_keys: "p \<in> set (ComputePayouts t ex) \<Longrightarrow> pa_Key p = payout_key t p"
  by (auto simp: ComputePayouts_def prize_payout_sel refund_payout_def payout_key_def split: if_splits)

lemma payout_players:
  assumes "closed_ok t"
  shows "\<exists>n. map pa_Player (ComputePayouts t ex) = take n (if Voids t then ids t else map sg_Player (ComputeStandings t))"
proof (cases "Voids t")
  case True
  then show ?thesis
    by (intro exI [of _ "length (ids t)"]) (simp add: ComputePayouts_def refund_payout_def ids_def comp_def)
next
  case False
  have "map pa_Player (ComputePayouts t ex) = map sg_Player (map fst (zip (ComputeStandings t) (prize_amounts t)))"
    using False by (simp add: ComputePayouts_def payout_standings_eq [OF assms] prize_payout_sel comp_def case_prod_beta)
  also have "\<dots> = take (length (prize_amounts t)) (map sg_Player (ComputeStandings t))"
    by (metis map_fst_zip_take min.commute take_map take_take take_all order_refl)
  finally show ?thesis using False by auto
qed

lemma standings_ids: "mset (map sg_Player (ComputeStandings t)) = mset (ids t)"
  using standings_players [of t] by (simp only: ids_def)

lemma payout_players_ok:
  assumes ok: "t_ok tid t"
  shows "distinct (map pa_Player (ComputePayouts t ex))" "p \<in> set (ComputePayouts t ex) \<Longrightarrow> pa_Player p \<in> set (ids t)"
proof -
  let ?ps = "if Voids t then ids t else map sg_Player (ComputeStandings t)"
  obtain n where n: "map pa_Player (ComputePayouts t ex) = take n ?ps"
    using payout_players [OF t_ok_closed [OF ok]] by blast
  have "mset ?ps = mset (ids t)" using standings_ids [of t] by simp
  from mset_eq_setD [OF this] mset_eq_imp_distinct_iff [OF this] t_okD(4) [OF ok]
  have d: "distinct ?ps" and s: "set ?ps = set (ids t)" by blast+
  show "distinct (map pa_Player (ComputePayouts t ex))" unfolding n using d by (rule distinct_take)
  assume "p \<in> set (ComputePayouts t ex)"
  then have "pa_Player p \<in> set (map pa_Player (ComputePayouts t ex))" by simp
  then show "pa_Player p \<in> set (ids t)" unfolding n s [symmetric] by (rule in_set_takeD)
qed

lemma payout_key_inj:
  assumes "t_ok tid t"
  shows "inj_on (payout_key t) (set (ComputePayouts t ex))"
proof (rule inj_onI)
  fix p q assume pq: "p \<in> set (ComputePayouts t ex)" "q \<in> set (ComputePayouts t ex)" "payout_key t p = payout_key t q"
  note ok = payout_players_ok [OF assms]
  have "no_colon (pa_Player p)" "no_colon (pa_Player q)"
    using ok(2) pq(1,2) t_okD(5) [OF assms] validID_no_colon by blast+
  then have "pa_Player p = pa_Player q"
    using pq(3) unfolding payout_key_def by (auto dest: PrizeKey_inj WithheldKey_inj RefundKey_inj split: if_splits)
  then show "p = q" using ok(1) [of ex] pq(1,2) by (auto simp: distinct_map inj_on_def)
qed

lemma payout_keys_distinct: "t_ok tid t \<Longrightarrow> distinct (map pa_Key (ComputePayouts t ex))"
proof -
  assume ok: "t_ok tid t"
  have eq: "map pa_Key (ComputePayouts t ex) = map (payout_key t) (ComputePayouts t ex)"
    by (simp add: payout_keys)
  have "distinct (ComputePayouts t ex)" using payout_players_ok(1) [OF ok] by (simp add: distinct_map)
  then show ?thesis unfolding eq distinct_map using payout_key_inj [OF ok] by blast
qed

lemma settle_postings_shape:
  assumes ok: "t_ok tid t" and st: "to_Status t = Closed \<or> to_Status t = Voided"
    and p: "p \<in> set (settle_postings sl b t ex (ComputePayouts t ex))"
  shows "posting_Validate p = None" "po_Key p \<in> settle_keys tid" "po_Tournament p = tid" "po_Debit p = PoolAccount tid"
    "\<forall>x. po_Credit p \<noteq> PoolAccount x"
proof -
  from p consider "p = rake_posting sl b t ex" "to_Rake t > 0"
    | x where "p = payout_posting sl b t ex x" "x \<in> set (ComputePayouts t ex)" "pa_Amount x > 0"
    by (auto simp: settle_postings_def split: if_splits)
  then have "posting_Validate p = None \<and> po_Key p \<in> settle_keys tid \<and> po_Tournament p = tid \<and>
      po_Debit p = PoolAccount tid \<and> (\<forall>x. po_Credit p \<noteq> PoolAccount x)"
  proof cases
    case 1
    with t_okD(1) [OF ok] show ?thesis by (simp add: rake_posting_def posting_Validate_def)
  next
    case (2 x)
    have "pa_Key x \<in> settle_keys tid" "pa_Key x \<noteq> []"
      using payout_keys [OF 2(2)] t_okD(1) [OF ok] by (simp_all add: payout_key_def)
    with 2 t_okD(1) [OF ok] show ?thesis by (simp add: payout_posting_def posting_Validate_def)
  qed
  then show "posting_Validate p = None" "po_Key p \<in> settle_keys tid" "po_Tournament p = tid"
    "po_Debit p = PoolAccount tid" "\<forall>x. po_Credit p \<noteq> PoolAccount x" by blast+
qed

lemma settle_postings_distinct:
  assumes ok: "t_ok tid t"
  shows "distinct (map po_Key (settle_postings sl b t ex (ComputePayouts t ex)))"
proof -
  let ?ps = "filter (\<lambda>p. pa_Amount p > 0) (ComputePayouts t ex)"
  have eq: "map po_Key (map (payout_posting sl b t ex) ?ps) = map pa_Key ?ps" by (simp add: payout_posting_def)
  have "distinct (map pa_Key ?ps)" using payout_keys_distinct [OF ok, of ex] by (rule distinct_map_filter)
  moreover have "RakeKey (to_ID t) \<notin> set (map pa_Key ?ps)"
    using payout_keys [of _ t ex] by (auto simp: payout_key_def dest!: sym [of "RakeKey _"] split: if_splits)
  ultimately show ?thesis unfolding settle_postings_def map_append eq by (auto simp: rake_posting_def)
qed

lemma settle_key_tournament:
  "RakeKey t = RakeKey t' \<Longrightarrow> t = t'"
  "PrizeKey t p n = PrizeKey t' p' n' \<Longrightarrow> no_colon t \<Longrightarrow> no_colon t' \<Longrightarrow> t = t'"
  "WithheldKey t p n = WithheldKey t' p' n' \<Longrightarrow> no_colon t \<Longrightarrow> no_colon t' \<Longrightarrow> t = t'"
  "RefundKey t p = RefundKey t' p' \<Longrightarrow> no_colon t \<Longrightarrow> no_colon t' \<Longrightarrow> t = t'"
  using no_colon_split [of t t'] by (simp_all add: key_defs)

lemma settle_keys_tournament:
  "k \<in> settle_keys t \<Longrightarrow> k \<in> settle_keys t' \<Longrightarrow> no_colon t \<Longrightarrow> no_colon t' \<Longrightarrow> t = t'"
  unfolding settle_keys_def by (auto dest: settle_key_tournament)

lemma settle_keys_fresh:
  assumes ok: "money_ok ts b" and t: "fmlookup ts tid = Some t" and st: "to_Status t \<noteq> Settled"
    and k: "k \<in> settle_keys tid"
  shows "\<not> Has b k"
proof
  assume "Has b k"
  then obtain q where q: "q \<in> set (bk_postings b)" "po_Key q = k" using Has_posting money_okD(1) [OF ok] by blast
  from money_okD(4) [OF ok q(1)] obtain u where u: "fmlookup ts (po_Tournament q) = Some u"
    and sh: "fee_shape u q \<or> settle_shape u q \<or> claim_shape u q" by (auto simp: post_ok_def)
  with q(2) k have set: "settle_shape u q"
    by (auto simp: fee_shape_def claim_shape_def settle_keys_def)
  have nc: "no_colon tid" "no_colon (po_Tournament q)"
    using money_okD(2) [OF ok] t u by (auto dest!: t_okD(2) validID_no_colon)
  have "k \<in> settle_keys (po_Tournament q)" using set q(2) by (simp add: settle_shape_def)
  with k nc have "po_Tournament q = tid" using settle_keys_tournament by blast
  with u t set st show False by (auto simp: settle_shape_def)
qed

lemma check_fresh_None:
  "check_fresh b seen ps = None \<longleftrightarrow>
     distinct (map po_Key ps) \<and> (\<forall>p\<in>set ps. \<not> Has b (po_Key p) \<and> po_Key p \<notin> set seen)"
proof (induction ps arbitrary: seen)
  case (Cons p ps)
  show ?case by (simp add: key_taken_def Cons) (auto simp: image_iff)
qed simp

lemma first_invalid_None: "first_invalid ps = None \<longleftrightarrow> (\<forall>p\<in>set ps. posting_Validate p = None)"
  by (induction ps) (auto split: option.splits)

lemma post_all_each: "post_all ps b = post_each Post ps b"
  by (induction ps arbitrary: b) (auto split: prod.splits sum.splits bool.splits)

lemma booked_flow:
  "list_all2 (\<lambda>p q. \<exists>n. q = p\<lparr>po_Seq := u64 (n + 1)\<rparr>) ps qs \<Longrightarrow> pool_flow tid qs = pool_flow tid ps"
  by (induction rule: list_all2_induct) (auto simp: net_flow_def)

lemma booked_in: "list_all2 P ps qs \<Longrightarrow> q \<in> set qs \<Longrightarrow> \<exists>p\<in>set ps. P p q"
  by (induction rule: list_all2_induct) auto

lemma settle_flow:
  assumes ok: "t_ok tid t" and st: "to_Status t = Closed \<or> to_Status t = Voided"
  shows "pool_flow tid (settle_postings sl b t ex (ComputePayouts t ex)) =
    - (ru_EntryFee (to_Rules t) * int (length (to_Entries t)))"
proof -
  have nopen: "to_Status t \<noteq> Open" using st by auto
  note pool = t_okD(7) [OF ok nopen]
  note exact = ComputePool_exact [OF t_okD(3) [OF ok] pool]
    ComputePayouts_exact [OF t_okD(3) [OF ok] t_ok_closed [OF ok] pool, of ex]
  have id: "to_ID t = tid" by (rule t_okD(1) [OF ok])
  have pay: "pool_flow tid (map (payout_posting sl b t ex) (filter (\<lambda>p. pa_Amount p > 0) ps)) = - total_paid ps"
    if "\<forall>p\<in>set ps. 0 \<le> pa_Amount p" for ps
    using that by (induction ps) (auto simp: net_flow_def payout_posting_def total_paid_def id)
  have vo: "to_Rake t = 0" if "to_Status t = Voided" using exact(1) t_okD(9) [OF ok that] by simp
  have r0: "0 \<le> to_Rake t" using exact(1) by blast
  have "net_flow (PoolAccount tid) (rake_posting sl b t ex) = - to_Rake t"
    by (simp add: net_flow_def rake_posting_def id)
  with r0 vo st have rake: "pool_flow tid (if to_Status t = Closed \<and> to_Rake t > 0 then [rake_posting sl b t ex] else []) = - to_Rake t"
    by (cases "to_Status t = Closed") auto
  have nn: "\<forall>p\<in>set (ComputePayouts t ex). 0 \<le> pa_Amount p" and tp: "total_paid (ComputePayouts t ex) = to_Pool t"
    using exact(2) by blast+
  have "to_Rake t + to_Pool t = ru_EntryFee (to_Rules t) * int (length (to_Entries t))" using exact(1) by simp
  then show ?thesis unfolding settle_postings_def pool_flow_simps(2) rake pay [OF nn] tp by simp
qed

lemma Payouts_update:
  "ComputePayouts (t\<lparr>to_Payouts := ps, to_Status := st, to_SettledAt := sl, to_Ballot := b\<rparr>) ex = ComputePayouts t ex"
  "ComputeStandings (t\<lparr>to_Payouts := ps, to_Status := st, to_SettledAt := sl, to_Ballot := b\<rparr>) = ComputeStandings t"
  "ComputePool (t\<lparr>to_Payouts := ps, to_Status := st, to_SettledAt := sl, to_Ballot := b\<rparr>) = ComputePool t"
proof -
  let ?u = "t\<lparr>to_Payouts := ps, to_Status := st, to_SettledAt := sl, to_Ballot := b\<rparr>"
  show cs: "ComputeStandings ?u = ComputeStandings t" by (simp add: ComputeStandings_def)
  have v: "Voids ?u = Voids t" by (simp add: Voids_def ScoredCount_def)
  show cp: "ComputePool ?u = ComputePool t" by (simp add: ComputePool_def v Let_def)
  have p: "payout_standings ?u = payout_standings t" by (simp add: payout_standings_def cs)
  have a: "prize_amounts ?u = prize_amounts t" by (simp add: prize_amounts_def cp p Let_def case_prod_beta)
  have pp: "prize_payout ?u = prize_payout t" by (simp add: prize_payout_def fun_eq_iff Let_def tournament_Entry_def)
  have rp: "refund_payout ?u = refund_payout t" by (simp add: refund_payout_def fun_eq_iff)
  show "ComputePayouts ?u ex = ComputePayouts t ex" by (simp add: ComputePayouts_def v p a pp rp)
qed

lemma settle_cases:
  assumes ok: "money_ok (ts_tournaments s) (ts_book s)"
  obtains (refused) r where "settle sl b c s = Some (r, s)" "re_Code r \<noteq> OK" "re_Code r \<noteq> LedgerConflict"
  | (settled) t t' ex qs book s' where "fmlookup (ts_tournaments s) (se_Tournament c) = Some t"
      "to_Status t = Closed \<or> to_Status t = Voided"
      "t' = t\<lparr>to_Payouts := ComputePayouts t ex, to_Status := Settled, to_SettledAt := sl, to_Ballot := b\<rparr>"
      "list_all2 (\<lambda>p q. \<exists>n. q = p\<lparr>po_Seq := u64 (n + 1)\<rparr>) (settle_postings sl b t ex (ComputePayouts t ex)) qs"
      "bk_postings book = bk_postings (ts_book s) @ qs" "book_inv book"
      "settle sl b c s = Some (reject OK NoDetail, s')" "ts_tournaments s' = fmupd (se_Tournament c) t' (ts_tournaments s)"
      "ts_book s' = book"
      "s' = (if ru_Game (to_Rules t) \<noteq> []
         then fold (record_payout sl t') (ComputePayouts t ex)
           (recordStatus sl t' (set_tournament (se_Tournament c) t' (s\<lparr>ts_book := book\<rparr>)))
         else set_tournament (se_Tournament c) t' (s\<lparr>ts_book := book\<rparr>))"
proof (cases "ValidateExclusions (se_Exclusions c) = None \<and> (\<exists>t. fmlookup (ts_tournaments s) (se_Tournament c) = Some t \<and>
    (to_Status t = Closed \<or> to_Status t = Voided))")
  case False
  then consider e where "ValidateExclusions (se_Exclusions c) = Some e"
    | "ValidateExclusions (se_Exclusions c) = None" "fmlookup (ts_tournaments s) (se_Tournament c) = None"
    | t where "ValidateExclusions (se_Exclusions c) = None" "fmlookup (ts_tournaments s) (se_Tournament c) = Some t"
      "to_Status t \<noteq> Closed \<and> to_Status t \<noteq> Voided" by fastforce
  then show thesis
  proof cases
    case (1 e)
    then show thesis by (intro refused [of "reject InvalidExclusions e"]) (simp_all add: settle_def)
  next
    case 2
    then show thesis
      by (intro refused [of "reject UnknownTournament (unknown_detail (se_Tournament c))"]) (simp_all add: settle_def)
  next
    case (3 t)
    then show thesis by (intro refused [of "reject NotClosed (status_detail t)"]) (simp_all add: settle_def)
  qed
next
  case True
  then obtain t where ve: "ValidateExclusions (se_Exclusions c) = None"
    and t: "fmlookup (ts_tournaments s) (se_Tournament c) = Some t" and st: "to_Status t = Closed \<or> to_Status t = Voided"
    by blast
  let ?ex = "canonicalExclusions (se_Exclusions c)"
  let ?ps = "settle_postings sl b t ?ex (ComputePayouts t ?ex)"
  note tok = money_okD(2) [OF ok t]
  note sh = settle_postings_shape [OF tok st, of _ sl b ?ex]
  have nst: "to_Status t \<noteq> Settled" using st by auto
  have inv: "first_invalid ?ps = None" using sh(1) by (simp add: first_invalid_None)
  have fr: "\<not> Has (ts_book s) (po_Key p)" if "p \<in> set ?ps" for p
    by (rule settle_keys_fresh [OF ok t nst sh(2) [OF that]])
  have "check_fresh (ts_book s) [] ?ps = None"
    unfolding check_fresh_None using fr settle_postings_distinct [OF tok] by simp
  then have cf: "checkFresh (ts_book s) ?ps = None" by (simp add: checkFresh_def)
  obtain book qs where bk: "post_all ?ps (ts_book s) = Some book" "book_inv book"
    "bk_postings book = bk_postings (ts_book s) @ qs"
    "list_all2 (\<lambda>p q. \<exists>n. q = p\<lparr>po_Seq := u64 (n + 1)\<rparr>) ?ps qs"
    using lb.post_each_appends [OF money_okD(1) [OF ok], of ?ps] fr sh(1) settle_postings_distinct [OF tok]
    unfolding post_all_each by blast
  let ?t = "t\<lparr>to_Payouts := ComputePayouts t ?ex, to_Status := Settled, to_SettledAt := sl, to_Ballot := b\<rparr>"
  let ?s1 = "set_tournament (se_Tournament c) ?t (s\<lparr>ts_book := book\<rparr>)"
  let ?s' = "if ru_Game (to_Rules t) \<noteq> [] then fold (record_payout sl ?t) (ComputePayouts t ?ex) (recordStatus sl ?t ?s1) else ?s1"
  have ev: "ts_tournaments (fold (record_payout sl u) ps x) = ts_tournaments x \<and> ts_book (fold (record_payout sl u) ps x) = ts_book x"
    for u ps x by (induction ps arbitrary: x) (simp_all add: record_payout_def)
  have "settle sl b c s = Some (reject OK NoDetail, ?s')"
    using ve t st inv cf bk(1) by (auto simp: settle_def Let_def)
  then show thesis by (rule settled [OF t st refl bk(4,3,2)]) (simp_all add: ev)
qed

lemma settle_money:
  assumes ok: "money_ok (ts_tournaments s) (ts_book s)"
  shows "\<exists>r s'. settle sl b c s = Some (r, s') \<and> money_ok (ts_tournaments s') (ts_book s') \<and> re_Code r \<noteq> LedgerConflict"
  using ok
proof (cases rule: settle_cases [where sl = sl and b = b and c = c])
  case (refused r)
  with ok show ?thesis by blast
next
  case (settled t t' ex qs book s')
  let ?tid = "se_Tournament c"
  let ?ps = "settle_postings sl b t ex (ComputePayouts t ex)"
  note tok = money_okD(2) [OF ok settled(1)]
  have nopen: "to_Status t \<noteq> Open" "to_Status t \<noteq> Settled" using settled(2) by auto
  have tok': "t_ok ?tid t'"
    using tok nopen unfolding settled(3) t_ok_def by (auto simp: Payouts_update entries_ok_def ids_def)
  have q: "po_Tournament q = ?tid \<and> po_Key q \<in> settle_keys ?tid \<and> po_Debit q = PoolAccount ?tid \<and>
      (\<forall>x. po_Credit q \<noteq> PoolAccount x)" if "q \<in> set qs" for q
  proof -
    from booked_in [OF settled(4) that] obtain p n where "p \<in> set ?ps" "q = p\<lparr>po_Seq := u64 (n + 1)\<rparr>"
      by blast
    with settle_postings_shape [OF tok settled(2)] show ?thesis by simp
  qed
  have "money_ok (fmupd ?tid t' (ts_tournaments s)) book"
  proof (rule money_okI)
    show "book_inv book" by (rule settled(6))
    fix k u assume k: "fmlookup (fmupd ?tid t' (ts_tournaments s)) k = Some u"
    then show "t_ok k u" using tok' money_okD(2) [OF ok] by (auto split: if_splits)
    show "pool_flow k (bk_postings book) = pool_due u"
    proof (cases "k = ?tid")
      case True
      with k have u: "u = t'" by simp
      show ?thesis
        using money_okD(3) [OF ok settled(1)] settle_flow [OF tok settled(2), of sl b ex] nopen True u
        by (simp add: settled(3,5) booked_flow [OF settled(4)] pool_due_def)
    next
      case False
      have "net_flow (PoolAccount k) x = 0" if "x \<in> set qs" for x
        using q [OF that] False by (auto simp: net_flow_def)
      then have "pool_flow k qs = 0" by (simp add: pool_flow_def cong: map_cong)
      with False k money_okD(3) [OF ok] show ?thesis by (simp add: settled(5))
    qed
  next
    fix p assume "p \<in> set (bk_postings book)"
    then consider "p \<in> set (bk_postings (ts_book s))" | "p \<in> set qs" by (auto simp: settled(5))
    then show "post_ok (fmupd ?tid t' (ts_tournaments s)) p"
    proof cases
      case 1
      show ?thesis
        by (rule post_ok_update [OF money_okD(4) [OF ok 1] settled(1)]) (simp_all add: settled(3) ids_def)
    next
      case 2
      with q [OF 2] show ?thesis by (simp add: post_ok_def settle_shape_def settled(3))
    qed
  qed
  with settled(7-9) show ?thesis by simp
qed

end
