(* ===== verification/Machine.thy ===== *)
theory Machine
  imports Money
begin

text \<open>
  The invariant of the whole state machine: the money invariant together with the play invariant
  (bound devices have players, recorded moves replay without error, a finished round's score is the
  score of its replay), its preservation by every command, and what follows: \<^verbatim>\<open>Apply\<close> never
  panics, never meets a ledger conflict, and every book it builds passes the ledger's own check.

  The only hypothesis on code outside the package is \<open>deals\<close>: the shuffle returns for every seed.
\<close>

section \<open>The play invariant\<close>

definition deals :: "hashes \<Rightarrow> bool" where
  "deals hx \<longleftrightarrow> (\<forall>sd. Deal (hx_sha hx) sd \<noteq> None)"

definition round_ok :: "hashes \<Rightarrow> roundKey \<Rightarrow> roundRecord \<Rightarrow> bool" where
  "round_ok hx k r \<longleftrightarrow>
     k = (rr_Tournament r, rr_Player r, rr_Round r) \<and>
     (\<exists>bd. Replay (hx_sha hx) (rr_Seed r) (rr_Moves r) = Some (bd, None) \<and>
        (rr_Status r = RoundDone \<longrightarrow> rr_Score r = Score bd \<and> rr_Cleared r = board_Cleared bd))"

definition play_ok :: "hashes \<Rightarrow> playState \<Rightarrow> bool" where
  "play_ok hx p \<longleftrightarrow>
     (\<forall>d b. fmlookup (pl_bindings p) d = Some b \<longrightarrow> fmlookup (pl_players p) (bi_Player b) \<noteq> None) \<and>
     (\<forall>i ps. fmlookup (pl_players p) i = Some ps \<longrightarrow> validID i) \<and>
     (\<forall>k r. fmlookup (pl_rounds p) k = Some r \<longrightarrow> round_ok hx k r) \<and>
     (\<forall>i\<in>set (pl_dirtyPlayers p). fmlookup (pl_players p) i \<noteq> None)"

lemma play_okD:
  assumes "play_ok hx p"
  shows "fmlookup (pl_bindings p) d = Some b \<Longrightarrow> fmlookup (pl_players p) (bi_Player b) \<noteq> None"
    "fmlookup (pl_players p) i = Some ps \<Longrightarrow> validID i"
    "fmlookup (pl_rounds p) k = Some r \<Longrightarrow> round_ok hx k r"
    "i \<in> set (pl_dirtyPlayers p) \<Longrightarrow> fmlookup (pl_players p) i \<noteq> None"
  using assms unfolding play_ok_def by blast+

lemma play_ok_same:
  assumes "play_ok hx p" and "pl_bindings p' = pl_bindings p" and "pl_players p' = pl_players p"
    and "pl_rounds p' = pl_rounds p" and "pl_dirtyPlayers p' = pl_dirtyPlayers p"
  shows "play_ok hx p'"
  using assms unfolding play_ok_def by simp

lemma play_ok_begin: "play_ok hx p \<Longrightarrow> play_ok hx (begin_command p)"
  unfolding play_ok_def by simp

lemma play_ok_round:
  assumes "play_ok hx p" and "round_ok hx k r" and "pl_bindings p' = pl_bindings p" and "pl_players p' = pl_players p"
    and "pl_rounds p' = fmupd k r (pl_rounds p)" and "pl_dirtyPlayers p' = pl_dirtyPlayers p"
  shows "play_ok hx p'"
  using assms unfolding play_ok_def by auto

lemma play_ok_player:
  assumes "play_ok hx p" and "fmlookup (pl_players p) i = Some q" and "pl_bindings p' = pl_bindings p"
    and "pl_players p' = fmupd i q' (pl_players p)" and "pl_rounds p' = pl_rounds p"
    and "set (pl_dirtyPlayers p') \<subseteq> insert i (set (pl_dirtyPlayers p))"
  shows "play_ok hx p'"
  using assms unfolding play_ok_def by auto

section \<open>Rounds\<close>

definition keeps_play :: "tstate \<Rightarrow> tstate \<Rightarrow> bool" where
  "keeps_play s s' \<longleftrightarrow>
     pl_bindings (ts_play s') = pl_bindings (ts_play s) \<and> pl_players (ts_play s') = pl_players (ts_play s) \<and>
     pl_rounds (ts_play s') = pl_rounds (ts_play s) \<and> pl_dirtyPlayers (ts_play s') = pl_dirtyPlayers (ts_play s)"

lemma keeps_play_ok: "play_ok hx (ts_play s) \<Longrightarrow> keeps_play s s' \<Longrightarrow> play_ok hx (ts_play s')"
  by (rule play_ok_same) (simp_all add: keeps_play_def)

lemma scoreEntry_keeps: "keeps_play (snd ts) (snd (scoreEntry sl i ts))"
  by (simp add: keeps_play_def scoreEntry_def Let_def case_prod_beta)

lemma finish_record_sel [simp]:
  "rr_Tournament (finish_record sl b re r) = rr_Tournament r" "rr_Player (finish_record sl b re r) = rr_Player r"
  "rr_Round (finish_record sl b re r) = rr_Round r" "rr_Seed (finish_record sl b re r) = rr_Seed r"
  "rr_Moves (finish_record sl b re r) = rr_Moves r" "rr_Status (finish_record sl b re r) = RoundDone"
  "rr_Score (finish_record sl b re r) = Score b" "rr_Cleared (finish_record sl b re r) = board_Cleared b"
  by (simp_all add: finish_record_def)

lemma finish_record_ok:
  assumes "round_ok hx k r" and "Replay (hx_sha hx) (rr_Seed r) (rr_Moves r) = Some (b, None)"
  shows "round_ok hx k (finish_record sl b re r)"
  using assms by (simp add: round_ok_def)

lemma finishRound_ok:
  assumes p: "play_ok hx (ts_play (snd ts))" and r: "round_ok hx k r"
    and b: "\<And>bd. bo = Some bd \<Longrightarrow> Replay (hx_sha hx) (rr_Seed r) (rr_Moves r) = Some (bd, None)"
  shows "\<exists>ts'. finishRound hx sl i k r bo re cl ts = Some ts' \<and> play_ok hx (ts_play (snd ts'))"
proof -
  obtain bd where bd: "Replay (hx_sha hx) (rr_Seed r) (rr_Moves r) = Some (bd, None)"
    using r by (auto simp: round_ok_def)
  have sel: "(case bo of Some b \<Rightarrow> Some b | None \<Rightarrow> map_option fst (Replay (hx_sha hx) (rr_Seed r) (rr_Moves r))) = Some bd"
    using b bd by (cases bo) auto
  obtain t s where ts: "ts = (t, s)" by (cases ts)
  define s1 where "s1 = set_play (\<lambda>p. touchRound (rr_Tournament r, rr_Player r, rr_Round r) (set_round k (finish_record sl bd re r) p)) s"
  have ok1: "play_ok hx (ts_play s1)"
    by (rule play_ok_round [OF p finish_record_ok [OF r bd]]) (simp_all add: s1_def ts)
  obtain ts' where fin: "finishRound hx sl i k r bo re cl ts = Some ts'" and "keeps_play s1 (snd ts')"
  proof -
    let ?e = "\<lambda>prog. (mk_event sl EventRoundFinished (to_ID t))
      \<lparr>ev_Player := rr_Player r, ev_Round := rr_Round r, ev_Status := roundStatus_String RoundDone,
       ev_Score := Score bd, ev_TotalScore := ep_Total prog, ev_RoundsFinished := ep_Finished prog\<rparr>"
    define s2 where "s2 = recordEvent (?e (Progress s1 (to_ID t) (rr_Player r))) s1"
    define s3 where "s3 = (if cl then s2 else recordLeaderboard sl (to_ID t) s2)"
    have k3: "keeps_play s1 s3" by (simp add: keeps_play_def s3_def s2_def)
    have f: "finishRound hx sl i k r bo re cl ts =
        Some (if rr_Round r = int Rounds \<and> \<not> en_Scored (to_Entries t ! i) then scoreEntry sl i (t, s3) else (t, s3))"
      unfolding finishRound_def sel by (simp add: Let_def ts s3_def s2_def s1_def)
    have "keeps_play s1 (snd (if rr_Round r = int Rounds \<and> \<not> en_Scored (to_Entries t ! i) then scoreEntry sl i (t, s3) else (t, s3)))"
      using k3 scoreEntry_keeps [of "(t, s3)" sl i] by (simp add: keeps_play_def)
    with f show thesis by (rule that)
  qed
  with keeps_play_ok [OF ok1] show ?thesis by blast
qed

lemma close_round_ok:
  assumes "play_ok hx (ts_play (snd ts))"
  shows "\<exists>ts'. close_round hx sl ir ts = Some ts' \<and> play_ok hx (ts_play (snd ts'))"
proof -
  obtain t s i r where e: "ts = (t, s)" "ir = (i, r)" by (cases ts, cases ir) auto
  let ?k = "(to_ID t, entry_id (to_Entries t ! i), r)"
  show ?thesis
  proof (cases "fmlookup (pl_rounds (ts_play s)) ?k")
    case None
    with assms e show ?thesis by (simp add: close_round_def)
  next
    case (Some rec)
    have "round_ok hx ?k rec" using play_okD(3) [OF assms] Some e by simp
    from finishRound_ok [OF assms this, of None] assms e Some show ?thesis by (simp add: close_round_def)
  qed
qed

lemma close_all_rounds_ok:
  "play_ok hx (ts_play (snd ts)) \<Longrightarrow>
     \<exists>ts'. close_all_rounds hx sl irs ts = Some ts' \<and> play_ok hx (ts_play (snd ts'))"
proof (induction irs arbitrary: ts)
  case (Cons ir irs)
  from close_round_ok [OF Cons.prems] obtain ts1 where
    "close_round hx sl ir ts = Some ts1" "play_ok hx (ts_play (snd ts1))" by blast
  with Cons.IH [of ts1] show ?case by simp
qed simp

lemma close_scores_keeps: "keeps_play (snd ts) (snd (fold (close_score sl) is ts))"
proof (induction "is" arbitrary: ts)
  case (Cons i "is")
  have "keeps_play (snd ts) (snd (close_score sl i ts))"
    using scoreEntry_keeps [of ts] by (simp add: close_score_def Let_def case_prod_beta keeps_play_def)
  with Cons [of "close_score sl i ts"] show ?case by (simp add: keeps_play_def)
qed (simp add: keeps_play_def)

lemma closeRounds_ok:
  assumes "play_ok hx (ts_play (snd ts))"
  shows "\<exists>ts'. closeRounds hx sl ts = Some ts' \<and> play_ok hx (ts_play (snd ts'))"
proof -
  let ?n = "length (to_Entries (fst ts))"
  obtain ts1 where "close_all_rounds hx sl (concat (map (\<lambda>i. map (Pair i) round_numbers) [0..<?n])) ts = Some ts1"
    "play_ok hx (ts_play (snd ts1))" using close_all_rounds_ok [OF assms] by blast
  then show ?thesis using keeps_play_ok [OF _ close_scores_keeps] by (simp add: closeRounds_def Let_def)
qed

section \<open>The invariant of a state\<close>

definition state_ok :: "hashes \<Rightarrow> tstate \<Rightarrow> bool" where
  "state_ok hx s \<longleftrightarrow> money_ok (ts_tournaments s) (ts_book s) \<and> play_ok hx (ts_play s)"

lemma state_okD:
  assumes "state_ok hx s"
  shows "money_ok (ts_tournaments s) (ts_book s)" "play_ok hx (ts_play s)"
  using assms by (auto simp: state_ok_def)

lemma state_okI:
  "money_ok (ts_tournaments s) (ts_book s) \<Longrightarrow> play_ok hx (ts_play s) \<Longrightarrow> state_ok hx s"
  by (simp add: state_ok_def)

text \<open>\<open>good hx r\<close>: a handler's outcome is a result and a well-formed state, and no ledger conflict.\<close>

definition good :: "hashes \<Rightarrow> (result \<times> tstate) option \<Rightarrow> bool" where
  "good hx x \<longleftrightarrow> (\<exists>r s. x = Some (r, s) \<and> state_ok hx s \<and> re_Code r \<noteq> LedgerConflict)"

lemma goodI: "state_ok hx s \<Longrightarrow> re_Code r \<noteq> LedgerConflict \<Longrightarrow> good hx (Some (r, s))"
  by (auto simp: good_def)

lemma goodI_pair: "state_ok hx (snd x) \<Longrightarrow> re_Code (fst x) \<noteq> LedgerConflict \<Longrightarrow> good hx (Some x)"
  by (cases x) (auto simp: good_def)

lemma create_play: "ts_play (snd (create sl c s)) = ts_play s"
  by (simp add: create_def Let_def split: option.splits)

lemma admit_play: "ts_play (snd (admit sl b tid t p s)) = ts_play s"
  by (simp add: admit_def Let_def split: option.splits prod.splits sum.splits)

lemma join_play: "ts_play (snd (join sl b c s)) = ts_play s"
  by (simp add: join_def admit_play case_prod_beta split: option.splits)

lemma score_play: "ts_play (snd (score c s)) = ts_play s"
  by (simp add: score_def split: option.splits)

lemma create_good: "state_ok hx s \<Longrightarrow> rules_typed (ct_Rules c) \<Longrightarrow> good hx (Some (create sl c s))"
proof (rule goodI_pair)
  show "re_Code (fst (create sl c s)) \<noteq> LedgerConflict"
    by (simp add: create_def Let_def split: option.splits)
qed (auto simp: state_ok_def create_play create_money)

lemma join_good: "state_ok hx s \<Longrightarrow> good hx (Some (join sl b c s))"
  by (rule goodI_pair) (auto simp: state_ok_def join_play join_money)

lemma score_good: "state_ok hx s \<Longrightarrow> good hx (Some (score c s))"
  by (rule goodI_pair) (auto simp: state_ok_def score_play score_money)

lemma close_good:
  assumes "state_ok hx s"
  shows "good hx (close hx sl c s)"
proof -
  have "\<exists>r s'. close hx sl c s = Some (r, s') \<and> play_ok hx (ts_play s')"
  proof (cases "\<exists>t. fmlookup (ts_tournaments s) (cl_Tournament c) = Some t \<and> to_Status t = Open")
    case True
    then obtain t where t: "fmlookup (ts_tournaments s) (cl_Tournament c) = Some t" "to_Status t = Open" by blast
    let ?cr = "if ru_Game (to_Rules t) \<noteq> [] then closeRounds hx sl (t, s) else Some (t, s)"
    have "\<exists>ts. ?cr = Some ts \<and> play_ok hx (ts_play (snd ts))"
      using closeRounds_ok [of hx "(t, s)" sl] state_okD(2) [OF assms] by simp
    then obtain ts where "?cr = Some ts" "play_ok hx (ts_play (snd ts))" by blast
    moreover obtain t1 s1 where "ts = (t1, s1)" by (cases ts)
    ultimately show ?thesis using t
      by (auto simp: close_def Let_def intro: keeps_play_ok simp: keeps_play_def)
  next
    case False
    with state_okD(2) [OF assms] show ?thesis by (auto simp: close_def split: option.splits)
  qed
  then obtain r s' where "close hx sl c s = Some (r, s')" "play_ok hx (ts_play s')" by blast
  with close_money [OF state_okD(1) [OF assms]] show ?thesis by (auto simp: good_def state_ok_def)
qed

lemma record_payouts_keeps: "keeps_play s (fold (record_payout sl t) ps s)"
proof (induction ps arbitrary: s)
  case (Cons p ps)
  from Cons [of "record_payout sl t p s"] show ?case by (simp add: keeps_play_def record_payout_def split: if_splits)
qed (simp add: keeps_play_def)

lemma settle_good:
  assumes "state_ok hx s"
  shows "good hx (settle sl b c s)"
proof -
  note ok = state_okD [OF assms]
  obtain r s' where rs: "settle sl b c s = Some (r, s')" "money_ok (ts_tournaments s') (ts_book s')" "re_Code r \<noteq> LedgerConflict"
    using settle_money [OF ok(1)] by blast
  have "play_ok hx (ts_play s')"
    using ok(1)
  proof (cases rule: settle_cases [where sl = sl and b = b and c = c])
    case (refused r)
    with rs ok show ?thesis by simp
  next
    case (settled t t' ex qs book s2)
    let ?s1 = "set_tournament (se_Tournament c) t' (s\<lparr>ts_book := book\<rparr>)"
    have "keeps_play s (recordStatus sl t' ?s1)" by (simp add: keeps_play_def)
    moreover have "keeps_play (recordStatus sl t' ?s1) (fold (record_payout sl t') (ComputePayouts t ex) (recordStatus sl t' ?s1))"
      by (rule record_payouts_keeps)
    moreover have "keeps_play s ?s1" by (simp add: keeps_play_def)
    ultimately have "keeps_play s s2" unfolding settled(10) by (simp add: keeps_play_def)
    with rs(1) settled(7) keeps_play_ok [OF ok(2)] show ?thesis by simp
  qed
  with rs show ?thesis by (auto simp: good_def state_ok_def)
qed

lemma openSession_good:
  assumes ok: "state_ok hx s"
  shows "good hx (openSession sl ra c s)"
proof (cases "validLowerHex (os_Device c) deviceIDLen \<and> os_Verifier c \<noteq> zero_digest")
  case False
  then have "openSession sl ra c s = Some (reject InvalidDevice
      (Fmt ''the device id must be 32 lower-case hex characters and the verifier not zero'' []), s)"
    by (auto simp: openSession_def)
  with ok show ?thesis by (simp add: goodI)
next
  case True
  show ?thesis
  proof (cases "fmlookup (pl_bindings (ts_play s)) (os_Device c)")
    case (Some b)
    obtain q where "fmlookup (pl_players (ts_play s)) (bi_Player b) = Some q"
      using play_okD(1) [OF state_okD(2) [OF ok] Some] by blast
    with True Some ok show ?thesis by (auto simp: openSession_def intro!: goodI)
  next
    case None
    show ?thesis
    proof (cases "ValidatePlayer \<lparr>pl_ID = os_Player c, pl_Jurisdiction = os_Jurisdiction c, pl_Age = os_Age c\<rparr> = None \<and>
        fmlookup (pl_players (ts_play s)) (os_Player c) = None")
      case False
      with None True ok show ?thesis by (auto simp: openSession_def intro!: goodI split: option.splits)
    next
      case v: True
      from ValidatePlayer_id [OF conjunct1 [OF v]] have vid: "validID (os_Player c)" by simp
      let ?b = "\<lparr>bi_Device = os_Device c, bi_Verifier = os_Verifier c, bi_Player = os_Player c,
        bi_Jurisdiction = os_Jurisdiction c, bi_Age = os_Age c, bi_BoundAt = sl\<rparr>"
      let ?q = "\<lparr>ps_rec = \<lparr>pr_Binding = ?b, pr_LastSeq = 0\<rparr>, ps_entered = []\<rparr>"
      obtain r s' where eq: "openSession sl ra c s = Some (r, s')" and code: "re_Code r = OK"
        and ts: "ts_tournaments s' = ts_tournaments s" "ts_book s' = ts_book s"
        and bi: "pl_bindings (ts_play s') = fmupd (os_Device c) ?b (pl_bindings (ts_play s))"
        and pl: "pl_players (ts_play s') = fmupd (os_Player c) ?q (pl_players (ts_play s))"
        and ro: "pl_rounds (ts_play s') = pl_rounds (ts_play s)"
        and di: "set (pl_dirtyPlayers (ts_play s')) = insert (os_Player c) (set (pl_dirtyPlayers (ts_play s)))"
        using v True None by (auto simp: openSession_def Let_def)
      have "play_ok hx (ts_play s')"
        using state_okD(2) [OF ok] bi pl ro di vid unfolding play_ok_def by auto
      with eq code ts state_okD(1) [OF ok] show ?thesis by (auto simp: good_def state_ok_def)
    qed
  qed
qed

section \<open>Sequenced commands\<close>

lemma sequenced_ok:
  assumes ok: "state_ok hx s" and sq: "sequenced pid seq tid s = (r, s1)"
  shows "state_ok hx s1 \<and> ts_tournaments s1 = ts_tournaments s \<and> ts_book s1 = ts_book s \<and>
    pl_rounds (ts_play s1) = pl_rounds (ts_play s) \<and>
    (case r of
       Inl rej \<Rightarrow> re_Code rej \<noteq> LedgerConflict \<and> re_Code rej \<noteq> OK
     | Inr (ps, t) \<Rightarrow> fmlookup (ts_tournaments s) tid = Some t \<and> ru_Game (to_Rules t) \<noteq> [] \<and>
         fmlookup (pl_players (ts_play s1)) pid = Some ps \<and> validID pid)"
proof (cases "fmlookup (pl_players (ts_play s)) pid")
  case None
  with sq ok show ?thesis by (auto simp: sequenced_def)
next
  case (Some ps)
  show ?thesis
  proof (cases "seq \<le> pr_LastSeq (ps_rec ps) \<or> seq > u64 (pr_LastSeq (ps_rec ps) + 1)")
    case True
    with sq ok Some show ?thesis by (auto simp: sequenced_def Let_def split: if_splits)
  next
    case False
    let ?ps = "ps\<lparr>ps_rec := (ps_rec ps)\<lparr>pr_LastSeq := seq\<rparr>\<rparr>"
    have s1: "s1 = set_play (\<lambda>p. touchPlayer pid (p\<lparr>pl_players := fmupd pid ?ps (pl_players p)\<rparr>)) s"
      using sq Some False by (auto simp: sequenced_def Let_def split: option.splits if_splits)
    have "play_ok hx (ts_play s1)"
      by (rule play_ok_player [OF state_okD(2) [OF ok] Some]) (simp_all add: s1)
    then have "state_ok hx s1" using state_okD(1) [OF ok] by (simp add: state_ok_def s1)
    with sq Some False play_okD(2) [OF state_okD(2) [OF ok] Some] show ?thesis
      by (auto simp: sequenced_def Let_def split: option.splits if_splits)
  qed
qed

lemma enterPlay_good:
  assumes ok: "state_ok hx s"
  shows "good hx (Some (enterPlay sl b c s))"
proof (cases "sequenced (et_Player c) (et_Seq c) (et_Tournament c) s")
  case (Pair r s1)
  note sq = sequenced_ok [OF ok Pair]
  show ?thesis
  proof (cases r)
    case (Inl rej)
    with sq show ?thesis by (auto simp: enterPlay_def Pair intro!: goodI)
  next
    case (Inr x)
    obtain ps t where x: "x = (ps, t)" by (cases x)
    let ?p = "\<lparr>pl_ID = et_Player c, pl_Jurisdiction = bi_Jurisdiction (pr_Binding (ps_rec ps)),
      pl_Age = bi_Age (pr_Binding (ps_rec ps))\<rparr>"
    obtain res s2 where ad: "admit sl b (et_Tournament c) t ?p s1 = (res, s2)"
      by (cases "admit sl b (et_Tournament c) t ?p s1")
    have s1: "state_ok hx s1" and t: "fmlookup (ts_tournaments s1) (et_Tournament c) = Some t"
      and v: "validID (et_Player c)" and ps: "fmlookup (pl_players (ts_play s1)) (et_Player c) = Some ps"
      using sq by (auto simp: Inr x)
    have m: "money_ok (ts_tournaments s2) (ts_book s2) \<and> re_Code res \<noteq> LedgerConflict"
      using admit_money [OF state_okD(1) [OF s1] t, of ?p sl b] v ad by simp
    have pl: "ts_play s2 = ts_play s1" using admit_play [of sl b "et_Tournament c" t ?p s1] ad by simp
    have p2: "play_ok hx (ts_play s2)" using state_okD(2) [OF s1] pl by simp
    let ?s3 = "set_play (\<lambda>p. p\<lparr>pl_players := fmupd (et_Player c) (ps\<lparr>ps_entered := ps_entered ps @ [to_ID t]\<rparr>) (pl_players p)\<rparr>) s2"
    have p3: "play_ok hx (ts_play ?s3)"
      by (rule play_ok_player [OF p2, of "et_Player c" ps]) (use ps pl in auto)
    show ?thesis
    proof (cases "re_Code res = OK")
      case True
      then show ?thesis using m p3 by (simp add: enterPlay_def Pair Inr x Let_def ad goodI state_ok_def)
    next
      case False
      then show ?thesis using m p2 by (simp add: enterPlay_def Pair Inr x Let_def ad goodI state_ok_def)
    qed
  qed
qed

lemma Replay_nil: "deals hx \<Longrightarrow> \<exists>bd. Replay (hx_sha hx) sd [] = Some (bd, None)"
  by (auto simp: deals_def Replay_def)

lemma startRound_good:
  assumes ok: "state_ok hx s" and dl: "deals hx"
  shows "good hx (Some (startRound sl c s))"
proof (cases "sequenced (sr_Player c) (sr_Seq c) (sr_Tournament c) s")
  case (Pair r s1)
  note sq = sequenced_ok [OF ok Pair]
  show ?thesis
  proof (cases r)
    case (Inl rej)
    with sq show ?thesis by (auto simp: startRound_def Pair intro!: goodI)
  next
    case (Inr x)
    obtain ps t where x: "x = (ps, t)" by (cases x)
    let ?k = "(to_ID t, sr_Player c, sr_Round c)"
    let ?r = "\<lparr>rr_Tournament = to_ID t, rr_Player = sr_Player c, rr_Round = sr_Round c, rr_Seed = sr_Seed c,
      rr_Moves = [], rr_Status = RoundInPlay, rr_Reason = None, rr_Cleared = 0, rr_Score = 0,
      rr_StartedAt = sl, rr_StartedAtMs = ts_clock s1,
      rr_DeadlineMs = s64 (ts_clock s1 + RoundTimeLimitMs), rr_FinishedAt = 0, rr_UpdatedAt = sl\<rparr>"
    have s1: "state_ok hx s1" using sq by simp
    have r: "round_ok hx ?k ?r" using Replay_nil [OF dl] by (simp add: round_ok_def)
    let ?s2 = "\<lambda>e. recordEvent e (set_play (\<lambda>p. touchRound ?k (set_round ?k ?r p)) s1)"
    have p2: "play_ok hx (ts_play (?s2 e))" for e
      by (rule play_ok_round [OF state_okD(2) [OF s1] r]) simp_all
    have s2: "state_ok hx (?s2 e)" for e
      by (rule state_okI) (use state_okD(1) [OF s1] p2 in simp_all)
    show ?thesis using s1 s2
      by (simp add: startRound_def Pair Inr x Let_def goodI)
  qed
qed

lemma write_back_good:
  assumes ok: "state_ok hx s" and t: "fmlookup (ts_tournaments s) tid = Some t" and op: "to_Status t = Open"
    and q: "quiet (t, s) ts'" and p: "play_ok hx (ts_play (snd ts'))" and r: "re_Code res \<noteq> LedgerConflict"
  shows "good hx (write_back tid res (Some ts'))"
proof -
  obtain t' s' where ts': "ts' = (t', s')" by (cases ts')
  have sc: "scored_from t t'" and eq: "ts_tournaments s' = ts_tournaments s" "ts_book s' = ts_book s"
    using q by (auto simp: quiet_def ts')
  note d = scored_fromD [OF sc]
  have "money_ok (fmupd tid t' (ts_tournaments s)) (ts_book s)"
    by (rule money_ok_update [OF state_okD(1) [OF ok] t])
      (use t_ok_scored [OF money_okD(2) [OF state_okD(1) [OF ok] t] op sc] d op in auto)
  then have "state_ok hx (set_tournament tid t' s')" using p eq by (simp add: state_ok_def ts')
  with r show ?thesis by (simp add: write_back_def ts' goodI)
qed

lemma roundFor_ok:
  assumes ok: "state_ok hx s" and rf: "roundFor s t pid r out = x"
  shows "case x of Inl rej \<Rightarrow> re_Code rej \<noteq> LedgerConflict \<and> re_Code rej \<noteq> OK
    | Inr (rec, i) \<Rightarrow> round_ok hx (to_ID t, pid, r) rec \<and> i < length (to_Entries t) \<and> validRound r"
  using rf play_okD(3) [OF state_okD(2) [OF ok]]
  by (auto simp: roundFor_def entry_index_def find_Some_iff split: option.splits if_splits)

lemma Replay_snoc:
  assumes "Replay sha sd ms = Some (bd, None)" and "board_Apply m bd = (bd1, None)"
  shows "Replay sha sd (ms @ [m]) = Some (bd1, None)"
  using assms by (auto simp: Replay_def replay_moves_append)

lemma playMove_good:
  assumes ok: "state_ok hx s"
  shows "good hx (playMove hx sl c s)"
proof (cases "sequenced (pm_Player c) (pm_Seq c) (pm_Tournament c) s")
  case (Pair r s1)
  note sq = sequenced_ok [OF ok Pair]
  show ?thesis
  proof (cases r)
    case (Inl rej)
    with sq show ?thesis by (auto simp: playMove_def Pair intro!: goodI)
  next
    case (Inr x)
    obtain ps t where x: "x = (ps, t)" by (cases x)
    have s1: "state_ok hx s1" and t: "fmlookup (ts_tournaments s1) (pm_Tournament c) = Some t"
      using sq by (auto simp: Inr x)
    let ?out = "(outcome (pm_Player c) ps)\<lparr>oc_Round := pm_Round c\<rparr>"
    show ?thesis
    proof (cases "to_Status t = Open")
      case False
      with s1 show ?thesis by (simp add: playMove_def Pair Inr x Let_def goodI)
    next
      case op: True
      show ?thesis
      proof (cases "roundFor s1 t (pm_Player c) (pm_Round c) ?out")
        case rf: (Inl rej)
        with roundFor_ok [OF s1 rf] s1 op show ?thesis
          by (simp add: playMove_def Pair Inr x Let_def goodI)
      next
        case rf: (Inr y)
        obtain rec i where y: "y = (rec, i)" by (cases y)
        let ?k = "(to_ID t, pm_Player c, pm_Round c)"
        have rk: "round_ok hx ?k rec" using roundFor_ok [OF s1 rf] by (simp add: y)
        then obtain bd where bd: "Replay (hx_sha hx) (rr_Seed rec) (rr_Moves rec) = Some (bd, None)"
          by (auto simp: round_ok_def)
        have acc: "good hx (accept_move hx sl c i rec out bd1 t s1)"
          if ap: "board_Apply (pm_Move c) bd = (bd1, None)" and ip: "rr_Status rec \<noteq> RoundDone" for out bd1
        proof -
          let ?rec = "rec\<lparr>rr_Moves := rr_Moves rec @ [pm_Move c], rr_UpdatedAt := sl\<rparr>"
          let ?s2 = "set_play (\<lambda>p. touchRound ?k (set_round ?k ?rec p)) s1"
          note rp = Replay_snoc [OF bd ap]
          have rk2: "round_ok hx ?k ?rec" using rk rp ip by (simp add: round_ok_def)
          have p2: "play_ok hx (ts_play ?s2)" by (rule play_ok_round [OF state_okD(2) [OF s1] rk2]) simp_all
          have s2: "state_ok hx ?s2" by (rule state_okI) (use state_okD(1) [OF s1] p2 in simp_all)
          show ?thesis
          proof (cases "Over bd1")
            case None
            with s2 show ?thesis by (simp add: accept_move_def Let_def goodI)
          next
            case (Some reason)
            obtain ts' where f: "finishRound hx sl i ?k ?rec (Some bd1) reason False (t, ?s2) = Some ts'"
              "play_ok hx (ts_play (snd ts'))"
              using finishRound_ok [of hx "(t, ?s2)" ?k ?rec "Some bd1" sl i reason False] p2 rk2 rp by auto
            have "good hx (write_back (pm_Tournament c) res (Some ts'))" if "re_Code res \<noteq> LedgerConflict" for res
              by (rule write_back_good [OF s2 _ op finishRound_quiet [OF f(1)] f(2) that]) (use t in simp)
            with Some f show ?thesis by (simp add: accept_move_def Let_def)
          qed
        qed
        show ?thesis using s1 op acc
          by (auto simp: playMove_def Pair Inr x rf y Let_def bd goodI split: prod.splits option.splits)
      qed
    qed
  qed
qed

lemma finishRoundCmd_good:
  assumes ok: "state_ok hx s"
  shows "good hx (finishRoundCmd hx sl c s)"
proof (cases "sequenced (fr_Player c) (fr_Seq c) (fr_Tournament c) s")
  case (Pair r s1)
  note sq = sequenced_ok [OF ok Pair]
  show ?thesis
  proof (cases r)
    case (Inl rej)
    with sq show ?thesis by (auto simp: finishRoundCmd_def Pair intro!: goodI)
  next
    case (Inr x)
    obtain ps t where x: "x = (ps, t)" by (cases x)
    have s1: "state_ok hx s1" and t: "fmlookup (ts_tournaments s1) (fr_Tournament c) = Some t"
      using sq by (auto simp: Inr x)
    let ?out = "(outcome (fr_Player c) ps)\<lparr>oc_Round := fr_Round c\<rparr>"
    show ?thesis
    proof (cases "roundFor s1 t (fr_Player c) (fr_Round c) ?out")
      case rf: (Inl rej)
      with roundFor_ok [OF s1 rf] s1 show ?thesis by (simp add: finishRoundCmd_def Pair Inr x Let_def goodI)
    next
      case rf: (Inr y)
      obtain rec i where y: "y = (rec, i)" by (cases y)
      let ?k = "(to_ID t, fr_Player c, fr_Round c)"
      let ?re = "deadline_reason (ts_clock s1) rec Resigned"
      have rk: "round_ok hx ?k rec" using roundFor_ok [OF s1 rf] by (simp add: y)
      obtain ts' where f: "finishRound hx sl i ?k rec None ?re False (t, s1) = Some ts'" "play_ok hx (ts_play (snd ts'))"
        using finishRound_ok [of hx "(t, s1)" ?k rec None sl i ?re False] state_okD(2) [OF s1] rk by auto
      have "good hx (write_back (fr_Tournament c) (ok_result out) (Some ts'))" if "to_Status t = Open" for out
        by (rule write_back_good [OF s1 t that finishRound_quiet [OF f(1)] f(2)]) simp
      with s1 f show ?thesis by (simp add: finishRoundCmd_def Pair Inr x rf y Let_def goodI)
    qed
  qed
qed

lemma claim_money:
  assumes ok: "money_ok ts b" and t: "fmlookup ts tid = Some t" and st: "to_Status t = Settled"
    and p: "p = claim_posting sl bl t pid amount" and fresh: "\<not> Has b (po_Key p)" and pos: "0 < amount"
  shows "\<exists>b' q. Post p b = (b', Inr (q, True)) \<and> money_ok ts b'"
proof -
  have id: "to_ID t = tid" using t_okD(1) [OF money_okD(2) [OF ok t]] .
  have v: "posting_Validate p = None" using pos by (simp add: p claim_posting_def posting_Validate_def)
  note app = lb.appended [OF money_okD(1) [OF ok] v fresh] lb.entries_post [OF money_okD(1) [OF ok] v fresh]
  let ?q = "p\<lparr>po_Seq := u64 (length (bk_postings b) + 1)\<rparr>"
  obtain b' r where po: "Post p b = (b', r)" by (cases "Post p b")
  have r: "r = Inr (?q, True)" and bk: "bk_postings b' = bk_postings b @ [?q]" using app po by simp_all
  have "money_ok ts b'"
  proof (rule money_okI)
    show "book_inv b'" using book_inv_Post [OF money_okD(1) [OF ok], of p] po by simp
    show "t_ok k u" if "fmlookup ts k = Some u" for k u using money_okD(2) [OF ok that] .
    have "net_flow (PoolAccount k) ?q = 0" for k by (simp add: net_flow_def p claim_posting_def)
    then show "pool_flow k (bk_postings b') = pool_due u" if "fmlookup ts k = Some u" for k u
      using money_okD(3) [OF ok that] by (simp add: bk)
    have "post_ok ts ?q" using t st id by (simp add: post_ok_def claim_shape_def p claim_posting_def)
    then show "post_ok ts q" if "q \<in> set (bk_postings b')" for q
      using that money_okD(4) [OF ok] by (auto simp: bk)
  qed
  with po r show ?thesis by blast
qed

lemma claimPayout_good:
  assumes ok: "state_ok hx s"
  shows "good hx (Some (claimPayout sl b c s))"
proof (cases "sequenced (cp_Player c) (cp_Seq c) (cp_Tournament c) s")
  case (Pair r s1)
  note sq = sequenced_ok [OF ok Pair]
  show ?thesis
  proof (cases r)
    case (Inl rej)
    with sq show ?thesis by (auto simp: claimPayout_def Pair intro!: goodI)
  next
    case (Inr x)
    obtain ps t where x: "x = (ps, t)" by (cases x)
    have s1: "state_ok hx s1" and t: "fmlookup (ts_tournaments s1) (cp_Tournament c) = Some t"
      using sq by (auto simp: Inr x)
    let ?a = "ClaimableAmount t (cp_Player c)"
    let ?p = "claim_posting sl b t (cp_Player c) ?a"
    show ?thesis
    proof (cases "tournament_Entry t (cp_Player c) \<noteq> None \<and> to_Status t = Settled \<and> 0 < ?a \<and> \<not> Has (ts_book s1) (po_Key ?p)")
      case False
      then show ?thesis using s1
        by (auto simp: claimPayout_def Pair Inr x Let_def intro!: goodI)
    next
      case True
      then obtain b' q where po: "Post ?p (ts_book s1) = (b', Inr (q, True))" "money_ok (ts_tournaments s1) b'"
        using claim_money [OF state_okD(1) [OF s1] t _ refl] by blast
      have "state_ok hx (recordEvent e (s1\<lparr>ts_book := b'\<rparr>))" for e
      proof (rule state_okI)
        show "play_ok hx (ts_play (recordEvent e (s1\<lparr>ts_book := b'\<rparr>)))"
          by (rule play_ok_same [OF state_okD(2) [OF s1]]) simp_all
      qed (use po(2) in simp)
      with True po(1) show ?thesis by (auto simp: claimPayout_def Pair Inr x Let_def intro!: goodI)
    qed
  qed
qed

section \<open>Apply\<close>

text \<open>\<open>cmd_typed\<close>: the prize shares of a new tournament fit the source's \<^verbatim>\<open>uint32\<close>.\<close>

definition cmd_typed :: "command \<Rightarrow> bool" where
  "cmd_typed cmd \<longleftrightarrow> (case cm_Op cmd of CreateTournament c \<Rightarrow> rules_typed (ct_Rules c) | _ \<Rightarrow> True)"

lemma dispatch_good:
  assumes "state_ok hx s" and "deals hx" and "cmd_typed cmd"
  shows "good hx (dispatch hx sl b cmd s)"
proof (cases "cm_Op cmd")
  case UnknownOp
  with assms(1) show ?thesis by (simp add: dispatch_def goodI)
qed (use assms in \<open>simp_all add: dispatch_def cmd_typed_def create_good join_good score_good close_good settle_good
    openSession_good enterPlay_good startRound_good playMove_good finishRoundCmd_good claimPayout_good\<close>)

text \<open>No recorded result is a ledger conflict either, so a replayed one is not.\<close>

definition results_ok :: "tstate \<Rightarrow> bool" where
  "results_ok s \<longleftrightarrow> (\<forall>k rec. fmlookup (ts_results s) k = Some rec \<longrightarrow> re_Code (rc_result rec) \<noteq> LedgerConflict)"

lemma state_ok_same:
  assumes "state_ok hx s" and "ts_tournaments s' = ts_tournaments s" and "ts_book s' = ts_book s" and "ts_play s' = ts_play s"
  shows "state_ok hx s'"
  using assms by (simp add: state_ok_def)

lemma execute_good:
  assumes ok: "state_ok hx s" and rs: "results_ok s" and dl: "deals hx" and ty: "cmd_typed cmd"
  shows "\<exists>r s'. execute hx sl b cmd s = Some (r, s') \<and> state_ok hx s' \<and> results_ok s' \<and> re_Code r \<noteq> LedgerConflict"
proof (cases "ValidateKey (cm_Key cmd) = None \<and> fmlookup (ts_results s) (cm_Key cmd) = None")
  case False
  with ok rs show ?thesis
    by (auto simp: execute_def Let_def results_ok_def key_reused_def split: option.splits)
next
  case True
  obtain r0 s1 where d: "dispatch hx sl b cmd s = Some (r0, s1)" "state_ok hx s1" "re_Code r0 \<noteq> LedgerConflict"
    using dispatch_good [OF ok dl ty, of sl b] unfolding good_def by blast
  have rs1: "results_ok s1" using rs admin_results [OF dispatch_admin [OF d(1)]] by (simp add: results_ok_def)
  show ?thesis
  proof (cases "cm_Op cmd = UnknownOp")
    case unknown: True
    with True d rs1 show ?thesis by (simp add: execute_def Let_def)
  next
    case False
    let ?s2 = "\<lambda>m. s1\<lparr>ts_mutations := m, ts_results := fmupd (cm_Key cmd)
      \<lparr>rc_fingerprint = Fingerprint (hx_fp hx) cmd, rc_result = r0\<lparr>re_Slot := sl\<rparr>\<rparr> (ts_results s1)\<rparr>"
    have "state_ok hx (?s2 m)" for m by (rule state_ok_same [OF d(2)]) simp_all
    moreover have "results_ok (?s2 m)" for m using rs1 d(3) by (simp add: results_ok_def)
    ultimately show ?thesis using True False d by (simp add: execute_def Let_def)
  qed
qed

lemma Apply_good:
  assumes ok: "state_ok hx s" and rs: "results_ok s" and dl: "deals hx" and ty: "cmd_typed cmd"
  shows "\<exists>r s'. Apply hx sl b cmd s = Some (r, s') \<and> state_ok hx s' \<and> results_ok s' \<and> re_Code r \<noteq> LedgerConflict"
proof (cases "sl \<le> ts_applied s")
  case True
  with ok rs show ?thesis by (simp add: Apply_def)
next
  case False
  let ?s0 = "start_command sl cmd s"
  have ok0: "state_ok hx ?s0" using state_okD [OF ok] by (simp add: state_ok_def play_ok_begin)
  have rs0: "results_ok ?s0" using rs by (simp add: results_ok_def)
  obtain r s1 where ex: "execute hx sl b cmd ?s0 = Some (r, s1)" "state_ok hx s1" "results_ok s1" "re_Code r \<noteq> LedgerConflict"
    using execute_good [OF ok0 rs0 dl ty] by blast
  have "mixPlay (ts_play s1) \<noteq> None"
    using play_okD(4) [OF state_okD(2) [OF ex(2)]] by (auto simp: mixPlay_def)
  then obtain s2 where mx: "mix hx sl cmd r (Len (ts_book s)) s1 = Some s2" by (auto simp: mix_def)
  then obtain h where h: "s2 = s1\<lparr>ts_hash := h\<rparr>" using mix_sel by blast
  have "state_ok hx s2" by (rule state_ok_same [OF ex(2)]) (simp_all add: h)
  moreover have "results_ok s2" using ex(3) by (simp add: h results_ok_def)
  moreover have "Apply hx sl b cmd s = Some (r, s2)" using False ex(1) mx by (simp add: Apply_def Let_def)
  ultimately show ?thesis using ex(4) by blast
qed

lemma Skip_good: "state_ok hx s \<Longrightarrow> results_ok s \<Longrightarrow> state_ok hx (Skip hx sl s) \<and> results_ok (Skip hx sl s)"
  by (simp add: Skip_def state_ok_def results_ok_def)

lemma New_good: "state_ok hx NewState \<and> results_ok NewState"
  by (simp add: state_ok_def results_ok_def NewState_def money_ok_def play_ok_def newPlayState_def book_inv_New NewBook_def
      flip: NewBook_def) (simp add: NewBook_def)

definition log_typed :: "log_item list \<Rightarrow> bool" where
  "log_typed log \<longleftrightarrow> (\<forall>(sl, x)\<in>set log. \<forall>bc. x = Some bc \<longrightarrow> cmd_typed (snd bc))"

lemma apply_log_good:
  "state_ok hx s \<Longrightarrow> results_ok s \<Longrightarrow> deals hx \<Longrightarrow> log_typed log \<Longrightarrow>
     \<exists>rs s'. apply_log hx log s = Some (rs, s') \<and> state_ok hx s' \<and> results_ok s' \<and> length rs = length log \<and>
       (\<forall>r. Some r \<in> set rs \<longrightarrow> re_Code r \<noteq> LedgerConflict)"
proof (induction hx log s rule: apply_log.induct)
  case (2 hx sl log s)
  then show ?case using Skip_good [of hx s sl] by (fastforce simp: log_typed_def)
next
  case (3 hx sl b cmd log s)
  from "3.prems" have "cmd_typed cmd" "log_typed log" by (auto simp: log_typed_def)
  moreover from Apply_good [OF "3.prems"(1-3) this(1)] obtain r s1 where
    a: "Apply hx sl b cmd s = Some (r, s1)" "state_ok hx s1" "results_ok s1" "re_Code r \<noteq> LedgerConflict" by blast
  ultimately show ?case using "3.IH" [OF a(1) refl a(2,3) "3.prems"(3)] by fastforce
qed simp

end
