(* ===== verification/Outcomes.thy ===== *)
theory Outcomes
  imports Machine "HOL-Library.Sublist"
begin

text \<open>
  What the machine invariant gives for every log of commands a replica may be handed: the replica
  keeps running and its books keep balancing, the pool account of a tournament holds exactly the
  entry fees until settlement and nothing afterwards, a finished round is scored by replaying the
  recorded moves on the recorded seed, and a tournament only moves forward in its life cycle.
\<close>

section \<open>Reachable states\<close>

lemma reachable_good:
  assumes "deals hx" and "log_typed log" and "apply_log hx log NewState = Some (rs, s)"
  shows "state_ok hx s"
  using apply_log_good [OF conjunct1 [OF New_good] conjunct2 [OF New_good] assms(1,2)] assms(3) by auto

lemma pool_due_exact: "t_ok tid t \<Longrightarrow> s64 (pool_due t) = pool_due t"
  using fees_exact [of t] by (simp add: pool_due_def t_okD(3))

lemma deals_plain: "deals plain_hashes"
proof -
  have "\<exists>d. shuffleWith (next32 flat_sha) (newStream sd) = Some d" for sd
    using shuffleWith_some [OF flat_small] by blast
  then show ?thesis by (simp add: deals_def plain_hashes_def Deal_def Shuffle_def)
qed

lemma sample_log_typed: "log_typed (sample_log b)"
  by (simp add: log_typed_def sample_log_def cmd_typed_def create_cmd_def join_cmd_def) code_simp

lemma sample_log_state:
  obtains rs s t where "apply_log plain_hashes (sample_log (Ballot 1 1)) NewState = Some (rs, s)"
    "fmlookup (ts_tournaments s) ''t1'' = Some t" "to_Status t = Open" "length (to_Entries t) = 1"
proof -
  have "map_option (\<lambda>(rs, s). map_option (\<lambda>t. (to_Status t, length (to_Entries t))) (fmlookup (ts_tournaments s) ''t1''))
      (apply_log plain_hashes (sample_log (Ballot 1 1)) NewState) = Some (Some (Open, 1))"
    by code_simp
  then show thesis using that by auto
qed

section \<open>The life cycle of a tournament\<close>

definition fixed_part :: "tournament \<Rightarrow> tournament_id \<times> nat \<times> rules \<times> slot" where
  "fixed_part t = (to_ID t, to_Seed t, to_Rules t, to_CreatedAt t)"

definition settled_from :: "tournament \<Rightarrow> tournament \<Rightarrow> bool" where
  "settled_from t t' \<longleftrightarrow>
     (\<exists>ps sl b. t' = t\<lparr>to_Payouts := ps, to_Status := Settled, to_SettledAt := sl, to_Ballot := b\<rparr>)"

text \<open>\<open>evolves\<close>: identifier, seed, rules and creation slot never change and nobody leaves; a closed or
  voided tournament stays as it is or is settled, entries, standings and pool untouched; a settled one
  is final.\<close>

definition evolves :: "tournament \<Rightarrow> tournament \<Rightarrow> bool" where
  "evolves t t' \<longleftrightarrow>
     fixed_part t' = fixed_part t \<and> prefix (ids t) (ids t') \<and>
     (to_Status t = Closed \<or> to_Status t = Voided \<longrightarrow> t' = t \<or> settled_from t t') \<and>
     (to_Status t = Settled \<longrightarrow> t' = t)"

definition forward :: "(tournament_id, tournament) fmap \<Rightarrow> (tournament_id, tournament) fmap \<Rightarrow> bool" where
  "forward m m' \<longleftrightarrow> (\<forall>k t. fmlookup m k = Some t \<longrightarrow> (\<exists>t'. fmlookup m' k = Some t' \<and> evolves t t'))"

lemma evolves_refl [simp]: "evolves t t"
  by (simp add: evolves_def)

lemma evolves_trans:
  assumes "evolves a b" and "evolves b c"
  shows "evolves a c"
  unfolding evolves_def
proof (intro conjI impI)
  show "fixed_part c = fixed_part a" "prefix (ids a) (ids c)" using assms prefix_order.trans by (auto simp: evolves_def)
  show "c = a" if "to_Status a = Settled" using assms that by (simp add: evolves_def)
  show "c = a \<or> settled_from a c" if "to_Status a = Closed \<or> to_Status a = Voided"
  proof (cases "b = a")
    case False
    then have "settled_from a b" using assms(1) that by (auto simp: evolves_def)
    then have "to_Status b = Settled" by (auto simp: settled_from_def)
    with assms(2) \<open>settled_from a b\<close> show ?thesis by (simp add: evolves_def)
  qed (use assms that in \<open>auto simp: evolves_def\<close>)
qed

lemma evolves_open: "to_Status t = Open \<Longrightarrow> fixed_part t' = fixed_part t \<Longrightarrow> prefix (ids t) (ids t') \<Longrightarrow> evolves t t'"
  by (simp add: evolves_def)

lemma evolves_scored: "to_Status t = Open \<Longrightarrow> scored_from t t' \<Longrightarrow> evolves t t'"
  by (rule evolves_open) (auto simp: fixed_part_def scored_from_def ids_def)

lemma forward_refl [simp]: "forward m m"
  by (auto simp: forward_def)

lemma forward_trans: "forward a b \<Longrightarrow> forward b c \<Longrightarrow> forward a c"
  unfolding forward_def using evolves_trans by blast

lemma forward_upd: "fmlookup m k = Some t \<Longrightarrow> evolves t t' \<Longrightarrow> forward m (fmupd k t' m)"
  by (auto simp: forward_def)

lemma forward_new: "fmlookup m k = None \<Longrightarrow> forward m (fmupd k t m)"
  by (auto simp: forward_def)

abbreviation tournaments_forward :: "tstate \<Rightarrow> tstate \<Rightarrow> bool" where
  "tournaments_forward s s' \<equiv> forward (ts_tournaments s) (ts_tournaments s')"

lemma create_forward: "tournaments_forward s (snd (create sl c s))"
  by (auto simp: create_def Let_def intro: forward_new split: option.splits)

lemma admit_forward:
  assumes "fmlookup (ts_tournaments s) tid = Some t"
  shows "tournaments_forward s (snd (admit sl b tid t p s))"
proof (cases "to_Status t = Open")
  case True
  then have "evolves t (t\<lparr>to_Entries := to_Entries t @ [new_entry t p]\<rparr>)"
    by (rule evolves_open) (simp_all add: fixed_part_def ids_def)
  with assms show ?thesis
    by (auto simp: admit_def Let_def intro: forward_upd split: option.splits prod.splits sum.splits)
qed (simp add: admit_def admit_check_def)

lemma join_forward: "tournaments_forward s (snd (join sl b c s))"
  by (auto simp: join_def case_prod_beta intro: admit_forward split: option.splits)

lemma score_forward: "tournaments_forward s (snd (score c s))"
  by (auto simp: score_def intro!: forward_upd evolves_scored scored_from_trans [OF set_score_scored update_entry_scored]
      split: option.splits)

lemma write_back_forward:
  assumes "fmlookup (ts_tournaments s) tid = Some t" and "to_Status t = Open" and "ts_tournaments s1 = ts_tournaments s"
    and "write_back tid res (finishRound hx sl i k r bo re cl (t, s1)) = Some (res', s')"
  shows "tournaments_forward s s'"
  using assms by (auto simp: write_back_def quiet_def dest!: finishRound_quiet intro!: forward_upd evolves_scored)

lemma close_forward:
  assumes "close hx sl c s = Some (r, s')"
  shows "tournaments_forward s s'"
proof (cases "\<exists>t. fmlookup (ts_tournaments s) (cl_Tournament c) = Some t \<and> to_Status t = Open")
  case True
  then obtain t where t: "fmlookup (ts_tournaments s) (cl_Tournament c) = Some t" "to_Status t = Open" by blast
  let ?cr = "if ru_Game (to_Rules t) \<noteq> [] then closeRounds hx sl (t, s) else Some (t, s)"
  obtain t1 s1 where ts: "?cr = Some (t1, s1)" using assms t by (auto simp: close_def split: option.splits if_splits)
  then have q: "quiet (t, s) (t1, s1)" using closeRounds_quiet by (auto split: if_splits)
  then have "fixed_part (close_record sl t1) = fixed_part t" "ids (close_record sl t1) = ids t"
    using scored_fromD(1) by (auto simp: quiet_def scored_from_def fixed_part_def ids_def close_record_def Let_def case_prod_beta)
  with t(2) have "evolves t (close_record sl t1)" by (simp add: evolves_open)
  moreover have "ts_tournaments s' = fmupd (cl_Tournament c) (close_record sl t1) (ts_tournaments s)"
    using assms t ts q by (auto simp: close_def Let_def quiet_def split: if_splits)
  ultimately show ?thesis using t(1) by (simp add: forward_upd)
next
  case False
  then have "s' = s" using assms by (auto simp: close_def split: option.splits if_splits)
  then show ?thesis by simp
qed

lemma record_payouts_tournaments [simp]: "ts_tournaments (fold (record_payout sl t) ps s) = ts_tournaments s"
  by (induction ps arbitrary: s) (simp_all add: record_payout_def)

lemma settle_evolves:
  "to_Status t = Closed \<or> to_Status t = Voided \<Longrightarrow>
     evolves t (t\<lparr>to_Payouts := ps, to_Status := Settled, to_SettledAt := sl, to_Ballot := b\<rparr>)"
  by (auto simp: evolves_def settled_from_def fixed_part_def ids_def)

lemma settle_forward: "settle sl b c s = Some (r, s') \<Longrightarrow> tournaments_forward s s'"
  by (simp add: settle_def Let_def split: option.splits if_splits)
    (auto intro!: forward_upd settle_evolves)

lemma openSession_forward: "openSession sl ra c s = Some (r, s') \<Longrightarrow> tournaments_forward s s'"
  by (auto simp: openSession_def Let_def split: option.splits if_splits)

lemma sequenced_tournaments:
  "sequenced pid seq tid s = (r, s1) \<Longrightarrow>
     ts_tournaments s1 = ts_tournaments s \<and> (\<forall>ps t. r = Inr (ps, t) \<longrightarrow> fmlookup (ts_tournaments s) tid = Some t)"
  by (auto simp: sequenced_def Let_def split: option.splits if_splits)

lemma enterPlay_forward: "tournaments_forward s (snd (enterPlay sl b c s))"
proof (cases "sequenced (et_Player c) (et_Seq c) (et_Tournament c) s")
  case (Pair r s1)
  note sq = sequenced_tournaments [OF Pair]
  show ?thesis
  proof (cases r)
    case (Inr x)
    then obtain ps t where x: "r = Inr (ps, t)" by (cases x) auto
    with sq admit_forward [of s1 "et_Tournament c" t] show ?thesis
      by (simp add: enterPlay_def Pair Let_def case_prod_beta)
  qed (simp add: enterPlay_def Pair sq)
qed

lemma startRound_forward: "tournaments_forward s (snd (startRound sl c s))"
  by (auto simp: startRound_def Let_def dest!: sequenced_tournaments split: prod.splits sum.splits)

lemma accept_move_forward:
  assumes "fmlookup (ts_tournaments s) (pm_Tournament c) = Some t" and "to_Status t = Open"
    and "ts_tournaments s1 = ts_tournaments s" and "accept_move hx sl c i rec out bd t s1 = Some (r, s')"
  shows "tournaments_forward s s'"
proof (cases "Over bd")
  case None
  with assms(3,4) show ?thesis by (auto simp: accept_move_def Let_def)
next
  case (Some re)
  show ?thesis
    by (rule write_back_forward [OF assms(1,2) _ assms(4) [unfolded accept_move_def Let_def Some option.case]])
      (simp add: assms(3))
qed

lemma playMove_forward:
  assumes "playMove hx sl c s = Some (r, s')"
  shows "tournaments_forward s s'"
proof (cases "sequenced (pm_Player c) (pm_Seq c) (pm_Tournament c) s")
  case (Pair x s1)
  with assms sequenced_tournaments [OF Pair] show ?thesis
    by (auto simp: playMove_def Let_def intro: accept_move_forward split: sum.splits option.splits prod.splits if_splits)
qed

lemma finishRoundCmd_forward:
  assumes "finishRoundCmd hx sl c s = Some (r, s')"
  shows "tournaments_forward s s'"
proof (cases "sequenced (fr_Player c) (fr_Seq c) (fr_Tournament c) s")
  case (Pair x s1)
  with assms sequenced_tournaments [OF Pair] show ?thesis
    by (auto simp: finishRoundCmd_def Let_def intro: write_back_forward split: sum.splits prod.splits if_splits)
qed

lemma claimPayout_forward: "tournaments_forward s (snd (claimPayout sl b c s))"
  by (auto simp: claimPayout_def Let_def dest!: sequenced_tournaments split: prod.splits sum.splits bool.splits)

lemma forward_pair: "x = (r, s') \<Longrightarrow> tournaments_forward s (snd x) \<Longrightarrow> tournaments_forward s s'"
  by simp

lemma dispatch_forward: "dispatch hx sl b cmd s = Some (r, s') \<Longrightarrow> tournaments_forward s s'"
proof (cases "cm_Op cmd")
qed (auto simp: dispatch_def dest: close_forward settle_forward openSession_forward playMove_forward finishRoundCmd_forward
    forward_pair [OF _ create_forward] forward_pair [OF _ join_forward] forward_pair [OF _ score_forward]
    forward_pair [OF _ enterPlay_forward] forward_pair [OF _ startRound_forward] forward_pair [OF _ claimPayout_forward])

lemma execute_forward: "execute hx sl b cmd s = Some (r, s') \<Longrightarrow> tournaments_forward s s'"
  by (auto simp: execute_def Let_def dest!: dispatch_forward split: option.splits if_splits prod.splits)

lemma Apply_forward:
  assumes "Apply hx sl b cmd s = Some (r, s')"
  shows "tournaments_forward s s'"
  using assms execute_forward [of hx sl b cmd "start_command sl cmd s"]
  by (fastforce simp: Apply_def Let_def dest: mix_sel split: if_splits option.splits)

lemma apply_log_forward: "apply_log hx log s = Some (rs, s') \<Longrightarrow> tournaments_forward s s'"
proof (induction hx log s arbitrary: rs rule: apply_log.induct)
  case (2 hx sl log s)
  have "ts_tournaments (Skip hx sl s) = ts_tournaments s" by (simp add: Skip_def)
  with 2 show ?case by auto
next
  case (3 hx sl b cmd log s)
  then show ?case by (auto split: option.splits dest!: Apply_forward intro: forward_trans)
qed simp

section \<open>Rejections\<close>

text \<open>\<open>untouched\<close>: tournaments, book, rounds, bindings and events are what they were. A rejected play
  command may still consume its sequence number.\<close>

definition untouched :: "tstate \<Rightarrow> tstate \<Rightarrow> bool" where
  "untouched s s' \<longleftrightarrow>
     ts_tournaments s' = ts_tournaments s \<and> ts_order s' = ts_order s \<and> ts_book s' = ts_book s \<and>
     pl_rounds (ts_play s') = pl_rounds (ts_play s) \<and> pl_bindings (ts_play s') = pl_bindings (ts_play s) \<and>
     pl_events (ts_play s') = pl_events (ts_play s)"

lemma untouched_refl [simp]: "untouched s s"
  by (simp add: untouched_def)

lemma untouched_trans: "untouched a b \<Longrightarrow> untouched b c \<Longrightarrow> untouched a c"
  by (simp add: untouched_def)

lemma Post_not_posted: "Post p b = (b', Inr (q, False)) \<Longrightarrow> b' = b" "Post p b = (b', Inl e) \<Longrightarrow> b' = b"
  by (auto simp: Post_def Let_def split: option.splits if_splits)

lemma book_untouched [simp]: "untouched s (s\<lparr>ts_book := ts_book s\<rparr>)"
  by (simp add: untouched_def)

definition rejects_cleanly :: "tstate \<Rightarrow> result \<times> tstate \<Rightarrow> bool" where
  "rejects_cleanly s x \<longleftrightarrow> (re_Code (fst x) \<noteq> OK \<longrightarrow> untouched s (snd x))"

lemma create_rejects: "rejects_cleanly s (create sl c s)"
  by (simp add: rejects_cleanly_def create_def Let_def split: option.splits)

lemma admit_rejects: "rejects_cleanly s (admit sl b tid t p s)"
  by (auto simp: rejects_cleanly_def admit_def Let_def dest: Post_not_posted split: option.splits prod.splits sum.splits)

lemma join_rejects: "rejects_cleanly s (join sl b c s)"
  using admit_rejects [of s sl b "jo_Tournament c" _ "jo_Player c"]
  by (auto simp: rejects_cleanly_def join_def case_prod_beta split: option.splits)

lemma score_rejects: "rejects_cleanly s (score c s)"
  by (auto simp: rejects_cleanly_def score_def split: option.splits)

lemma close_rejects: "close hx sl c s = Some x \<Longrightarrow> rejects_cleanly s x"
  by (auto simp: rejects_cleanly_def close_def Let_def split: option.splits if_splits)

lemma settle_rejects: "settle sl b c s = Some x \<Longrightarrow> rejects_cleanly s x"
  by (auto simp: rejects_cleanly_def settle_def Let_def split: option.splits if_splits)

lemma openSession_rejects: "openSession sl ra c s = Some x \<Longrightarrow> rejects_cleanly s x"
  by (auto simp: rejects_cleanly_def openSession_def Let_def split: option.splits if_splits)

lemma sequenced_untouched: "sequenced pid seq tid s = (r, s1) \<Longrightarrow> untouched s s1"
  by (auto simp: untouched_def sequenced_def Let_def split: option.splits if_splits)

lemma enterPlay_rejects: "rejects_cleanly s (enterPlay sl b c s)"
proof (cases "sequenced (et_Player c) (et_Seq c) (et_Tournament c) s")
  case (Pair r s1)
  note sq = sequenced_untouched [OF Pair]
  show ?thesis
  proof (cases r)
    case (Inr x)
    then obtain ps t where "r = Inr (ps, t)" by (cases x) auto
    with sq admit_rejects [of s1 sl b "et_Tournament c" t] show ?thesis
      by (auto simp: rejects_cleanly_def enterPlay_def Pair Let_def case_prod_beta intro: untouched_trans)
  qed (simp add: rejects_cleanly_def enterPlay_def Pair sq)
qed

lemma startRound_rejects: "rejects_cleanly s (startRound sl c s)"
  by (auto simp: rejects_cleanly_def startRound_def Let_def dest: sequenced_untouched split: prod.splits sum.splits)

lemma write_back_code: "write_back tid res x = Some y \<Longrightarrow> re_Code (fst y) = re_Code res"
  by (auto simp: write_back_def)

lemma accept_move_code: "accept_move hx sl c i rec out bd t s = Some x \<Longrightarrow> re_Code (fst x) = OK"
  by (auto simp: accept_move_def Let_def dest: write_back_code split: option.splits)

lemma playMove_rejects: "playMove hx sl c s = Some x \<Longrightarrow> rejects_cleanly s x"
  by (auto simp: rejects_cleanly_def playMove_def Let_def dest: sequenced_untouched accept_move_code
      split: prod.splits sum.splits option.splits if_splits)

lemma finishRoundCmd_rejects: "finishRoundCmd hx sl c s = Some x \<Longrightarrow> rejects_cleanly s x"
  by (auto simp: rejects_cleanly_def finishRoundCmd_def Let_def dest: sequenced_untouched write_back_code
      split: prod.splits sum.splits if_splits)

lemma claimPayout_rejects: "rejects_cleanly s (claimPayout sl b c s)"
proof (cases "sequenced (cp_Player c) (cp_Seq c) (cp_Tournament c) s")
  case (Pair r s1)
  note sq = sequenced_untouched [OF Pair]
  then have "untouched s (s1\<lparr>ts_book := ts_book s1\<rparr>)" by (simp add: untouched_def)
  with sq show ?thesis
    by (auto simp: rejects_cleanly_def claimPayout_def Pair Let_def dest: Post_not_posted
        split: sum.splits prod.splits bool.splits)
qed

lemma dispatch_rejects: "dispatch hx sl b cmd s = Some x \<Longrightarrow> rejects_cleanly s x"
proof (cases "cm_Op cmd")
qed (auto simp: dispatch_def dest: close_rejects settle_rejects openSession_rejects playMove_rejects finishRoundCmd_rejects
    intro: create_rejects join_rejects score_rejects enterPlay_rejects startRound_rejects claimPayout_rejects,
    simp add: rejects_cleanly_def)

lemma execute_rejects:
  assumes "execute hx sl b cmd s = Some (r, s')" and "re_Code r \<noteq> OK"
  shows "untouched s s'"
  using assms by (auto simp: execute_def Let_def rejects_cleanly_def untouched_def dest!: dispatch_rejects
      split: option.splits if_splits prod.splits)

section \<open>Properties\<close>

text \<open>C7: a replica never stops and its books never break. For every log of commands whose prize
  shares are in range, whatever the commands, their order, their keys and their players, applying the
  log from the empty state returns (no panic, no endless deal), answers every command, never with a
  ledger conflict, and leaves a ledger that passes its full self-check.\<close>

theorem apply_log_never_panics:
  assumes "deals hx" and "log_typed log"
  shows "\<exists>rs s. apply_log hx log NewState = Some (rs, s) \<and> length rs = length log \<and>
      (\<forall>r. Some r \<in> set rs \<longrightarrow> re_Code r \<noteq> LedgerConflict) \<and> Check (ts_book s) = None"
proof -
  obtain rs s where r: "apply_log hx log NewState = Some (rs, s)" "state_ok hx s" "length rs = length log"
      "\<forall>r. Some r \<in> set rs \<longrightarrow> re_Code r \<noteq> LedgerConflict"
    using apply_log_good [OF conjunct1 [OF New_good] conjunct2 [OF New_good] assms] by blast
  moreover have "Check (ts_book s) = None" using book_inv_Check money_okD(1) state_okD(1) [OF r(2)] by blast
  ultimately show ?thesis by blast
qed

theorem apply_log_never_panics_witness:
  "\<exists>rs s. apply_log plain_hashes (sample_log (Ballot 1 1)) NewState = Some (rs, s) \<and> length rs = 3 \<and> Check (ts_book s) = None"
  using apply_log_never_panics [OF deals_plain sample_log_typed, of "Ballot 1 1"] by (auto simp: sample_log_def)

text \<open>C6: no money is created or lost. In every reachable state the pool account of a tournament holds
  exactly the entry fee times the number of entrants until the tournament is settled, and exactly zero
  from then on; the amount is never negative and no sum wraps.\<close>

theorem pool_holds_fees:
  assumes "deals hx" and "log_typed log" and "apply_log hx log NewState = Some (rs, s)"
    and "fmlookup (ts_tournaments s) tid = Some t"
  shows "Balance (ts_book s) (PoolAccount tid) =
      (if to_Status t = Settled then 0 else ru_EntryFee (to_Rules t) * int (length (to_Entries t)))"
proof -
  have m: "money_ok (ts_tournaments s) (ts_book s)" using state_okD(1) [OF reachable_good [OF assms(1-3)]] .
  have "Balance (ts_book s) (PoolAccount tid) = s64 (pool_due t)"
    using Balance_postings [OF money_okD(1) [OF m]] money_okD(3) [OF m assms(4)] by (simp add: pool_flow_def)
  also have "\<dots> = pool_due t" by (rule pool_due_exact [OF money_okD(2) [OF m assms(4)]])
  finally show ?thesis by (simp add: pool_due_def)
qed

theorem pool_holds_fees_witness:
  "\<exists>rs s t. apply_log plain_hashes (sample_log (Ballot 1 1)) NewState = Some (rs, s) \<and>
     fmlookup (ts_tournaments s) ''t1'' = Some t \<and> length (to_Entries t) = 1 \<and>
     Balance (ts_book s) (PoolAccount ''t1'') = ru_EntryFee (to_Rules t)"
proof -
  obtain rs s t where r: "apply_log plain_hashes (sample_log (Ballot 1 1)) NewState = Some (rs, s)"
      "fmlookup (ts_tournaments s) ''t1'' = Some t" "to_Status t = Open" "length (to_Entries t) = 1"
    by (rule sample_log_state)
  from pool_holds_fees [OF deals_plain sample_log_typed r(1,2)] r show ?thesis by auto
qed

text \<open>C12: a tournament only moves forward. From any state, over any log: no tournament disappears, its
  identifier, seed, rules and creation slot never change and nobody who entered leaves; once closed or
  voided its record is frozen except for being settled, which changes nothing but payouts, status,
  settlement slot and ballot; once settled the record is final.\<close>

theorem tournament_lifecycle:
  assumes "apply_log hx log s = Some (rs, s')" and "fmlookup (ts_tournaments s) tid = Some t"
  shows "\<exists>t'. fmlookup (ts_tournaments s') tid = Some t' \<and> evolves t t'"
  using apply_log_forward [OF assms(1)] assms(2) by (simp add: forward_def)

theorem tournament_lifecycle_witness:
  "\<exists>rs s t rs' s' t'. apply_log plain_hashes (sample_log (Ballot 1 1)) NewState = Some (rs, s) \<and>
     fmlookup (ts_tournaments s) ''t1'' = Some t \<and>
     apply_log plain_hashes [(4, Some (Ballot 1 1, join_cmd ''b''))] s = Some (rs', s') \<and>
     fmlookup (ts_tournaments s') ''t1'' = Some t' \<and> evolves t t'"
proof -
  obtain rs s t where r: "apply_log plain_hashes (sample_log (Ballot 1 1)) NewState = Some (rs, s)"
      "fmlookup (ts_tournaments s) ''t1'' = Some t" "to_Status t = Open" "length (to_Entries t) = 1"
    by (rule sample_log_state)
  have "cmd_typed (join_cmd ''b'')" by (simp add: cmd_typed_def join_cmd_def)
  then have "log_typed [(4, Some (Ballot 1 1, join_cmd ''b''))]" by (simp add: log_typed_def)
  from apply_log_good [OF _ _ deals_plain this, of s] reachable_good [OF deals_plain sample_log_typed r(1)]
    apply_log_good [OF conjunct1 [OF New_good] conjunct2 [OF New_good] deals_plain sample_log_typed, of "Ballot 1 1"] r(1)
  obtain rs' s' where "apply_log plain_hashes [(4, Some (Ballot 1 1, join_cmd ''b''))] s = Some (rs', s')" by auto
  with tournament_lifecycle [OF this r(2)] r show ?thesis by blast
qed

text \<open>C13: scores come from the game. In every reachable state, the record of every round stands under
  its own key, its recorded moves are all legal on the board its recorded seed deals, and, once the
  round is finished, its score and cleared count are those of the board the replay ends on.\<close>

theorem round_score_is_replayed:
  assumes "deals hx" and "log_typed log" and "apply_log hx log NewState = Some (rs, s)"
    and "fmlookup (pl_rounds (ts_play s)) k = Some r"
  shows "k = (rr_Tournament r, rr_Player r, rr_Round r) \<and>
    (\<exists>bd. Replay (hx_sha hx) (rr_Seed r) (rr_Moves r) = Some (bd, None) \<and>
        (rr_Status r = RoundDone \<longrightarrow> rr_Score r = Score bd \<and> rr_Cleared r = board_Cleared bd))"
  using play_okD(3) [OF state_okD(2) [OF reachable_good [OF assms(1-3)]] assms(4)] by (simp add: round_ok_def)

definition ladder_log :: "log_item list" where
  "ladder_log = map (\<lambda>(sl, c). (sl, Some (Ballot 1 1, \<lparr>cm_Key = ''k'' @ replicate sl (CHR ''x''), cm_ReceivedAt = 5, cm_Op = c\<rparr>)))
     [(1, CreateTournament \<lparr>ct_ID = ''t1'', ct_Seed = 7,
            ct_Rules = sample_rules\<lparr>ru_Game := LadderV1, ru_MaxScore := MaxTotalScore\<rparr>\<rparr>),
      (2, OpenSession \<lparr>os_Device = replicate 32 (CHR ''a''), os_Verifier = replicate 32 (CHR ''v''), os_Player = ''p'',
            os_Jurisdiction = ''TR'', os_Age = 30\<rparr>),
      (3, Enter \<lparr>et_Tournament = ''t1'', et_Player = ''p'', et_Seq = 1\<rparr>),
      (4, StartRound \<lparr>sr_Tournament = ''t1'', sr_Player = ''p'', sr_Seq = 2, sr_Round = 1, sr_Seed = replicate 32 (CHR 0x07)\<rparr>)]"

lemma ladder_log_typed: "log_typed ladder_log"
  by (simp add: log_typed_def ladder_log_def cmd_typed_def) code_simp

lemma ladder_round:
  "map_option (\<lambda>(rs, s). map_option rr_Seed (fmlookup (pl_rounds (ts_play s)) (''t1'', ''p'', 1)))
     (apply_log plain_hashes ladder_log NewState) = Some (Some (replicate 32 (CHR 0x07)))"
  by code_simp

theorem round_score_is_replayed_witness:
  "\<exists>rs s r bd. apply_log plain_hashes ladder_log NewState = Some (rs, s) \<and>
     fmlookup (pl_rounds (ts_play s)) (''t1'', ''p'', 1) = Some r \<and> rr_Player r = ''p'' \<and>
     Replay flat_sha (replicate 32 (CHR 0x07)) (rr_Moves r) = Some (bd, None)"
proof -
  obtain rs s r where r: "apply_log plain_hashes ladder_log NewState = Some (rs, s)"
      "fmlookup (pl_rounds (ts_play s)) (''t1'', ''p'', 1) = Some r" "rr_Seed r = replicate 32 (CHR 0x07)"
    using ladder_round by auto
  from round_score_is_replayed [OF deals_plain ladder_log_typed r(1,2)] r show ?thesis by (auto simp: plain_hashes_def)
qed

text \<open>C14: a rejection moves nothing. When a command is answered with any code but OK, whatever the
  state, no tournament, posting, round, binding or event changes.\<close>

theorem rejection_changes_nothing:
  assumes "Apply hx sl b cmd s = Some (r, s')" and "re_Code r \<noteq> OK"
  shows "untouched s s'"
proof (cases "sl \<le> ts_applied s")
  case True
  with assms show ?thesis by (simp add: Apply_def)
next
  case False
  with assms(1) obtain s1 h where ex: "execute hx sl b cmd (start_command sl cmd s) = Some (r, s1)" "s' = s1\<lparr>ts_hash := h\<rparr>"
    by (auto simp: Apply_def Let_def split: option.splits dest!: mix_sel)
  from execute_rejects [OF ex(1) assms(2)] show ?thesis by (simp add: ex(2) untouched_def start_command_def)
qed

theorem rejection_changes_nothing_witness:
  "\<exists>r s'. Apply plain_hashes 1 (Ballot 1 1) (join_cmd ''b'') NewState = Some (r, s') \<and> re_Code r = UnknownTournament \<and>
     untouched NewState s'"
proof -
  have "map_option (re_Code \<circ> fst) (Apply plain_hashes 1 (Ballot 1 1) (join_cmd ''b'') NewState) = Some UnknownTournament"
    by code_simp
  then obtain r s' where r: "Apply plain_hashes 1 (Ballot 1 1) (join_cmd ''b'') NewState = Some (r, s')"
      "re_Code r = UnknownTournament" by auto
  with rejection_changes_nothing [OF r(1)] show ?thesis by auto
qed

end
