(* ===== verification/LogBase.thy ===== *)
theory LogBase
  imports Paxos
begin

text \<open>
  Package \<^verbatim>\<open>internal/replog\<close>, \<^verbatim>\<open>config.go\<close>, \<^verbatim>\<open>message.go\<close> and \<^verbatim>\<open>store.go\<close>: the configuration of a
  log node and its checks, the nine messages and four events, and the durable store.

  Durations are 64-bit nanosecond counts. The store contract is the locale \<open>durable_store\<close>: saving a
  record and loading gives what the last saved record of each kind says. \<open>MemStore\<close> and the plain
  list of saved records, which is what the node model keeps, both implement it.
\<close>

section \<open>Configuration (config.go)\<close>

datatype role = Follower | Candidate | Leader

definition role_String :: "role \<Rightarrow> string" where
  "role_String r = (case r of Follower \<Rightarrow> ''follower'' | Candidate \<Rightarrow> ''candidate'' | Leader \<Rightarrow> ''leader'')"

definition role_UnmarshalText :: "string \<Rightarrow> role option" where
  "role_UnmarshalText b = find (\<lambda>r. role_String r = b) [Follower, Candidate, Leader]"

record unsafeKnobs =
  uk_AcceptBelowPromise :: bool
  uk_IgnorePhase1Reports :: bool
  uk_SkipLeadershipNoOp :: bool
  uk_ForgetAcceptedOnRestart :: bool

definition Millisecond :: int where "Millisecond = 1000000"
definition DefaultHeartbeatInterval :: int where "DefaultHeartbeatInterval = 50 * Millisecond"
definition DefaultElectionTimeoutMin :: int where "DefaultElectionTimeoutMin = 150 * Millisecond"
definition DefaultElectionTimeoutMax :: int where "DefaultElectionTimeoutMax = 300 * Millisecond"
definition DefaultLeaseDuration :: int where "DefaultLeaseDuration = 150 * Millisecond"
definition DefaultWindow :: int where "DefaultWindow = 64"
definition DefaultLearnBatch :: int where "DefaultLearnBatch = 256"
definition DefaultQueueLimit :: int where "DefaultQueueLimit = 1024"
definition MaxValueBytes :: nat where "MaxValueBytes = 2 ^ 20"

record config =
  cf_Self :: node_id
  cf_Peers :: "node_id list"
  cf_HeartbeatInterval :: int
  cf_ElectionTimeoutMin :: int
  cf_ElectionTimeoutMax :: int
  cf_LeaseDuration :: int
  cf_Window :: int
  cf_LearnBatch :: int
  cf_QueueLimit :: int
  cf_Unsafe :: "unsafeKnobs option"

definition DefaultConfig :: "node_id \<Rightarrow> node_id list \<Rightarrow> config" where
  "DefaultConfig self peers =
     \<lparr>cf_Self = self, cf_Peers = peers, cf_HeartbeatInterval = DefaultHeartbeatInterval,
      cf_ElectionTimeoutMin = DefaultElectionTimeoutMin, cf_ElectionTimeoutMax = DefaultElectionTimeoutMax,
      cf_LeaseDuration = DefaultLeaseDuration, cf_Window = DefaultWindow, cf_LearnBatch = DefaultLearnBatch,
      cf_QueueLimit = DefaultQueueLimit, cf_Unsafe = None\<rparr>"

definition default_to :: "int \<Rightarrow> int \<Rightarrow> int" where
  "default_to d x = (if x = 0 then d else x)"

definition withDefaults :: "config \<Rightarrow> config" where
  "withDefaults c =
     c\<lparr>cf_HeartbeatInterval := default_to DefaultHeartbeatInterval (cf_HeartbeatInterval c),
       cf_ElectionTimeoutMin := default_to DefaultElectionTimeoutMin (cf_ElectionTimeoutMin c),
       cf_ElectionTimeoutMax := default_to DefaultElectionTimeoutMax (cf_ElectionTimeoutMax c),
       cf_Window := default_to DefaultWindow (cf_Window c),
       cf_LearnBatch := default_to DefaultLearnBatch (cf_LearnBatch c),
       cf_QueueLimit := default_to DefaultQueueLimit (cf_QueueLimit c)\<rparr>"

datatype config_error =
    SelfZero | NoPeers | PeerZero | PeerTwice node_id | SelfNotPeer node_id | BadHeartbeat | BadElectionMin
  | BadElectionMax | NegativeLease | LeaseTooLong | BadWindow | BadLearnBatch | BadQueueLimit

fun check_peers :: "node_id list \<Rightarrow> node_id list \<Rightarrow> config_error option" where
  "check_peers seen [] = None"
| "check_peers seen (p # ps) =
     (if p = 0 then Some PeerZero else if p \<in> set seen then Some (PeerTwice p) else check_peers (p # seen) ps)"

definition config_Validate :: "config \<Rightarrow> config_error option" where
  "config_Validate c0 =
     (let c = withDefaults c0
      in if cf_Self c = 0 then Some SelfZero
         else if cf_Peers c = [] then Some NoPeers
         else case check_peers [] (cf_Peers c) of Some err \<Rightarrow> Some err | None \<Rightarrow>
              if cf_Self c \<notin> set (cf_Peers c) then Some (SelfNotPeer (cf_Self c))
         else if cf_HeartbeatInterval c \<le> 0 then Some BadHeartbeat
         else if cf_ElectionTimeoutMin c < cf_HeartbeatInterval c then Some BadElectionMin
         else if cf_ElectionTimeoutMax c < cf_ElectionTimeoutMin c then Some BadElectionMax
         else if cf_LeaseDuration c < 0 then Some NegativeLease
         else if cf_LeaseDuration c > cf_ElectionTimeoutMin c then Some LeaseTooLong
         else if cf_Window c < 1 then Some BadWindow
         else if cf_LearnBatch c < 1 then Some BadLearnBatch
         else if cf_QueueLimit c < 1 then Some BadQueueLimit
         else None)"

section \<open>Messages, events and errors (message.go)\<close>

record log_entry =
  le_Slot :: slot
  le_Ballot :: ballot
  le_Value :: paxos_value

definition NoOp :: "log_entry \<Rightarrow> bool" where
  "NoOp e \<longleftrightarrow> le_Value e = []"

record promise =
  pm_Ballot :: ballot
  pm_Accepted :: "pvalue list"
  pm_CommitIndex :: slot

record nack =
  nk_Ballot :: ballot
  nk_Promised :: ballot
  nk_Slot :: slot
  nk_LeaseRemaining :: int

record heartbeat =
  hb_Ballot :: ballot
  hb_CommitIndex :: slot
  hb_ReadSeq :: nat

record heartbeatAck =
  ha_Ballot :: ballot
  ha_Promised :: ballot
  ha_CommitIndex :: slot
  ha_ReadSeq :: nat

datatype message =
    Prepare ballot slot
  | Promise promise
  | Accept ballot slot paxos_value
  | Accepted ballot slot
  | Nack nack
  | Learn slot ballot paxos_value
  | LearnRequest slot int
  | Heartbeat heartbeat
  | HeartbeatAck heartbeatAck

definition TypeName :: "message \<Rightarrow> string" where
  "TypeName m =
     (case m of
        Prepare _ _ \<Rightarrow> ''prepare'' | Promise _ \<Rightarrow> ''promise'' | Accept _ _ _ \<Rightarrow> ''accept''
      | Accepted _ _ \<Rightarrow> ''accepted'' | Nack _ \<Rightarrow> ''nack'' | Learn _ _ _ \<Rightarrow> ''learn''
      | LearnRequest _ _ \<Rightarrow> ''learn_request'' | Heartbeat _ \<Rightarrow> ''heartbeat'' | HeartbeatAck _ \<Rightarrow> ''heartbeat_ack'')"

record envelope =
  nv_From :: node_id
  nv_To :: node_id
  nv_Msg :: message

datatype log_error =
    NotLeaderError node_id | ErrNotReady | ErrBusy | ErrValueTooLarge nat nat | StoreFailure node_id

definition notLeader_Error :: "node_id \<Rightarrow> string" where
  "notLeader_Error l =
     (if l = 0 then ''replog: not the leader (leader unknown)''
      else ''replog: not the leader (leader is node '' @ nat_dec l @ '')'')"

datatype event =
    LeaderChanged node_id ballot bool
  | ReadReady nat slot
  | ReadFailed nat log_error
  | LearnConflict slot log_entry log_entry

section \<open>The durable store (store.go)\<close>

record durable =
  du_Promised :: ballot
  du_MaxRound :: nat
  du_Accepted :: "pvalue list"
  du_Chosen :: "log_entry list"

datatype store_rec =
    PromisedRec ballot | MaxRoundRec nat | AcceptedRec pvalue | ChosenRec log_entry

record memStore =
  ms_promised :: ballot
  ms_maxRound :: nat
  ms_accepted :: "(slot, pvalue) fmap"
  ms_chosen :: "(slot, log_entry) fmap"

definition NewMemStore :: memStore where
  "NewMemStore = \<lparr>ms_promised = zero_ballot, ms_maxRound = 0, ms_accepted = fmempty, ms_chosen = fmempty\<rparr>"

text \<open>The four \<^verbatim>\<open>Save\<close> calls, one constructor of \<open>store_rec\<close> each.\<close>

definition mem_save :: "store_rec \<Rightarrow> memStore \<Rightarrow> memStore" where
  "mem_save r s =
     (case r of
        PromisedRec b \<Rightarrow> s\<lparr>ms_promised := b\<rparr>
      | MaxRoundRec n \<Rightarrow> s\<lparr>ms_maxRound := n\<rparr>
      | AcceptedRec pv \<Rightarrow> s\<lparr>ms_accepted := fmupd (pv_Slot pv) pv (ms_accepted s)\<rparr>
      | ChosenRec e \<Rightarrow> s\<lparr>ms_chosen := fmupd (le_Slot e) e (ms_chosen s)\<rparr>)"

definition mem_Load :: "memStore \<Rightarrow> durable" where
  "mem_Load s = \<lparr>du_Promised = ms_promised s, du_MaxRound = ms_maxRound s, du_Accepted = fmvals (ms_accepted s),
     du_Chosen = fmvals (ms_chosen s)\<rparr>"

text \<open>The same store as the plain list of its records, oldest first.\<close>

definition st_promised :: "store_rec list \<Rightarrow> ballot" where
  "st_promised rs = fold (\<lambda>r b. case r of PromisedRec c \<Rightarrow> c | _ \<Rightarrow> b) rs zero_ballot"

definition st_maxRound :: "store_rec list \<Rightarrow> nat" where
  "st_maxRound rs = fold (\<lambda>r n. case r of MaxRoundRec k \<Rightarrow> k | _ \<Rightarrow> n) rs 0"

definition st_accepted :: "store_rec list \<Rightarrow> (slot, pvalue) fmap" where
  "st_accepted rs = fold (\<lambda>r m. case r of AcceptedRec pv \<Rightarrow> fmupd (pv_Slot pv) pv m | _ \<Rightarrow> m) rs fmempty"

definition st_chosen :: "store_rec list \<Rightarrow> (slot, log_entry) fmap" where
  "st_chosen rs = fold (\<lambda>r m. case r of ChosenRec e \<Rightarrow> fmupd (le_Slot e) e m | _ \<Rightarrow> m) rs fmempty"

definition log_Load :: "store_rec list \<Rightarrow> durable" where
  "log_Load rs = \<lparr>du_Promised = st_promised rs, du_MaxRound = st_maxRound rs, du_Accepted = fmvals (st_accepted rs),
     du_Chosen = fmvals (st_chosen rs)\<rparr>"

lemma st_Nil [simp]:
  "st_promised [] = zero_ballot" "st_maxRound [] = 0" "st_accepted [] = fmempty" "st_chosen [] = fmempty"
  by (simp_all add: st_promised_def st_maxRound_def st_accepted_def st_chosen_def)

lemma st_snoc [simp]:
  "st_promised (rs @ [r]) = (case r of PromisedRec c \<Rightarrow> c | _ \<Rightarrow> st_promised rs)"
  "st_maxRound (rs @ [r]) = (case r of MaxRoundRec k \<Rightarrow> k | _ \<Rightarrow> st_maxRound rs)"
  "st_accepted (rs @ [r]) = (case r of AcceptedRec pv \<Rightarrow> fmupd (pv_Slot pv) pv (st_accepted rs) | _ \<Rightarrow> st_accepted rs)"
  "st_chosen (rs @ [r]) = (case r of ChosenRec e \<Rightarrow> fmupd (le_Slot e) e (st_chosen rs) | _ \<Rightarrow> st_chosen rs)"
  by (simp_all add: st_promised_def st_maxRound_def st_accepted_def st_chosen_def split: store_rec.splits)

lemma st_accepted_mem: "fmlookup (st_accepted rs) s = Some pv \<Longrightarrow> AcceptedRec pv \<in> set rs \<and> pv_Slot pv = s"
  by (induction rs rule: rev_induct) (auto split: store_rec.splits if_splits)

lemma st_chosen_mem: "fmlookup (st_chosen rs) s = Some e \<Longrightarrow> ChosenRec e \<in> set rs \<and> le_Slot e = s"
  by (induction rs rule: rev_induct) (auto split: store_rec.splits if_splits)

lemma st_accepted_dom: "AcceptedRec pv \<in> set rs \<Longrightarrow> \<exists>q. fmlookup (st_accepted rs) (pv_Slot pv) = Some q"
  by (induction rs rule: rev_induct) (auto split: store_rec.splits if_splits)

section \<open>The store contract\<close>

text \<open>The contract of \<^verbatim>\<open>Store\<close>: loading after a save returns the durable state with the saved record put in.\<close>

definition put_by :: "('a \<Rightarrow> slot) \<Rightarrow> 'a \<Rightarrow> 'a list \<Rightarrow> 'a list" where
  "put_by f x xs = filter (\<lambda>y. f y < f x) xs @ x # filter (\<lambda>y. f x < f y) xs"

definition put_rec :: "store_rec \<Rightarrow> durable \<Rightarrow> durable" where
  "put_rec r d =
     (case r of
        PromisedRec b \<Rightarrow> d\<lparr>du_Promised := b\<rparr>
      | MaxRoundRec n \<Rightarrow> d\<lparr>du_MaxRound := n\<rparr>
      | AcceptedRec pv \<Rightarrow> d\<lparr>du_Accepted := put_by pv_Slot pv (du_Accepted d)\<rparr>
      | ChosenRec e \<Rightarrow> d\<lparr>du_Chosen := put_by le_Slot e (du_Chosen d)\<rparr>)"

definition no_state :: durable where
  "no_state = \<lparr>du_Promised = zero_ballot, du_MaxRound = 0, du_Accepted = [], du_Chosen = []\<rparr>"

locale durable_store =
  fixes empty :: 's and save :: "store_rec \<Rightarrow> 's \<Rightarrow> 's" and Load :: "'s \<Rightarrow> durable" and ok :: "'s \<Rightarrow> bool"
  assumes ok_empty: "ok empty" and ok_save: "ok s \<Longrightarrow> ok (save r s)"
    and Load_empty: "Load empty = no_state"
    and Load_save: "ok s \<Longrightarrow> Load (save r s) = put_rec r (Load s)"
begin

lemma ok_saves: "ok s \<Longrightarrow> ok (fold save rs s)"
  by (induction rs arbitrary: s) (simp_all add: ok_save)

lemma Load_saves: "ok s \<Longrightarrow> Load (fold save rs s) = fold put_rec rs (Load s)"
  by (induction rs arbitrary: s) (simp_all add: ok_save Load_save)

lemma Load_run: "Load (fold save rs empty) = fold put_rec rs no_state"
  by (simp add: Load_saves ok_empty Load_empty)

end

text \<open>A map whose entries stand under their own slot lists its values in slot order.\<close>

definition keyed :: "('a \<Rightarrow> slot) \<Rightarrow> (slot, 'a) fmap \<Rightarrow> bool" where
  "keyed f m \<longleftrightarrow> (\<forall>s x. fmlookup m s = Some x \<longrightarrow> f x = s)"

lemma keyed_upd: "keyed f m \<Longrightarrow> keyed f (fmupd (f x) x m)"
  by (auto simp: keyed_def)

lemma fmkeys_upd:
  "fmkeys (fmupd k v m) = filter (\<lambda>j. j < k) (fmkeys m) @ k # filter (\<lambda>j. k < j) (fmkeys m)"
  (is "_ = ?r")
proof (rule sorted_distinct_set_unique)
  show "sorted ?r" using sorted_fmkeys [of m] by (auto simp: sorted_append sorted_wrt_filter)
  show "distinct ?r" by auto
  show "set (fmkeys (fmupd k v m)) = set ?r" by (auto simp: fmdom'_alt_def)
qed (simp_all add: sorted_fmkeys)

lemma fmvals_upd:
  assumes "keyed f m"
  shows "fmvals (fmupd (f x) x m) = put_by f x (fmvals m)"
proof -
  have *: "map (\<lambda>k. the (fmlookup (fmupd (f x) x m) k)) (filter (\<lambda>j. P j (f x)) (fmkeys m)) =
      filter (\<lambda>y. P (f y) (f x)) (fmvals m)" if "\<And>j. P j (f x) \<Longrightarrow> j \<noteq> f x" for P
  proof -
    have "f (the (fmlookup m k)) = k" if "k \<in> set (fmkeys m)" for k
      using assms that by (auto simp: keyed_def fmlookup_dom'_iff)
    then have "filter (\<lambda>k. P (f (the (fmlookup m k))) (f x)) (fmkeys m) = filter (\<lambda>j. P j (f x)) (fmkeys m)"
      by (auto intro: filter_cong)
    moreover have "the (fmlookup (fmupd (f x) x m) k) = the (fmlookup m k)" if "P k (f x)" for k
      using \<open>\<And>j. P j (f x) \<Longrightarrow> j \<noteq> f x\<close> [OF that] by simp
    ultimately show ?thesis by (simp add: fmvals_def filter_map comp_def)
  qed
  from * [of "(<)"] * [of "\<lambda>a b. b < a"] show ?thesis by (simp add: fmvals_def fmkeys_upd put_by_def)
qed

lemma fmvals_empty [simp]: "fmvals fmempty = []"
  by (simp add: fmvals_def fmkeys_def sorted_list_of_fset.rep_eq)

interpretation mem: durable_store NewMemStore mem_save mem_Load
  "\<lambda>s. keyed pv_Slot (ms_accepted s) \<and> keyed le_Slot (ms_chosen s)"
proof
  show "mem_Load (mem_save r s) = put_rec r (mem_Load s)"
    if "keyed pv_Slot (ms_accepted s) \<and> keyed le_Slot (ms_chosen s)" for r s
    using that by (cases r) (simp_all add: mem_Load_def mem_save_def put_rec_def fmvals_upd)
qed (auto simp: NewMemStore_def keyed_def mem_Load_def no_state_def mem_save_def split: store_rec.splits)

lemma keyed_st: "keyed pv_Slot (st_accepted rs)" "keyed le_Slot (st_chosen rs)"
  by (auto simp: keyed_def dest: st_accepted_mem st_chosen_mem)

interpretation recs: durable_store "[]" "\<lambda>r rs. rs @ [r]" log_Load "\<lambda>_. True"
proof
  show "log_Load (s @ [r]) = put_rec r (log_Load s)" for r s
    by (cases r) (simp_all add: log_Load_def put_rec_def fmvals_upd keyed_st)
qed (simp_all add: log_Load_def no_state_def)


section \<open>Properties\<close>

lemma fold_snoc_id: "fold (\<lambda>r rs. rs @ [r]) rs ss = ss @ rs"
  by (induction rs arbitrary: ss) simp_all

text \<open>
  \<^verbatim>\<open>MemStore\<close> implements the durable store: after any sequence of \<^verbatim>\<open>Save\<close> calls \<^verbatim>\<open>Load\<close> returns what the
  last record of each kind says, accepted and chosen entries in slot order, exactly as replaying the
  list of saved records does.
\<close>

theorem mem_store_replays_records: "mem_Load (fold mem_save rs NewMemStore) = log_Load rs"
  using mem.Load_run [of rs] recs.Load_run [of rs] by (simp add: fold_snoc_id)

lemma check_peers_None: "check_peers seen ps = None \<longleftrightarrow> 0 \<notin> set ps \<and> distinct ps \<and> set ps \<inter> set seen = {}"
  by (induction ps arbitrary: seen) auto

text \<open>
  \<^verbatim>\<open>Validate\<close> accepts a configuration exactly when, after the defaults are filled in, the node is one
  of its distinct non-zero peers, the heartbeat interval is positive and at most the shortest election
  timeout, the timeouts are ordered, the lease is between nothing and the shortest election timeout,
  and window, learn batch and queue limit are positive.
\<close>

theorem config_Validate_iff:
  "config_Validate c = None \<longleftrightarrow>
     (let d = withDefaults c in
        0 \<notin> set (cf_Peers d) \<and> distinct (cf_Peers d) \<and> cf_Self d \<in> set (cf_Peers d) \<and>
        0 < cf_HeartbeatInterval d \<and> cf_HeartbeatInterval d \<le> cf_ElectionTimeoutMin d \<and>
        cf_ElectionTimeoutMin d \<le> cf_ElectionTimeoutMax d \<and>
        0 \<le> cf_LeaseDuration d \<and> cf_LeaseDuration d \<le> cf_ElectionTimeoutMin d \<and>
        1 \<le> cf_Window d \<and> 1 \<le> cf_LearnBatch d \<and> 1 \<le> cf_QueueLimit d)"
proof -
  define d where "d = withDefaults c"
  have "cf_Peers d \<noteq> [] \<and> cf_Self d \<noteq> 0" if "cf_Self d \<in> set (cf_Peers d)" "0 \<notin> set (cf_Peers d)"
    using that by (metis empty_iff empty_set)
  then show ?thesis unfolding config_Validate_def d_def [symmetric] Let_def
    using check_peers_None [of "[]" "cf_Peers d"] by (auto split: option.splits)
qed

lemma withDefaults_idem: "withDefaults (withDefaults c) = withDefaults c"
  by (simp add: withDefaults_def default_to_def DefaultHeartbeatInterval_def DefaultElectionTimeoutMin_def
      DefaultElectionTimeoutMax_def DefaultWindow_def DefaultLearnBatch_def DefaultQueueLimit_def Millisecond_def)

end
