(* ===== verification/LogNode.thy ===== *)
theory LogNode
  imports LogBase
begin

text \<open>
  Package \<^verbatim>\<open>internal/replog\<close>, \<^verbatim>\<open>node.go\<close>: one replica's participant in the replicated log, acceptor and
  learner for every slot, candidate or leader when elected. Every handler is a function on the node
  record; \<^verbatim>\<open>out\<close> and \<^verbatim>\<open>events\<close> accumulate in the record as in the source.

  \<^item> The store is the list of records saved so far. The outcome of every coming \<^verbatim>\<open>Save\<close> call is read
    from \<open>nd_saves\<close>: it succeeds, or it returns an error and the record is lost, or it returns an
    error although the record reached the disk. An empty list means success.
  \<^item> The coming draws of the random source are read from \<open>nd_rands\<close>.
  \<^item> A message the node sends itself is handled inline: \<open>send\<close> takes the handler of that message as
    an argument. The only cycle of such calls goes through \<^verbatim>\<open>drainQueue\<close>, which removes a queued
    value first, so the length of the queue bounds it; the handlers on the cycle take the rest of
    the loop as their first argument. \<open>drainQueue_loop\<close> shows that the bound is never reached early.
  \<^item> A nil map is an empty map; the source writes to \<^verbatim>\<open>contacts\<close> and to the promises only in the roles
    for which it has made them.
\<close>

section \<open>State\<close>

record proposal =
  pp_value :: paxos_value
  pp_accepts :: "node_id fset"
  pp_lastSent :: int

record phase1State =
  ph_fromSlot :: slot
  ph_promises :: "(node_id, promise) fmap"
  ph_deadline :: int
  ph_lastSent :: int

record log_read =
  rd_index :: slot
  rd_acks :: "node_id fset"

datatype save_outcome = SaveOk | SaveLost | SaveKept

record node =
  nd_cfg :: config
  nd_store :: "store_rec list"
  nd_saves :: "save_outcome list"
  nd_rands :: "int list"
  nd_quorum :: nat
  nd_promised :: ballot
  nd_maxRound :: nat
  nd_accepted :: "(slot, pvalue) fmap"
  nd_chosen :: "(slot, log_entry) fmap"
  nd_commitIndex :: slot
  nd_leaseHolder :: node_id
  nd_leaseUntil :: int
  nd_leaderHint :: node_id
  nd_leaderBallot :: ballot
  nd_electionDeadline :: int
  nd_started :: bool
  nd_learnReqAfter :: int
  nd_role :: role
  nd_ballot :: ballot
  nd_phase1 :: phase1State
  nd_proposals :: "(slot, proposal) fmap"
  nd_nextSlot :: slot
  nd_firstOwnSlot :: slot
  nd_queue :: "paxos_value list"
  nd_contacts :: "(node_id, int) fmap"
  nd_leaderSince :: int
  nd_lastHeartbeat :: int
  nd_readSeq :: nat
  nd_reads :: "(nat, log_read) fmap"
  nd_out :: "envelope list"
  nd_events :: "event list"
  nd_failed :: bool

abbreviation Self :: "node \<Rightarrow> node_id" where
  "Self n \<equiv> cf_Self (nd_cfg n)"

abbreviation Peers :: "node \<Rightarrow> node_id list" where
  "Peers n \<equiv> cf_Peers (nd_cfg n)"

definition no_phase1 :: phase1State where
  "no_phase1 = \<lparr>ph_fromSlot = 0, ph_promises = fmempty, ph_deadline = 0, ph_lastSent = 0\<rparr>"

definition knob :: "(unsafeKnobs \<Rightarrow> bool) \<Rightarrow> node \<Rightarrow> bool" where
  "knob f n = (case cf_Unsafe (nd_cfg n) of None \<Rightarrow> False | Some k \<Rightarrow> f k)"

section \<open>Plumbing\<close>

definition fail :: "node \<Rightarrow> node" where
  "fail n = n\<lparr>nd_failed := True\<rparr>"

text \<open>One \<^verbatim>\<open>Save\<close> call together with the error check that follows it at every call site.\<close>

definition save :: "store_rec \<Rightarrow> node \<Rightarrow> node" where
  "save r n =
     (case nd_saves n of
        [] \<Rightarrow> n\<lparr>nd_store := nd_store n @ [r]\<rparr>
      | SaveOk # os \<Rightarrow> n\<lparr>nd_store := nd_store n @ [r], nd_saves := os\<rparr>
      | SaveKept # os \<Rightarrow> fail (n\<lparr>nd_store := nd_store n @ [r], nd_saves := os\<rparr>)
      | SaveLost # os \<Rightarrow> fail (n\<lparr>nd_saves := os\<rparr>))"

definition emit :: "event \<Rightarrow> node \<Rightarrow> node" where
  "emit ev n = n\<lparr>nd_events := nd_events n @ [ev]\<rparr>"

definition isPeer :: "node \<Rightarrow> node_id \<Rightarrow> bool" where
  "isPeer n i \<longleftrightarrow> i \<in> set (Peers n)"

definition draw :: "node \<Rightarrow> int" where
  "draw n = (case nd_rands n of [] \<Rightarrow> 0 | x # _ \<Rightarrow> x)"

definition randomElectionTimeout :: "node \<Rightarrow> int \<times> node" where
  "randomElectionTimeout n =
     (let span = s64 (cf_ElectionTimeoutMax (nd_cfg n) - cf_ElectionTimeoutMin (nd_cfg n))
      in (s64 (cf_ElectionTimeoutMin (nd_cfg n) + draw n mod s64 (span + 1)), n\<lparr>nd_rands := tl (nd_rands n)\<rparr>))"

definition reset_election :: "int \<Rightarrow> node \<Rightarrow> node" where
  "reset_election from n =
     (case randomElectionTimeout n of (t, n1) \<Rightarrow> n1\<lparr>nd_electionDeadline := s64 (from + t)\<rparr>)"

definition begin_call :: "int \<Rightarrow> node \<Rightarrow> node" where
  "begin_call now n = (if nd_started n then n else reset_election now (n\<lparr>nd_started := True\<rparr>))"

definition finish :: "node \<Rightarrow> node \<times> envelope list" where
  "finish n = (if nd_failed n then (n\<lparr>nd_out := [], nd_events := []\<rparr>, []) else (n\<lparr>nd_out := []\<rparr>, nd_out n))"

definition send :: "(node \<Rightarrow> node) \<Rightarrow> node_id \<Rightarrow> message \<Rightarrow> node \<Rightarrow> node" where
  "send inline to m n =
     (if nd_failed n then n
      else if to = Self n then inline n
      else n\<lparr>nd_out := nd_out n @ [\<lparr>nv_From = Self n, nv_To = to, nv_Msg = m\<rparr>]\<rparr>)"

definition broadcast :: "(node \<Rightarrow> node) \<Rightarrow> message \<Rightarrow> bool \<Rightarrow> node \<Rightarrow> node" where
  "broadcast inline m includeSelf n =
     fold (\<lambda>p n'. if p = Self n' \<and> \<not> includeSelf then n' else send inline p m n') (Peers n) n"

section \<open>Leadership\<close>

definition stepDown :: "int \<Rightarrow> node_id \<Rightarrow> ballot \<Rightarrow> int \<Rightarrow> node \<Rightarrow> node" where
  "stepDown now leader lb wait n =
     (let n1 = fold (\<lambda>seq. emit (ReadFailed seq (NotLeaderError leader))) (fmkeys (nd_reads n)) n;
          n2 = n1\<lparr>nd_role := Follower, nd_proposals := fmempty, nd_reads := fmempty, nd_queue := [],
                  nd_contacts := fmempty, nd_phase1 := no_phase1\<rparr>;
          n3 = reset_election (s64 (now + wait)) n2
      in emit (LeaderChanged leader lb False) (n3\<lparr>nd_leaderHint := leader, nd_leaderBallot := lb\<rparr>))"

definition raise_round :: "ballot \<Rightarrow> node \<Rightarrow> node" where
  "raise_round b n =
     (if Round b > nd_maxRound n then save (MaxRoundRec (Round b)) (n\<lparr>nd_maxRound := Round b\<rparr>) else n)"

definition setPromised :: "int \<Rightarrow> ballot \<Rightarrow> node \<Rightarrow> node" where
  "setPromised now b n =
     (let n1 = raise_round b n
      in if nd_failed n1 then n1
         else let n2 = save (PromisedRec b) (n1\<lparr>nd_promised := b\<rparr>)
              in if nd_failed n2 then n2
                 else if nd_role n2 \<noteq> Follower \<and> Less (nd_ballot n2) b then stepDown now (Node b) b 0 n2
                 else n2)"

definition refreshLease :: "int \<Rightarrow> ballot \<Rightarrow> node \<Rightarrow> node" where
  "refreshLease now b n =
     n\<lparr>nd_leaseHolder := Node b, nd_leaseUntil := s64 (now + cf_LeaseDuration (nd_cfg n))\<rparr>"

definition noteLeader :: "int \<Rightarrow> ballot \<Rightarrow> node \<Rightarrow> node" where
  "noteLeader now b n =
     (let n1 = reset_election now n
      in if nd_leaderHint n1 \<noteq> Node b \<or> nd_leaderBallot n1 \<noteq> b
         then emit (LeaderChanged (Node b) b False) (n1\<lparr>nd_leaderHint := Node b, nd_leaderBallot := b\<rparr>)
         else n1)"

section \<open>Replies that end a call chain\<close>

definition onNack :: "int \<Rightarrow> nack \<Rightarrow> node \<Rightarrow> node" where
  "onNack now m n =
     (if nd_role n = Follower \<or> nk_Ballot m \<noteq> nd_ballot n then n
      else if \<not> Less (nd_ballot n) (nk_Promised m) then n
      else let n1 = raise_round (nk_Promised m) n
           in if nd_failed n1 then n1
              else stepDown now (Node (nk_Promised m)) (nk_Promised m) (nk_LeaseRemaining m) n1)"

definition ack_read :: "node_id \<Rightarrow> nat \<Rightarrow> nat \<Rightarrow> node \<Rightarrow> node" where
  "ack_read from acked seq n =
     (if seq > acked then n
      else case fmlookup (nd_reads n) seq of
             None \<Rightarrow> n
           | Some r \<Rightarrow>
               (let r1 = r\<lparr>rd_acks := finsert from (rd_acks r)\<rparr>
                in if fcard (rd_acks r1) \<ge> nd_quorum n
                   then (emit (ReadReady seq (rd_index r1)) n)\<lparr>nd_reads := fmdrop seq (nd_reads n)\<rparr>
                   else n\<lparr>nd_reads := fmupd seq r1 (nd_reads n)\<rparr>))"

definition onHeartbeatAck :: "int \<Rightarrow> node_id \<Rightarrow> heartbeatAck \<Rightarrow> node \<Rightarrow> node" where
  "onHeartbeatAck now from m n =
     (if nd_role n = Follower then n
      else if Less (nd_ballot n) (ha_Promised m)
      then let n1 = raise_round (ha_Promised m) n
           in if nd_failed n1 then n1 else stepDown now (Node (ha_Promised m)) (ha_Promised m) 0 n1
      else if nd_role n \<noteq> Leader \<or> ha_Ballot m \<noteq> nd_ballot n then n
      else let n1 = n\<lparr>nd_contacts := fmupd from now (nd_contacts n)\<rparr>
           in if ha_Promised m \<noteq> nd_ballot n1 then n1
              else fold (ack_read from (ha_ReadSeq m)) (fmkeys (nd_reads n1)) n1)"

definition onHeartbeat :: "int \<Rightarrow> node_id \<Rightarrow> heartbeat \<Rightarrow> node \<Rightarrow> node" where
  "onHeartbeat now from m n =
     (let b = hb_Ballot m;
          ack = (\<lambda>n. \<lparr>ha_Ballot = b, ha_Promised = nd_promised n, ha_CommitIndex = nd_commitIndex n, ha_ReadSeq = hb_ReadSeq m\<rparr>);
          reply = (\<lambda>n. send (onHeartbeatAck now (Self n) (ack n)) from (HeartbeatAck (ack n)) n)
      in if IsZero b then n
         else if Less b (nd_promised n) then reply n
         else let n1 = (if Less (nd_promised n) b then setPromised now b n else n)
              in if nd_failed n1 then n1
                 else let n2 = refreshLease now b n1;
                          n3 = (if from \<noteq> Self n2 then noteLeader now b n2 else n2);
                          n4 = reply n3
                      in if from \<noteq> Self n4 \<and> hb_CommitIndex m > nd_commitIndex n4 \<and> now \<ge> nd_learnReqAfter n4
                         then send id from (LearnRequest (u64 (nd_commitIndex n4 + 1)) (cf_LearnBatch (nd_cfg n4)))
                                (n4\<lparr>nd_learnReqAfter := s64 (now + cf_HeartbeatInterval (nd_cfg n4))\<rparr>)
                         else n4)"

section \<open>Learning\<close>

fun advance :: "nat \<Rightarrow> node \<Rightarrow> node" where
  "advance 0 n = n"
| "advance (Suc k) n =
     (if fmlookup (nd_chosen n) (u64 (nd_commitIndex n + 1)) = None then n
      else advance k (n\<lparr>nd_commitIndex := u64 (nd_commitIndex n + 1)\<rparr>))"

text \<open>Every round of the loop finds another chosen slot, so their number bounds it.\<close>

definition advanceCommit :: "node \<Rightarrow> node" where
  "advanceCommit n = advance (fmsize (nd_chosen n)) n"

definition learn_with :: "(node \<Rightarrow> node) \<Rightarrow> log_entry \<Rightarrow> node \<Rightarrow> node" where
  "learn_with drain e n =
     (let n1 = save (ChosenRec e) n
      in if nd_failed n1 then n1
         else let n2 = advanceCommit (n1\<lparr>nd_chosen := fmupd (le_Slot e) e (nd_chosen n1),
                                         nd_proposals := fmdrop (le_Slot e) (nd_proposals n1)\<rparr>)
              in if nd_role n2 = Leader then drain n2 else n2)"

section \<open>Phase 2\<close>

definition onAccepted_with :: "(node \<Rightarrow> node) \<Rightarrow> node_id \<Rightarrow> ballot \<Rightarrow> slot \<Rightarrow> node \<Rightarrow> node" where
  "onAccepted_with drain from b s n =
     (if nd_role n \<noteq> Leader \<or> b \<noteq> nd_ballot n then n
      else case fmlookup (nd_proposals n) s of
             None \<Rightarrow> n
           | Some p \<Rightarrow>
               (let p1 = p\<lparr>pp_accepts := finsert from (pp_accepts p)\<rparr>;
                    n1 = n\<lparr>nd_proposals := fmupd s p1 (nd_proposals n)\<rparr>
                in if fcard (pp_accepts p1) < nd_quorum n1 then n1
                   else let e = \<lparr>le_Slot = s, le_Ballot = nd_ballot n1, le_Value = pp_value p1\<rparr>;
                            n2 = learn_with drain e n1
                        in if nd_failed n2 then n2
                           else broadcast id (Learn (le_Slot e) (le_Ballot e) (le_Value e)) False n2))"

definition onAccept_with ::
  "(node \<Rightarrow> node) \<Rightarrow> int \<Rightarrow> node_id \<Rightarrow> ballot \<Rightarrow> slot \<Rightarrow> paxos_value \<Rightarrow> node \<Rightarrow> node" where
  "onAccept_with drain now from b s v n =
     (if IsZero b \<or> s = 0 then n
      else if \<not> (MayAccept (nd_promised n) b \<or> knob uk_AcceptBelowPromise n)
      then let m = \<lparr>nk_Ballot = b, nk_Promised = nd_promised n, nk_Slot = s, nk_LeaseRemaining = 0\<rparr>
           in send (onNack now m) from (Nack m) n
      else let n1 = (if Less (nd_promised n) b then setPromised now b n else n)
           in if nd_failed n1 then n1
              else let pv = \<lparr>pv_Ballot = b, pv_Slot = s, pv_Value = v\<rparr>; n2 = save (AcceptedRec pv) n1
                   in if nd_failed n2 then n2
                      else let n3 = refreshLease now b (n2\<lparr>nd_accepted := fmupd s pv (nd_accepted n2)\<rparr>);
                               n4 = (if from \<noteq> Self n3 then noteLeader now b n3 else n3)
                           in send (onAccepted_with drain (Self n4) b s) from (Accepted b s) n4)"

definition propose_with :: "(node \<Rightarrow> node) \<Rightarrow> int \<Rightarrow> slot \<Rightarrow> paxos_value \<Rightarrow> node \<Rightarrow> node" where
  "propose_with drain now s v n =
     (let n1 = n\<lparr>nd_proposals := fmupd s \<lparr>pp_value = v, pp_accepts = {||}, pp_lastSent = now\<rparr> (nd_proposals n)\<rparr>
      in broadcast (onAccept_with drain now (Self n1) (nd_ballot n1) s v) (Accept (nd_ballot n1) s v) True n1)"

definition may_drain :: "node \<Rightarrow> bool" where
  "may_drain n \<longleftrightarrow>
     nd_queue n \<noteq> [] \<and> int (fmsize (nd_proposals n)) < cf_Window (nd_cfg n) \<and> nd_role n = Leader \<and> \<not> nd_failed n"

definition bump_slot :: "node \<Rightarrow> node" where
  "bump_slot n = n\<lparr>nd_nextSlot := u64 (nd_nextSlot n + 1)\<rparr>"

fun drain :: "nat \<Rightarrow> int \<Rightarrow> node \<Rightarrow> node" where
  "drain 0 now n = n"
| "drain (Suc k) now n =
     (if may_drain n
      then drain k now (bump_slot (propose_with (drain k now) now (nd_nextSlot n) (hd (nd_queue n))
             (n\<lparr>nd_queue := tl (nd_queue n)\<rparr>)))
      else n)"

definition drainQueue :: "int \<Rightarrow> node \<Rightarrow> node" where
  "drainQueue now n = drain (length (nd_queue n)) now n"

definition learn :: "int \<Rightarrow> log_entry \<Rightarrow> node \<Rightarrow> node" where
  "learn now e n = learn_with (drainQueue now) e n"

definition onAccepted :: "int \<Rightarrow> node_id \<Rightarrow> ballot \<Rightarrow> slot \<Rightarrow> node \<Rightarrow> node" where
  "onAccepted now from b s n = onAccepted_with (drainQueue now) from b s n"

definition onAccept :: "int \<Rightarrow> node_id \<Rightarrow> ballot \<Rightarrow> slot \<Rightarrow> paxos_value \<Rightarrow> node \<Rightarrow> node" where
  "onAccept now from b s v n = onAccept_with (drainQueue now) now from b s v n"

definition propose :: "int \<Rightarrow> slot \<Rightarrow> paxos_value \<Rightarrow> node \<Rightarrow> node" where
  "propose now s v n = propose_with (drainQueue now) now s v n"

definition onLearn :: "int \<Rightarrow> slot \<Rightarrow> ballot \<Rightarrow> paxos_value \<Rightarrow> node \<Rightarrow> node" where
  "onLearn now s b v n =
     (if s = 0 then n
      else let got = \<lparr>le_Slot = s, le_Ballot = b, le_Value = v\<rparr>
           in case fmlookup (nd_chosen n) s of
                Some have \<Rightarrow> if \<not> ValueEqual (le_Value have) v then emit (LearnConflict s have got) n else n
              | None \<Rightarrow> learn now got n)"

definition learn_slots :: "slot \<Rightarrow> nat \<Rightarrow> slot list" where
  "learn_slots from cnt = [from..<u64 (from + cnt)]"

definition onLearnRequest :: "node_id \<Rightarrow> slot \<Rightarrow> int \<Rightarrow> node \<Rightarrow> node" where
  "onLearnRequest from fromSlot maxCount n =
     (if from = Self n \<or> fromSlot = 0 then n
      else let cnt = (if maxCount < 1 \<or> maxCount > cf_LearnBatch (nd_cfg n) then cf_LearnBatch (nd_cfg n) else maxCount)
           in fold (\<lambda>s n'. case fmlookup (nd_chosen n') s of
                       None \<Rightarrow> n'
                     | Some e \<Rightarrow> send id from (Learn s (le_Ballot e) (le_Value e)) n')
                (learn_slots fromSlot (nat cnt)) n)"

section \<open>Phase 1\<close>

definition acceptedFrom :: "slot \<Rightarrow> node \<Rightarrow> pvalue list" where
  "acceptedFrom from n = filter (\<lambda>pv. pv_Slot pv \<ge> from) (fmvals (nd_accepted n))"

definition promised_reports :: "phase1State \<Rightarrow> pvalue list" where
  "promised_reports ph =
     filter (\<lambda>pv. \<not> pv_Slot pv < ph_fromSlot ph) (concat (map pm_Accepted (fmvals (ph_promises ph))))"

definition slot_reports :: "phase1State \<Rightarrow> slot \<Rightarrow> pvalue list" where
  "slot_reports ph s = filter (\<lambda>pv. pv_Slot pv = s) (promised_reports ph)"

definition top_slot :: "node \<Rightarrow> slot" where
  "top_slot n =
     fold max (fmkeys (nd_chosen n))
       (fold max (map pv_Slot (promised_reports (nd_phase1 n))) (u64 (ph_fromSlot (nd_phase1 n) + (2 ^ 64 - 1))))"

lemma top_slot_code [code]:
  "top_slot n =
     fold max (fmkeys (nd_chosen n))
       (fold max (map pv_Slot (promised_reports (nd_phase1 n))) (u64 (ph_fromSlot (nd_phase1 n) + 18446744073709551615)))"
  by (simp add: top_slot_def)

fun repropose :: "int \<Rightarrow> phase1State \<Rightarrow> slot list \<Rightarrow> node \<Rightarrow> node" where
  "repropose now ph [] n = n"
| "repropose now ph (s # ss) n =
     (if fmlookup (nd_chosen n) s \<noteq> None then repropose now ph ss n
      else let v = (if knob uk_IgnorePhase1Reports n then [] else Choose (slot_reports ph s) []);
               n1 = propose now s v n
           in if nd_failed n1 \<or> nd_role n1 \<noteq> Leader then n1 else repropose now ph ss n1)"

definition take_office :: "int \<Rightarrow> node \<Rightarrow> node" where
  "take_office now n =
     (let n1 = n\<lparr>nd_role := Leader, nd_leaderHint := Self n, nd_leaderBallot := nd_ballot n, nd_leaderSince := now,
                nd_lastHeartbeat := now, nd_proposals := fmempty, nd_reads := fmempty,
                nd_contacts := fmap_of_list (map (\<lambda>p. (p, now)) (fmkeys (ph_promises (nd_phase1 n))))\<rparr>;
          top = top_slot n1
      in (emit (LeaderChanged (Self n1) (nd_ballot n1) True) n1)
           \<lparr>nd_firstOwnSlot := u64 (top + 1), nd_nextSlot := u64 (u64 (top + 1) + 1)\<rparr>)"

definition becomeLeader :: "int \<Rightarrow> node \<Rightarrow> node" where
  "becomeLeader now n =
     (let ph = nd_phase1 n; top = top_slot n; n1 = take_office now n;
          n2 = repropose now ph [ph_fromSlot ph..<top + 1] n1
      in if nd_failed n2 \<or> nd_role n2 \<noteq> Leader then n2
         else let n3 = propose now (nd_firstOwnSlot n2) [] n2
              in if nd_failed n3 \<or> nd_role n3 \<noteq> Leader then n3 else drainQueue now n3)"

definition onPromise :: "int \<Rightarrow> node_id \<Rightarrow> promise \<Rightarrow> node \<Rightarrow> node" where
  "onPromise now from m n =
     (if nd_role n \<noteq> Candidate \<or> pm_Ballot m \<noteq> nd_ballot n then n
      else let n1 = n\<lparr>nd_phase1 := (nd_phase1 n)\<lparr>ph_promises := fmupd from m (ph_promises (nd_phase1 n))\<rparr>\<rparr>
           in if fmsize (ph_promises (nd_phase1 n1)) \<ge> nd_quorum n1 then becomeLeader now n1 else n1)"

definition onPrepare :: "int \<Rightarrow> node_id \<Rightarrow> ballot \<Rightarrow> slot \<Rightarrow> node \<Rightarrow> node" where
  "onPrepare now from b fromSlot n =
     (let refuse = (\<lambda>wait. let m = \<lparr>nk_Ballot = b, nk_Promised = nd_promised n, nk_Slot = 0, nk_LeaseRemaining = wait\<rparr>
                           in send (onNack now m) from (Nack m) n);
          answer = (\<lambda>n1.
             (let n2 = (if from \<noteq> Self n1 then noteLeader now b (refreshLease now b n1) else n1);
                  m = \<lparr>pm_Ballot = b, pm_Accepted = acceptedFrom fromSlot n2, pm_CommitIndex = nd_commitIndex n2\<rparr>
              in send (onPromise now (Self n2) m) from (Promise m) n2))
      in if IsZero b then n
         else if b = nd_promised n then answer n
         else if \<not> MayPromise (nd_promised n) b then refuse 0
         else if cf_LeaseDuration (nd_cfg n) > 0 \<and> now < nd_leaseUntil n \<and> Node b \<noteq> nd_leaseHolder n
         then refuse (s64 (nd_leaseUntil n - now))
         else let n1 = setPromised now b n in if nd_failed n1 then n1 else answer n1)"

definition startElection :: "int \<Rightarrow> node \<Rightarrow> node" where
  "startElection now n =
     (let r = u64 (nd_maxRound n + 1); n1 = save (MaxRoundRec r) (n\<lparr>nd_maxRound := r\<rparr>)
      in if nd_failed n1 then n1
         else case randomElectionTimeout n1 of
           (t, n2) \<Rightarrow>
             let n3 = n2\<lparr>nd_ballot := Ballot (nd_maxRound n2) (Self n2), nd_role := Candidate,
                   nd_phase1 := \<lparr>ph_fromSlot = u64 (nd_commitIndex n2 + 1), ph_promises = fmempty,
                     ph_deadline = s64 (now + t), ph_lastSent = now\<rparr>\<rparr>;
                 b = nd_ballot n3; f = ph_fromSlot (nd_phase1 n3)
             in broadcast (onPrepare now (Self n3) b f) (Prepare b f) True n3)"

section \<open>Timers\<close>

definition maxPendingRead :: "node \<Rightarrow> nat" where
  "maxPendingRead n = fold max (fmkeys (nd_reads n)) 0"

definition quorumContact :: "int \<Rightarrow> node \<Rightarrow> int" where
  "quorumContact now n =
     (let times = concat (map (\<lambda>p. if p = Self n then [now]
                                   else case fmlookup (nd_contacts n) p of None \<Rightarrow> [] | Some t \<Rightarrow> [t]) (Peers n))
      in if length times < nd_quorum n then nd_leaderSince n else rev (sort times) ! (nd_quorum n - 1))"

fun retransmit :: "int \<Rightarrow> slot list \<Rightarrow> node \<Rightarrow> node" where
  "retransmit now [] n = n"
| "retransmit now (s # ss) n =
     (case fmlookup (nd_proposals n) s of
        None \<Rightarrow> retransmit now ss n
      | Some p \<Rightarrow>
          if now \<ge> s64 (pp_lastSent p + cf_HeartbeatInterval (nd_cfg n))
          then let n1 = broadcast id (Accept (nd_ballot n) s (pp_value p)) False
                          (n\<lparr>nd_proposals := fmupd s (p\<lparr>pp_lastSent := now\<rparr>) (nd_proposals n)\<rparr>)
               in if nd_role n1 \<noteq> Leader then n1 else retransmit now ss n1
          else retransmit now ss n)"

definition resend_prepares :: "node \<Rightarrow> node" where
  "resend_prepares n =
     fold (\<lambda>p n'. if p = Self n' \<or> fmlookup (ph_promises (nd_phase1 n')) p \<noteq> None then n'
                  else send id p (Prepare (nd_ballot n') (ph_fromSlot (nd_phase1 n'))) n') (Peers n) n"

definition leader_beat :: "int \<Rightarrow> nat \<Rightarrow> node \<Rightarrow> node" where
  "leader_beat now seq n =
     (let n1 = n\<lparr>nd_lastHeartbeat := now\<rparr>;
          m = \<lparr>hb_Ballot = nd_ballot n1, hb_CommitIndex = nd_commitIndex n1, hb_ReadSeq = seq\<rparr>
      in broadcast (onHeartbeat now (Self n1) m) (Heartbeat m) True n1)"

definition tick :: "int \<Rightarrow> node \<Rightarrow> node" where
  "tick now n =
     (case nd_role n of
        Follower \<Rightarrow>
          if now \<ge> nd_electionDeadline n \<and> (cf_LeaseDuration (nd_cfg n) = 0 \<or> now \<ge> nd_leaseUntil n)
          then startElection now n else n
      | Candidate \<Rightarrow>
          if now \<ge> ph_deadline (nd_phase1 n)
          then reset_election now (n\<lparr>nd_role := Follower, nd_phase1 := no_phase1\<rparr>)
          else if now \<ge> s64 (ph_lastSent (nd_phase1 n) + cf_HeartbeatInterval (nd_cfg n))
          then resend_prepares (n\<lparr>nd_phase1 := (nd_phase1 n)\<lparr>ph_lastSent := now\<rparr>\<rparr>)
          else n
      | Leader \<Rightarrow>
          let n1 = (if now \<ge> s64 (nd_lastHeartbeat n + cf_HeartbeatInterval (nd_cfg n))
                    then leader_beat now (maxPendingRead n) n else n)
          in if nd_role n1 \<noteq> Leader then n1
             else let n2 = retransmit now (fmkeys (nd_proposals n1)) n1
                  in if nd_role n2 \<noteq> Leader then n2
                     else if s64 (now - quorumContact now n2) > cf_ElectionTimeoutMax (nd_cfg n2)
                     then stepDown now 0 zero_ballot 0 n2 else n2)"

section \<open>The driving calls\<close>

definition handle :: "int \<Rightarrow> envelope \<Rightarrow> node \<Rightarrow> node" where
  "handle now env n =
     (if nd_failed n then n
      else case nv_Msg env of
        Prepare b f \<Rightarrow> onPrepare now (nv_From env) b f n
      | Promise m \<Rightarrow> onPromise now (nv_From env) m n
      | Accept b s v \<Rightarrow> onAccept now (nv_From env) b s v n
      | Accepted b s \<Rightarrow> onAccepted now (nv_From env) b s n
      | Nack m \<Rightarrow> onNack now m n
      | Learn s b v \<Rightarrow> onLearn now s b v n
      | LearnRequest f k \<Rightarrow> onLearnRequest (nv_From env) f k n
      | Heartbeat m \<Rightarrow> onHeartbeat now (nv_From env) m n
      | HeartbeatAck m \<Rightarrow> onHeartbeatAck now (nv_From env) m n)"

definition Step :: "int \<Rightarrow> envelope \<Rightarrow> node \<Rightarrow> node \<times> envelope list" where
  "Step now env n =
     (if nd_failed n then (n, [])
      else let n1 = begin_call now n
           in finish (if nv_To env = Self n1 \<and> isPeer n1 (nv_From env) then handle now env n1 else n1))"

definition Tick :: "int \<Rightarrow> node \<Rightarrow> node \<times> envelope list" where
  "Tick now n = (if nd_failed n then (n, []) else finish (tick now (begin_call now n)))"

definition with_error :: "log_error option \<Rightarrow> node \<times> envelope list \<Rightarrow> node \<times> envelope list \<times> log_error option" where
  "with_error e r = (fst r, snd r, e)"

definition Propose :: "int \<Rightarrow> paxos_value \<Rightarrow> node \<Rightarrow> node \<times> envelope list \<times> log_error option" where
  "Propose now v n =
     (if nd_failed n then (n, [], Some (StoreFailure (Self n)))
      else let n1 = begin_call now n
           in if length v > MaxValueBytes then (n1, [], Some (ErrValueTooLarge (length v) MaxValueBytes))
              else if nd_role n1 \<noteq> Leader then (n1, [], Some (NotLeaderError (nd_leaderHint n1)))
              else if int (fmsize (nd_proposals n1)) \<ge> cf_Window (nd_cfg n1)
              then (if int (length (nd_queue n1)) \<ge> cf_QueueLimit (nd_cfg n1)
                    then with_error (Some ErrBusy) (finish n1)
                    else with_error None (finish (n1\<lparr>nd_queue := nd_queue n1 @ [v]\<rparr>)))
              else with_error None (finish (bump_slot (propose now (nd_nextSlot n1) v n1))))"

definition Ready :: "node \<Rightarrow> bool" where
  "Ready n \<longleftrightarrow> nd_role n = Leader \<and> (knob uk_SkipLeadershipNoOp n \<or> nd_commitIndex n \<ge> nd_firstOwnSlot n)"

definition ReadIndex :: "int \<Rightarrow> node \<Rightarrow> node \<times> envelope list \<times> (log_error + nat)" where
  "ReadIndex now n =
     (if nd_failed n then (n, [], Inl (StoreFailure (Self n)))
      else let n1 = begin_call now n
           in if nd_role n1 \<noteq> Leader then (n1, [], Inl (NotLeaderError (nd_leaderHint n1)))
              else if \<not> Ready n1 then (n1, [], Inl ErrNotReady)
              else let seq = u64 (nd_readSeq n1 + 1);
                       n2 = n1\<lparr>nd_readSeq := seq,
                               nd_reads := fmupd seq \<lparr>rd_index = nd_commitIndex n1, rd_acks = {|Self n1|}\<rparr> (nd_reads n1)\<rparr>;
                       (n3, out) = finish (leader_beat now seq n2)
                   in (n3, out, Inr seq))"

definition Events :: "node \<Rightarrow> node \<times> event list" where
  "Events n = (n\<lparr>nd_events := []\<rparr>, nd_events n)"

definition node_Leader :: "node \<Rightarrow> node_id \<times> ballot \<times> bool" where
  "node_Leader n =
     (if nd_role n = Leader then (Self n, nd_ballot n, True)
      else (nd_leaderHint n, nd_leaderBallot n, nd_leaderHint n \<noteq> 0))"

definition Pending :: "node \<Rightarrow> nat \<times> nat" where
  "Pending n = (fmsize (nd_proposals n), length (nd_queue n))"

definition node_Accepted :: "node \<Rightarrow> slot \<Rightarrow> pvalue option" where
  "node_Accepted n s = fmlookup (nd_accepted n) s"

definition node_Chosen :: "node \<Rightarrow> slot \<Rightarrow> log_entry option" where
  "node_Chosen n s = fmlookup (nd_chosen n) s"

definition New :: "config \<Rightarrow> store_rec list \<Rightarrow> config_error + node" where
  "New cfg0 store =
     (let cfg = withDefaults cfg0
      in case config_Validate cfg of
           Some err \<Rightarrow> Inl err
         | None \<Rightarrow>
             (let d = log_Load store;
                  forget = (case cf_Unsafe cfg of None \<Rightarrow> False | Some k \<Rightarrow> uk_ForgetAcceptedOnRestart k);
                  n = \<lparr>nd_cfg = cfg, nd_store = store, nd_saves = [], nd_rands = [],
                       nd_quorum = Quorum (length (cf_Peers cfg)), nd_promised = du_Promised d,
                       nd_maxRound = du_MaxRound d,
                       nd_accepted = (if forget then fmempty
                          else fold (\<lambda>pv m. fmupd (pv_Slot pv) pv m) (du_Accepted d) fmempty),
                       nd_chosen = fold (\<lambda>e m. fmupd (le_Slot e) e m) (du_Chosen d) fmempty,
                       nd_commitIndex = 0, nd_leaseHolder = 0, nd_leaseUntil = 0, nd_leaderHint = 0,
                       nd_leaderBallot = zero_ballot, nd_electionDeadline = 0, nd_started = False,
                       nd_learnReqAfter = 0, nd_role = Follower, nd_ballot = zero_ballot, nd_phase1 = no_phase1,
                       nd_proposals = fmempty, nd_nextSlot = 0, nd_firstOwnSlot = 0, nd_queue = [],
                       nd_contacts = fmempty, nd_leaderSince = 0, nd_lastHeartbeat = 0, nd_readSeq = 0,
                       nd_reads = fmempty, nd_out = [], nd_events = [], nd_failed = False\<rparr>;
                  n1 = advanceCommit n
              in Inr (if nd_maxRound n1 < Round (nd_promised n1)
                      then n1\<lparr>nd_maxRound := Round (nd_promised n1)\<rparr> else n1)))"

end
