(* ===== verification/LogVotes.thy ===== *)
theory LogVotes
  imports LogNode
begin

text \<open>
  A cluster of log nodes and the invariant of its reachable states. The votes of a slot are the
  accepted records in the stores, the promise of an acceptor is the one in its store, and the cluster
  interprets \<open>voting_system\<close> slot by slot. The leader of a ballot votes for a proposal before the
  proposal leaves the node, so its own record is the witness of what was proposed at a slot.
\<close>

section \<open>Clusters and votes\<close>

record cluster =
  cl_members :: "node_id list"
  cl_nodes :: "node_id \<Rightarrow> node"
  cl_net :: "envelope set"

abbreviation lstore :: "cluster \<Rightarrow> node_id \<Rightarrow> store_rec list" where
  "lstore w a \<equiv> nd_store (cl_nodes w a)"

definition lvote :: "cluster \<Rightarrow> slot \<Rightarrow> (node_id, ballot, paxos_value) votes" where
  "lvote w s a b v \<longleftrightarrow>
     a \<in> set (cl_members w) \<and> AcceptedRec \<lparr>pv_Ballot = b, pv_Slot = s, pv_Value = v\<rparr> \<in> set (lstore w a)"

definition lprom :: "cluster \<Rightarrow> node_id \<Rightarrow> ballot" where
  "lprom w a = st_promised (lstore w a)"

definition lchosen :: "cluster \<Rightarrow> slot \<Rightarrow> ballot \<Rightarrow> paxos_value \<Rightarrow> bool" where
  "lchosen w s b v \<longleftrightarrow> chosen_at (cl_members w) (lvote w s) b v"

definition lsafe :: "cluster \<Rightarrow> slot \<Rightarrow> ballot \<Rightarrow> paxos_value \<Rightarrow> bool" where
  "lsafe w s b v \<longleftrightarrow> safe_at (cl_members w) (lvote w s) (lprom w) b v"

definition lfree :: "cluster \<Rightarrow> slot \<Rightarrow> ballot \<Rightarrow> bool" where
  "lfree w s b \<longleftrightarrow> free_at (cl_members w) (lvote w s) (lprom w) b"

definition lmax :: "cluster \<Rightarrow> node_id \<Rightarrow> nat" where
  "lmax w a = st_maxRound (lstore w a)"

text \<open>\<open>grows\<close>: from one state of the stores to a later one.\<close>

definition grows :: "cluster \<Rightarrow> cluster \<Rightarrow> bool" where
  "grows w w' \<longleftrightarrow> cl_members w' = cl_members w \<and> (\<forall>a. lmax w a \<le> lmax w' a) \<and>
     (\<forall>s. votes_extend (lvote w s) (lprom w) (lvote w' s) (lprom w'))"

lemma growsD:
  assumes "grows w w'"
  shows "cl_members w' = cl_members w" "lmax w a \<le> lmax w' a" "lprom w a \<le> lprom w' a"
    "lvote w s a b v \<Longrightarrow> lvote w' s a b v" "lvote w' s a b v \<Longrightarrow> lvote w s a b v \<or> lprom w a \<le> b"
  using assms unfolding grows_def votes_extend_def by blast+

lemma grows_same:
  assumes "cl_members w' = cl_members w" and "\<And>a. lstore w' a = lstore w a"
  shows "grows w w'" "lvote w' = lvote w" "lprom w' = lprom w" "lmax w' = lmax w"
proof -
  show "lvote w' = lvote w" "lprom w' = lprom w" "lmax w' = lmax w"
    using assms by (auto simp: lvote_def lprom_def lmax_def fun_eq_iff)
  then show "grows w w'" using assms(1) by (simp add: grows_def)
qed

lemma lchosen_mono: "grows w w' \<Longrightarrow> lchosen w s b v \<Longrightarrow> lchosen w' s b v"
  unfolding lchosen_def grows_def using chosen_at_mono by metis

lemma lsafe_mono: "grows w w' \<Longrightarrow> lsafe w s b v \<Longrightarrow> lsafe w' s b v"
  unfolding lsafe_def grows_def using safe_at_mono by metis

lemma lfree_mono: "grows w w' \<Longrightarrow> lfree w s b \<Longrightarrow> lfree w' s b"
  unfolding lfree_def grows_def using free_at_mono by metis

lemma lfree_safe: "lfree w s b \<Longrightarrow> lsafe w s b v"
  unfolding lfree_def lsafe_def by (rule free_at_safe)

lemma accepted_vote:
  "a \<in> set (cl_members w) \<Longrightarrow> AcceptedRec pv \<in> set (lstore w a) \<longleftrightarrow> lvote w (pv_Slot pv) a (pv_Ballot pv) (pv_Value pv)"
  by (cases pv) (simp add: lvote_def)

section \<open>The invariant\<close>

definition store_ok :: "cluster \<Rightarrow> node_id \<Rightarrow> bool" where
  "store_ok w a \<longleftrightarrow>
     (\<forall>s b v. lvote w s a b v \<longrightarrow>
        b \<le> lprom w a \<and> b \<noteq> zero_ballot \<and> s \<noteq> 0 \<and> (\<exists>q. fmlookup (st_accepted (lstore w a)) s = Some q \<and> b \<le> pv_Ballot q)) \<and>
     (\<forall>e. ChosenRec e \<in> set (lstore w a) \<longrightarrow> lchosen w (le_Slot e) (le_Ballot e) (le_Value e))"

definition vote_ok :: "cluster \<Rightarrow> slot \<Rightarrow> ballot \<Rightarrow> paxos_value \<Rightarrow> bool" where
  "vote_ok w s b v \<longleftrightarrow>
     lvote w s (Node b) b v \<and> Round b \<le> lmax w (Node b) \<and> (\<forall>v'. lvote w s (Node b) b v' \<longrightarrow> v' = v) \<and> lsafe w s b v"

definition promise_ok :: "cluster \<Rightarrow> node_id \<Rightarrow> ballot \<Rightarrow> slot \<Rightarrow> pvalue list \<Rightarrow> bool" where
  "promise_ok w a b f L \<longleftrightarrow>
     a \<in> set (cl_members w) \<and> b \<le> lprom w a \<and>
     (\<forall>pv\<in>set L. lvote w (pv_Slot pv) a (pv_Ballot pv) (pv_Value pv) \<and> pv_Ballot pv \<le> b) \<and>
     (\<forall>s c v. f \<le> s \<longrightarrow> lvote w s a c v \<longrightarrow> c < b \<longrightarrow> (\<exists>pv\<in>set L. pv_Slot pv = s \<and> c \<le> pv_Ballot pv))"

definition candidate :: "cluster \<Rightarrow> node_id \<Rightarrow> bool" where
  "candidate w c \<longleftrightarrow> c \<in> set (cl_members w) \<and> \<not> nd_failed (cl_nodes w c) \<and> nd_role (cl_nodes w c) = Candidate"

text \<open>What a message in the network says about a candidacy that is still running.\<close>

definition fits :: "cluster \<Rightarrow> node_id \<Rightarrow> envelope \<Rightarrow> bool" where
  "fits w c e \<longleftrightarrow>
     (let n = cl_nodes w c; f = ph_fromSlot (nd_phase1 n)
      in case nv_Msg e of
           Prepare b f' \<Rightarrow> b = nd_ballot n \<longrightarrow> f' = f
         | Promise m \<Rightarrow> pm_Ballot m = nd_ballot n \<longrightarrow> promise_ok w (nv_From e) (nd_ballot n) f (pm_Accepted m)
         | _ \<Rightarrow> True)"

text \<open>The call in progress at a node is described by a ghost value: how many slots from \<open>nd_nextSlot\<close> on it has
  taken already, and the proposal it has announced but not yet voted for. Between calls it is \<open>(0, None)\<close>.\<close>

type_synonym ghost = "nat \<times> (ballot \<times> slot \<times> paxos_value) option"

abbreviation idle :: "node_id \<Rightarrow> ghost" where
  "idle \<equiv> \<lambda>_. (0, None)"

definition says :: "(node_id \<Rightarrow> ghost) \<Rightarrow> cluster \<Rightarrow> envelope \<Rightarrow> bool" where
  "says G w e \<longleftrightarrow>
     (case nv_Msg e of
        Prepare b f \<Rightarrow> Round b \<le> lmax w (Node b)
      | Promise m \<Rightarrow> Round (pm_Ballot m) \<le> lmax w (Node (pm_Ballot m))
      | Accept b s v \<Rightarrow> lvote w s (Node b) b v \<or> snd (G (Node b)) = Some (b, s, v)
      | Accepted b s \<Rightarrow> \<exists>v. lvote w s (nv_From e) b v
      | Learn s b v \<Rightarrow> lchosen w s b v
      | _ \<Rightarrow> True)"

definition msg_ok :: "(node_id \<Rightarrow> ghost) \<Rightarrow> cluster \<Rightarrow> envelope \<Rightarrow> bool" where
  "msg_ok G w e \<longleftrightarrow> says G w e \<and> (\<forall>c. candidate w c \<longrightarrow> fits w c e)"

definition lead_ok :: "ghost \<Rightarrow> cluster \<Rightarrow> node_id \<Rightarrow> node \<Rightarrow> bool" where
  "lead_ok g w a n \<longleftrightarrow> nd_nextSlot n \<noteq> 0 \<and>
     (\<forall>s v. lvote w s a (nd_ballot n) v \<longrightarrow> s < nd_nextSlot n + fst g) \<and>
     (\<forall>s\<ge>nd_nextSlot n + fst g. lfree w s (nd_ballot n)) \<and>
     (\<forall>s p. fmlookup (nd_proposals n) s = Some p \<longrightarrow>
        (lvote w s a (nd_ballot n) (pp_value p) \<or> snd g = Some (nd_ballot n, s, pp_value p)) \<and>
        (\<forall>c. c |\<in>| pp_accepts p \<longrightarrow> lvote w s c (nd_ballot n) (pp_value p))) \<and>
     (\<forall>b s v. snd g = Some (b, s, v) \<longrightarrow>
        b = nd_ballot n \<and> s \<noteq> 0 \<and> s < nd_nextSlot n + fst g \<and> lsafe w s b v \<and> (\<forall>v'. lvote w s a b v' \<longrightarrow> v' = v))"

definition cand_ok :: "cluster \<Rightarrow> node_id \<Rightarrow> node \<Rightarrow> bool" where
  "cand_ok w a n \<longleftrightarrow>
     (\<forall>s v. \<not> lvote w s a (nd_ballot n) v) \<and>
     1 \<le> ph_fromSlot (nd_phase1 n) \<and> ph_fromSlot (nd_phase1 n) \<le> nd_commitIndex n + 1 \<and>
     (\<forall>c m. fmlookup (ph_promises (nd_phase1 n)) c = Some m \<longrightarrow>
        promise_ok w c (nd_ballot n) (ph_fromSlot (nd_phase1 n)) (pm_Accepted m))"

definition role_ok :: "ghost \<Rightarrow> cluster \<Rightarrow> node_id \<Rightarrow> node \<Rightarrow> bool" where
  "role_ok g w a n \<longleftrightarrow>
     (nd_role n \<noteq> Follower \<longrightarrow>
        Node (nd_ballot n) = a \<and> Round (nd_ballot n) \<le> lmax w a \<and> nd_ballot n \<noteq> zero_ballot \<and> lprom w a \<le> nd_ballot n) \<and>
     (nd_role n = Candidate \<longrightarrow> cand_ok w a n) \<and> (nd_role n = Leader \<longrightarrow> lead_ok g w a n) \<and>
     (nd_role n \<noteq> Leader \<longrightarrow> nd_queue n = [])"

definition local_ok :: "node \<Rightarrow> bool" where
  "local_ok n \<longleftrightarrow>
     nd_promised n = st_promised (nd_store n) \<and> Round (nd_promised n) \<le> nd_maxRound n \<and>
     st_maxRound (nd_store n) \<le> nd_maxRound n \<and> nd_accepted n = st_accepted (nd_store n) \<and>
     nd_chosen n = st_chosen (nd_store n) \<and> nd_commitIndex n < 2 ^ 64 \<and>
     (\<forall>s. 0 < s \<longrightarrow> s \<le> nd_commitIndex n \<longrightarrow> fmlookup (nd_chosen n) s \<noteq> None)"

definition fixed_ok :: "cluster \<Rightarrow> node_id \<Rightarrow> node \<Rightarrow> bool" where
  "fixed_ok w a n \<longleftrightarrow>
     Self n = a \<and> Peers n = cl_members w \<and> cf_Unsafe (nd_cfg n) = None \<and> nd_quorum n = Quorum (length (cl_members w)) \<and>
     (\<forall>s e. fmlookup (nd_chosen n) s = Some e \<longrightarrow> ChosenRec e \<in> set (nd_store n) \<and> le_Slot e = s) \<and>
     (\<forall>s x y. LearnConflict s x y \<notin> set (nd_events n)) \<and> nd_commitIndex n < 2 ^ 64 \<and>
     (\<forall>s. 0 < s \<longrightarrow> s \<le> nd_commitIndex n \<longrightarrow> fmlookup (nd_chosen n) s \<noteq> None)"

definition node_ok :: "(node_id \<Rightarrow> ghost) \<Rightarrow> cluster \<Rightarrow> node_id \<Rightarrow> bool" where
  "node_ok G w a \<longleftrightarrow>
     fixed_ok w a (cl_nodes w a) \<and>
     (\<not> nd_failed (cl_nodes w a) \<longrightarrow> local_ok (cl_nodes w a) \<and> role_ok (G a) w a (cl_nodes w a))"

definition cl_inv :: "(node_id \<Rightarrow> ghost) \<Rightarrow> cluster \<Rightarrow> bool" where
  "cl_inv G w \<longleftrightarrow>
     2 \<le> length (cl_members w) \<and>
     (\<forall>s a b v. lvote w s a b v \<longrightarrow> vote_ok w s b v) \<and>
     (\<forall>a\<in>set (cl_members w). store_ok w a \<and> node_ok G w a) \<and>
     (\<forall>e\<in>cl_net w. msg_ok G w e)"

lemma cl_invD:
  assumes "cl_inv G w"
  shows "2 \<le> length (cl_members w)" "lvote w s a b v \<Longrightarrow> vote_ok w s b v"
    "a \<in> set (cl_members w) \<Longrightarrow> store_ok w a" "a \<in> set (cl_members w) \<Longrightarrow> node_ok G w a"
    "e \<in> cl_net w \<Longrightarrow> msg_ok G w e"
  using assms unfolding cl_inv_def by blast+

lemma cl_invI:
  assumes "2 \<le> length (cl_members w)" "\<And>s a b v. lvote w s a b v \<Longrightarrow> vote_ok w s b v"
    "\<And>a. a \<in> set (cl_members w) \<Longrightarrow> store_ok w a" "\<And>a. a \<in> set (cl_members w) \<Longrightarrow> node_ok G w a"
    "\<And>e. e \<in> cl_net w \<Longrightarrow> msg_ok G w e"
  shows "cl_inv G w"
  using assms unfolding cl_inv_def by blast

lemma voteD:
  assumes "cl_inv G w" and "lvote w s a b v"
  shows "a \<in> set (cl_members w)" "lvote w s (Node b) b v" "Round b \<le> lmax w (Node b)" "lsafe w s b v"
    "lvote w s a' b v' \<Longrightarrow> v' = v" "b \<le> lprom w a" "b \<noteq> zero_ballot" "s \<noteq> 0"
proof -
  show a: "a \<in> set (cl_members w)" using assms(2) by (simp add: lvote_def)
  have vo: "vote_ok w s b v" using cl_invD(2) [OF assms] .
  then show "lvote w s (Node b) b v" "Round b \<le> lmax w (Node b)" "lsafe w s b v" by (auto simp: vote_ok_def)
  show "v' = v" if "lvote w s a' b v'" using vo cl_invD(2) [OF assms(1) that] by (auto simp: vote_ok_def)
  show "b \<le> lprom w a" "b \<noteq> zero_ballot" "s \<noteq> 0"
    using cl_invD(3) [OF assms(1) a] assms(2) unfolding store_ok_def by blast+
qed

text \<open>Each slot of the log is a voting system of its own.\<close>

interpretation lv: voting_system "\<lambda>sw. cl_members (snd sw)" "\<lambda>sw. lvote (snd sw) (fst sw)" "\<lambda>sw. lprom (snd sw)"
  "\<lambda>sw. \<exists>G. cl_inv G (snd sw)"
proof
  fix sw :: "slot \<times> cluster" and a b v a' v'
  assume "\<exists>G. cl_inv G (snd sw)" and v: "lvote (snd sw) (fst sw) a b v"
  then obtain G where inv: "cl_inv G (snd sw)" by blast
  show "safe_at (cl_members (snd sw)) (lvote (snd sw) (fst sw)) (lprom (snd sw)) b v"
    using voteD(4) [OF inv v] by (simp add: lsafe_def)
  show "v = v'" if "lvote (snd sw) (fst sw) a' b v'" using voteD(5) [OF inv v that] by simp
qed

lemma lchosen_agree: "cl_inv G w \<Longrightarrow> lchosen w s b v \<Longrightarrow> lchosen w s b' v' \<Longrightarrow> v = v'"
  unfolding lchosen_def using lv.agreement [of "(s, w)" b v b' v'] by auto

lemma lchosen_voted: "lchosen w s b v \<Longrightarrow> \<exists>a. lvote w s a b v"
  unfolding lchosen_def chosen_at_def using majority_nonempty by blast

section \<open>Monotonicity\<close>

lemma promise_ok_mono:
  assumes g: "grows w w'" and p: "promise_ok w a b f L"
  shows "promise_ok w' a b f L"
proof -
  note d = growsD [OF g]
  have old: "lvote w s a c v" if "lvote w' s a c v" "c < b" for s c v
    using d(5) [OF that(1)] that(2) p unfolding promise_ok_def by (meson leD order_trans)
  from p have "a \<in> set (cl_members w')" "b \<le> lprom w' a" using d(1) order_trans [OF _ d(3)] by (auto simp: promise_ok_def)
  moreover have "\<forall>pv\<in>set L. lvote w' (pv_Slot pv) a (pv_Ballot pv) (pv_Value pv) \<and> pv_Ballot pv \<le> b"
    using p d(4) by (auto simp: promise_ok_def)
  moreover have "\<exists>pv\<in>set L. pv_Slot pv = s \<and> c \<le> pv_Ballot pv" if "f \<le> s" "lvote w' s a c v" "c < b" for s c v
    using p old [OF that(2,3)] that(1,3) unfolding promise_ok_def by blast
  ultimately show ?thesis unfolding promise_ok_def by blast
qed

lemma says_mono: "grows w w' \<Longrightarrow> says G w e \<Longrightarrow> says G w' e"
  by (auto simp: says_def dest: growsD(4) lchosen_mono order_trans [OF _ growsD(2)] split: message.splits)

lemma fits_mono:
  assumes "grows w w'" and "cl_nodes w' c = cl_nodes w c" and "fits w c e"
  shows "fits w' c e"
  using assms promise_ok_mono [OF assms(1)] by (auto simp: fits_def Let_def split: message.splits)

lemma cand_ok_mono:
  assumes g: "grows w w'" and new: "\<And>s v. lvote w' s a (nd_ballot n) v \<Longrightarrow> lvote w s a (nd_ballot n) v"
    and "cand_ok w a n"
  shows "cand_ok w' a n"
  using assms promise_ok_mono [OF g] unfolding cand_ok_def by blast

lemma lead_ok_mono:
  assumes gr: "grows w w'" and new: "\<And>s v. lvote w' s a (nd_ballot n) v \<Longrightarrow> lvote w s a (nd_ballot n) v \<or> snd g = Some (nd_ballot n, s, v)"
    and l: "lead_ok g w a n"
  shows "lead_ok g w' a n"
  unfolding lead_ok_def
proof (intro conjI allI impI)
  show "nd_nextSlot n \<noteq> 0" using l unfolding lead_ok_def by blast
  show "s < nd_nextSlot n + fst g" if "lvote w' s a (nd_ballot n) v" for s v
    using l new [OF that] unfolding lead_ok_def by metis
  show "lfree w' s (nd_ballot n)" if "nd_nextSlot n + fst g \<le> s" for s
    using l that lfree_mono [OF gr] unfolding lead_ok_def by blast
  fix s p assume p: "fmlookup (nd_proposals n) s = Some p"
  then show "lvote w' s a (nd_ballot n) (pp_value p) \<or> snd g = Some (nd_ballot n, s, pp_value p)"
    using l growsD(4) [OF gr] unfolding lead_ok_def by blast
  show "lvote w' s c (nd_ballot n) (pp_value p)" if "c |\<in>| pp_accepts p" for c
    using l p that growsD(4) [OF gr] unfolding lead_ok_def by blast
next
  fix b s v assume p: "snd g = Some (b, s, v)"
  with l have o: "b = nd_ballot n \<and> s \<noteq> 0 \<and> s < nd_nextSlot n + fst g \<and> lsafe w s b v \<and> (\<forall>v'. lvote w s a b v' \<longrightarrow> v' = v)"
    unfolding lead_ok_def by blast
  then show "b = nd_ballot n" "s \<noteq> 0" "s < nd_nextSlot n + fst g" "lsafe w' s b v" using lsafe_mono [OF gr] by blast+
  show "v' = v" if "lvote w' s a b v'" for v' using o new [of s v'] that p by auto
qed

lemma role_ok_mono:
  assumes gr: "grows w w'" and new: "\<And>s v. nd_role n \<noteq> Follower \<Longrightarrow> lvote w' s a (nd_ballot n) v \<Longrightarrow>
      lvote w s a (nd_ballot n) v \<or> nd_role n = Leader \<and> snd g = Some (nd_ballot n, s, v)"
    and pr: "nd_role n \<noteq> Follower \<Longrightarrow> lprom w' a \<le> nd_ballot n" and r: "role_ok g w a n"
  shows "role_ok g w' a n"
proof -
  have "Round (nd_ballot n) \<le> lmax w' a" if "Round (nd_ballot n) \<le> lmax w a"
    using that growsD(2) [OF gr, of a] by simp
  moreover have "cand_ok w' a n" if "nd_role n = Candidate" "cand_ok w a n"
    using cand_ok_mono [OF gr _ that(2)] new that(1) by auto
  moreover have "lead_ok g w' a n" if "nd_role n = Leader" "lead_ok g w a n"
    using lead_ok_mono [OF gr _ that(2)] new that(1) by auto
  ultimately show ?thesis using r pr unfolding role_ok_def by blast
qed

section \<open>One node changes\<close>

lemma cl_inv_change:
  assumes inv: "cl_inv G w" and i: "i \<in> set (cl_members w)"
    and G: "\<And>a. a \<noteq> i \<Longrightarrow> G' a = G a"
    and nodes: "\<And>a. a \<noteq> i \<Longrightarrow> cl_nodes w' a = cl_nodes w a"
    and g: "grows w w'" and sto: "store_ok w' i" and nod: "node_ok G' w' i"
    and vot: "\<And>s b v. lvote w' s i b v \<Longrightarrow> \<not> lvote w s i b v \<Longrightarrow> vote_ok w' s b v"
    and msg: "\<And>e. e \<in> cl_net w' \<Longrightarrow> msg_ok G' w' e \<or> (e \<in> cl_net w \<and> says G' w' e \<and> (candidate w' i \<longrightarrow> fits w' i e))"
  shows "cl_inv G' w'"
proof (rule cl_invI)
  note d = growsD [OF g]
  show "2 \<le> length (cl_members w')" using cl_invD(1) [OF inv] d(1) by simp
  have same: "lvote w' s a b v \<longleftrightarrow> lvote w s a b v" if "a \<noteq> i" for s a b v
    using nodes [OF that] d(1) by (simp add: lvote_def)
  have old: "vote_ok w' s b v" if "lvote w s a b v" for s a b v
  proof -
    note o = voteD [OF inv that]
    have "v' = v" if v': "lvote w' s (Node b) b v'" for v'
    proof (cases "lvote w s (Node b) b v'")
      case False
      with v' same have "Node b = i" by blast
      with vot [of s b v'] v' False have "vote_ok w' s b v'" by simp
      with d(4) [OF o(2)] show ?thesis by (auto simp: vote_ok_def)
    qed (use o(5) in blast)
    then show ?thesis
      using d(4) [OF o(2)] order_trans [OF o(3) d(2)] lsafe_mono [OF g o(4)] unfolding vote_ok_def by blast
  qed
  show "vote_ok w' s b v" if "lvote w' s a b v" for s a b v
    using that old vot same by (cases "a = i") blast+
  fix a assume "a \<in> set (cl_members w')"
  then have a: "a \<in> set (cl_members w)" using d(1) by simp
  show "store_ok w' a"
  proof (cases "a = i")
    case False
    have "lprom w' a = lprom w a" using nodes [OF False] by (simp add: lprom_def)
    then show ?thesis using cl_invD(3) [OF inv a] lchosen_mono [OF g] unfolding store_ok_def same [OF False] nodes [OF False] by auto
  qed (use sto in simp)
  show "node_ok G' w' a"
  proof (cases "a = i")
    case False
    have "fixed_ok w' a = fixed_ok w a" using d(1) by (simp add: fixed_ok_def fun_eq_iff)
    moreover have "role_ok (G' a) w' a (cl_nodes w a)" if "role_ok (G a) w a (cl_nodes w a)"
      unfolding G [OF False] by (rule role_ok_mono [OF g _ _ that]) (use same [OF False] that nodes [OF False] in \<open>auto simp: role_ok_def lprom_def\<close>)
    ultimately show ?thesis using cl_invD(4) [OF inv a] unfolding node_ok_def nodes [OF False] by simp
  qed (use nod in simp)
next
  fix e assume "e \<in> cl_net w'"
  from msg [OF this] show "msg_ok G' w' e"
  proof
    assume e: "e \<in> cl_net w \<and> says G' w' e \<and> (candidate w' i \<longrightarrow> fits w' i e)"
    then have m: "msg_ok G w e" using cl_invD(5) [OF inv] by blast
    have "fits w' c e" if "candidate w' c" for c
    proof (cases "c = i")
      case False
      with that have "candidate w c" using nodes growsD(1) [OF g] by (simp add: candidate_def)
      with m fits_mono [OF g nodes [OF False]] show ?thesis by (simp add: msg_ok_def)
    qed (use e that in blast)
    then show ?thesis using e by (simp add: msg_ok_def)
  qed
qed

end
