(* ===== verification/LogSteps.thy ===== *)
theory LogSteps
  imports LogVotes
begin

text \<open>
  The invariant is kept by every handler of a node. \<open>holds g w i n\<close> says that the cluster \<open>w\<close> with node \<open>i\<close>
  replaced by \<open>n\<close>, its unsent messages counted as sent, satisfies the invariant while node \<open>i\<close> is in a
  call described by the ghost value \<open>g\<close>. A failed node sends nothing, so its messages do not count.
\<close>

section \<open>A node in the middle of a call\<close>

definition sent :: "node \<Rightarrow> envelope set" where
  "sent n = (if nd_failed n then {} else set (nd_out n))"

definition put :: "cluster \<Rightarrow> node_id \<Rightarrow> node \<Rightarrow> cluster" where
  "put w i n = w\<lparr>cl_nodes := (cl_nodes w)(i := n), cl_net := cl_net w \<union> sent n\<rparr>"

lemma put_sel [simp]:
  "cl_members (put w i n) = cl_members w" "cl_nodes (put w i n) i = n" "a \<noteq> i \<Longrightarrow> cl_nodes (put w i n) a = cl_nodes w a"
  "cl_net (put w i n) = cl_net w \<union> sent n"
  by (simp_all add: put_def)

definition holds :: "ghost \<Rightarrow> cluster \<Rightarrow> node_id \<Rightarrow> node \<Rightarrow> bool" where
  "holds g w i n \<longleftrightarrow>
     i \<in> set (cl_members w) \<and> cl_inv (idle(i := g)) (put w i n) \<and> (\<forall>e\<in>cl_net w. says idle (put w i n) e)"

lemma holdsD:
  assumes "holds g w i n"
  shows "i \<in> set (cl_members w)" "cl_inv (idle(i := g)) (put w i n)" "e \<in> cl_net w \<Longrightarrow> says idle (put w i n) e"
    "store_ok (put w i n) i" "fixed_ok (put w i n) i n" "\<not> nd_failed n \<Longrightarrow> local_ok n"
    "\<not> nd_failed n \<Longrightarrow> role_ok g (put w i n) i n"
proof -
  show i: "i \<in> set (cl_members w)" and inv: "cl_inv (idle(i := g)) (put w i n)"
    and "e \<in> cl_net w \<Longrightarrow> says idle (put w i n) e" using assms by (auto simp: holds_def)
  show "store_ok (put w i n) i" using cl_invD(3) [OF inv] i by simp
  have "node_ok (idle(i := g)) (put w i n) i" using cl_invD(4) [OF inv] i by simp
  then show "fixed_ok (put w i n) i n" "\<not> nd_failed n \<Longrightarrow> local_ok n" "\<not> nd_failed n \<Longrightarrow> role_ok g (put w i n) i n"
    by (simp_all add: node_ok_def)
qed

lemma fixedD:
  assumes "fixed_ok w a n"
  shows "Self n = a" "Peers n = cl_members w" "cf_Unsafe (nd_cfg n) = None" "nd_quorum n = Quorum (length (cl_members w))"
    "fmlookup (nd_chosen n) s = Some e \<Longrightarrow> ChosenRec e \<in> set (nd_store n) \<and> le_Slot e = s"
    "LearnConflict s x y \<notin> set (nd_events n)" "nd_commitIndex n < 2 ^ 64"
    "0 < s \<Longrightarrow> s \<le> nd_commitIndex n \<Longrightarrow> fmlookup (nd_chosen n) s \<noteq> None"
  using assms unfolding fixed_ok_def by blast+

definition conflicts :: "node \<Rightarrow> event list" where
  "conflicts n = filter (\<lambda>e. case e of LearnConflict _ _ _ \<Rightarrow> True | _ \<Rightarrow> False) (nd_events n)"

lemma conflicts_mem: "LearnConflict s x y \<in> set (nd_events n) \<longleftrightarrow> LearnConflict s x y \<in> set (conflicts n)"
  by (simp add: conflicts_def)

text \<open>What the invariant reads of a node outside its role.\<close>

definition stable :: "node \<Rightarrow> config \<times> nat \<times> (slot, log_entry) fmap \<times> event list \<times> slot" where
  "stable n = (nd_cfg n, nd_quorum n, nd_chosen n, conflicts n, nd_commitIndex n)"

lemma stableD: "stable n' = stable n \<Longrightarrow> nd_cfg n' = nd_cfg n \<and> nd_quorum n' = nd_quorum n \<and> nd_chosen n' = nd_chosen n \<and> conflicts n' = conflicts n \<and>
    nd_commitIndex n' = nd_commitIndex n"
  by (simp add: stable_def)

lemma fixed_ok_stable:
  assumes "fixed_ok (put w i n) i n" and "stable n' = stable n" and "set (nd_store n) \<subseteq> set (nd_store n')"
  shows "fixed_ok (put w i n) i n'"
  using assms by (auto simp: fixed_ok_def conflicts_mem dest!: stableD)

text \<open>The general step: the store may grow, the rest of the node may change.\<close>

lemma holds_change:
  assumes h: "holds g w i n" and gr: "grows (put w i n) (put w i n')"
    and sto: "store_ok (put w i n') i" and fx: "fixed_ok (put w i n) i n'"
    and loc: "\<not> nd_failed n' \<Longrightarrow> local_ok n'" "\<not> nd_failed n' \<Longrightarrow> role_ok g' (put w i n') i n'"
    and vot: "\<And>s b v. lvote (put w i n') s i b v \<Longrightarrow> \<not> lvote (put w i n) s i b v \<Longrightarrow> vote_ok (put w i n') s b v"
    and out: "\<And>e. e \<in> sent n' \<Longrightarrow> (e \<in> sent n \<and> says (idle(i := g')) (put w i n') e) \<or>
        (says (idle(i := g')) (put w i n') e \<and> (\<forall>c. c \<noteq> i \<longrightarrow> candidate w c \<longrightarrow> fits (put w i n') c e))"
    and cnd: "\<And>e. \<not> nd_failed n' \<Longrightarrow> nd_role n' = Candidate \<Longrightarrow> e \<in> cl_net w \<union> sent n' \<Longrightarrow> fits (put w i n') i e"
  shows "holds g' w i n'"
proof -
  note d = holdsD [OF h]
  have old: "says idle (put w i n') e" if "e \<in> cl_net w" for e using says_mono [OF gr d(3) [OF that]] .
  have old': "says (idle(i := g')) (put w i n') e" if "e \<in> cl_net w" for e
    using old [OF that] by (auto simp: says_def split: message.splits)
  have "cl_inv (idle(i := g')) (put w i n')"
  proof (rule cl_inv_change [OF d(2) _ _ _ gr sto _ vot])
    show "i \<in> set (cl_members (put w i n))" using d(1) by simp
    show "node_ok (idle(i := g')) (put w i n') i"
      using loc fx by (simp add: node_ok_def fixed_ok_def)
    fix e assume e: "e \<in> cl_net (put w i n')"
    have c: "fits (put w i n') i e" if "candidate (put w i n') i"
      using cnd [of e] that e by (simp add: candidate_def)
    show "msg_ok (idle(i := g')) (put w i n') e \<or>
        e \<in> cl_net (put w i n) \<and> says (idle(i := g')) (put w i n') e \<and> (candidate (put w i n') i \<longrightarrow> fits (put w i n') i e)"
    proof (cases "e \<in> cl_net w")
      case True
      then show ?thesis using c old' by simp
    next
      case False
      then have "e \<in> sent n'" using e by simp
      from out [OF this] show ?thesis
      proof
        assume a: "says (idle(i := g')) (put w i n') e \<and> (\<forall>c. c \<noteq> i \<longrightarrow> candidate w c \<longrightarrow> fits (put w i n') c e)"
        have "fits (put w i n') x e" if "candidate (put w i n') x" for x
          using a c that by (cases "x = i") (simp_all add: candidate_def)
        with a show ?thesis by (simp add: msg_ok_def)
      qed (use c in simp)
    qed
  qed (simp_all add: d(1))
  then show ?thesis using d(1) old by (simp add: holds_def)
qed

section \<open>Steps that leave the store alone\<close>

lemma put_same:
  assumes "nd_store n' = nd_store n"
  shows "grows (put w i n) (put w i n')" "lvote (put w i n') = lvote (put w i n)" "lprom (put w i n') = lprom (put w i n)"
    "lmax (put w i n') = lmax (put w i n)"
proof -
  have "lstore (put w i n') a = lstore (put w i n) a" for a using assms by (cases "a = i") simp_all
  from grows_same [OF _ this] show "grows (put w i n) (put w i n')" "lvote (put w i n') = lvote (put w i n)"
    "lprom (put w i n') = lprom (put w i n)" "lmax (put w i n') = lmax (put w i n)" by simp_all
qed

lemma view_cong:
  assumes "nd_store n' = nd_store n"
  shows "role_ok g (put w i n') a m = role_ok g (put w i n) a m" "promise_ok (put w i n') = promise_ok (put w i n)"
    "says G (put w i n') = says G (put w i n)" "store_ok (put w i n') i = store_ok (put w i n) i"
    "lead_ok g (put w i n') a m = lead_ok g (put w i n) a m" "cand_ok (put w i n') a m = cand_ok (put w i n) a m"
    "lchosen (put w i n') = lchosen (put w i n)" "lsafe (put w i n') = lsafe (put w i n)" "lfree (put w i n') = lfree (put w i n)"
proof -
  note s = put_same(2-4) [OF assms, of w i]
  show ch: "lchosen (put w i n') = lchosen (put w i n)" and sf: "lsafe (put w i n') = lsafe (put w i n)"
    and fr: "lfree (put w i n') = lfree (put w i n)"
    by (simp_all add: lchosen_def lsafe_def lfree_def s fun_eq_iff)
  show pr: "promise_ok (put w i n') = promise_ok (put w i n)" by (simp add: promise_ok_def s fun_eq_iff)
  show ld: "lead_ok g (put w i n') a m = lead_ok g (put w i n) a m" by (simp add: lead_ok_def s fr sf)
  show cd: "cand_ok (put w i n') a m = cand_ok (put w i n) a m" by (simp add: cand_ok_def s pr)
  show "role_ok g (put w i n') a m = role_ok g (put w i n) a m" by (simp add: role_ok_def s ld cd)
  show "says G (put w i n') = says G (put w i n)" by (auto simp: says_def s ch fun_eq_iff split: message.splits)
  show "store_ok (put w i n') i = store_ok (put w i n) i" by (simp add: store_ok_def s ch assms)
qed

lemma fits_cong:
  assumes "nd_store n' = nd_store n" and "c \<noteq> i"
  shows "fits (put w i n') c e = fits (put w i n) c e"
  using assms by (auto simp: fits_def Let_def view_cong(2) [OF assms(1)] split: message.splits)

lemma holds_mem:
  assumes h: "holds g w i n" and st: "nd_store n' = nd_store n" "stable n' = stable n"
    and loc: "\<not> nd_failed n' \<Longrightarrow> local_ok n'" "\<not> nd_failed n' \<Longrightarrow> role_ok g' (put w i n) i n'"
    and out: "\<And>e. e \<in> sent n' \<Longrightarrow> (e \<in> sent n \<and> says (idle(i := g')) (put w i n) e) \<or>
        (says (idle(i := g')) (put w i n) e \<and> (\<forall>c. c \<noteq> i \<longrightarrow> candidate w c \<longrightarrow> fits (put w i n) c e))"
    and cnd: "\<And>e. \<not> nd_failed n' \<Longrightarrow> nd_role n' = Candidate \<Longrightarrow> e \<in> cl_net w \<union> sent n' \<Longrightarrow> fits (put w i n') i e"
  shows "holds g' w i n'"
proof (rule holds_change [OF h put_same(1) [OF st(1)]])
  show "fixed_ok (put w i n) i n'" by (rule fixed_ok_stable [OF holdsD(5) [OF h] st(2)]) (simp add: st(1))
  show "store_ok (put w i n') i" using holdsD(4) [OF h] by (simp add: view_cong(4) [OF st(1)])
  show "role_ok g' (put w i n') i n'" if "\<not> nd_failed n'" using loc(2) [OF that] by (simp add: view_cong(1) [OF st(1)])
  show "vote_ok (put w i n') s b v" if "lvote (put w i n') s i b v" "\<not> lvote (put w i n) s i b v" for s b v
    using that by (simp add: put_same(2) [OF st(1)])
  show "(e \<in> sent n \<and> says (idle(i := g')) (put w i n') e) \<or>
      (says (idle(i := g')) (put w i n') e \<and> (\<forall>c. c \<noteq> i \<longrightarrow> candidate w c \<longrightarrow> fits (put w i n') c e))"
    if "e \<in> sent n'" for e
    using out [OF that] fits_cong [OF st(1)] by (auto simp: view_cong(3) [OF st(1)])
qed (use st loc(1) cnd in auto)

text \<open>What the invariant reads of a node in its role.\<close>

definition office :: "node \<Rightarrow> role \<times> ballot \<times> slot \<times> (node_id, promise) fmap \<times> (slot, paxos_value \<times> node_id fset) fmap \<times> slot \<times> slot \<times> slot \<times> paxos_value list" where
  "office n = (nd_role n, nd_ballot n, ph_fromSlot (nd_phase1 n), ph_promises (nd_phase1 n),
     fmmap (\<lambda>p. (pp_value p, pp_accepts p)) (nd_proposals n), nd_nextSlot n, nd_firstOwnSlot n, nd_commitIndex n, nd_queue n)"

definition durable_view :: "node \<Rightarrow> store_rec list \<times> ballot \<times> nat \<times> (slot, pvalue) fmap \<times> slot" where
  "durable_view n = (nd_store n, nd_promised n, nd_maxRound n, nd_accepted n, nd_commitIndex n)"

definition view where
  "view n = (stable n, durable_view n, office n, nd_out n, nd_failed n)"

lemmas view_defs = view_def stable_def durable_view_def office_def conflicts_def

lemma proposals_view:
  assumes "fmmap (\<lambda>p. (pp_value p, pp_accepts p)) m' = fmmap (\<lambda>p. (pp_value p, pp_accepts p)) m" and "fmlookup m' s = Some p"
  shows "\<exists>q. fmlookup m s = Some q \<and> pp_value q = pp_value p \<and> pp_accepts q = pp_accepts p"
proof -
  from assms(1) have "map_option (\<lambda>p. (pp_value p, pp_accepts p)) (fmlookup m' s) = map_option (\<lambda>p. (pp_value p, pp_accepts p)) (fmlookup m s)"
    by (metis fmlookup_map)
  with assms(2) show ?thesis by (cases "fmlookup m s") auto
qed

lemma role_ok_office:
  assumes "office n' = office n" and r: "role_ok g w a n"
  shows "role_ok g w a n'"
proof -
  from assms(1) have e: "nd_role n' = nd_role n" "nd_ballot n' = nd_ballot n" "ph_fromSlot (nd_phase1 n') = ph_fromSlot (nd_phase1 n)"
    "ph_promises (nd_phase1 n') = ph_promises (nd_phase1 n)" "nd_nextSlot n' = nd_nextSlot n" "nd_commitIndex n' = nd_commitIndex n"
    "nd_queue n' = nd_queue n"
    and p: "fmmap (\<lambda>p. (pp_value p, pp_accepts p)) (nd_proposals n') = fmmap (\<lambda>p. (pp_value p, pp_accepts p)) (nd_proposals n)"
    by (simp_all add: office_def)
  have "lead_ok g w a n'" if l: "lead_ok g w a n"
    unfolding lead_ok_def e
  proof (intro conjI allI impI)
    fix s q assume "fmlookup (nd_proposals n') s = Some q"
    from proposals_view [OF p this] obtain q' where q': "fmlookup (nd_proposals n) s = Some q'"
      "pp_value q' = pp_value q" "pp_accepts q' = pp_accepts q" by blast
    then show "lvote w s a (nd_ballot n) (pp_value q) \<or> snd g = Some (nd_ballot n, s, pp_value q)"
      using l unfolding lead_ok_def by metis
    show "lvote w s c (nd_ballot n) (pp_value q)" if "c |\<in>| pp_accepts q" for c
      using l q' that unfolding lead_ok_def by metis
  qed (use l in \<open>auto simp: lead_ok_def\<close>)
  moreover have "cand_ok w a n' = cand_ok w a n" by (simp add: cand_ok_def e)
  ultimately show ?thesis using r by (auto simp: role_ok_def e)
qed

lemma fits_office:
  assumes "office n' = office n" and "nd_store n' = nd_store n"
  shows "fits (put w i n') i e = fits (put w i n) i e"
  using assms(1) by (auto simp: fits_def Let_def view_cong(2) [OF assms(2)] office_def split: message.splits)

lemma sent_says:
  assumes "holds g w i n" and "e \<in> sent n"
  shows "says (idle(i := g)) (put w i n) e"
  using cl_invD(5) [OF holdsD(2) [OF assms(1)]] assms(2) by (simp add: msg_ok_def)

lemma holds_fits:
  assumes "holds g w i n" and "\<not> nd_failed n" and "nd_role n = Candidate" and "e \<in> cl_net w \<union> sent n"
  shows "fits (put w i n) i e"
proof -
  have "candidate (put w i n) i" using assms holdsD(1) [OF assms(1)] by (simp add: candidate_def)
  then show ?thesis using cl_invD(5) [OF holdsD(2) [OF assms(1)]] assms(4) by (simp add: msg_ok_def)
qed

lemma local_ok_view: "durable_view n' = durable_view n \<Longrightarrow> stable n' = stable n \<Longrightarrow> local_ok n' = local_ok n"
  by (simp add: local_ok_def durable_view_def stable_def)

lemma holds_view:
  assumes h: "holds g w i n" and v: "view n' = view n"
  shows "holds g w i n'"
proof -
  from v have e: "stable n' = stable n" "durable_view n' = durable_view n" "office n' = office n" "nd_out n' = nd_out n"
    "nd_failed n' = nd_failed n" "nd_store n' = nd_store n" "nd_role n' = nd_role n"
    by (simp_all add: view_def durable_view_def office_def)
  have s: "sent n' = sent n" by (simp add: sent_def e)
  show ?thesis
  proof (rule holds_mem [OF h e(6,1)])
    show "local_ok n'" if "\<not> nd_failed n'" using holdsD(6) [OF h] that e local_ok_view by metis
    show "role_ok g (put w i n) i n'" if "\<not> nd_failed n'" using holdsD(7) [OF h] role_ok_office [OF e(3)] that e by metis
    show "fits (put w i n') i x" if "\<not> nd_failed n'" "nd_role n' = Candidate" "x \<in> cl_net w \<union> sent n'" for x
      using holds_fits [OF h, of x] that fits_office [OF e(3,6)] by (simp add: e s)
  qed (use sent_says [OF h] s in auto)
qed

text \<open>A node that fails keeps the invariant whatever its memory holds.\<close>

lemma holds_fail:
  assumes h: "holds g w i n" and "nd_store n' = nd_store n" "stable n' = stable n" and f: "nd_failed n'"
  shows "holds (0, None) w i n'"
  by (rule holds_mem [OF h assms(2,3)]) (simp_all add: f sent_def)

text \<open>A node that returns to follower.\<close>

lemma holds_demote:
  assumes h: "holds (k, None) w i n" and st: "durable_view n' = durable_view n" "stable n' = stable n"
    and n': "nd_role n' = Follower" "nd_queue n' = []" "nd_out n' = nd_out n" "nd_failed n' = nd_failed n"
  shows "holds (0, None) w i n'"
proof -
  have s: "nd_store n' = nd_store n" using st(1) by (simp add: durable_view_def)
  show ?thesis
  proof (rule holds_mem [OF h s st(2)])
    show "local_ok n'" if "\<not> nd_failed n'" using holdsD(6) [OF h] that n' local_ok_view [OF st] by simp
    show "role_ok (0, None) (put w i n) i n'" using n' by (simp add: role_ok_def)
    fix e assume "e \<in> sent n'"
    then have e: "e \<in> sent n" using n' by (auto simp: sent_def split: if_splits)
    have "says (idle(i := (k, None))) (put w i n) e" by (rule sent_says [OF h e])
    then have "says (idle(i := (0, None))) (put w i n) e" by (auto simp: says_def split: message.splits if_splits)
    with e show "(e \<in> sent n \<and> says (idle(i := (0, None))) (put w i n) e) \<or>
      (says (idle(i := (0, None))) (put w i n) e \<and> (\<forall>c. c \<noteq> i \<longrightarrow> candidate w c \<longrightarrow> fits (put w i n) c e))" by blast
  qed (simp add: n')
qed

text \<open>A message is queued.\<close>

lemma holds_push:
  assumes h: "holds g w i n" and nf: "\<not> nd_failed n" and sy: "says (idle(i := g)) (put w i n) e"
    and fi: "\<And>c. c \<noteq> i \<Longrightarrow> candidate w c \<Longrightarrow> fits (put w i n) c e"
    and own: "nd_role n = Candidate \<Longrightarrow> fits (put w i n) i e"
  shows "holds g w i (n\<lparr>nd_out := nd_out n @ [e]\<rparr>)"
proof (rule holds_mem [OF h])
  let ?n = "n\<lparr>nd_out := nd_out n @ [e]\<rparr>"
  have o: "office ?n = office n" by (simp add: office_def)
  show "role_ok g (put w i n) i ?n" if "\<not> nd_failed ?n" using holdsD(7) [OF h nf] role_ok_office [OF o] by blast
  show "local_ok ?n" using holdsD(6) [OF h nf] by (simp add: local_ok_view [of ?n n] durable_view_def stable_def conflicts_def)
  show "(x \<in> sent n \<and> says (idle(i := g)) (put w i n) x) \<or>
      (says (idle(i := g)) (put w i n) x \<and> (\<forall>c. c \<noteq> i \<longrightarrow> candidate w c \<longrightarrow> fits (put w i n) c x))"
    if "x \<in> sent ?n" for x
    using that sent_says [OF h, of x] sy fi nf by (auto simp: sent_def)
  show "fits (put w i ?n) i x" if "\<not> nd_failed ?n" "nd_role ?n = Candidate" "x \<in> cl_net w \<union> sent ?n" for x
    using that holds_fits [OF h nf, of x] own nf fits_office [OF o] by (auto simp: sent_def)
qed (simp_all add: stable_def conflicts_def)

section \<open>Steps that append to the store\<close>

lemma holds_any: "holds g w i n \<Longrightarrow> nd_failed n \<Longrightarrow> holds g' w i n"
  by (rule holds_mem) (simp_all add: sent_def)

lemma fits_same_candidacy:
  assumes "grows (put w i n) (put w i n')" and "nd_ballot n' = nd_ballot n"
    and "ph_fromSlot (nd_phase1 n') = ph_fromSlot (nd_phase1 n)" and "fits (put w i n) i e"
  shows "fits (put w i n') i e"
  using assms promise_ok_mono [OF assms(1)] by (auto simp: fits_def Let_def split: message.splits)

lemma holds_grow:
  assumes h: "holds g w i n" and nf: "\<not> nd_failed n" and gr: "grows (put w i n) (put w i n')"
    and sto: "store_ok (put w i n') i" and fx: "fixed_ok (put w i n) i n'"
    and loc: "\<not> nd_failed n' \<Longrightarrow> local_ok n'" "\<not> nd_failed n' \<Longrightarrow> role_ok g (put w i n') i n'"
    and vot: "\<And>s b v. lvote (put w i n') s i b v \<Longrightarrow> \<not> lvote (put w i n) s i b v \<Longrightarrow> vote_ok (put w i n') s b v"
    and out: "nd_out n' = nd_out n"
    and cnd: "\<not> nd_failed n' \<Longrightarrow> nd_role n' = Candidate \<Longrightarrow>
        nd_role n = Candidate \<and> nd_ballot n' = nd_ballot n \<and> ph_fromSlot (nd_phase1 n') = ph_fromSlot (nd_phase1 n)"
  shows "holds g w i n'"
proof (rule holds_change [OF h gr sto fx loc vot])
  have sub: "sent n' \<subseteq> sent n" using nf out by (simp add: sent_def)
  show "(e \<in> sent n \<and> says (idle(i := g)) (put w i n') e) \<or>
      (says (idle(i := g)) (put w i n') e \<and> (\<forall>c. c \<noteq> i \<longrightarrow> candidate w c \<longrightarrow> fits (put w i n') c e))"
    if "e \<in> sent n'" for e
    using says_mono [OF gr sent_says [OF h]] sub that by blast
  show "fits (put w i n') i e" if "\<not> nd_failed n'" "nd_role n' = Candidate" "e \<in> cl_net w \<union> sent n'" for e
    using cnd [OF that(1,2)] holds_fits [OF h nf] that(3) sub by (intro fits_same_candidacy [OF gr]) auto
qed

lemma put_append:
  assumes "nd_store n' = nd_store n @ [r]"
  shows "lvote (put w i n') s a b v \<longleftrightarrow>
      lvote (put w i n) s a b v \<or> (a = i \<and> i \<in> set (cl_members w) \<and> r = AcceptedRec \<lparr>pv_Ballot = b, pv_Slot = s, pv_Value = v\<rparr>)"
    "lprom (put w i n') a = (if a = i then st_promised (nd_store n') else lprom (put w i n) a)"
    "lmax (put w i n') a = (if a = i then st_maxRound (nd_store n') else lmax (put w i n) a)"
  using assms by (cases "a = i"; force simp: lvote_def lprom_def lmax_def)+

lemma lprom_put: "lprom (put w i n) i = st_promised (nd_store n)"
  by (simp add: lprom_def)

lemma lmax_put: "lmax (put w i n) i = st_maxRound (nd_store n)"
  by (simp add: lmax_def)

lemma holds_append:
  assumes h: "holds g w i n" and nf: "\<not> nd_failed n" and st: "nd_store n' = nd_store n @ [r]"
    and r: "\<And>pv. r \<noteq> AcceptedRec pv" "st_maxRound (nd_store n) \<le> st_maxRound (nd_store n')"
      "st_promised (nd_store n) \<le> st_promised (nd_store n')"
      "\<And>e. r = ChosenRec e \<Longrightarrow> lchosen (put w i n) (le_Slot e) (le_Ballot e) (le_Value e)"
    and fx: "fixed_ok (put w i n) i n'" and loc: "\<not> nd_failed n' \<Longrightarrow> local_ok n'"
    and rol: "\<not> nd_failed n' \<Longrightarrow> role_ok g (put w i n) i n'"
      "\<not> nd_failed n' \<Longrightarrow> nd_role n' \<noteq> Follower \<Longrightarrow> st_promised (nd_store n') \<le> nd_ballot n'"
    and out: "nd_out n' = nd_out n"
    and cnd: "\<not> nd_failed n' \<Longrightarrow> nd_role n' = Candidate \<Longrightarrow>
        nd_role n = Candidate \<and> nd_ballot n' = nd_ballot n \<and> ph_fromSlot (nd_phase1 n') = ph_fromSlot (nd_phase1 n)"
  shows "holds g w i n'"
proof -
  have vo: "lvote (put w i n') = lvote (put w i n)" using r(1) by (auto simp: put_append(1) [OF st] fun_eq_iff)
  have gr: "grows (put w i n) (put w i n')"
    using r(2,3) by (auto simp: grows_def vo votes_extend_def put_append(2,3) [OF st] lprom_put lmax_put)
  show ?thesis
  proof (rule holds_grow [OF h nf gr _ fx loc _ _ out cnd])
    have acc: "st_accepted (nd_store n') = st_accepted (nd_store n)" using r(1) by (cases r) (auto simp: st)
    note so = holdsD(4) [OF h]
    show "store_ok (put w i n') i"
      unfolding store_ok_def vo
    proof (intro conjI allI impI)
      fix s b v assume "lvote (put w i n) s i b v"
      then have "b \<le> lprom (put w i n) i \<and> b \<noteq> zero_ballot \<and> s \<noteq> 0 \<and>
          (\<exists>q. fmlookup (st_accepted (nd_store n)) s = Some q \<and> b \<le> pv_Ballot q)"
        using so unfolding store_ok_def by (metis put_sel(2))
      then show "b \<le> lprom (put w i n') i" "b \<noteq> zero_ballot" "s \<noteq> 0"
        "\<exists>q. fmlookup (st_accepted (lstore (put w i n') i)) s = Some q \<and> b \<le> pv_Ballot q"
        using order_trans [OF _ r(3)] by (auto simp: lprom_put acc)
    next
      fix e assume "ChosenRec e \<in> set (lstore (put w i n') i)"
      then have "lchosen (put w i n) (le_Slot e) (le_Ballot e) (le_Value e)"
        using so r(4) by (auto simp: st store_ok_def)
      then show "lchosen (put w i n') (le_Slot e) (le_Ballot e) (le_Value e)" by (rule lchosen_mono [OF gr])
    qed
    show "role_ok g (put w i n') i n'" if "\<not> nd_failed n'"
      by (rule role_ok_mono [OF gr _ _ rol(1) [OF that]]) (use rol(2) [OF that] in \<open>simp_all add: vo lprom_put\<close>)
    show "vote_ok (put w i n') s b v" if "lvote (put w i n') s i b v" "\<not> lvote (put w i n) s i b v" for s b v
      using that by (simp add: vo)
  qed
qed

lemma holds_vote:
  assumes h: "holds g w i n" and nf: "\<not> nd_failed n"
    and st: "nd_store n' = nd_store n @ [AcceptedRec \<lparr>pv_Ballot = b, pv_Slot = s, pv_Value = v\<rparr>]"
    and b: "b = st_promised (nd_store n)" "b \<noteq> zero_ballot" "s \<noteq> 0"
    and J: "lvote (put w i n) s (Node b) b v \<or> nd_role n = Leader \<and> snd g = Some (b, s, v)"
    and fx: "stable n' = stable n" and loc: "\<not> nd_failed n' \<Longrightarrow> local_ok n'" and off: "\<not> nd_failed n' \<Longrightarrow> office n' = office n"
    and out: "nd_out n' = nd_out n"
  shows "holds g w i n'"
proof -
  note i = holdsD(1) [OF h]
  note inv = holdsD(2) [OF h]
  note vote = put_append(1) [OF st]
  have prom: "st_promised (nd_store n') = b" using b by (simp add: st)
  have gr: "grows (put w i n) (put w i n')"
    using b(1) by (auto simp: grows_def votes_extend_def vote put_append(2,3) [OF st] prom lprom_put lmax_put) (simp add: st)
  have lead: "b = nd_ballot n \<and> Node b = i \<and> Round b \<le> lmax (put w i n) i \<and> lsafe (put w i n) s b v \<and>
      (\<forall>v'. lvote (put w i n) s i b v' \<longrightarrow> v' = v)" if "nd_role n = Leader \<and> snd g = Some (b, s, v)"
    using holdsD(7) [OF h nf] that by (auto simp: role_ok_def lead_ok_def)
  have vok: "vote_ok (put w i n') s b v"
  proof (cases "lvote (put w i n) s (Node b) b v")
    case True
    note o = voteD [OF inv True]
    have "v' = v" if "lvote (put w i n') s (Node b) b v'" for v' using that o(5) by (auto simp: vote)
    then show ?thesis
      using growsD(4) [OF gr True] order_trans [OF o(3) growsD(2) [OF gr]] lsafe_mono [OF gr o(4)] unfolding vote_ok_def by blast
  next
    case False
    with J lead have l: "b = nd_ballot n" "Node b = i" "Round b \<le> lmax (put w i n) i" "lsafe (put w i n) s b v"
      "\<And>v'. lvote (put w i n) s i b v' \<Longrightarrow> v' = v" by auto
    have "lvote (put w i n') s (Node b) b v" using i by (simp add: vote l(2))
    moreover have "v' = v" if "lvote (put w i n') s (Node b) b v'" for v' using that l(5) by (auto simp: vote l(2))
    moreover have "Round b \<le> lmax (put w i n') (Node b)" using order_trans [OF l(3) growsD(2) [OF gr]] l(2) by simp
    ultimately show ?thesis using lsafe_mono [OF gr l(4)] unfolding vote_ok_def by blast
  qed
  show ?thesis
  proof (rule holds_grow [OF h nf gr _ _ loc _ _ out])
    note so = holdsD(4) [OF h]
    have old: "c \<le> lprom (put w i n) i \<and> c \<noteq> zero_ballot \<and> t \<noteq> 0 \<and>
        (\<exists>q. fmlookup (st_accepted (nd_store n)) t = Some q \<and> c \<le> pv_Ballot q)" if "lvote (put w i n) t i c x" for t c x
      using so that unfolding store_ok_def by (metis put_sel(2))
    show "store_ok (put w i n') i"
      unfolding store_ok_def
    proof (intro conjI allI impI)
      fix t c x assume "lvote (put w i n') t i c x"
      then consider "lvote (put w i n) t i c x" | "t = s" "c = b" "x = v" by (auto simp: vote)
      then show "c \<le> lprom (put w i n') i" "c \<noteq> zero_ballot" "t \<noteq> 0"
        "\<exists>q. fmlookup (st_accepted (lstore (put w i n') i)) t = Some q \<and> c \<le> pv_Ballot q"
        using old [of t c x] b prom by (cases; auto simp: lprom_put st)+
    next
      fix e assume "ChosenRec e \<in> set (lstore (put w i n') i)"
      then have "lchosen (put w i n) (le_Slot e) (le_Ballot e) (le_Value e)"
        using so by (auto simp: st store_ok_def)
      then show "lchosen (put w i n') (le_Slot e) (le_Ballot e) (le_Value e)" by (rule lchosen_mono [OF gr])
    qed
    show "fixed_ok (put w i n) i n'" by (rule fixed_ok_stable [OF holdsD(5) [OF h] fx]) (auto simp: st)
    show "role_ok g (put w i n') i n'" if nf': "\<not> nd_failed n'"
    proof (rule role_ok_mono [OF gr _ _ role_ok_office [OF off [OF nf'] holdsD(7) [OF h nf]]])
      have o: "nd_role n' = nd_role n" "nd_ballot n' = nd_ballot n" using off [OF nf'] by (simp_all add: office_def)
      show "lvote (put w i n) t i (nd_ballot n') x \<or> nd_role n' = Leader \<and> snd g = Some (nd_ballot n', t, x)"
        if "nd_role n' \<noteq> Follower" "lvote (put w i n') t i (nd_ballot n') x" for t x
      proof (cases "lvote (put w i n) t i (nd_ballot n') x")
        case False
        with that(2) have e: "t = s" "nd_ballot n = b" "x = v" by (auto simp: vote o)
        show ?thesis
        proof (cases "nd_role n = Leader \<and> snd g = Some (b, s, v)")
          case no: False
          with J have "lvote (put w i n) s (Node b) b v" by blast
          with False e have "Node b \<noteq> i" by (auto simp: o)
          then show ?thesis using holdsD(7) [OF h nf] e that(1) by (simp add: role_ok_def o)
        qed (use e o in simp)
      qed simp
      show "lprom (put w i n') i \<le> nd_ballot n'" if "nd_role n' \<noteq> Follower"
        using holdsD(7) [OF h nf] that b(1) by (simp add: lprom_put prom o role_ok_def)
    qed
    show "vote_ok (put w i n') t c x" if "lvote (put w i n') t i c x" "\<not> lvote (put w i n) t i c x" for t c x
      using that vok by (auto simp: vote)
    show "nd_role n = Candidate \<and> nd_ballot n' = nd_ballot n \<and> ph_fromSlot (nd_phase1 n') = ph_fromSlot (nd_phase1 n)"
      if "\<not> nd_failed n'" "nd_role n' = Candidate" using off [OF that(1)] that(2) by (simp add: office_def)
  qed
qed

end
