(* ===== verification/LogHandlers.thy ===== *)
theory LogHandlers
  imports LogSteps
begin

text \<open>
  Every handler of a log node keeps the cluster invariant, whatever the outcome of its saves.
\<close>

section \<open>Changes the invariant does not read\<close>

lemma viewD:
  assumes "view n' = view n"
  shows "nd_role n' = nd_role n" "nd_failed n' = nd_failed n" "nd_store n' = nd_store n" "nd_cfg n' = nd_cfg n"
    "nd_out n' = nd_out n" "nd_promised n' = nd_promised n" "nd_ballot n' = nd_ballot n" "stable n' = stable n"
    "office n' = office n" "durable_view n' = durable_view n"
  using assms by (simp_all add: view_defs)

lemma emit_view: "(\<And>s x y. ev \<noteq> LearnConflict s x y) \<Longrightarrow> view (emit ev n) = view n"
  by (cases ev) (auto simp: emit_def view_defs)

lemma reset_election_view [simp]: "view (reset_election t n) = view n"
  by (simp add: reset_election_def randomElectionTimeout_def Let_def view_defs)

lemma refreshLease_view [simp]: "view (refreshLease now b n) = view n"
  by (simp add: refreshLease_def view_defs)

lemma noteLeader_view [simp]: "view (noteLeader now b n) = view n"
proof -
  let ?m = "reset_election now n"
  have "view (emit (LeaderChanged (Node b) b False) (?m\<lparr>nd_leaderHint := Node b, nd_leaderBallot := b\<rparr>)) =
      view (?m\<lparr>nd_leaderHint := Node b, nd_leaderBallot := b\<rparr>)" by (rule emit_view) simp
  also have "\<dots> = view ?m" by (simp add: view_defs)
  finally show ?thesis by (simp add: noteLeader_def Let_def)
qed

lemma begin_call_view [simp]: "view (begin_call now n) = view n"
proof -
  have "view (n\<lparr>nd_started := True\<rparr>) = view n" by (simp add: view_defs)
  then show ?thesis by (simp add: begin_call_def)
qed

lemma ack_read_view [simp]: "view (ack_read from acked seq n) = view n"
  by (auto simp: ack_read_def Let_def emit_def view_defs split: option.splits)

lemma fold_ack_read_view [simp]: "view (fold (ack_read from acked) seqs n) = view n"
  by (induction seqs arbitrary: n) simp_all

section \<open>Stepping down and saving\<close>

lemma fold_emit_reads:
  "fold (\<lambda>seq. emit (ReadFailed seq err)) seqs n = n\<lparr>nd_events := nd_events n @ map (\<lambda>seq. ReadFailed seq err) seqs\<rparr>"
  by (induction seqs arbitrary: n) (simp_all add: emit_def)

lemma stepDown_sel:
  "durable_view (stepDown now l lb wait n) = durable_view n" "stable (stepDown now l lb wait n) = stable n"
  "nd_role (stepDown now l lb wait n) = Follower" "nd_queue (stepDown now l lb wait n) = []"
  "nd_out (stepDown now l lb wait n) = nd_out n" "nd_failed (stepDown now l lb wait n) = nd_failed n"
  "nd_store (stepDown now l lb wait n) = nd_store n"
  by (simp_all add: stepDown_def Let_def fold_emit_reads emit_def reset_election_def randomElectionTimeout_def
      durable_view_def stable_def conflicts_def filter_empty_conv)

lemma holds_stepDown: "holds (k, None) w i n \<Longrightarrow> holds (0, None) w i (stepDown now l lb wait n)"
  by (erule holds_demote) (simp_all add: stepDown_sel)

lemma save_cases:
  obtains (ok) sv where "save r n = n\<lparr>nd_store := nd_store n @ [r], nd_saves := sv\<rparr>"
  | (kept) sv where "save r n = n\<lparr>nd_store := nd_store n @ [r], nd_saves := sv, nd_failed := True\<rparr>"
  | (lost) sv where "save r n = n\<lparr>nd_saves := sv, nd_failed := True\<rparr>"
proof (cases "nd_saves n")
  case Nil
  have "n\<lparr>nd_store := nd_store n @ [r]\<rparr> = n\<lparr>nd_store := nd_store n @ [r], nd_saves := []\<rparr>" using Nil by simp
  with Nil ok [of "[]"] show thesis by (simp add: save_def)
next
  case (Cons x os)
  then show thesis using ok kept lost by (cases x) (auto simp: save_def fail_def)
qed

lemma save_ok: "\<not> nd_failed (save r n) \<Longrightarrow> \<exists>sv. save r n = n\<lparr>nd_store := nd_store n @ [r], nd_saves := sv\<rparr>"
  by (rule save_cases [of r n]) auto

lemma save_store: "set (nd_store n) \<subseteq> set (nd_store (save r n))"
  by (rule save_cases [of r n]) auto

lemma holds_save:
  assumes h: "holds g w i n" and n0: "nd_store n0 = nd_store n" "stable n0 = stable n" "nd_out n0 = nd_out n" "\<not> nd_failed n0"
    and app: "\<And>m. nd_store m = nd_store n @ [r] \<Longrightarrow> stable m = stable n \<Longrightarrow> nd_out m = nd_out n \<Longrightarrow>
       (\<not> nd_failed m \<Longrightarrow> nd_promised m = nd_promised n0 \<and> nd_maxRound m = nd_maxRound n0 \<and>
          nd_accepted m = nd_accepted n0 \<and> nd_commitIndex m = nd_commitIndex n0 \<and> office m = office n0) \<Longrightarrow> holds g w i m"
  shows "holds g w i (save r n0)"
proof (cases rule: save_cases [of r n0])
  case (ok sv)
  show ?thesis unfolding ok by (rule app) (use n0 in \<open>simp_all add: stable_def conflicts_def office_def\<close>)
next
  case (kept sv)
  show ?thesis unfolding kept by (rule app) (use n0 in \<open>simp_all add: stable_def conflicts_def\<close>)
next
  case (lost sv)
  have "holds (0, None) w i (save r n0)" unfolding lost
    by (rule holds_fail [OF h]) (use n0 in \<open>simp_all add: stable_def conflicts_def\<close>)
  then show ?thesis by (rule holds_any) (simp add: lost)
qed

lemma local_okD:
  assumes "local_ok n"
  shows "nd_promised n = st_promised (nd_store n)" "Round (nd_promised n) \<le> nd_maxRound n"
    "st_maxRound (nd_store n) \<le> nd_maxRound n" "nd_accepted n = st_accepted (nd_store n)"
    "nd_chosen n = st_chosen (nd_store n)" "nd_commitIndex n < 2 ^ 64"
    "0 < s \<Longrightarrow> s \<le> nd_commitIndex n \<Longrightarrow> fmlookup (nd_chosen n) s \<noteq> None"
  using assms unfolding local_ok_def by blast+

text \<open>A saved round: the memory already holds it.\<close>

lemma holds_save_round:
  assumes h: "holds g w i n" and nf: "\<not> nd_failed n" and r: "nd_maxRound n \<le> r"
  shows "holds g w i (save (MaxRoundRec r) (n\<lparr>nd_maxRound := r\<rparr>))"
proof (rule holds_save [OF h])
  note l = local_okD [OF holdsD(6) [OF h nf]]
  fix m assume m: "nd_store m = nd_store n @ [MaxRoundRec r]" "stable m = stable n" "nd_out m = nd_out n"
    and mem: "\<not> nd_failed m \<Longrightarrow> nd_promised m = nd_promised (n\<lparr>nd_maxRound := r\<rparr>) \<and> nd_maxRound m = nd_maxRound (n\<lparr>nd_maxRound := r\<rparr>) \<and>
      nd_accepted m = nd_accepted (n\<lparr>nd_maxRound := r\<rparr>) \<and> nd_commitIndex m = nd_commitIndex (n\<lparr>nd_maxRound := r\<rparr>) \<and>
      office m = office (n\<lparr>nd_maxRound := r\<rparr>)"
  have o: "office (n\<lparr>nd_maxRound := r\<rparr>) = office n" by (simp add: office_def)
  show "holds g w i m"
  proof (rule holds_append [OF h nf m(1) _ _ _ _ _ _ _ _ m(3)])
    show "fixed_ok (put w i n) i m" by (rule fixed_ok_stable [OF holdsD(5) [OF h] m(2)]) (auto simp: m(1))
    assume nm: "\<not> nd_failed m"
    show "local_ok m" using l mem [OF nm] stableD [OF m(2)] r by (simp add: local_ok_def m(1))
    show "role_ok g (put w i n) i m" using role_ok_office [OF _ holdsD(7) [OF h nf]] mem [OF nm] o by simp
    show "st_promised (nd_store m) \<le> nd_ballot m" if "nd_role m \<noteq> Follower"
      using holdsD(7) [OF h nf] mem [OF nm] that by (simp add: m(1) role_ok_def lprom_put office_def)
    show "nd_role n = Candidate \<and> nd_ballot m = nd_ballot n \<and> ph_fromSlot (nd_phase1 m) = ph_fromSlot (nd_phase1 n)"
      if "nd_role m = Candidate" using mem [OF nm] that by (simp add: office_def)
  qed (use l r in \<open>simp_all add: m(1)\<close>)
qed (simp_all add: nf stable_def conflicts_def)

lemma holds_raise_round:
  assumes h: "holds g w i n" and nf: "\<not> nd_failed n"
  shows "holds g w i (raise_round b n)"
  using holds_save_round [OF h nf, of "Round b"] h by (simp add: raise_round_def)

lemma raise_round_sel:
  assumes "\<not> nd_failed (raise_round b n)"
  shows "office (raise_round b n) = office n" "stable (raise_round b n) = stable n" "nd_out (raise_round b n) = nd_out n"
    "nd_promised (raise_round b n) = nd_promised n" "nd_accepted (raise_round b n) = nd_accepted n"
    "Round b \<le> nd_maxRound (raise_round b n)" "nd_maxRound n \<le> nd_maxRound (raise_round b n)"
    "st_promised (nd_store (raise_round b n)) = st_promised (nd_store n)"
proof -
  have "raise_round b n = n \<and> Round b \<le> nd_maxRound n \<or>
      (\<exists>sv. raise_round b n = n\<lparr>nd_maxRound := Round b, nd_store := nd_store n @ [MaxRoundRec (Round b)], nd_saves := sv\<rparr> \<and> nd_maxRound n < Round b)"
    using save_ok [of "MaxRoundRec (Round b)" "n\<lparr>nd_maxRound := Round b\<rparr>"] assms by (auto simp: raise_round_def)
  then show "office (raise_round b n) = office n" "stable (raise_round b n) = stable n" "nd_out (raise_round b n) = nd_out n"
    "nd_promised (raise_round b n) = nd_promised n" "nd_accepted (raise_round b n) = nd_accepted n"
    "Round b \<le> nd_maxRound (raise_round b n)" "nd_maxRound n \<le> nd_maxRound (raise_round b n)"
    "st_promised (nd_store (raise_round b n)) = st_promised (nd_store n)"
    by (auto simp: office_def stable_def conflicts_def)
qed

section \<open>Promising\<close>

lemma holds_promise:
  assumes h: "holds g w i n" and nf: "\<not> nd_failed n" and b: "nd_promised n \<le> b" "Round b \<le> nd_maxRound n"
    and st: "nd_store m = nd_store n @ [PromisedRec b]" "stable m = stable n" "nd_out m = nd_out n"
    and mem: "\<not> nd_failed m \<Longrightarrow> nd_promised m = b \<and> nd_maxRound m = nd_maxRound n \<and> nd_accepted m = nd_accepted n \<and>
        nd_commitIndex m = nd_commitIndex n"
    and off: "\<not> nd_failed m \<Longrightarrow> (office m = office n \<and> (nd_role n \<noteq> Follower \<longrightarrow> b \<le> nd_ballot n)) \<or>
        (nd_role m = Follower \<and> nd_queue m = [])"
  shows "holds g w i m"
proof (rule holds_append [OF h nf st(1) _ _ _ _ _ _ _ _ st(3)])
  note l = local_okD [OF holdsD(6) [OF h nf]]
  show "st_promised (nd_store n) \<le> st_promised (nd_store m)" using b(1) l(1) by (simp add: st(1))
  show "fixed_ok (put w i n) i m" by (rule fixed_ok_stable [OF holdsD(5) [OF h] st(2)]) (auto simp: st(1))
  assume nm: "\<not> nd_failed m"
  show "local_ok m" using l mem [OF nm] stableD [OF st(2)] b by (simp add: local_ok_def st(1))
  show "role_ok g (put w i n) i m"
    using off [OF nm] role_ok_office [OF _ holdsD(7) [OF h nf]] by (auto simp: role_ok_def)
  show "st_promised (nd_store m) \<le> nd_ballot m" if "nd_role m \<noteq> Follower"
    using off [OF nm] that by (auto simp: st(1) office_def)
  show "nd_role n = Candidate \<and> nd_ballot m = nd_ballot n \<and> ph_fromSlot (nd_phase1 m) = ph_fromSlot (nd_phase1 n)"
    if "nd_role m = Candidate" using off [OF nm] that by (auto simp: office_def)
qed (simp_all add: st(1))

lemma setPromised_holds:
  assumes h: "holds g w i n" and nf: "\<not> nd_failed n" and b: "nd_promised n \<le> b"
  shows "holds g w i (setPromised now b n)"
proof (cases "nd_failed (raise_round b n)")
  case True
  then show ?thesis using holds_raise_round [OF h nf] by (simp add: setPromised_def Let_def)
next
  case False
  let ?n1 = "raise_round b n"
  note h1 = holds_raise_round [OF h nf, of b]
  note s1 = raise_round_sel [OF False]
  let ?n0 = "?n1\<lparr>nd_promised := b\<rparr>"
  have P: "holds g w i m"
    if "nd_store m = nd_store ?n1 @ [PromisedRec b]" "stable m = stable ?n1" "nd_out m = nd_out ?n1"
      "\<not> nd_failed m \<Longrightarrow> nd_promised m = b \<and> nd_maxRound m = nd_maxRound ?n1 \<and> nd_accepted m = nd_accepted ?n1 \<and>
        nd_commitIndex m = nd_commitIndex ?n1"
      "\<not> nd_failed m \<Longrightarrow> (office m = office ?n1 \<and> (nd_role ?n1 \<noteq> Follower \<longrightarrow> b \<le> nd_ballot ?n1)) \<or> (nd_role m = Follower \<and> nd_queue m = [])"
    for m
    by (rule holds_promise [OF h1 False _ s1(6) that]) (use b s1 in simp)
  show ?thesis
  proof (cases rule: save_cases [of "PromisedRec b" ?n0])
    case (ok sv)
    let ?n2 = "save (PromisedRec b) ?n0"
    have n2: "nd_failed ?n2 = False" using False by (simp add: ok)
    show ?thesis
    proof (cases "nd_role ?n2 \<noteq> Follower \<and> Less (nd_ballot ?n2) b")
      case True
      then have "setPromised now b n = stepDown now (Node b) b 0 ?n2" using False n2 by (simp add: setPromised_def Let_def)
      moreover have "holds g w i (stepDown now (Node b) b 0 ?n2)"
      proof (rule P)
        have "durable_view (stepDown now (Node b) b 0 ?n2) = durable_view ?n2" by (simp add: stepDown_sel)
        then show "nd_promised (stepDown now (Node b) b 0 ?n2) = b \<and> nd_maxRound (stepDown now (Node b) b 0 ?n2) = nd_maxRound ?n1 \<and>
            nd_accepted (stepDown now (Node b) b 0 ?n2) = nd_accepted ?n1 \<and> nd_commitIndex (stepDown now (Node b) b 0 ?n2) = nd_commitIndex ?n1"
          by (simp add: durable_view_def ok)
      qed (simp_all add: stepDown_sel ok, simp add: stable_def conflicts_def)
      ultimately show ?thesis by simp
    next
      case no: False
      then have "setPromised now b n = ?n2" using False n2 by (auto simp: setPromised_def Let_def)
      moreover have "holds g w i ?n2"
        by (rule P) (use no in \<open>auto simp: ok stable_def conflicts_def office_def not_less\<close>)
      ultimately show ?thesis by simp
    qed
  next
    case (kept sv)
    have "setPromised now b n = save (PromisedRec b) ?n0" using False by (simp add: setPromised_def Let_def kept)
    moreover have "holds g w i (save (PromisedRec b) ?n0)"
      by (rule P) (auto simp: kept stable_def conflicts_def)
    ultimately show ?thesis by simp
  next
    case (lost sv)
    have "setPromised now b n = save (PromisedRec b) ?n0" using False by (simp add: setPromised_def Let_def lost)
    moreover have "holds (0, None) w i (save (PromisedRec b) ?n0)"
      by (rule holds_fail [OF h1]) (simp_all add: lost stable_def conflicts_def)
    ultimately show ?thesis using holds_any [of "(0, None)" w i "setPromised now b n" g] by (simp add: lost)
  qed
qed

lemma setPromised_sel:
  assumes "\<not> nd_failed (setPromised now b n)"
  shows "nd_promised (setPromised now b n) = b" "nd_accepted (setPromised now b n) = nd_accepted n"
    "nd_out (setPromised now b n) = nd_out n" "stable (setPromised now b n) = stable n"
    "nd_role n = Follower \<or> \<not> nd_ballot n < b \<Longrightarrow> office (setPromised now b n) = office n"
    "nd_role n \<noteq> Follower \<Longrightarrow> nd_ballot n < b \<Longrightarrow> nd_role (setPromised now b n) = Follower"
proof -
  let ?n1 = "raise_round b n"
  have f1: "\<not> nd_failed ?n1" using assms by (auto simp: setPromised_def Let_def)
  note s1 = raise_round_sel [OF f1]
  have r: "nd_role ?n1 = nd_role n" "nd_ballot ?n1 = nd_ballot n" using s1(1) by (simp_all add: office_def)
  let ?n2 = "save (PromisedRec b) (?n1\<lparr>nd_promised := b\<rparr>)"
  have f2: "\<not> nd_failed ?n2" using assms f1 by (auto simp: setPromised_def Let_def)
  obtain sv where n2: "?n2 = ?n1\<lparr>nd_promised := b, nd_store := nd_store ?n1 @ [PromisedRec b], nd_saves := sv\<rparr>"
    using save_ok [OF f2] by auto
  have eq: "setPromised now b n = (if nd_role n \<noteq> Follower \<and> nd_ballot n < b then stepDown now (Node b) b 0 ?n2 else ?n2)"
    using f1 f2 by (simp add: setPromised_def Let_def n2 r)
  have d: "nd_promised (stepDown now (Node b) b 0 ?n2) = b" "nd_accepted (stepDown now (Node b) b 0 ?n2) = nd_accepted n"
    using stepDown_sel(1) [of now "Node b" b 0 ?n2] s1(5) by (simp_all add: durable_view_def n2)
  have o2: "office ?n2 = office n" "stable ?n2 = stable n"
    using s1(1,2) by (simp_all add: n2 office_def stable_def conflicts_def)
  show "nd_promised (setPromised now b n) = b" "nd_accepted (setPromised now b n) = nd_accepted n"
    "nd_out (setPromised now b n) = nd_out n" "stable (setPromised now b n) = stable n"
    "nd_role n = Follower \<or> \<not> nd_ballot n < b \<Longrightarrow> office (setPromised now b n) = office n"
    "nd_role n \<noteq> Follower \<Longrightarrow> nd_ballot n < b \<Longrightarrow> nd_role (setPromised now b n) = Follower"
    using d o2 s1(3,5) by (auto simp: eq stepDown_sel) (simp_all add: n2 s1)
qed

section \<open>Messages without content\<close>

definition plain :: "message \<Rightarrow> bool" where
  "plain m \<longleftrightarrow> (case m of Nack _ \<Rightarrow> True | LearnRequest _ _ \<Rightarrow> True | Heartbeat _ \<Rightarrow> True | HeartbeatAck _ \<Rightarrow> True | _ \<Rightarrow> False)"

lemma plain_says: "plain (nv_Msg e) \<Longrightarrow> says G w e" "plain (nv_Msg e) \<Longrightarrow> fits w c e"
  by (auto simp: plain_def says_def fits_def Let_def split: message.splits)

lemma send_holds:
  assumes h: "holds g w i n"
    and own: "\<not> nd_failed n \<Longrightarrow> to = i \<Longrightarrow> holds g w i (inl n)"
    and msg: "\<And>e. \<not> nd_failed n \<Longrightarrow> to \<noteq> i \<Longrightarrow> nv_From e = i \<Longrightarrow> nv_Msg e = m \<Longrightarrow>
        says (idle(i := g)) (put w i n) e \<and> (\<forall>c. c \<noteq> i \<longrightarrow> candidate w c \<longrightarrow> fits (put w i n) c e) \<and>
        (nd_role n = Candidate \<longrightarrow> fits (put w i n) i e)"
  shows "holds g w i (send inl to m n)"
proof (cases "nd_failed n")
  case False
  have self: "Self n = i" using fixedD(1) [OF holdsD(5) [OF h]] .
  show ?thesis
  proof (cases "to = i")
    case False
    let ?e = "\<lparr>nv_From = i, nv_To = to, nv_Msg = m\<rparr>"
    have "holds g w i (n\<lparr>nd_out := nd_out n @ [?e]\<rparr>)"
      by (rule holds_push [OF h \<open>\<not> nd_failed n\<close>]) (use msg [OF \<open>\<not> nd_failed n\<close> False, of ?e] in simp_all)
    then show ?thesis using False \<open>\<not> nd_failed n\<close> by (simp add: send_def self)
  qed (use own False in \<open>simp add: send_def self\<close>)
qed (use h in \<open>simp add: send_def\<close>)

lemma send_plain:
  assumes "holds g w i n" and "plain m" and "\<not> nd_failed n \<Longrightarrow> to = i \<Longrightarrow> holds g w i (inl n)"
  shows "holds g w i (send inl to m n)"
  by (rule send_holds [OF assms(1)]) (use assms(2,3) plain_says in auto)

section \<open>Nacks and heartbeats\<close>

lemma onNack_holds:
  assumes h: "holds (0, None) w i n" and nf: "\<not> nd_failed n"
  shows "holds (0, None) w i (onNack now m n)"
proof -
  have "holds (0, None) w i (stepDown now l lb wait (raise_round b n))" for l lb wait b
    using holds_stepDown [OF holds_raise_round [OF h nf]] .
  then show ?thesis using h holds_raise_round [OF h nf] by (simp add: onNack_def Let_def)
qed

lemma onHeartbeatAck_holds:
  assumes h: "holds (0, None) w i n" and nf: "\<not> nd_failed n"
  shows "holds (0, None) w i (onHeartbeatAck now from m n)"
proof -
  have "holds (0, None) w i (stepDown now l lb wait (raise_round b n))" for l lb wait b
    using holds_stepDown [OF holds_raise_round [OF h nf]] .
  moreover have "view (n\<lparr>nd_contacts := c\<rparr>) = view n" for c by (simp add: view_defs)
  then have "holds (0, None) w i (n\<lparr>nd_contacts := c\<rparr>)" for c using holds_view [OF h] by blast
  moreover from this have "holds (0, None) w i (fold (ack_read from acked) seqs (n\<lparr>nd_contacts := c\<rparr>))" for acked seqs c
    by (rule holds_view) simp
  ultimately show ?thesis using h holds_raise_round [OF h nf] by (simp add: onHeartbeatAck_def Let_def)
qed

lemma onHeartbeat_holds:
  assumes h: "holds (0, None) w i n" and nf: "\<not> nd_failed n"
  shows "holds (0, None) w i (onHeartbeat now from m n)"
proof -
  let ?b = "hb_Ballot m"
  define ack where "ack = (\<lambda>n :: node. \<lparr>ha_Ballot = ?b, ha_Promised = nd_promised n, ha_CommitIndex = nd_commitIndex n, ha_ReadSeq = hb_ReadSeq m\<rparr>)"
  define reply where "reply = (\<lambda>n. send (onHeartbeatAck now (Self n) (ack n)) from (HeartbeatAck (ack n)) n)"
  have R: "holds (0, None) w i (reply n')" if "holds (0, None) w i n'" for n'
    unfolding reply_def by (rule send_plain [OF that]) (use onHeartbeatAck_holds [OF that] in \<open>simp_all add: plain_def\<close>)
  define n1 where "n1 = (if Less (nd_promised n) ?b then setPromised now ?b n else n)"
  have h1: "holds (0, None) w i n1" using h setPromised_holds [OF h nf] by (simp add: n1_def)
  define n3 where "n3 = (if from \<noteq> Self (refreshLease now ?b n1) then noteLeader now ?b (refreshLease now ?b n1) else refreshLease now ?b n1)"
  have h3: "holds (0, None) w i n3" by (rule holds_view [OF h1]) (simp add: n3_def)
  define n5 where "n5 = (reply n3)\<lparr>nd_learnReqAfter := s64 (now + cf_HeartbeatInterval (nd_cfg (reply n3)))\<rparr>"
  have "view n5 = view (reply n3)" by (simp add: n5_def view_defs)
  then have h5: "holds (0, None) w i n5" using holds_view [OF R [OF h3]] by blast
  have sf: "Self (reply n3) = i" "Self n5 = i" using fixedD(1) holdsD(5) [OF R [OF h3]] holdsD(5) [OF h5] by auto
  have h6: "holds (0, None) w i (send id from (LearnRequest (u64 (nd_commitIndex (reply n3) + 1)) (cf_LearnBatch (nd_cfg (reply n3)))) n5)"
    by (rule send_plain [OF h5]) (simp_all add: plain_def h5)
  have eq: "onHeartbeat now from m n =
      (if IsZero ?b then n else if Less ?b (nd_promised n) then reply n
       else if nd_failed n1 then n1
       else if from \<noteq> Self (reply n3) \<and> hb_CommitIndex m > nd_commitIndex (reply n3) \<and> now \<ge> nd_learnReqAfter (reply n3)
       then send id from (LearnRequest (u64 (nd_commitIndex (reply n3) + 1)) (cf_LearnBatch (nd_cfg (reply n3)))) n5
       else reply n3)"
    unfolding onHeartbeat_def Let_def n5_def n3_def n1_def reply_def ack_def by (rule refl)
  show ?thesis unfolding eq using h R [OF h] h1 h6 R [OF h3] by simp
qed

section \<open>Learning\<close>

lemma advance_spec:
  assumes "fmlookup (nd_chosen n) 0 = None" and "nd_commitIndex n < 2 ^ 64"
    and "\<And>s. 0 < s \<Longrightarrow> s \<le> nd_commitIndex n \<Longrightarrow> fmlookup (nd_chosen n) s \<noteq> None"
  shows "\<exists>c. advance k n = n\<lparr>nd_commitIndex := c\<rparr> \<and> nd_commitIndex n \<le> c \<and> c < 2 ^ 64 \<and>
      (\<forall>s. 0 < s \<longrightarrow> s \<le> c \<longrightarrow> fmlookup (nd_chosen n) s \<noteq> None)"
  using assms
proof (induction k arbitrary: n)
  case 0
  have "n = n\<lparr>nd_commitIndex := nd_commitIndex n\<rparr>" by simp
  with 0 show ?case by (metis advance.simps(1) order_refl)
next
  case (Suc k)
  show ?case
  proof (cases "fmlookup (nd_chosen n) (u64 (nd_commitIndex n + 1))")
    case None
    have "n = n\<lparr>nd_commitIndex := nd_commitIndex n\<rparr>" by simp
    with Suc.prems None show ?thesis by (metis advance.simps(2) order_refl)
  next
    case (Some e)
    then have "u64 (nd_commitIndex n + 1) \<noteq> 0" using Suc.prems(1) by (metis option.distinct(1))
    then have u: "u64 (nd_commitIndex n + 1) = nd_commitIndex n + 1" "nd_commitIndex n + 1 < 2 ^ 64"
      using Suc.prems(2) by (auto simp: u64_def mod_if split: if_splits)
    let ?m = "n\<lparr>nd_commitIndex := nd_commitIndex n + 1\<rparr>"
    have p: "fmlookup (nd_chosen n) s \<noteq> None" if "0 < s" "s \<le> nd_commitIndex n + 1" for s
      using Suc.prems(3) [of s] that Some u(1) by (cases "s = nd_commitIndex n + 1") auto
    obtain c where "advance k ?m = ?m\<lparr>nd_commitIndex := c\<rparr>" "nd_commitIndex ?m \<le> c" "c < 2 ^ 64"
        "\<forall>s. 0 < s \<longrightarrow> s \<le> c \<longrightarrow> fmlookup (nd_chosen ?m) s \<noteq> None"
      using Suc.IH [of ?m] Suc.prems(1) u(2) p by (simp del: One_nat_def) blast
    then show ?thesis using Some u(1) by (intro exI [of _ c]) simp
  qed
qed

lemma holds_chosen_slots:
  assumes h: "holds g w i n" and nf: "\<not> nd_failed n" and e: "fmlookup (nd_chosen n) s = Some e"
  shows "s \<noteq> 0" "lchosen (put w i n) s (le_Ballot e) (le_Value e)"
proof -
  have "ChosenRec e \<in> set (nd_store n)" "le_Slot e = s" using fixedD(5) [OF holdsD(5) [OF h] e] by auto
  then show c: "lchosen (put w i n) s (le_Ballot e) (le_Value e)" using holdsD(4) [OF h] by (auto simp: store_ok_def)
  show "s \<noteq> 0" using lchosen_voted [OF c] voteD(8) [OF holdsD(2) [OF h]] by blast
qed

text \<open>What the queue-draining loop must provide to the handlers that call it.\<close>

definition slots_left :: "node \<Rightarrow> bool" where
  "slots_left n \<longleftrightarrow> nd_nextSlot n + length (nd_queue n) + 1 < 2 ^ 64"

lemma slots_left_code [code]: "slots_left n \<longleftrightarrow> nd_nextSlot n + length (nd_queue n) + 1 < 18446744073709551616"
  by (simp add: slots_left_def)

definition drains :: "cluster \<Rightarrow> node_id \<Rightarrow> (node \<Rightarrow> node) \<Rightarrow> bool" where
  "drains w i D \<longleftrightarrow>
     (\<forall>m. holds (0, None) w i m \<longrightarrow> \<not> nd_failed m \<longrightarrow> nd_role m = Leader \<longrightarrow> slots_left m \<longrightarrow>
        holds (0, None) w i (D m) \<and> set (nd_store m) \<subseteq> set (nd_store (D m)))"

lemma drainsD:
  assumes "drains w i D" and "holds (0, None) w i m" and "\<not> nd_failed m" and "nd_role m = Leader" and "slots_left m"
  shows "holds (0, None) w i (D m)" "set (nd_store m) \<subseteq> set (nd_store (D m))"
  using assms unfolding drains_def by blast+

lemma learn_with_holds:
  assumes h: "holds (0, None) w i n" and nf: "\<not> nd_failed n"
    and e: "lchosen (put w i n) (le_Slot e) (le_Ballot e) (le_Value e)"
    and D: "drains w i D" and sl: "nd_role n = Leader \<Longrightarrow> slots_left n"
  shows "holds (0, None) w i (learn_with D e n)"
    "\<not> nd_failed (learn_with D e n) \<Longrightarrow> ChosenRec e \<in> set (nd_store (learn_with D e n))"
proof -
  note l = local_okD [OF holdsD(6) [OF h nf]]
  let ?n1 = "save (ChosenRec e) n"
  let ?m1 = "?n1\<lparr>nd_chosen := fmupd (le_Slot e) e (nd_chosen ?n1), nd_proposals := fmdrop (le_Slot e) (nd_proposals ?n1)\<rparr>"
  have A: "holds (0, None) w i m"
    if st: "nd_store m = nd_store n @ [ChosenRec e]" "nd_out m = nd_out n" and fx: "fixed_ok (put w i n) i m"
      and m: "\<not> nd_failed m \<Longrightarrow> local_ok m" "\<not> nd_failed m \<Longrightarrow> role_ok (0, None) (put w i n) i m"
        "\<not> nd_failed m \<Longrightarrow> nd_role m = nd_role n \<and> nd_ballot m = nd_ballot n \<and> ph_fromSlot (nd_phase1 m) = ph_fromSlot (nd_phase1 n)" for m
  proof (rule holds_append [OF h nf st(1) _ _ _ _ fx m(1,2) _ st(2)])
    show "st_promised (nd_store m) \<le> nd_ballot m" if "\<not> nd_failed m" "nd_role m \<noteq> Follower"
      using m(2) [OF that(1)] that(2) by (simp add: st(1) role_ok_def lprom_put)
  qed (use e m(3) in \<open>auto simp: st(1)\<close>)
  consider (failed) "nd_failed ?n1" | (ok) sv where "?n1 = n\<lparr>nd_store := nd_store n @ [ChosenRec e], nd_saves := sv\<rparr>"
    using save_ok by blast
  then have "holds (0, None) w i (learn_with D e n) \<and>
      (\<not> nd_failed (learn_with D e n) \<longrightarrow> ChosenRec e \<in> set (nd_store (learn_with D e n)))"
  proof cases
    case failed
    have "holds (0, None) w i ?n1"
    proof (cases rule: save_cases [of "ChosenRec e" n])
      case (ok sv)
      with failed nf show ?thesis by simp
    next
      case (kept sv)
      have "fixed_ok (put w i n) i ?n1"
        by (rule fixed_ok_stable [OF holdsD(5) [OF h]]) (auto simp: kept stable_def conflicts_def)
      then show ?thesis by (intro A) (simp_all add: kept)
    next
      case (lost sv)
      show ?thesis by (rule holds_fail [OF h]) (simp_all add: lost stable_def conflicts_def)
    qed
    with failed show ?thesis by (simp add: learn_with_def Let_def)
  next
    case ok
    have z: "le_Slot e \<noteq> 0" using lchosen_voted [OF e] voteD(8) [OF holdsD(2) [OF h]] by blast
    have ch0: "fmlookup (nd_chosen n) 0 = None" using holds_chosen_slots(1) [OF h nf, of 0] by (cases "fmlookup (nd_chosen n) 0") auto
    have pre: "fmlookup (nd_chosen ?m1) s \<noteq> None" if "0 < s" "s \<le> nd_commitIndex ?m1" for s
      using l(7) [OF that(1)] that(2) by (simp add: ok)
    obtain c where c: "advanceCommit ?m1 = ?m1\<lparr>nd_commitIndex := c\<rparr>" "nd_commitIndex n \<le> c" "c < 2 ^ 64"
        "\<And>s. 0 < s \<Longrightarrow> s \<le> c \<Longrightarrow> fmlookup (nd_chosen ?m1) s \<noteq> None"
      using advance_spec [of ?m1 "fmsize (nd_chosen ?m1)"] ch0 z l(6) pre by (auto simp: advanceCommit_def ok)
    let ?n2 = "?m1\<lparr>nd_commitIndex := c\<rparr>"
    have h2: "holds (0, None) w i ?n2"
    proof (rule A)
      show "fixed_ok (put w i n) i ?n2"
        using holdsD(5) [OF h] c(3,4) by (auto simp: fixed_ok_def ok)
      show "local_ok ?n2" using l c(3,4) by (simp add: local_ok_def ok)
      show "role_ok (0, None) (put w i n) i ?n2"
        using holdsD(7) [OF h nf] c(2) by (auto simp: role_ok_def cand_ok_def lead_ok_def ok)
    qed (simp_all add: ok)
    have eq: "learn_with D e n = (if nd_role n = Leader then D ?n2 else ?n2)"
      using nf c(1) by (simp add: learn_with_def Let_def ok)
    show ?thesis
    proof (cases "nd_role n = Leader")
      case True
      have "slots_left ?n2" using sl [OF True] by (simp add: slots_left_def ok)
      moreover have "\<not> nd_failed ?n2" "nd_role ?n2 = Leader" using nf True by (simp_all add: ok)
      ultimately have "holds (0, None) w i (D ?n2)" "set (nd_store ?n2) \<subseteq> set (nd_store (D ?n2))"
        using drainsD [OF D h2] by blast+
      moreover have "ChosenRec e \<in> set (nd_store ?n2)" by (simp add: ok)
      ultimately show ?thesis using True unfolding eq by auto
    qed (use h2 in \<open>simp add: eq ok\<close>)
  qed
  then show "holds (0, None) w i (learn_with D e n)"
    "\<not> nd_failed (learn_with D e n) \<Longrightarrow> ChosenRec e \<in> set (nd_store (learn_with D e n))" by blast+
qed

section \<open>Growth of one node's store\<close>

lemma append_grows:
  assumes st: "nd_store n' = nd_store n @ [r]"
    and "\<And>k. r = MaxRoundRec k \<Longrightarrow> st_maxRound (nd_store n) \<le> k"
    and "\<And>b. r = PromisedRec b \<Longrightarrow> st_promised (nd_store n) \<le> b"
    and "\<And>pv. r = AcceptedRec pv \<Longrightarrow> st_promised (nd_store n) \<le> pv_Ballot pv"
  shows "grows (put w i n) (put w i n')"
proof -
  have "st_maxRound (nd_store n) \<le> st_maxRound (nd_store n')" "st_promised (nd_store n) \<le> st_promised (nd_store n')"
    using assms by (cases r; simp add: st)+
  then show ?thesis
    using assms(4) by (auto simp: grows_def votes_extend_def put_append [OF st] lprom_put lmax_put)
qed

lemma grows_trans: "grows a b \<Longrightarrow> grows b c \<Longrightarrow> grows a c"
  unfolding grows_def by (metis order_trans votes_extend_trans)

lemma save_grows:
  assumes "nd_store n0 = nd_store n"
    and "\<And>k. r = MaxRoundRec k \<Longrightarrow> st_maxRound (nd_store n) \<le> k"
    and "\<And>b. r = PromisedRec b \<Longrightarrow> st_promised (nd_store n) \<le> b"
    and "\<And>pv. r = AcceptedRec pv \<Longrightarrow> st_promised (nd_store n) \<le> pv_Ballot pv"
  shows "grows (put w i n) (put w i (save r n0))"
proof (cases rule: save_cases [of r n0])
  case lost
  then show ?thesis using put_same(1) [of "save r n0" n w i] assms(1) by simp
qed (use assms in \<open>auto intro!: append_grows\<close>)

lemma raise_round_grows:
  assumes "local_ok n"
  shows "grows (put w i n) (put w i (raise_round b n))"
  using local_okD(3) [OF assms] put_same(1) [of n n w i]
  by (auto simp: raise_round_def intro!: save_grows)

lemma setPromised_grows:
  assumes h: "holds g w i n" and nf: "\<not> nd_failed n" and b: "nd_promised n \<le> b"
  shows "grows (put w i n) (put w i (setPromised now b n))"
proof -
  let ?n1 = "raise_round b n"
  have g1: "grows (put w i n) (put w i ?n1)" by (rule raise_round_grows [OF holdsD(6) [OF h nf]])
  show ?thesis
  proof (cases "nd_failed ?n1")
    case True
    with g1 show ?thesis by (simp add: setPromised_def Let_def)
  next
    case False
    let ?n2 = "save (PromisedRec b) (?n1\<lparr>nd_promised := b\<rparr>)"
    have "st_promised (nd_store ?n1) \<le> b"
      using raise_round_sel(8) [OF False] b local_okD(1) [OF holdsD(6) [OF h nf]] by simp
    then have "grows (put w i ?n1) (put w i ?n2)" by (intro save_grows) auto
    moreover have "nd_store (setPromised now b n) = nd_store ?n2"
      using False by (simp add: setPromised_def Let_def stepDown_sel)
    then have "grows (put w i ?n2) (put w i (setPromised now b n))" by (rule put_same(1))
    ultimately show ?thesis using grows_trans [OF g1] grows_trans by blast
  qed
qed

lemma setPromised_votes: "AcceptedRec pv \<in> set (nd_store (setPromised now b n)) \<longleftrightarrow> AcceptedRec pv \<in> set (nd_store n)"
proof -
  have s: "AcceptedRec pv \<in> set (nd_store (save r n')) \<longleftrightarrow> AcceptedRec pv \<in> set (nd_store n')"
    if "r = MaxRoundRec k \<or> r = PromisedRec c" for r n' k c
    using that by (cases rule: save_cases [of r n']) auto
  show ?thesis
    using s by (auto simp: setPromised_def raise_round_def Let_def stepDown_sel)
qed

end
