(* ===== verification/LogPhase2.thy ===== *)
theory LogPhase2
  imports LogHandlers
begin

text \<open>
  Phase 2 keeps the invariant: accepting, counting acceptances, proposing and draining the queue. In
  a cluster of at least two nodes a leader's own acceptance is never a quorum, so a proposal made
  inside a call does not learn anything inside that call.
\<close>

section \<open>Sending to the other nodes\<close>

abbreviation to_others :: "message \<Rightarrow> node \<Rightarrow> envelope list" where
  "to_others m n \<equiv> map (\<lambda>p. \<lparr>nv_From = Self n, nv_To = p, nv_Msg = m\<rparr>) (filter (\<lambda>p. p \<noteq> Self n) (Peers n))"

lemma fold_others:
  "fold (\<lambda>p n'. if p = Self n' \<and> \<not> False then n' else send inl p m n') ps n =
     (if nd_failed n then n else n\<lparr>nd_out := nd_out n @
        map (\<lambda>p. \<lparr>nv_From = Self n, nv_To = p, nv_Msg = m\<rparr>) (filter (\<lambda>p. p \<noteq> Self n) ps)\<rparr>)"
  by (induction ps arbitrary: n) (simp_all add: send_def)

lemma broadcast_others:
  "broadcast inl m False n = (if nd_failed n then n else n\<lparr>nd_out := nd_out n @ to_others m n\<rparr>)"
  unfolding broadcast_def by (rule fold_others)

lemma holds_push_list:
  assumes h: "holds g w i n" and nf: "\<not> nd_failed n"
    and e: "\<And>e. e \<in> set es \<Longrightarrow> says (idle(i := g)) (put w i n) e \<and>
        (\<forall>c. c \<noteq> i \<longrightarrow> candidate w c \<longrightarrow> fits (put w i n) c e) \<and> (nd_role n = Candidate \<longrightarrow> fits (put w i n) i e)"
  shows "holds g w i (n\<lparr>nd_out := nd_out n @ es\<rparr>)"
  using e
proof (induction es rule: rev_induct)
  case Nil
  have "n\<lparr>nd_out := nd_out n @ []\<rparr> = n" by simp
  then show ?case using h by simp
next
  case (snoc x xs)
  let ?m = "n\<lparr>nd_out := nd_out n @ xs\<rparr>"
  have m: "holds g w i ?m" using snoc by simp
  have s: "nd_store ?m = nd_store n" "office ?m = office n" by (simp_all add: office_def)
  have "x \<in> set (xs @ [x])" by simp
  note sx = snoc.prems [OF this]
  have x: "says (idle(i := g)) (put w i n) x" "\<And>c. c \<noteq> i \<Longrightarrow> candidate w c \<Longrightarrow> fits (put w i n) c x"
    "nd_role n = Candidate \<Longrightarrow> fits (put w i n) i x" using sx by blast+
  have "holds g w i (?m\<lparr>nd_out := nd_out ?m @ [x]\<rparr>)"
  proof (rule holds_push [OF m])
    show "says (idle(i := g)) (put w i ?m) x" using x(1) by (simp only: view_cong(3) [OF s(1)])
    show "fits (put w i ?m) c x" if "c \<noteq> i" "candidate w c" for c using x(2) that fits_cong [OF s(1)] by blast
    show "fits (put w i ?m) i x" if "nd_role ?m = Candidate" using x(3) that fits_office [OF s(2,1)] by simp
  qed (use nf in simp)
  then show ?case by simp
qed

lemma broadcast_others_holds:
  assumes h: "holds g w i n"
    and e: "\<And>e. \<not> nd_failed n \<Longrightarrow> nv_From e = i \<Longrightarrow> nv_Msg e = m \<Longrightarrow> says (idle(i := g)) (put w i n) e \<and>
        (\<forall>c. c \<noteq> i \<longrightarrow> candidate w c \<longrightarrow> fits (put w i n) c e) \<and> (nd_role n = Candidate \<longrightarrow> fits (put w i n) i e)"
  shows "holds g w i (broadcast inl m False n)"
proof (cases "nd_failed n")
  case False
  have "Self n = i" using fixedD(1) [OF holdsD(5) [OF h]] .
  then have "holds g w i (n\<lparr>nd_out := nd_out n @ to_others m n\<rparr>)"
    by (intro holds_push_list [OF h False] e [OF False]) auto
  then show ?thesis using False by (simp add: broadcast_others)
qed (simp add: broadcast_others h)

section \<open>Counting acceptances\<close>

lemma holds_count:
  assumes h: "holds g w i n" and nf: "\<not> nd_failed n" and p: "nd_role n = Leader" "fmlookup (nd_proposals n) s = Some p"
    and v: "lvote (put w i n) s from (nd_ballot n) (pp_value p)"
  shows "holds g w i (n\<lparr>nd_proposals := fmupd s (p\<lparr>pp_accepts := finsert from (pp_accepts p)\<rparr>) (nd_proposals n)\<rparr>)"
    (is "holds g w i ?n")
proof (rule holds_mem [OF h])
  have r: "role_ok g (put w i n) i n" by (rule holdsD(7) [OF h nf])
  then have l: "lead_ok g (put w i n) i n" using p(1) by (simp add: role_ok_def)
  then have "lead_ok g (put w i n) i ?n" using p(2) v unfolding lead_ok_def by auto
  then show "role_ok g (put w i n) i ?n" using r p(1) by (auto simp: role_ok_def)
  show "local_ok ?n" using holdsD(6) [OF h nf] by (simp add: local_ok_view [of ?n n] durable_view_def stable_def conflicts_def)
  show "(e \<in> sent n \<and> says (idle(i := g)) (put w i n) e) \<or>
      (says (idle(i := g)) (put w i n) e \<and> (\<forall>c. c \<noteq> i \<longrightarrow> candidate w c \<longrightarrow> fits (put w i n) c e))" if "e \<in> sent ?n" for e
    using sent_says [OF h] that nf by (simp add: sent_def)
qed (use p(1) in \<open>simp_all add: stable_def conflicts_def\<close>)

lemma onAccepted_with_holds:
  assumes h: "holds (0, None) w i n" and nf: "\<not> nd_failed n" and v: "lvote (put w i n) s from b v"
    and D: "drains w i D" and sl: "nd_role n = Leader \<Longrightarrow> slots_left n"
  shows "holds (0, None) w i (onAccepted_with D from b s n)"
proof (cases "nd_role n = Leader \<and> b = nd_ballot n \<and> fmlookup (nd_proposals n) s \<noteq> None")
  case False
  then show ?thesis using h by (auto simp: onAccepted_with_def split: option.splits)
next
  case True
  then obtain p where p: "nd_role n = Leader" "b = nd_ballot n" "fmlookup (nd_proposals n) s = Some p" by auto
  note inv = holdsD(2) [OF h]
  have l: "lead_ok (0, None) (put w i n) i n" using holdsD(7) [OF h nf] p(1) by (simp add: role_ok_def)
  have own: "lvote (put w i n) s i b (pp_value p)" using l p unfolding lead_ok_def by auto
  have v': "lvote (put w i n) s from (nd_ballot n) (pp_value p)" using voteD(5) [OF inv own v] v p(2) by simp
  let ?p = "p\<lparr>pp_accepts := finsert from (pp_accepts p)\<rparr>"
  let ?n1 = "n\<lparr>nd_proposals := fmupd s ?p (nd_proposals n)\<rparr>"
  have h1: "holds (0, None) w i ?n1" by (rule holds_count [OF h nf p(1,3) v'])
  show ?thesis
  proof (cases "fcard (pp_accepts ?p) < nd_quorum n")
    case True
    with p h1 show ?thesis by (simp add: onAccepted_with_def Let_def)
  next
    case False
    let ?e = "\<lparr>le_Slot = s, le_Ballot = nd_ballot n, le_Value = pp_value p\<rparr>"
    have votes: "lvote (put w i n) s c (nd_ballot n) (pp_value p)" if "c |\<in>| pp_accepts ?p" for c
      using l p(3) v' that unfolding lead_ok_def by auto
    have "majority (cl_members (put w i n)) (fset (pp_accepts ?p))"
      using voteD(1) [OF inv votes] False fixedD(4) [OF holdsD(5) [OF h]] by (auto simp: majority_def fcard.rep_eq)
    then have "lchosen (put w i n) s (nd_ballot n) (pp_value p)"
      using votes unfolding lchosen_def chosen_at_def by blast
    then have ch: "lchosen (put w i ?n1) s (nd_ballot n) (pp_value p)" by (simp add: view_cong(7) [of ?n1 n])
    have "nd_role ?n1 = Leader \<Longrightarrow> slots_left ?n1" using sl p(1) by (simp add: slots_left_def)
    note L = learn_with_holds [OF h1 _ _ D this, of ?e]
    let ?n2 = "learn_with D ?e ?n1"
    have h2: "holds (0, None) w i ?n2" using L(1) nf ch by simp
    have eq: "onAccepted_with D from b s n =
        (if nd_failed ?n2 then ?n2 else broadcast id (Learn s (nd_ballot n) (pp_value p)) False ?n2)"
      using p False by (simp add: onAccepted_with_def Let_def)
    have "holds (0, None) w i (broadcast id (Learn s (nd_ballot n) (pp_value p)) False ?n2)" if "\<not> nd_failed ?n2"
    proof (rule broadcast_others_holds [OF h2])
      have "ChosenRec ?e \<in> set (nd_store ?n2)" using L(2) nf ch that by simp
      then have "lchosen (put w i ?n2) s (nd_ballot n) (pp_value p)"
        using holdsD(4) [OF h2] unfolding store_ok_def by (metis put_sel(2) log_entry.select_convs)
      then show "says (idle(i := (0, None))) (put w i ?n2) e \<and> (\<forall>c. c \<noteq> i \<longrightarrow> candidate w c \<longrightarrow> fits (put w i ?n2) c e) \<and>
          (nd_role ?n2 = Candidate \<longrightarrow> fits (put w i ?n2) i e)"
        if "nv_Msg e = Learn s (nd_ballot n) (pp_value p)" for e
        using that by (simp add: says_def fits_def Let_def)
    qed
    then show ?thesis unfolding eq using h2 by simp
  qed
qed

section \<open>Accepting\<close>

text \<open>The part of \<^verbatim>\<open>onAccept\<close> between the promise check and the reply.\<close>

definition accept_body :: "int \<Rightarrow> node_id \<Rightarrow> ballot \<Rightarrow> slot \<Rightarrow> paxos_value \<Rightarrow> node \<Rightarrow> node" where
  "accept_body now from b s v n =
     (let n1 = (if Less (nd_promised n) b then setPromised now b n else n)
      in if nd_failed n1 then n1
         else let pv = \<lparr>pv_Ballot = b, pv_Slot = s, pv_Value = v\<rparr>; n2 = save (AcceptedRec pv) n1
              in if nd_failed n2 then n2
                 else let n3 = refreshLease now b (n2\<lparr>nd_accepted := fmupd s pv (nd_accepted n2)\<rparr>)
                      in if from \<noteq> Self n3 then noteLeader now b n3 else n3)"

lemma onAccept_with_body:
  "onAccept_with D now from b s v n =
     (if IsZero b \<or> s = 0 then n
      else if \<not> (MayAccept (nd_promised n) b \<or> knob uk_AcceptBelowPromise n)
      then let m = \<lparr>nk_Ballot = b, nk_Promised = nd_promised n, nk_Slot = s, nk_LeaseRemaining = 0\<rparr>
           in send (onNack now m) from (Nack m) n
      else let n4 = accept_body now from b s v n
           in if nd_failed n4 then n4 else send (onAccepted_with D (Self n4) b s) from (Accepted b s) n4)"
proof -
  have f: "nd_failed (noteLeader now b m) = nd_failed m" "nd_failed (refreshLease now b m) = nd_failed m" for m
    using viewD(2) [OF noteLeader_view] viewD(2) [OF refreshLease_view] by blast+
  show ?thesis unfolding onAccept_with_def accept_body_def Let_def by (simp add: f)
qed

lemma accept_body_holds:
  assumes h: "holds g w i n" and nf: "\<not> nd_failed n" and b: "nd_promised n \<le> b" "b \<noteq> zero_ballot" "s \<noteq> 0"
    and J: "lvote (put w i n) s (Node b) b v \<or> nd_role n = Leader \<and> snd g = Some (b, s, v)"
  shows "holds g w i (accept_body now from b s v n)"
    "grows (put w i n) (put w i (accept_body now from b s v n))"
    "\<not> nd_failed (accept_body now from b s v n) \<Longrightarrow> lvote (put w i (accept_body now from b s v n)) s i b v"
    "\<not> nd_failed (accept_body now from b s v n) \<Longrightarrow> nd_role n = Follower \<or> \<not> nd_ballot n < b \<Longrightarrow>
       office (accept_body now from b s v n) = office n \<and> nd_out (accept_body now from b s v n) = nd_out n \<and>
       stable (accept_body now from b s v n) = stable n"
    "AcceptedRec pv \<in> set (nd_store (accept_body now from b s v n)) \<Longrightarrow>
       AcceptedRec pv \<in> set (nd_store n) \<or> pv = \<lparr>pv_Ballot = b, pv_Slot = s, pv_Value = v\<rparr>"
proof -
  define n1 where "n1 = (if Less (nd_promised n) b then setPromised now b n else n)"
  let ?pv = "\<lparr>pv_Ballot = b, pv_Slot = s, pv_Value = v\<rparr>"
  let ?r = "accept_body now from b s v n"
  have body: "?r = (if nd_failed n1 then n1 else if nd_failed (save (AcceptedRec ?pv) n1) then save (AcceptedRec ?pv) n1
      else let n2 = save (AcceptedRec ?pv) n1; n3 = refreshLease now b (n2\<lparr>nd_accepted := fmupd s ?pv (nd_accepted n2)\<rparr>)
           in if from \<noteq> Self n3 then noteLeader now b n3 else n3)"
    unfolding accept_body_def n1_def Let_def by (rule refl)
  have h1: "holds g w i n1" using h setPromised_holds [OF h nf b(1)] by (simp add: n1_def)
  have g1: "grows (put w i n) (put w i n1)"
    using setPromised_grows [OF h nf b(1)] put_same(1) [of n n w i] by (simp add: n1_def)
  have v1: "AcceptedRec pv \<in> set (nd_store n1) \<longleftrightarrow> AcceptedRec pv \<in> set (nd_store n)" for pv
    by (simp add: n1_def setPromised_votes)
  have "holds g w i ?r \<and> grows (put w i n) (put w i ?r) \<and>
      (AcceptedRec pv \<in> set (nd_store ?r) \<longrightarrow> AcceptedRec pv \<in> set (nd_store n) \<or> pv = ?pv) \<and>
      (\<not> nd_failed ?r \<longrightarrow> lvote (put w i ?r) s i b v \<and>
        (nd_role n = Follower \<or> \<not> nd_ballot n < b \<longrightarrow> office ?r = office n \<and> nd_out ?r = nd_out n \<and> stable ?r = stable n))"
  proof (cases "nd_failed n1")
    case True
    then have "?r = n1" by (simp add: body)
    with True h1 g1 v1 show ?thesis by simp
  next
    case False
    have p1: "nd_promised n1 = b"
      using setPromised_sel(1) [of now b n] False b(1) by (cases "nd_promised n < b") (auto simp: n1_def)
    have st1: "st_promised (nd_store n1) = b" using local_okD(1) [OF holdsD(6) [OF h1 False]] p1 by simp
    have o1: "office n1 = office n \<and> nd_out n1 = nd_out n \<and> stable n1 = stable n" if "nd_role n = Follower \<or> \<not> nd_ballot n < b"
      using setPromised_sel(3-5) [of now b n] False that by (cases "nd_promised n < b") (auto simp: n1_def)
    have J1: "lvote (put w i n1) s (Node b) b v \<or> nd_role n1 = Leader \<and> snd g = Some (b, s, v)"
    proof (cases "lvote (put w i n) s (Node b) b v")
      case no: False
      with J have ld: "nd_role n = Leader" "snd g = Some (b, s, v)" by auto
      then have "nd_ballot n = b" using holdsD(7) [OF h nf] by (auto simp: role_ok_def lead_ok_def)
      then show ?thesis using o1 ld by (simp add: office_def)
    qed (use growsD(4) [OF g1] in blast)
    let ?n2 = "save (AcceptedRec ?pv) n1"
    have g2: "grows (put w i n1) (put w i ?n2)" by (rule save_grows) (use st1 in auto)
    show ?thesis
    proof (cases "nd_failed ?n2")
      case True
      then have r: "?r = ?n2" using False by (simp add: body Let_def)
      have "holds g w i ?n2"
      proof (cases rule: save_cases [of "AcceptedRec ?pv" n1])
        case (kept sv)
        show ?thesis
          by (rule holds_vote [OF h1 False _ st1 [symmetric] b(2,3) J1]) (simp_all add: kept stable_def conflicts_def)
      next
        case (lost sv)
        have "holds (0, None) w i ?n2"
          by (rule holds_fail [OF h1]) (simp_all add: lost stable_def conflicts_def)
        then show ?thesis by (rule holds_any) (simp add: lost)
      qed (use True False in simp)
      moreover have "AcceptedRec pv \<in> set (nd_store ?n2) \<Longrightarrow> AcceptedRec pv \<in> set (nd_store n1) \<or> pv = ?pv"
        by (cases rule: save_cases [of "AcceptedRec ?pv" n1]) auto
      ultimately show ?thesis using True grows_trans [OF g1 g2] v1 unfolding r by blast
    next
      case f2: False
      from save_ok [OF f2] obtain sv where n2: "?n2 = n1\<lparr>nd_store := nd_store n1 @ [AcceptedRec ?pv], nd_saves := sv\<rparr>" by blast
      let ?m = "?n2\<lparr>nd_accepted := fmupd s ?pv (nd_accepted ?n2)\<rparr>"
      have vw: "view ?r = view ?m"
        using False f2 by (simp add: body Let_def)
      have hm: "holds g w i ?m"
      proof (rule holds_vote [OF h1 False _ st1 [symmetric] b(2,3) J1])
        show "local_ok ?m" using holdsD(6) [OF h1 False] by (auto simp: local_ok_def n2)
      qed (simp_all add: n2 stable_def conflicts_def office_def)
      have hr: "holds g w i ?r" by (rule holds_view [OF hm vw])
      have sr: "nd_store ?r = nd_store n1 @ [AcceptedRec ?pv]" using viewD(3) [OF vw] by (simp add: n2)
      have "grows (put w i ?n2) (put w i ?r)" by (rule put_same(1)) (simp add: sr n2)
      with grows_trans [OF g1 grows_trans [OF g2]] have "grows (put w i n) (put w i ?r)" by blast
      moreover have "lvote (put w i ?r) s i b v" using holdsD(1) [OF h] by (simp add: lvote_def sr)
      moreover have "office ?r = office n1" "nd_out ?r = nd_out n1" "stable ?r = stable n1"
        using viewD(9,5,8) [OF vw] by (simp_all add: n2 office_def stable_def conflicts_def)
      moreover have "AcceptedRec pv \<in> set (nd_store ?r) \<longrightarrow> AcceptedRec pv \<in> set (nd_store n) \<or> pv = ?pv"
        using v1 unfolding sr by auto
      ultimately show ?thesis using hr o1 by metis
    qed
  qed
  then show "holds g w i ?r" "grows (put w i n) (put w i ?r)" "\<not> nd_failed ?r \<Longrightarrow> lvote (put w i ?r) s i b v"
    "\<not> nd_failed ?r \<Longrightarrow> nd_role n = Follower \<or> \<not> nd_ballot n < b \<Longrightarrow> office ?r = office n \<and> nd_out ?r = nd_out n \<and> stable ?r = stable n"
    "AcceptedRec pv \<in> set (nd_store ?r) \<Longrightarrow> AcceptedRec pv \<in> set (nd_store n) \<or> pv = ?pv" by blast+
qed

end
