(* ===== verification/LogPropose.thy ===== *)
theory LogPropose
  imports LogPhase2
begin

text \<open>
  A leader proposes: the slot is announced to the other acceptors while the leader votes for it itself.
  In a cluster of at least two nodes its own vote is not a quorum, so nothing is learned inside
  \<^verbatim>\<open>propose\<close>. The queue-draining loop is a sequence of proposals at fresh slots.
\<close>

section \<open>Stores only grow\<close>

lemma raise_round_store: "set (nd_store n) \<subseteq> set (nd_store (raise_round b n))"
  using save_store [of "n\<lparr>nd_maxRound := Round b\<rparr>"] by (simp add: raise_round_def)

lemma setPromised_store: "set (nd_store n) \<subseteq> set (nd_store (setPromised now b n))"
proof -
  let ?n1 = "raise_round b n"
  have "set (nd_store ?n1) \<subseteq> set (nd_store (save (PromisedRec b) (?n1\<lparr>nd_promised := b\<rparr>)))"
    using save_store [of "?n1\<lparr>nd_promised := b\<rparr>"] by simp
  with raise_round_store [of n b] show ?thesis by (auto simp: setPromised_def Let_def stepDown_sel)
qed

lemma accept_body_store: "set (nd_store n) \<subseteq> set (nd_store (accept_body now from b s v n))"
proof -
  define n1 where "n1 = (if Less (nd_promised n) b then setPromised now b n else n)"
  let ?n2 = "save (AcceptedRec \<lparr>pv_Ballot = b, pv_Slot = s, pv_Value = v\<rparr>) n1"
  have 1: "set (nd_store n) \<subseteq> set (nd_store n1)" using setPromised_store by (simp add: n1_def)
  have 2: "set (nd_store n1) \<subseteq> set (nd_store ?n2)" by (rule save_store)
  have v: "nd_store (noteLeader now b m) = nd_store m" "nd_store (refreshLease now b m) = nd_store m" for m
    using viewD(3) [OF noteLeader_view] viewD(3) [OF refreshLease_view] by blast+
  have "nd_store (accept_body now from b s v n) \<in> {nd_store n1, nd_store ?n2}"
    unfolding accept_body_def n1_def [symmetric] Let_def by (simp add: v)
  with 1 2 show ?thesis by auto
qed

lemma accept_body_demotes:
  assumes f: "\<not> nd_failed (accept_body now from b s v n)" and lt: "nd_promised n < b"
    and r: "nd_role n \<noteq> Follower" "nd_ballot n < b"
  shows "nd_role (accept_body now from b s v n) = Follower"
proof -
  let ?n1 = "setPromised now b n" and ?pv = "\<lparr>pv_Ballot = b, pv_Slot = s, pv_Value = v\<rparr>"
  let ?n2 = "save (AcceptedRec ?pv) ?n1"
  have v: "nd_role (noteLeader now b m) = nd_role m" "nd_role (refreshLease now b m) = nd_role m" for m
    using viewD(1) [OF noteLeader_view] viewD(1) [OF refreshLease_view] by blast+
  have f1: "\<not> nd_failed ?n1" "\<not> nd_failed ?n2" using f lt by (auto simp: accept_body_def Let_def split: if_splits)
  then have "nd_role ?n2 = nd_role ?n1" using save_ok [OF f1(2)] by auto
  moreover have "nd_role (accept_body now from b s v n) = nd_role ?n2"
    using f1 lt by (simp add: accept_body_def Let_def v)
  ultimately show ?thesis using setPromised_sel(6) [OF f1(1) r] by simp
qed

section \<open>An acceptor answers\<close>

lemma quorum_two: "holds g w i n \<Longrightarrow> 2 \<le> nd_quorum n"
  using cl_invD(1) [OF holdsD(2)] fixedD(4) [OF holdsD(5)] by (fastforce simp: Quorum_def)

lemma holds_knob: "holds g w i n \<Longrightarrow> \<not> knob f n"
  using fixedD(3) [OF holdsD(5)] by (fastforce simp: knob_def)

lemma holds_Self: "holds g w i n \<Longrightarrow> Self n = i"
  using fixedD(1) [OF holdsD(5)] .

lemma onAccept_with_holds:
  assumes h: "holds (0, None) w i n" and nf: "\<not> nd_failed n" and v: "lvote (put w i n) s (Node b) b v"
    and D: "drains w i D" and sl: "nd_role n = Leader \<Longrightarrow> slots_left n"
  shows "holds (0, None) w i (onAccept_with D now from b s v n)"
proof (cases "MayAccept (nd_promised n) b")
  case False
  let ?m = "\<lparr>nk_Ballot = b, nk_Promised = nd_promised n, nk_Slot = s, nk_LeaseRemaining = 0\<rparr>"
  have "holds (0, None) w i (send (onNack now ?m) from (Nack ?m) n)"
    by (rule send_plain [OF h]) (simp_all add: plain_def onNack_holds [OF h])
  then show ?thesis using False h holds_knob [OF h] by (simp add: onAccept_with_body Let_def)
next
  case True
  note vd = voteD [OF holdsD(2) [OF h] v]
  let ?r = "accept_body now from b s v n"
  have le: "nd_promised n \<le> b" using True by (simp add: MayAccept_def)
  note A = accept_body_holds(1-4) [OF h nf le vd(7,8) disjI1 [OF v], of now "from"]
  have S: "holds (0, None) w i (send (onAccepted_with D (Self ?r) b s) from (Accepted b s) ?r)" if f: "\<not> nd_failed ?r"
  proof (rule send_holds [OF A(1)])
    note vr = A(3) [OF f]
    show "says (idle(i := (0, None))) (put w i ?r) e \<and> (\<forall>c. c \<noteq> i \<longrightarrow> candidate w c \<longrightarrow> fits (put w i ?r) c e) \<and>
        (nd_role ?r = Candidate \<longrightarrow> fits (put w i ?r) i e)" if "nv_From e = i" "nv_Msg e = Accepted b s" for e
      using vr that by (auto simp: says_def fits_def Let_def)
    have "slots_left ?r" if "nd_role ?r = Leader"
    proof (cases "nd_role n = Follower \<or> \<not> nd_ballot n < b")
      case True
      then have "office ?r = office n" using A(4) [OF f] by blast
      then show ?thesis using sl that by (simp add: slots_left_def office_def)
    next
      case stepped: False
      then have lt: "nd_promised n < b" using le holdsD(7) [OF h nf] local_okD(1) [OF holdsD(6) [OF h nf]]
        by (auto simp: role_ok_def lprom_put)
      have "nd_role ?r = Follower" by (rule accept_body_demotes [OF f lt]) (use stepped in auto)
      with that show ?thesis by simp
    qed
    then show "holds (0, None) w i (onAccepted_with D (Self ?r) b s ?r)"
      using onAccepted_with_holds [OF A(1) f _ D, of s i b v] vr holds_Self [OF A(1)] by simp
  qed
  show ?thesis using True A(1) S h by (simp add: onAccept_with_body Let_def)
qed

section \<open>Announcing a proposal\<close>

lemma holds_announce:
  assumes h: "holds (k, None) w i n" and nf: "\<not> nd_failed n" and ld: "nd_role n = Leader" and k: "k \<le> k'"
    and s: "s \<noteq> 0" "s < nd_nextSlot n + k'" "lsafe (put w i n) s (nd_ballot n) v"
      "\<And>v'. lvote (put w i n) s i (nd_ballot n) v' \<Longrightarrow> v' = v"
    and p: "pp_value p = v" "pp_accepts p = {||}"
  shows "holds (k', Some (nd_ballot n, s, v)) w i (n\<lparr>nd_proposals := fmupd s p (nd_proposals n)\<rparr>)"
    (is "holds ?g w i ?n")
proof (rule holds_mem [OF h])
  have r: "role_ok (k, None) (put w i n) i n" by (rule holdsD(7) [OF h nf])
  then have l: "lead_ok (k, None) (put w i n) i n" using ld by (simp add: role_ok_def)
  have "lead_ok ?g (put w i n) i ?n"
    unfolding lead_ok_def
  proof (intro conjI allI impI)
    show "nd_nextSlot ?n \<noteq> 0" using l by (simp add: lead_ok_def)
    show "t < nd_nextSlot ?n + fst ?g" if "lvote (put w i n) t i (nd_ballot ?n) x" for t x
    proof -
      have "t < nd_nextSlot n + k" using l that unfolding lead_ok_def by fastforce
      then show ?thesis using k by simp
    qed
    show "lfree (put w i n) t (nd_ballot ?n)" if "nd_nextSlot ?n + fst ?g \<le> t" for t
      using l that k unfolding lead_ok_def by simp
    fix t q assume q: "fmlookup (nd_proposals ?n) t = Some q"
    show "lvote (put w i n) t i (nd_ballot ?n) (pp_value q) \<or> snd ?g = Some (nd_ballot ?n, t, pp_value q)"
      using l q p unfolding lead_ok_def by (auto split: if_splits)
    show "lvote (put w i n) t c (nd_ballot ?n) (pp_value q)" if "c |\<in>| pp_accepts q" for c
      using l q p that unfolding lead_ok_def by (auto split: if_splits)
  qed (use s in auto)
  then show "role_ok ?g (put w i n) i ?n" using r ld by (auto simp: role_ok_def)
  show "local_ok ?n" using holdsD(6) [OF h nf] by (simp add: local_ok_view [of ?n n] durable_view_def stable_def conflicts_def)
  fix e assume "e \<in> sent ?n"
  then have e: "e \<in> sent n" using nf by (simp add: sent_def)
  have "says (idle(i := (k, None))) (put w i n) e" by (rule sent_says [OF h e])
  then have "says (idle(i := ?g)) (put w i n) e" by (auto simp: says_def split: message.splits if_splits)
  with e show "(e \<in> sent n \<and> says (idle(i := ?g)) (put w i n) e) \<or>
      (says (idle(i := ?g)) (put w i n) e \<and> (\<forall>c. c \<noteq> i \<longrightarrow> candidate w c \<longrightarrow> fits (put w i n) c e))" by blast
qed (use ld in \<open>simp_all add: stable_def conflicts_def\<close>)

text \<open>Once the leader has voted for it, or has failed, the announcement is no longer needed.\<close>

lemma holds_settle:
  assumes h: "holds (k, Some (b, s, v)) w i n" and r: "nd_failed n \<or> nd_role n = Leader \<and> lvote (put w i n) s i b v"
  shows "holds (k, None) w i n"
proof (cases "nd_failed n")
  case True
  then show ?thesis using holds_any [OF h] by blast
next
  case nf: False
  with r have ld: "nd_role n = Leader" and vt: "lvote (put w i n) s i b v" by auto
  show ?thesis
  proof (rule holds_mem [OF h refl refl])
    show "local_ok n" by (rule holdsD(6) [OF h nf])
    have ro: "role_ok (k, Some (b, s, v)) (put w i n) i n" by (rule holdsD(7) [OF h nf])
    then have l: "lead_ok (k, Some (b, s, v)) (put w i n) i n" using ld by (simp add: role_ok_def)
    then have "lead_ok (k, None) (put w i n) i n" using vt unfolding lead_ok_def by auto
    then show "role_ok (k, None) (put w i n) i n" using ro ld by (auto simp: role_ok_def)
    have nb: "Node b = i" using l ro ld by (auto simp: role_ok_def lead_ok_def)
    fix e assume e: "e \<in> sent n"
    have "says (idle(i := (k, Some (b, s, v)))) (put w i n) e" by (rule sent_says [OF h e])
    then have "says (idle(i := (k, None))) (put w i n) e"
      using vt nb by (auto simp: says_def split: message.splits if_splits)
    with e show "(e \<in> sent n \<and> says (idle(i := (k, None))) (put w i n) e) \<or>
      (says (idle(i := (k, None))) (put w i n) e \<and> (\<forall>c. c \<noteq> i \<longrightarrow> candidate w c \<longrightarrow> fits (put w i n) c e))" by blast
  qed (use ld in simp)
qed

text \<open>The slot counter catches up with the slots taken.\<close>

lemma holds_bump:
  assumes h: "holds (Suc k, None) w i n" and nf: "\<not> nd_failed n" and ld: "nd_role n = Leader" and r: "nd_nextSlot n + 1 < 2 ^ 64"
  shows "holds (k, None) w i (bump_slot n)"
proof (rule holds_mem [OF h])
  have b: "bump_slot n = n\<lparr>nd_nextSlot := nd_nextSlot n + 1\<rparr>" using r by (simp add: bump_slot_def u64_def)
  have ro: "role_ok (Suc k, None) (put w i n) i n" by (rule holdsD(7) [OF h nf])
  then have l: "lead_ok (Suc k, None) (put w i n) i n" using ld by (simp add: role_ok_def)
  then have "lead_ok (k, None) (put w i n) i (bump_slot n)" unfolding lead_ok_def b by auto
  then show "role_ok (k, None) (put w i n) i (bump_slot n)" using ro ld by (auto simp: role_ok_def b)
  have "durable_view (bump_slot n) = durable_view n" "stable (bump_slot n) = stable n"
    by (simp_all add: bump_slot_def durable_view_def stable_def conflicts_def)
  then show "local_ok (bump_slot n)" using holdsD(6) [OF h nf] local_ok_view by blast
  fix e assume "e \<in> sent (bump_slot n)"
  then have e: "e \<in> sent n" using nf by (simp add: b sent_def)
  have "says (idle(i := (Suc k, None))) (put w i n) e" by (rule sent_says [OF h e])
  then have "says (idle(i := (k, None))) (put w i n) e" by (auto simp: says_def split: message.splits if_splits)
  with e show "(e \<in> sent n \<and> says (idle(i := (k, None))) (put w i n) e) \<or>
      (says (idle(i := (k, None))) (put w i n) e \<and> (\<forall>c. c \<noteq> i \<longrightarrow> candidate w c \<longrightarrow> fits (put w i n) c e))" by blast
qed (use ld in \<open>simp_all add: bump_slot_def stable_def conflicts_def\<close>)

lemma holds_queue:
  assumes h: "holds g w i n" and nf: "\<not> nd_failed n" and ld: "nd_role n = Leader"
  shows "holds g w i (n\<lparr>nd_queue := q\<rparr>)" (is "holds g w i ?n")
proof (rule holds_mem [OF h])
  show "role_ok g (put w i n) i ?n" using holdsD(7) [OF h nf] ld by (auto simp: role_ok_def lead_ok_def)
  show "local_ok ?n" using holdsD(6) [OF h nf] by (simp add: local_ok_view [of ?n n] durable_view_def stable_def conflicts_def)
  show "(e \<in> sent n \<and> says (idle(i := g)) (put w i n) e) \<or>
      (says (idle(i := g)) (put w i n) e \<and> (\<forall>c. c \<noteq> i \<longrightarrow> candidate w c \<longrightarrow> fits (put w i n) c e))" if "e \<in> sent ?n" for e
    using sent_says [OF h] that nf by (simp add: sent_def)
qed (use ld in \<open>simp_all add: stable_def conflicts_def\<close>)

section \<open>Proposing\<close>

text \<open>What \<^verbatim>\<open>propose\<close> leaves alone, unless a save fails.\<close>

definition same_office :: "node \<Rightarrow> node \<Rightarrow> bool" where
  "same_office n m \<longleftrightarrow>
     stable m = stable n \<and> nd_role m = nd_role n \<and> nd_ballot m = nd_ballot n \<and> nd_nextSlot m = nd_nextSlot n \<and>
     nd_firstOwnSlot m = nd_firstOwnSlot n \<and> nd_queue m = nd_queue n"

lemma same_office_trans: "same_office a b \<Longrightarrow> same_office b c \<Longrightarrow> same_office a c"
  by (simp add: same_office_def)

lemma office_same: "office m = office n \<Longrightarrow> stable m = stable n \<Longrightarrow> same_office n m"
  by (simp add: same_office_def office_def)

text \<open>The state inside the broadcast of an Accept: announced, counted by nobody but the leader itself.\<close>

definition announced :: "nat \<Rightarrow> cluster \<Rightarrow> node_id \<Rightarrow> slot \<Rightarrow> paxos_value \<Rightarrow> node \<Rightarrow> node \<Rightarrow> bool" where
  "announced k w i s v n m \<longleftrightarrow>
     holds (k, Some (nd_ballot n, s, v)) w i m \<and> grows (put w i n) (put w i m) \<and> set (nd_store n) \<subseteq> set (nd_store m) \<and>
     (\<forall>pv. AcceptedRec pv \<in> set (nd_store m) \<longrightarrow>
        AcceptedRec pv \<in> set (nd_store n) \<or> pv = \<lparr>pv_Ballot = nd_ballot n, pv_Slot = s, pv_Value = v\<rparr>) \<and>
     (\<not> nd_failed m \<longrightarrow> same_office n m \<and>
        (\<exists>p. fmlookup (nd_proposals m) s = Some p \<and> pp_value p = v \<and> fset (pp_accepts p) \<subseteq> {i}))"

lemma announcedD:
  assumes "announced k w i s v n m"
  shows "holds (k, Some (nd_ballot n, s, v)) w i m" "grows (put w i n) (put w i m)" "set (nd_store n) \<subseteq> set (nd_store m)"
    "AcceptedRec pv \<in> set (nd_store m) \<Longrightarrow> AcceptedRec pv \<in> set (nd_store n) \<or> pv = \<lparr>pv_Ballot = nd_ballot n, pv_Slot = s, pv_Value = v\<rparr>"
    "\<not> nd_failed m \<Longrightarrow> same_office n m"
    "\<not> nd_failed m \<Longrightarrow> \<exists>p. fmlookup (nd_proposals m) s = Some p \<and> pp_value p = v \<and> fset (pp_accepts p) \<subseteq> {i}"
  using assms unfolding announced_def by blast+

lemma accept_body_announced:
  assumes a: "announced k w i s v n m" and nf: "\<not> nd_failed m" and ld: "nd_role n = Leader"
    and b: "b = nd_ballot n" and r: "r = accept_body now from b s v m"
  shows "announced k w i s v n r" "\<not> nd_failed r \<Longrightarrow> lvote (put w i r) s i b v"
proof -
  note d = announcedD [OF a]
  note so = d(5) [OF nf]
  have ro: "role_ok (k, Some (nd_ballot n, s, v)) (put w i m) i m" by (rule holdsD(7) [OF d(1) nf])
  have lm: "nd_role m = Leader" "nd_ballot m = b" using so ld b by (simp_all add: same_office_def)
  have le: "nd_promised m \<le> b" "b \<noteq> zero_ballot" "s \<noteq> 0"
    using ro lm local_okD(1) [OF holdsD(6) [OF d(1) nf]] b by (auto simp: role_ok_def lead_ok_def lprom_put)
  have J: "lvote (put w i m) s (Node b) b v \<or> nd_role m = Leader \<and> snd (k, Some (nd_ballot n, s, v)) = Some (b, s, v)"
    using lm(1) b by simp
  note A = accept_body_holds [OF d(1) nf le J]
  have "grows (put w i n) (put w i r)" using grows_trans [OF d(2) A(2)] by (simp add: r)
  moreover have "set (nd_store n) \<subseteq> set (nd_store r)" using d(3) accept_body_store unfolding r by blast
  moreover have "AcceptedRec pv \<in> set (nd_store r) \<longrightarrow> AcceptedRec pv \<in> set (nd_store n) \<or> pv = \<lparr>pv_Ballot = nd_ballot n, pv_Slot = s, pv_Value = v\<rparr>" for pv
    using A(5) d(4) b unfolding r by blast
  moreover have "same_office n r \<and> (\<exists>p. fmlookup (nd_proposals r) s = Some p \<and> pp_value p = v \<and> fset (pp_accepts p) \<subseteq> {i})" if f: "\<not> nd_failed r"
  proof -
    have e: "office r = office m" "stable r = stable m" using A(4) [of now "from"] f lm(2) unfolding r by auto
    obtain p where p: "fmlookup (nd_proposals m) s = Some p" "pp_value p = v" "fset (pp_accepts p) \<subseteq> {i}" using d(6) [OF nf] by blast
    have "fmmap (\<lambda>p. (pp_value p, pp_accepts p)) (nd_proposals m) = fmmap (\<lambda>p. (pp_value p, pp_accepts p)) (nd_proposals r)"
      using e(1) by (simp add: office_def)
    from proposals_view [OF this p(1)] p show ?thesis
      using same_office_trans [OF so office_same [OF e]] by metis
  qed
  ultimately show "announced k w i s v n r" using A(1) unfolding announced_def r by blast
  show "lvote (put w i r) s i b v" if "\<not> nd_failed r" using A(3) that unfolding r by blast
qed

lemma self_accept_announced:
  assumes a: "announced k w i s v n m" and nf: "\<not> nd_failed m" and ld: "nd_role n = Leader" and b: "b = nd_ballot n"
    and r: "r = onAccept_with D now i b s v m"
  shows "announced k w i s v n r" "\<not> nd_failed r \<Longrightarrow> lvote (put w i r) s i b v"
proof -
  note d = announcedD [OF a]
  have ro: "role_ok (k, Some (nd_ballot n, s, v)) (put w i m) i m" by (rule holdsD(7) [OF d(1) nf])
  have lm: "nd_role m = Leader" "nd_ballot m = b" using d(5) [OF nf] ld b by (simp_all add: same_office_def)
  have le: "nd_promised m \<le> b" "b \<noteq> zero_ballot" "s \<noteq> 0"
    using ro lm local_okD(1) [OF holdsD(6) [OF d(1) nf]] b by (auto simp: role_ok_def lead_ok_def lprom_put)
  define m4 where "m4 = accept_body now i b s v m"
  note A = accept_body_announced [OF a nf ld b m4_def]
  have self: "Self m4 = i" using holds_Self [OF announcedD(1) [OF A(1)]] .
  have eq: "r = (if nd_failed m4 then m4 else onAccepted_with D i b s m4)"
  proof -
    have "MayAccept (nd_promised m) b" using le(1) by (simp add: MayAccept_def)
    then show ?thesis using le(2,3) by (simp add: r onAccept_with_body Let_def m4_def [symmetric] send_def self)
  qed
  have "announced k w i s v n r \<and> (\<not> nd_failed r \<longrightarrow> lvote (put w i r) s i b v)"
  proof (cases "nd_failed m4")
    case True
    then show ?thesis using A(1) by (simp add: eq)
  next
    case f4: False
    note d4 = announcedD [OF A(1)] and vt = A(2) [OF f4]
    have l4: "nd_role m4 = Leader" "nd_ballot m4 = b" using d4(5) [OF f4] ld b by (simp_all add: same_office_def)
    obtain p where p: "fmlookup (nd_proposals m4) s = Some p" "pp_value p = v" "fset (pp_accepts p) \<subseteq> {i}" using d4(6) [OF f4] by blast
    let ?p = "p\<lparr>pp_accepts := finsert i (pp_accepts p)\<rparr>"
    let ?m5 = "m4\<lparr>nd_proposals := fmupd s ?p (nd_proposals m4)\<rparr>"
    have sub: "fset (pp_accepts ?p) \<subseteq> {i}" using p(3) by auto
    then have "fcard (pp_accepts ?p) \<le> 1" using card_mono [OF _ sub] by (simp add: fcard.rep_eq)
    then have r5: "r = ?m5" using quorum_two [OF d4(1)] f4 l4 p(1) by (simp add: eq onAccepted_with_def Let_def)
    have "holds (k, Some (nd_ballot n, s, v)) w i ?m5"
      by (rule holds_count [OF d4(1) f4 l4(1) p(1)]) (use vt p(2) l4 in simp)
    moreover have "same_office n ?m5" using d4(5) [OF f4] by (simp add: same_office_def stable_def conflicts_def)
    moreover have "grows (put w i n) (put w i ?m5)" using grows_trans [OF d4(2) put_same(1)] by simp
    ultimately have "announced k w i s v n ?m5" using d4(3,4) p(2) sub unfolding announced_def by auto
    moreover have "lvote (put w i ?m5) s i b v" using vt put_same(2) [of ?m5 m4 w i] by simp
    ultimately show ?thesis unfolding r5 by blast
  qed
  then show "announced k w i s v n r" "\<not> nd_failed r \<Longrightarrow> lvote (put w i r) s i b v" by blast+
qed

lemma push_announced:
  assumes a: "announced k w i s v n m" and nf: "\<not> nd_failed m" and ld: "nd_role n = Leader"
    and e: "nv_From e = i" "nv_Msg e = Accept (nd_ballot n) s v"
  shows "announced k w i s v n (m\<lparr>nd_out := nd_out m @ [e]\<rparr>)" (is "announced k w i s v n ?m")
proof -
  note d = announcedD [OF a]
  have lm: "nd_role m = Leader" "nd_ballot m = nd_ballot n" using d(5) [OF nf] ld by (simp_all add: same_office_def)
  then have "Node (nd_ballot n) = i" using holdsD(7) [OF d(1) nf] by (auto simp: role_ok_def)
  then have "holds (k, Some (nd_ballot n, s, v)) w i ?m"
    by (intro holds_push [OF d(1) nf]) (use e lm in \<open>simp_all add: says_def fits_def Let_def\<close>)
  moreover have "grows (put w i n) (put w i ?m)" using grows_trans [OF d(2) put_same(1)] by simp
  moreover have "same_office n ?m" using d(5) [OF nf] by (simp add: same_office_def stable_def conflicts_def)
  ultimately show ?thesis using d(3,4) d(6) [OF nf] unfolding announced_def by auto
qed

lemma broadcast_announced:
  assumes ld: "nd_role n = Leader" and b: "b = nd_ballot n" and a: "announced k w i s v n m"
    and v: "nd_failed m \<or> lvote (put w i m) s i b v \<or> i \<in> set ps"
    and f: "f = (\<lambda>p n'. if p = Self n' \<and> \<not> True then n' else send (onAccept_with D now i b s v) p (Accept b s v) n')"
  shows "announced k w i s v n (fold f ps m) \<and> (nd_failed (fold f ps m) \<or> lvote (put w i (fold f ps m)) s i b v)"
  using a v
proof (induction ps arbitrary: m)
  case Nil
  then show ?case by simp
next
  case (Cons p ps)
  have self: "Self m = i" using holds_Self [OF announcedD(1) [OF Cons.prems(1)]] .
  show ?case
  proof (cases "nd_failed m")
    case True
    then have "f p m = m" by (simp add: f send_def)
    with Cons True show ?thesis by simp
  next
    case nf: False
    show ?thesis
    proof (cases "p = i")
      case True
      then have "f p m = onAccept_with D now i b s v m" using nf self by (simp add: f send_def)
      note S = self_accept_announced [OF Cons.prems(1) nf ld b this]
      then have "nd_failed (f p m) \<or> lvote (put w i (f p m)) s i b v \<or> i \<in> set ps" by blast
      from Cons.IH [OF S(1) this] show ?thesis by simp
    next
      case False
      let ?e = "\<lparr>nv_From = i, nv_To = p, nv_Msg = Accept b s v\<rparr>"
      have eq: "f p m = m\<lparr>nd_out := nd_out m @ [?e]\<rparr>" using nf self False by (simp add: f send_def)
      have "announced k w i s v n (f p m)" unfolding eq by (rule push_announced [OF Cons.prems(1) nf ld]) (simp_all add: b)
      moreover have "lvote (put w i (f p m)) = lvote (put w i m)" by (rule put_same(2)) (simp add: eq)
      ultimately show ?thesis using Cons.IH [of "f p m"] Cons.prems(2) False nf by auto
    qed
  qed
qed

lemma propose_with_holds:
  assumes h: "holds (k, None) w i n" and nf: "\<not> nd_failed n" and ld: "nd_role n = Leader" and k: "k \<le> k'"
    and s: "s \<noteq> 0" "s < nd_nextSlot n + k'" "lsafe (put w i n) s (nd_ballot n) v"
      "\<And>v'. lvote (put w i n) s i (nd_ballot n) v' \<Longrightarrow> v' = v"
    and m: "m = propose_with D now s v n"
  shows "holds (k', None) w i m" "grows (put w i n) (put w i m)" "set (nd_store n) \<subseteq> set (nd_store m)"
    "\<not> nd_failed m \<Longrightarrow> same_office n m"
    "lvote (put w i m) t i c x \<Longrightarrow> lvote (put w i n) t i c x \<or> t = s \<and> c = nd_ballot n \<and> x = v"
proof -
  let ?p = "\<lparr>pp_value = v, pp_accepts = {||}, pp_lastSent = now\<rparr>"
  let ?n1 = "n\<lparr>nd_proposals := fmupd s ?p (nd_proposals n)\<rparr>"
  have h1: "holds (k', Some (nd_ballot n, s, v)) w i ?n1" by (rule holds_announce [OF h nf ld k s]) simp_all
  then have a1: "announced k' w i s v n ?n1"
    using put_same(1) [of ?n1 n w i] by (auto simp: announced_def same_office_def stable_def conflicts_def)
  have self: "Self n = i" "Peers n = cl_members w" using holds_Self [OF h] fixedD(2) [OF holdsD(5) [OF h]] by simp_all
  define f where "f = (\<lambda>p n'. if p = Self n' \<and> \<not> True then n' else send (onAccept_with D now i (nd_ballot n) s v) p (Accept (nd_ballot n) s v) n')"
  have m': "m = fold f (cl_members w) ?n1"
    unfolding m propose_with_def broadcast_def Let_def f_def by (simp add: self)
  have "i \<in> set (cl_members w)" by (rule holdsD(1) [OF h])
  then have B: "announced k' w i s v n m" "nd_failed m \<or> lvote (put w i m) s i (nd_ballot n) v"
    using broadcast_announced [OF ld refl a1 _ f_def, of "cl_members w"] unfolding m' by blast+
  note d = announcedD [OF B(1)]
  have "nd_role m = Leader" if "\<not> nd_failed m" using d(5) [OF that] ld by (simp add: same_office_def)
  then show "holds (k', None) w i m" using holds_settle [OF d(1)] B(2) by blast
  show "grows (put w i n) (put w i m)" "set (nd_store n) \<subseteq> set (nd_store m)" "\<not> nd_failed m \<Longrightarrow> same_office n m"
    using d by blast+
  show "lvote (put w i n) t i c x \<or> t = s \<and> c = nd_ballot n \<and> x = v" if "lvote (put w i m) t i c x"
    using that d(4) by (auto simp: lvote_def)
qed

section \<open>Draining the queue\<close>

lemma drain_stop: "\<not> may_drain n \<Longrightarrow> drain k now n = n"
  by (cases k) simp_all

text \<open>A fresh slot is free and not voted for.\<close>

lemma fresh_slot:
  assumes h: "holds (0, None) w i n" and nf: "\<not> nd_failed n" and ld: "nd_role n = Leader"
  shows "nd_nextSlot n \<noteq> 0" "lsafe (put w i n) (nd_nextSlot n) (nd_ballot n) v" "\<not> lvote (put w i n) (nd_nextSlot n) i (nd_ballot n) v"
proof -
  have l: "lead_ok (0, None) (put w i n) i n" using holdsD(7) [OF h nf] ld by (simp add: role_ok_def)
  then show "nd_nextSlot n \<noteq> 0" by (simp add: lead_ok_def)
  have "lfree (put w i n) (nd_nextSlot n) (nd_ballot n)" using l by (simp add: lead_ok_def)
  then show "lsafe (put w i n) (nd_nextSlot n) (nd_ballot n) v" by (rule lfree_safe)
  show "\<not> lvote (put w i n) (nd_nextSlot n) i (nd_ballot n) v" using l unfolding lead_ok_def by fastforce
qed

lemma propose_next:
  assumes h: "holds (0, None) w i n" and nf: "\<not> nd_failed n" and ld: "nd_role n = Leader"
    and r: "nd_nextSlot n + 1 < 2 ^ 64" and m: "m = bump_slot (propose_with D now (nd_nextSlot n) v n)"
  shows "holds (0, None) w i m" "set (nd_store n) \<subseteq> set (nd_store m)"
    "\<not> nd_failed m \<Longrightarrow> nd_role m = Leader \<and> nd_nextSlot m = nd_nextSlot n + 1 \<and> nd_queue m = nd_queue n"
proof -
  let ?p = "propose_with D now (nd_nextSlot n) v n"
  note fr = fresh_slot [OF h nf ld]
  note P = propose_with_holds(1,3,4) [OF h nf ld _ fr(1) _ fr(2) _ refl, of 1 v D now]
  have P1: "holds (1, None) w i ?p" "set (nd_store n) \<subseteq> set (nd_store ?p)" "\<not> nd_failed ?p \<Longrightarrow> same_office n ?p"
    using P fr(3) by auto
  show "set (nd_store n) \<subseteq> set (nd_store m)" using P1(2) by (simp add: m bump_slot_def)
  have f: "nd_failed m = nd_failed ?p" by (simp add: m bump_slot_def)
  show "nd_role m = Leader \<and> nd_nextSlot m = nd_nextSlot n + 1 \<and> nd_queue m = nd_queue n" if "\<not> nd_failed m"
    using P1(3) that f ld r by (simp add: m bump_slot_def same_office_def u64_def)
  show "holds (0, None) w i m"
  proof (cases "nd_failed ?p")
    case True
    show ?thesis unfolding m by (rule holds_fail [OF P1(1)]) (use True in \<open>simp_all add: bump_slot_def stable_def conflicts_def\<close>)
  next
    case False
    with P1(3) ld r have "nd_role ?p = Leader" "nd_nextSlot ?p + 1 < 2 ^ 64" by (simp_all add: same_office_def)
    then show ?thesis using holds_bump [of 0 w i ?p] P1(1) False by (simp add: m)
  qed
qed

lemma drain_holds: "drains w i (drain k now)"
proof (induction k)
  case 0
  then show ?case by (simp add: drains_def)
next
  case (Suc k)
  have "holds (0, None) w i (drain (Suc k) now n) \<and> set (nd_store n) \<subseteq> set (nd_store (drain (Suc k) now n))"
    if h: "holds (0, None) w i n" and nf: "\<not> nd_failed n" and ld: "nd_role n = Leader" and sl: "slots_left n" for n
  proof (cases "may_drain n")
    case False
    then show ?thesis using h by simp
  next
    case True
    then have q: "nd_queue n \<noteq> []" by (simp add: may_drain_def)
    let ?n = "n\<lparr>nd_queue := tl (nd_queue n)\<rparr>"
    define m where "m = bump_slot (propose_with (drain k now) now (nd_nextSlot n) (hd (nd_queue n)) ?n)"
    have hn: "holds (0, None) w i ?n" by (rule holds_queue [OF h nf ld])
    have r: "nd_nextSlot ?n + 1 < 2 ^ 64" using sl by (simp add: slots_left_def)
    have m: "m = bump_slot (propose_with (drain k now) now (nd_nextSlot ?n) (hd (nd_queue n)) ?n)" by (simp add: m_def)
    note P = propose_next [OF hn _ _ r m]
    have P1: "holds (0, None) w i m" "set (nd_store n) \<subseteq> set (nd_store m)" using P(1,2) nf ld by simp_all
    have eq: "drain (Suc k) now n = drain k now m" using True by (simp add: m_def)
    show ?thesis
    proof (cases "nd_failed m")
      case True
      then have "drain k now m = m" by (intro drain_stop) (simp add: may_drain_def)
      then show ?thesis using P1 unfolding eq by simp
    next
      case False
      have "length (nd_queue n) = Suc (length (tl (nd_queue n)))" using q by (cases "nd_queue n") simp_all
      then have "nd_role m = Leader" "slots_left m" using P(3) False nf ld sl by (simp_all add: slots_left_def)
      from drainsD [OF Suc.IH P1(1) False this] P1(2) show ?thesis unfolding eq by blast
    qed
  qed
  then show ?case unfolding drains_def by blast
qed

lemma drainQueue_holds: "drains w i (drainQueue now)"
  using drain_holds drainsD unfolding drains_def drainQueue_def by blast

end
