(* ===== verification/LogPhase1.thy ===== *)
theory LogPhase1
  imports LogPropose
begin

text \<open>
  Phase 1 keeps the invariant: promising, electing and taking office. The value \<^verbatim>\<open>Choose\<close> selects from the
  promises of a majority is safe at the new ballot for every slot from \<^verbatim>\<open>FromSlot\<close> on, and every slot above
  the highest reported one is free.
\<close>

section \<open>What a majority of promises says\<close>

definition promised_by :: "cluster \<Rightarrow> ballot \<Rightarrow> phase1State \<Rightarrow> bool" where
  "promised_by w b ph \<longleftrightarrow>
     majority (cl_members w) (fmdom' (ph_promises ph)) \<and> (\<forall>s a v. \<not> lvote w s a b v) \<and>
     (\<forall>c m. fmlookup (ph_promises ph) c = Some m \<longrightarrow> promise_ok w c b (ph_fromSlot ph) (pm_Accepted m))"

lemma promised_report:
  assumes p: "promised_by w b ph" and inv: "cl_inv G w" and a: "a \<in> fmdom' (ph_promises ph)" and s: "ph_fromSlot ph \<le> s"
    and v: "lvote w s a c v" "c < b"
  shows "\<exists>pv\<in>set (slot_reports ph s). c \<le> pv_Ballot pv \<and> pv_Ballot pv \<noteq> zero_ballot"
proof -
  from a obtain m where m: "fmlookup (ph_promises ph) a = Some m" by (auto simp: fmlookup_dom'_iff)
  then have "promise_ok w a b (ph_fromSlot ph) (pm_Accepted m)" using p unfolding promised_by_def by blast
  then obtain pv where pv: "pv \<in> set (pm_Accepted m)" "pv_Slot pv = s" "c \<le> pv_Ballot pv"
    using s v unfolding promise_ok_def by blast
  have "c \<noteq> zero_ballot" using voteD(7) [OF inv v(1)] .
  with pv(3) have "pv_Ballot pv \<noteq> zero_ballot" using antisym zero_ballot_le by metis
  moreover have "pv \<in> set (slot_reports ph s)"
    using m pv(1,2) s by (force simp: slot_reports_def promised_reports_def set_fmvals)
  ultimately show ?thesis using pv(3) by blast
qed

lemma promised_lower:
  assumes p: "promised_by w b ph" and pv: "pv \<in> set (slot_reports ph s)"
  shows "pv_Slot pv = s" "pv_Ballot pv < b" "\<exists>a. lvote w s a (pv_Ballot pv) (pv_Value pv)"
proof -
  from pv obtain c m where m: "fmlookup (ph_promises ph) c = Some m" "pv \<in> set (pm_Accepted m)"
    by (auto simp: slot_reports_def promised_reports_def set_fmvals)
  then have "promise_ok w c b (ph_fromSlot ph) (pm_Accepted m)" using p unfolding promised_by_def by blast
  then have v: "lvote w (pv_Slot pv) c (pv_Ballot pv) (pv_Value pv)" "pv_Ballot pv \<le> b"
    using m(2) unfolding promise_ok_def by blast+
  moreover have "pv_Ballot pv \<noteq> b" using v(1) p unfolding promised_by_def by metis
  ultimately show "pv_Ballot pv < b" by simp
  show sl: "pv_Slot pv = s" using pv by (simp add: slot_reports_def)
  then show "\<exists>a. lvote w s a (pv_Ballot pv) (pv_Value pv)" using v(1) by blast
qed

lemma promised_prom:
  assumes "promised_by w b ph" and "a \<in> fmdom' (ph_promises ph)"
  shows "b \<le> lprom w a"
  using assms unfolding promised_by_def promise_ok_def by (metis fmlookup_dom'_iff)

lemma unreported_free:
  assumes p: "promised_by w b ph" and inv: "cl_inv G w" and s: "ph_fromSlot ph \<le> s"
    and none: "\<And>pv. pv \<in> set (slot_reports ph s) \<Longrightarrow> pv_Ballot pv = zero_ballot"
  shows "lfree w s b"
  unfolding lfree_def free_at_def
proof (intro exI conjI ballI allI impI)
  show "majority (cl_members w) (fmdom' (ph_promises ph))" using p by (simp add: promised_by_def)
  fix a assume a: "a \<in> fmdom' (ph_promises ph)"
  show "b \<le> lprom w a" by (rule promised_prom [OF p a])
  show "\<not> lvote w s a c v" if "c < b" for c v using promised_report [OF p inv a s _ that] none by blast
qed

lemma choice_safe:
  assumes p: "promised_by w b ph" and inv: "cl_inv G w" and s: "ph_fromSlot ph \<le> s"
  shows "lsafe w s b (Choose (slot_reports ph s) d)"
proof (cases rule: Choose_cases [of "slot_reports ph s" d])
  case none
  show ?thesis by (rule lfree_safe [OF unreported_free [OF p inv s none(1)]])
next
  case (some q)
  obtain a where q: "lvote w s a (pv_Ballot q) (pv_Value q)" using promised_lower(3) [OF p some(1)] by blast
  have "safe_at (cl_members (snd (s, w))) (lvote (snd (s, w)) (fst (s, w))) (lprom (snd (s, w))) b (pv_Value q)"
  proof (rule lv.highest_report_safe)
    show "\<exists>G. cl_inv G (snd (s, w))" using inv by auto
    show "majority (cl_members (snd (s, w))) (fmdom' (ph_promises ph))" using p by (simp add: promised_by_def)
    show "lvote (snd (s, w)) (fst (s, w)) a (pv_Ballot q) (pv_Value q)" using q by simp
    show "pv_Ballot q < b" by (rule promised_lower(2) [OF p some(1)])
    show "b \<le> lprom (snd (s, w)) x" if "x \<in> fmdom' (ph_promises ph)" for x using promised_prom [OF p that] by simp
    show "c \<le> pv_Ballot q" if "x \<in> fmdom' (ph_promises ph)" "lvote (snd (s, w)) (fst (s, w)) x c y" "c < b" for x c y
      using promised_report [OF p inv that(1) s _ that(3)] that(2) some(4) order_trans by fastforce
  qed
  then show ?thesis by (simp add: lsafe_def some(3))
qed

section \<open>Taking office\<close>

lemma top_slot_ge:
  "ph_fromSlot (nd_phase1 n) \<noteq> 0 \<Longrightarrow> ph_fromSlot (nd_phase1 n) < 2 ^ 64 \<Longrightarrow> ph_fromSlot (nd_phase1 n) \<le> top_slot n + 1"
  "pv \<in> set (promised_reports (nd_phase1 n)) \<Longrightarrow> pv_Slot pv \<le> top_slot n"
  "fmlookup (nd_chosen n) s \<noteq> None \<Longrightarrow> s \<le> top_slot n"
proof -
  let ?x = "u64 (ph_fromSlot (nd_phase1 n) + (2 ^ 64 - 1))"
  let ?r = "fold max (map pv_Slot (promised_reports (nd_phase1 n))) ?x"
  have t: "?r \<le> top_slot n" unfolding top_slot_def by (rule fold_max_ge)
  show "ph_fromSlot (nd_phase1 n) \<le> top_slot n + 1"
    if "ph_fromSlot (nd_phase1 n) \<noteq> 0" "ph_fromSlot (nd_phase1 n) < 2 ^ 64"
  proof -
    have "?x = ph_fromSlot (nd_phase1 n) - 1" using that unfolding u64_def by (cases "ph_fromSlot (nd_phase1 n)") auto
    moreover have "?x \<le> ?r" by (rule fold_max_ge)
    ultimately show ?thesis using t by linarith
  qed
  show "pv_Slot pv \<le> top_slot n" if "pv \<in> set (promised_reports (nd_phase1 n))"
    using fold_max_mem_ge [of "pv_Slot pv" "map pv_Slot (promised_reports (nd_phase1 n))" ?x] that t by simp
  show "s \<le> top_slot n" if "fmlookup (nd_chosen n) s \<noteq> None"
    unfolding top_slot_def by (rule fold_max_mem_ge) (use that in \<open>auto simp: fmlookup_dom'_iff\<close>)
qed

lemma top_slot_le:
  assumes "ph_fromSlot (nd_phase1 n) \<noteq> 0" "ph_fromSlot (nd_phase1 n) < 2 ^ 64" "ph_fromSlot (nd_phase1 n) \<le> k + 1"
    and "\<And>pv. pv \<in> set (promised_reports (nd_phase1 n)) \<Longrightarrow> pv_Slot pv \<le> k"
    and "\<And>s. fmlookup (nd_chosen n) s \<noteq> None \<Longrightarrow> s \<le> k"
  shows "top_slot n \<le> k"
proof -
  let ?x = "u64 (ph_fromSlot (nd_phase1 n) + (2 ^ 64 - 1))"
  let ?r = "fold max (map pv_Slot (promised_reports (nd_phase1 n))) ?x"
  have "?x = ph_fromSlot (nd_phase1 n) - 1" using assms(1,2) unfolding u64_def by (cases "ph_fromSlot (nd_phase1 n)") auto
  then have "?x \<le> k" using assms(3) by linarith
  then have r: "?r \<le> k" using fold_max_in [of "map pv_Slot (promised_reports (nd_phase1 n))" ?x] assms(4) by auto
  show ?thesis using fold_max_in [of "fmkeys (nd_chosen n)" ?r] r assms(5) unfolding top_slot_def by (auto simp: fmlookup_dom'_iff)
qed

lemma candD:
  assumes h: "holds g w i n" and nf: "\<not> nd_failed n" and cd: "nd_role n = Candidate"
  shows "Node (nd_ballot n) = i" "Round (nd_ballot n) \<le> lmax (put w i n) i" "lprom (put w i n) i \<le> nd_ballot n"
    "\<not> lvote (put w i n) s i (nd_ballot n) v" "ph_fromSlot (nd_phase1 n) \<noteq> 0" "ph_fromSlot (nd_phase1 n) \<le> nd_commitIndex n + 1"
    "fmlookup (ph_promises (nd_phase1 n)) c = Some m \<Longrightarrow>
       promise_ok (put w i n) c (nd_ballot n) (ph_fromSlot (nd_phase1 n)) (pm_Accepted m)"
    "nd_queue n = []" "cand_ok (put w i n) i n"
proof -
  have r: "role_ok g (put w i n) i n" by (rule holdsD(7) [OF h nf])
  then show "Node (nd_ballot n) = i" "Round (nd_ballot n) \<le> lmax (put w i n) i" "lprom (put w i n) i \<le> nd_ballot n" "nd_queue n = []"
    using cd by (auto simp: role_ok_def)
  show c: "cand_ok (put w i n) i n" using r cd by (simp add: role_ok_def)
  then have "1 \<le> ph_fromSlot (nd_phase1 n)" unfolding cand_ok_def by blast
  then show "ph_fromSlot (nd_phase1 n) \<noteq> 0" by simp
  show "\<not> lvote (put w i n) s i (nd_ballot n) v" "ph_fromSlot (nd_phase1 n) \<le> nd_commitIndex n + 1"
    "fmlookup (ph_promises (nd_phase1 n)) c = Some m \<Longrightarrow> promise_ok (put w i n) c (nd_ballot n) (ph_fromSlot (nd_phase1 n)) (pm_Accepted m)"
    using c unfolding cand_ok_def by blast+
qed

lemma quorum_promised:
  assumes h: "holds g w i n" and nf: "\<not> nd_failed n" and cd: "nd_role n = Candidate"
    and q: "nd_quorum n \<le> fmsize (ph_promises (nd_phase1 n))"
  shows "promised_by (put w i n) (nd_ballot n) (nd_phase1 n)"
proof -
  note c = candD [OF h nf cd]
  have "fmdom' (ph_promises (nd_phase1 n)) \<subseteq> set (cl_members w)"
    using c(7) unfolding promise_ok_def by (metis fmlookup_dom'_iff put_sel(1) subsetI)
  then have "majority (cl_members (put w i n)) (fmdom' (ph_promises (nd_phase1 n)))"
    using q fixedD(4) [OF holdsD(5) [OF h]] by (simp add: majority_def fmsize_card)
  moreover have "\<not> lvote (put w i n) s a (nd_ballot n) v" for s a v
    using voteD(2) [OF holdsD(2) [OF h], of s a "nd_ballot n" v] c(1,4) by metis
  ultimately show ?thesis using c(7) unfolding promised_by_def by blast
qed

text \<open>The range in which slot numbers do not wrap around.\<close>

definition top_fits :: "node \<Rightarrow> bool" where
  "top_fits n \<longleftrightarrow> ph_fromSlot (nd_phase1 n) < 2 ^ 64 \<and> top_slot n + 2 < 2 ^ 64"

lemma take_office_sel:
  assumes "top_fits n"
  shows "nd_store (take_office now n) = nd_store n" "stable (take_office now n) = stable n" "nd_role (take_office now n) = Leader"
    "nd_ballot (take_office now n) = nd_ballot n" "nd_proposals (take_office now n) = fmempty"
    "nd_nextSlot (take_office now n) = top_slot n + 2" "nd_firstOwnSlot (take_office now n) = top_slot n + 1"
    "nd_out (take_office now n) = nd_out n" "nd_failed (take_office now n) = nd_failed n" "nd_queue (take_office now n) = nd_queue n"
    "durable_view (take_office now n) = durable_view n"
  using assms by (simp_all add: take_office_def Let_def emit_def top_slot_def stable_def conflicts_def durable_view_def
      top_fits_def u64_def)

lemma take_office_holds:
  assumes h: "holds (0, None) w i n" and nf: "\<not> nd_failed n" and cd: "nd_role n = Candidate"
    and q: "nd_quorum n \<le> fmsize (ph_promises (nd_phase1 n))" and fi: "top_fits n"
  shows "holds (0, None) w i (take_office now n)"
    "\<And>s. s > top_slot n \<Longrightarrow> lfree (put w i n) s (nd_ballot n)"
    "\<And>s. ph_fromSlot (nd_phase1 n) \<le> s \<Longrightarrow> lsafe (put w i n) s (nd_ballot n) (Choose (slot_reports (nd_phase1 n) s) [])"
proof -
  let ?m = "take_office now n"
  note t = take_office_sel [OF fi, of now]
  note c = candD [OF h nf cd]
  note p = quorum_promised [OF h nf cd q]
  show fr: "lfree (put w i n) s (nd_ballot n)" if "s > top_slot n" for s
  proof (rule unreported_free [OF p holdsD(2) [OF h]])
    show "ph_fromSlot (nd_phase1 n) \<le> s" using top_slot_ge(1) [OF c(5)] fi that by (simp add: top_fits_def)
    show "pv_Ballot pv = zero_ballot" if "pv \<in> set (slot_reports (nd_phase1 n) s)" for pv
      using top_slot_ge(2) [of pv n] that \<open>s > top_slot n\<close> by (auto simp: slot_reports_def)
  qed
  show "lsafe (put w i n) s (nd_ballot n) (Choose (slot_reports (nd_phase1 n) s) [])" if "ph_fromSlot (nd_phase1 n) \<le> s" for s
    by (rule choice_safe [OF p holdsD(2) [OF h] that])
  have l: "lead_ok (0, None) (put w i n) i ?m"
    using c(4) fr unfolding lead_ok_def t by auto
  show "holds (0, None) w i ?m"
  proof (rule holds_mem [OF h t(1,2)])
    show "role_ok (0, None) (put w i n) i ?m"
      using holdsD(7) [OF h nf] cd l unfolding role_ok_def t by simp
    show "local_ok ?m" using holdsD(6) [OF h nf] local_ok_view [OF t(11,2)] by blast
    show "(e \<in> sent n \<and> says (idle(i := (0, None))) (put w i n) e) \<or>
        (says (idle(i := (0, None))) (put w i n) e \<and> (\<forall>c. c \<noteq> i \<longrightarrow> candidate w c \<longrightarrow> fits (put w i n) c e))" if "e \<in> sent ?m" for e
      using sent_says [OF h, of e] that unfolding sent_def t by blast
  qed (simp add: t)
qed

lemma repropose_holds:
  assumes "holds (0, None) w i n" "\<not> nd_failed n" "nd_role n = Leader" "nd_ballot n = b" "distinct ss"
    and "\<And>s. s \<in> set ss \<Longrightarrow> s \<noteq> 0 \<and> s < nd_nextSlot n \<and> lsafe (put w i n) s b (Choose (slot_reports ph s) []) \<and>
           (\<forall>v. \<not> lvote (put w i n) s i b v)"
  shows "holds (0, None) w i (repropose now ph ss n) \<and> grows (put w i n) (put w i (repropose now ph ss n)) \<and>
     (\<not> nd_failed (repropose now ph ss n) \<longrightarrow> same_office n (repropose now ph ss n)) \<and>
     (\<forall>t x. lvote (put w i (repropose now ph ss n)) t i b x \<longrightarrow> lvote (put w i n) t i b x \<or> t \<in> set ss)"
  using assms
proof (induction ss arbitrary: n)
  case Nil
  then show ?case using put_same(1) [of n n w i] by (simp add: same_office_def)
next
  case (Cons s ss)
  note h = Cons.prems(1) and nf = Cons.prems(2) and ld = Cons.prems(3) and b = Cons.prems(4)
  show ?case
  proof (cases "fmlookup (nd_chosen n) s \<noteq> None")
    case True
    then have "repropose now ph (s # ss) n = repropose now ph ss n" by simp
    then show ?thesis using Cons.IH [OF h nf ld b] Cons.prems(5,6) by auto
  next
    case False
    let ?v = "Choose (slot_reports ph s) []"
    define m where "m = propose now s ?v n"
    have s: "s \<noteq> 0" "s < nd_nextSlot n + 0" "lsafe (put w i n) s (nd_ballot n) ?v"
      "\<And>v'. lvote (put w i n) s i (nd_ballot n) v' \<Longrightarrow> v' = ?v" using Cons.prems(6) [of s] b by auto
    note P = propose_with_holds [OF h nf ld order_refl s m_def [unfolded propose_def]]
    have eq: "repropose now ph (s # ss) n = (if nd_failed m \<or> nd_role m \<noteq> Leader then m else repropose now ph ss m)"
      using False holds_knob [OF h] by (simp add: Let_def m_def)
    show ?thesis
    proof (cases "nd_failed m \<or> nd_role m \<noteq> Leader")
      case True
      then show ?thesis using P b unfolding eq by auto
    next
      case ok: False
      then have so: "same_office n m" using P(4) by blast
      then have lm: "nd_ballot m = b" "nd_nextSlot m = nd_nextSlot n" using b by (simp_all add: same_office_def)
      let ?r = "repropose now ph ss m"
      have I: "holds (0, None) w i ?r \<and> grows (put w i m) (put w i ?r) \<and> (\<not> nd_failed ?r \<longrightarrow> same_office m ?r) \<and>
          (\<forall>t x. lvote (put w i ?r) t i b x \<longrightarrow> lvote (put w i m) t i b x \<or> t \<in> set ss)"
      proof (rule Cons.IH [OF P(1) _ _ lm(1)])
        fix t assume t: "t \<in> set ss"
        then have "t \<noteq> s" using Cons.prems(5) by auto
        then have "\<forall>v. \<not> lvote (put w i m) t i b v" using P(5) [of t b] Cons.prems(6) [of t] t by auto
        then show "t \<noteq> 0 \<and> t < nd_nextSlot m \<and> lsafe (put w i m) t b (Choose (slot_reports ph t) []) \<and> (\<forall>v. \<not> lvote (put w i m) t i b v)"
          using Cons.prems(6) [of t] t lsafe_mono [OF P(2)] lm(2) by simp
      qed (use ok Cons.prems(5) in auto)
      have e: "repropose now ph (s # ss) n = ?r" using ok unfolding eq by simp
      show ?thesis unfolding e
      proof (intro conjI allI impI)
        show "holds (0, None) w i ?r" using I by blast
        show "grows (put w i n) (put w i ?r)" using I grows_trans [OF P(2)] by blast
        show "same_office n ?r" if "\<not> nd_failed ?r" using I that same_office_trans [OF so] by blast
        show "lvote (put w i n) t i b x \<or> t \<in> set (s # ss)" if "lvote (put w i ?r) t i b x" for t x
          using I that P(5) [of t b x] by auto
      qed
    qed
  qed
qed

lemma becomeLeader_holds:
  assumes h: "holds (0, None) w i n" and nf: "\<not> nd_failed n" and cd: "nd_role n = Candidate"
    and q: "nd_quorum n \<le> fmsize (ph_promises (nd_phase1 n))" and fi: "top_fits n"
  shows "holds (0, None) w i (becomeLeader now n)"
proof -
  let ?b = "nd_ballot n" and ?ph = "nd_phase1 n" and ?m = "take_office now n"
  let ?ss = "[ph_fromSlot ?ph..<top_slot n + 1]"
  note t = take_office_sel [OF fi, of now]
  note c = candD [OF h nf cd]
  note T = take_office_holds [OF h nf cd q fi]
  note V = put_same(2) [OF t(1), of w i] and S = view_cong(8,9) [OF t(1), of w i]
  define n2 where "n2 = repropose now ?ph ?ss ?m"
  have R: "holds (0, None) w i n2 \<and> grows (put w i ?m) (put w i n2) \<and> (\<not> nd_failed n2 \<longrightarrow> same_office ?m n2) \<and>
     (\<forall>t x. lvote (put w i n2) t i ?b x \<longrightarrow> lvote (put w i ?m) t i ?b x \<or> t \<in> set ?ss)"
    unfolding n2_def
  proof (rule repropose_holds [OF T(1)])
    fix s assume "s \<in> set ?ss"
    then show "s \<noteq> 0 \<and> s < nd_nextSlot ?m \<and> lsafe (put w i ?m) s ?b (Choose (slot_reports ?ph s) []) \<and> (\<forall>v. \<not> lvote (put w i ?m) s i ?b v)"
      using c(4,5) T(3) [of s] by (auto simp: t V S)
  qed (simp_all add: t nf)
  have eq: "becomeLeader now n = (if nd_failed n2 \<or> nd_role n2 \<noteq> Leader then n2
      else let n3 = propose now (nd_firstOwnSlot n2) [] n2
           in if nd_failed n3 \<or> nd_role n3 \<noteq> Leader then n3 else drainQueue now n3)"
    unfolding becomeLeader_def n2_def Let_def by (rule refl)
  show ?thesis
  proof (cases "nd_failed n2 \<or> nd_role n2 \<noteq> Leader")
    case True
    then show ?thesis using R unfolding eq by simp
  next
    case ok: False
    with R have so: "same_office ?m n2" by blast
    then have l2: "nd_ballot n2 = ?b" "nd_nextSlot n2 = top_slot n + 2" "nd_firstOwnSlot n2 = top_slot n + 1" "nd_queue n2 = []"
      using c(8) by (simp_all add: same_office_def t)
    define n3 where "n3 = propose now (nd_firstOwnSlot n2) [] n2"
    have gr: "grows (put w i ?m) (put w i n2)" using R by blast
    have "lfree (put w i ?m) (top_slot n + 1) ?b" using T(2) [of "top_slot n + 1"] by (simp add: S)
    note lfree_mono [OF gr this]
    then have "lsafe (put w i n2) (nd_firstOwnSlot n2) (nd_ballot n2) []" using lfree_safe l2 by simp
    moreover have "\<not> lvote (put w i n2) (nd_firstOwnSlot n2) i (nd_ballot n2) x" for x
      using R c(4) unfolding l2 V by auto
    ultimately have P: "holds (0, None) w i n3" "\<not> nd_failed n3 \<Longrightarrow> same_office n2 n3"
      using propose_with_holds(1,4) [of 0 w i n2 0 "nd_firstOwnSlot n2" "[]", OF _ _ _ _ _ _ _ _ n3_def [unfolded propose_def]] R ok l2 by auto
    have "drainQueue now n3 = n3" if "\<not> nd_failed n3" using P(2) [OF that] l2 by (simp add: drainQueue_def same_office_def)
    then show ?thesis using ok P(1) unfolding eq n3_def [symmetric] Let_def by simp
  qed
qed

section \<open>Promises\<close>

lemma add_promise_holds:
  assumes h: "holds (0, None) w i n" and nf: "\<not> nd_failed n" and cd: "nd_role n = Candidate"
    and p: "promise_ok (put w i n) from (nd_ballot n) (ph_fromSlot (nd_phase1 n)) (pm_Accepted m)"
  shows "holds (0, None) w i (n\<lparr>nd_phase1 := (nd_phase1 n)\<lparr>ph_promises := fmupd from m (ph_promises (nd_phase1 n))\<rparr>\<rparr>)"
    (is "holds _ w i ?n")
proof (rule holds_mem [OF h])
  have "cand_ok (put w i n) i ?n" using candD(9) [OF h nf cd] p unfolding cand_ok_def by auto
  then show "role_ok (0, None) (put w i n) i ?n" using holdsD(7) [OF h nf] cd by (simp add: role_ok_def)
  show "local_ok ?n" using holdsD(6) [OF h nf] by (simp add: local_ok_view [of ?n n] durable_view_def stable_def conflicts_def)
  show "(e \<in> sent n \<and> says (idle(i := (0, None))) (put w i n) e) \<or>
      (says (idle(i := (0, None))) (put w i n) e \<and> (\<forall>c. c \<noteq> i \<longrightarrow> candidate w c \<longrightarrow> fits (put w i n) c e))" if "e \<in> sent ?n" for e
    using sent_says [OF h, of e] that nf by (simp add: sent_def)
  show "fits (put w i ?n) i e" if "e \<in> cl_net w \<union> sent ?n" for e
  proof -
    have "e \<in> cl_net w \<union> sent n" using that nf by (simp add: sent_def)
    from fits_same_candidacy [OF put_same(1) _ _ holds_fits [OF h nf cd this]] show ?thesis by simp
  qed
qed (simp_all add: stable_def conflicts_def)

lemma onPromise_holds:
  assumes h: "holds (0, None) w i n" and nf: "\<not> nd_failed n"
    and p: "nd_role n = Candidate \<Longrightarrow> pm_Ballot m = nd_ballot n \<Longrightarrow>
        promise_ok (put w i n) from (nd_ballot n) (ph_fromSlot (nd_phase1 n)) (pm_Accepted m)"
    and fi: "nd_role n = Candidate \<Longrightarrow> pm_Ballot m = nd_ballot n \<Longrightarrow>
        top_fits (n\<lparr>nd_phase1 := (nd_phase1 n)\<lparr>ph_promises := fmupd from m (ph_promises (nd_phase1 n))\<rparr>\<rparr>)"
  shows "holds (0, None) w i (onPromise now from m n)"
proof (cases "nd_role n = Candidate \<and> pm_Ballot m = nd_ballot n")
  case False
  then show ?thesis using h by (auto simp: onPromise_def)
next
  case True
  define n1 where "n1 = n\<lparr>nd_phase1 := (nd_phase1 n)\<lparr>ph_promises := fmupd from m (ph_promises (nd_phase1 n))\<rparr>\<rparr>"
  have h1: "holds (0, None) w i n1" unfolding n1_def by (rule add_promise_holds [OF h nf _ p]) (use True in auto)
  have "holds (0, None) w i (becomeLeader now n1)" if "nd_quorum n1 \<le> fmsize (ph_promises (nd_phase1 n1))"
    by (rule becomeLeader_holds [OF h1 _ _ that]) (use True nf fi in \<open>simp_all add: n1_def\<close>)
  then show ?thesis using h1 True unfolding onPromise_def Let_def n1_def [symmetric] by simp
qed

text \<open>An acceptor whose promise is exactly \<open>b\<close> reports all it accepted.\<close>

lemma own_promise:
  assumes h: "holds g w i n" and nf: "\<not> nd_failed n" and b: "nd_promised n = b"
  shows "promise_ok (put w i n) i b f (acceptedFrom f n)"
  unfolding promise_ok_def
proof (intro conjI ballI allI impI)
  note l = local_okD [OF holdsD(6) [OF h nf]]
  note i = holdsD(1) [OF h]
  show "i \<in> set (cl_members (put w i n))" using i by simp
  show "b \<le> lprom (put w i n) i" using l(1) b by (simp add: lprom_put)
  fix pv assume "pv \<in> set (acceptedFrom f n)"
  then obtain t where "fmlookup (st_accepted (nd_store n)) t = Some pv" using l(4) by (auto simp: acceptedFrom_def set_fmvals)
  from st_accepted_mem [OF this] show "lvote (put w i n) (pv_Slot pv) i (pv_Ballot pv) (pv_Value pv)"
    using i accepted_vote [of i "put w i n" pv] by simp
  from voteD(6) [OF holdsD(2) [OF h] this] show "pv_Ballot pv \<le> b" using l(1) b by (simp add: lprom_put)
next
  note l = local_okD [OF holdsD(6) [OF h nf]]
  fix s c v assume s: "f \<le> s" and v: "lvote (put w i n) s i c v"
  from v holdsD(4) [OF h] obtain q where q: "fmlookup (st_accepted (nd_store n)) s = Some q" "c \<le> pv_Ballot q"
    unfolding store_ok_def by (metis put_sel(2))
  have "pv_Slot q = s" using st_accepted_mem [OF q(1)] by blast
  then have "q \<in> set (acceptedFrom f n)" using q(1) s l(4) by (auto simp: acceptedFrom_def set_fmvals)
  then show "\<exists>pv\<in>set (acceptedFrom f n). pv_Slot pv = s \<and> c \<le> pv_Ballot pv" using q(2) \<open>pv_Slot q = s\<close> by blast
qed

text \<open>The part of \<^verbatim>\<open>onPrepare\<close> that answers with a promise.\<close>

definition answer :: "int \<Rightarrow> node_id \<Rightarrow> ballot \<Rightarrow> slot \<Rightarrow> node \<Rightarrow> node" where
  "answer now from b fromSlot n =
     (let n2 = (if from \<noteq> Self n then noteLeader now b (refreshLease now b n) else n);
          m = \<lparr>pm_Ballot = b, pm_Accepted = acceptedFrom fromSlot n2, pm_CommitIndex = nd_commitIndex n2\<rparr>
      in send (onPromise now (Self n2) m) from (Promise m) n2)"

definition refusal :: "int \<Rightarrow> node_id \<Rightarrow> ballot \<Rightarrow> int \<Rightarrow> node \<Rightarrow> node" where
  "refusal now from b wait n =
     (let m = \<lparr>nk_Ballot = b, nk_Promised = nd_promised n, nk_Slot = 0, nk_LeaseRemaining = wait\<rparr>
      in send (onNack now m) from (Nack m) n)"

lemma onPrepare_eq:
  "onPrepare now from b f n =
     (if IsZero b then n
      else if b = nd_promised n then answer now from b f n
      else if \<not> MayPromise (nd_promised n) b then refusal now from b 0 n
      else if cf_LeaseDuration (nd_cfg n) > 0 \<and> now < nd_leaseUntil n \<and> Node b \<noteq> nd_leaseHolder n
      then refusal now from b (s64 (nd_leaseUntil n - now)) n
      else if nd_failed (setPromised now b n) then setPromised now b n else answer now from b f (setPromised now b n))"
  unfolding onPrepare_def answer_def refusal_def Let_def by (rule refl)

lemma refusal_holds:
  assumes h: "holds (0, None) w i n" and nf: "\<not> nd_failed n"
  shows "holds (0, None) w i (refusal now from b wait n)"
  unfolding refusal_def Let_def by (rule send_plain [OF h]) (simp_all add: plain_def onNack_holds [OF h])

text \<open>What a Prepare in the network says: its round is used up and a running candidacy at its ballot asks from its slot.\<close>

definition prepare_ok :: "cluster \<Rightarrow> ballot \<Rightarrow> slot \<Rightarrow> bool" where
  "prepare_ok w b f \<longleftrightarrow> Round b \<le> lmax w (Node b) \<and>
     (\<forall>c. candidate w c \<longrightarrow> nd_ballot (cl_nodes w c) = b \<longrightarrow> ph_fromSlot (nd_phase1 (cl_nodes w c)) = f)"

text \<open>The slots voted for leave room below the end of the slot range.\<close>

definition votes_fit :: "cluster \<Rightarrow> bool" where
  "votes_fit w \<longleftrightarrow> (\<forall>s a b v. lvote w s a b v \<longrightarrow> s + 3 < 2 ^ 64)"

lemma promises_fit:
  assumes h: "holds (0, None) w i n" and nf: "\<not> nd_failed n" and cd: "nd_role n = Candidate" and vf: "votes_fit (put w i n)"
  shows "top_fits n"
proof -
  note c = candD [OF h nf cd]
  note l = local_okD [OF holdsD(6) [OF h nf]]
  have v: "s + 3 < 2 ^ 64" if "lvote (put w i n) s a b x" for s a b x using vf that unfolding votes_fit_def by blast
  have ch: "s + 3 < 2 ^ 64" if "fmlookup (nd_chosen n) s \<noteq> None" for s
  proof -
    from that obtain e where e: "fmlookup (nd_chosen n) s = Some e" by auto
    from lchosen_voted [OF holds_chosen_slots(2) [OF h nf e]] v show ?thesis by blast
  qed
  have "nd_commitIndex n + 3 < 2 ^ 64"
  proof (cases "nd_commitIndex n = 0")
    case False
    then show ?thesis using ch l(7) [of "nd_commitIndex n"] by simp
  qed simp
  then have f: "ph_fromSlot (nd_phase1 n) + 2 < 2 ^ 64" using c(6) by linarith
  have "top_slot n \<le> 2 ^ 64 - 4"
  proof (rule top_slot_le [OF c(5)])
    show "pv_Slot pv \<le> 2 ^ 64 - 4" if "pv \<in> set (promised_reports (nd_phase1 n))" for pv
    proof -
      from that obtain x m where m: "fmlookup (ph_promises (nd_phase1 n)) x = Some m" "pv \<in> set (pm_Accepted m)"
        by (auto simp: promised_reports_def set_fmvals)
      from c(7) [OF m(1)] m(2) have "lvote (put w i n) (pv_Slot pv) x (pv_Ballot pv) (pv_Value pv)" unfolding promise_ok_def by blast
      from v [OF this] show ?thesis by simp
    qed
    show "s \<le> 2 ^ 64 - 4" if "fmlookup (nd_chosen n) s \<noteq> None" for s using ch [OF that] by simp
  qed (use f in auto)
  then show ?thesis using f by (simp add: top_fits_def)
qed

lemma votes_fit_same: "nd_store m = nd_store n \<Longrightarrow> votes_fit (put w i m) = votes_fit (put w i n)"
  by (simp add: votes_fit_def put_same(2) [of m n])

lemma candidate_put: "candidate (put w i n) c \<longleftrightarrow> (if c = i then i \<in> set (cl_members w) \<and> \<not> nd_failed n \<and> nd_role n = Candidate else candidate w c)"
  by (auto simp: candidate_def)

lemma onPromise_fit:
  assumes h: "holds (0, None) w i n" and nf: "\<not> nd_failed n" and vf: "votes_fit (put w i n)"
    and p: "nd_role n = Candidate \<Longrightarrow> pm_Ballot m = nd_ballot n \<Longrightarrow>
        promise_ok (put w i n) from (nd_ballot n) (ph_fromSlot (nd_phase1 n)) (pm_Accepted m)"
  shows "holds (0, None) w i (onPromise now from m n)"
proof (rule onPromise_holds [OF h nf p])
  let ?n = "n\<lparr>nd_phase1 := (nd_phase1 n)\<lparr>ph_promises := fmupd from m (ph_promises (nd_phase1 n))\<rparr>\<rparr>"
  assume c: "nd_role n = Candidate" "pm_Ballot m = nd_ballot n"
  have "holds (0, None) w i ?n" by (rule add_promise_holds [OF h nf c(1) p [OF c]])
  then show "top_fits ?n" by (rule promises_fit) (use nf c(1) vf votes_fit_same [of ?n n w i] in simp_all)
qed

lemma answer_holds:
  assumes h: "holds (0, None) w i n" and nf: "\<not> nd_failed n" and b: "nd_promised n = b"
    and p: "prepare_ok (put w i n) b f" and vf: "votes_fit (put w i n)"
  shows "holds (0, None) w i (answer now from b f n)"
proof -
  define n2 where "n2 = (if from \<noteq> Self n then noteLeader now b (refreshLease now b n) else n)"
  define m where "m = \<lparr>pm_Ballot = b, pm_Accepted = acceptedFrom f n2, pm_CommitIndex = nd_commitIndex n2\<rparr>"
  have vw: "view n2 = view n" by (simp add: n2_def)
  note d = viewD [OF vw]
  have ph: "ph_fromSlot (nd_phase1 n2) = ph_fromSlot (nd_phase1 n)" using d(9) by (simp add: office_def)
  have h2: "holds (0, None) w i n2" by (rule holds_view [OF h vw])
  have own: "promise_ok (put w i n2) i b f (pm_Accepted m)"
    using own_promise [OF h2] nf b d(2,6) by (simp add: m_def)
  have cand: "ph_fromSlot (nd_phase1 n2) = f" if "nd_role n2 = Candidate" "nd_ballot n2 = b"
  proof -
    have "candidate (put w i n) i" using that nf holdsD(1) [OF h] d(1) by (simp add: candidate_put)
    then show ?thesis using p that d(7) ph unfolding prepare_ok_def by (metis put_sel(2))
  qed
  have other: "ph_fromSlot (nd_phase1 (cl_nodes w c)) = f" if "c \<noteq> i" "candidate w c" "nd_ballot (cl_nodes w c) = b" for c
  proof -
    have "candidate (put w i n) c" using that by (simp add: candidate_put)
    then show ?thesis using p that unfolding prepare_ok_def by (metis put_sel(3))
  qed
  have "holds (0, None) w i (send (onPromise now (Self n2) m) from (Promise m) n2)"
  proof (rule send_holds [OF h2])
    have "holds (0, None) w i (onPromise now i m n2)"
      by (rule onPromise_fit [OF h2]) (use nf d(2,3) vf votes_fit_same [of n2 n w i] own cand in \<open>auto simp: m_def\<close>)
    then show "holds (0, None) w i (onPromise now (Self n2) m n2)" using holds_Self [OF h2] by simp
    fix e :: envelope assume e: "nv_From e = i" "nv_Msg e = Promise m"
    have "Round b \<le> lmax (put w i n2) (Node b)" using p put_same(4) [OF d(3), of w i] by (simp add: prepare_ok_def)
    then have "says (idle(i := (0, None))) (put w i n2) e" using e by (simp add: says_def m_def)
    moreover have "fits (put w i n2) c e" if "c \<noteq> i" "candidate w c" for c
      using e own other [OF that] that(1) by (auto simp: fits_def Let_def m_def)
    moreover have "fits (put w i n2) i e" if "nd_role n2 = Candidate"
      using e own cand that by (auto simp: fits_def Let_def m_def)
    ultimately show "says (idle(i := (0, None))) (put w i n2) e \<and> (\<forall>c. c \<noteq> i \<longrightarrow> candidate w c \<longrightarrow> fits (put w i n2) c e) \<and>
        (nd_role n2 = Candidate \<longrightarrow> fits (put w i n2) i e)" by blast
  qed
  then show ?thesis unfolding answer_def n2_def m_def Let_def .
qed

lemma prepare_ok_mono:
  assumes p: "prepare_ok (put w i n) b f" and g: "grows (put w i n) (put w i m)" and nf: "\<not> nd_failed n"
    and c: "\<not> nd_failed m \<Longrightarrow> nd_role m = Candidate \<Longrightarrow>
        nd_role n = Candidate \<and> nd_ballot m = nd_ballot n \<and> ph_fromSlot (nd_phase1 m) = ph_fromSlot (nd_phase1 n)"
  shows "prepare_ok (put w i m) b f"
  unfolding prepare_ok_def
proof (intro conjI allI impI)
  show "Round b \<le> lmax (put w i m) (Node b)" using p growsD(2) [OF g] order_trans unfolding prepare_ok_def by blast
  fix x assume x: "candidate (put w i m) x" "nd_ballot (cl_nodes (put w i m) x) = b"
  show "ph_fromSlot (nd_phase1 (cl_nodes (put w i m) x)) = f"
  proof (cases "x = i")
    case True
    with x c nf have "candidate (put w i n) i" "nd_ballot n = b" "ph_fromSlot (nd_phase1 m) = ph_fromSlot (nd_phase1 n)"
      by (auto simp: candidate_put)
    then show ?thesis using p True unfolding prepare_ok_def by (metis put_sel(2))
  next
    case False
    with x have "candidate (put w i n) x" "nd_ballot (cl_nodes (put w i n) x) = b" by (simp_all add: candidate_put)
    then show ?thesis using p False unfolding prepare_ok_def by (metis put_sel(3))
  qed
qed

lemma setPromised_candidate:
  assumes "\<not> nd_failed (setPromised now b n)" and "nd_role (setPromised now b n) = Candidate"
  shows "nd_role n = Candidate \<and> nd_ballot (setPromised now b n) = nd_ballot n \<and>
    ph_fromSlot (nd_phase1 (setPromised now b n)) = ph_fromSlot (nd_phase1 n)"
proof (cases "nd_role n = Follower \<or> \<not> nd_ballot n < b")
  case True
  from setPromised_sel(5) [OF assms(1) this] assms(2) show ?thesis by (simp add: office_def)
qed (use setPromised_sel(6) [OF assms(1)] assms(2) in simp)

lemma setPromised_lvote: "lvote (put w i (setPromised now b n)) s a c v \<longleftrightarrow> lvote (put w i n) s a c v"
  using setPromised_votes by (cases "a = i") (simp_all add: lvote_def)

lemma onPrepare_holds:
  assumes h: "holds (0, None) w i n" and nf: "\<not> nd_failed n" and p: "prepare_ok (put w i n) b f" and vf: "votes_fit (put w i n)"
  shows "holds (0, None) w i (onPrepare now from b f n)"
proof -
  let ?m = "setPromised now b n"
  have m: "holds (0, None) w i (if nd_failed ?m then ?m else answer now from b f ?m)" if "nd_promised n < b"
  proof (cases "nd_failed ?m")
    case False
    have le: "nd_promised n \<le> b" using that by simp
    have "prepare_ok (put w i ?m) b f"
      by (rule prepare_ok_mono [OF p setPromised_grows [OF h nf le] nf setPromised_candidate])
    moreover have "votes_fit (put w i ?m)" using vf by (simp add: votes_fit_def setPromised_lvote)
    ultimately have "holds (0, None) w i (answer now from b f ?m)"
      by (rule answer_holds [OF setPromised_holds [OF h nf le] False setPromised_sel(1) [OF False]])
    then show ?thesis using False by simp
  qed (use setPromised_holds [OF h nf] that in simp)
  have a: "holds (0, None) w i (answer now from b f n)" if "b = nd_promised n"
    by (rule answer_holds [OF h nf _ p vf]) (use that in simp)
  show ?thesis
    using h a m refusal_holds [OF h nf] unfolding onPrepare_eq by (simp add: MayPromise_def)
qed

section \<open>Elections\<close>

text \<open>A new candidacy: its ballot is one nobody has used.\<close>

lemma new_candidate_holds:
  assumes h: "holds (0, None) w i n" and nf: "\<not> nd_failed n" and fo: "nd_role n = Follower" and r: "nd_maxRound n < r"
    and st: "nd_store m = nd_store n @ [MaxRoundRec r]" "stable m = stable n" "nd_out m = nd_out n" "nd_failed m = nd_failed n"
      "nd_promised m = nd_promised n" "nd_maxRound m = r" "nd_accepted m = nd_accepted n" "nd_commitIndex m = nd_commitIndex n" "nd_queue m = nd_queue n"
    and m: "nd_role m = Candidate" "nd_ballot m = Ballot r i" "ph_fromSlot (nd_phase1 m) = nd_commitIndex n + 1" "ph_promises (nd_phase1 m) = fmempty"
  shows "holds (0, None) w i m"
proof -
  note l = local_okD [OF holdsD(6) [OF h nf]]
  have lm: "lmax (put w i n) i < r" using l(3) r by (simp add: lmax_put)
  have old: "says idle (put w i n) e" if "e \<in> cl_net w \<union> sent n" for e
    using that holdsD(3) [OF h] sent_says [OF h, of e] by (auto simp: fun_upd_idem)
  have vs: "lvote (put w i m) = lvote (put w i n)" by (auto simp: put_append(1) [OF st(1)] fun_eq_iff)
  have gr: "grows (put w i n) (put w i m)" by (rule append_grows [OF st(1)]) (use l(3) r in auto)
  have nov: "\<not> lvote (put w i n) s a (Ballot r i) v" for s a v
    using voteD(3) [OF holdsD(2) [OF h], of s a "Ballot r i" v] lm by auto
  show ?thesis
  proof (rule holds_change [OF h gr])
    have "holds (0, None) w i (n\<lparr>nd_store := nd_store m, nd_maxRound := r\<rparr>)" (is "holds _ w i ?k")
    proof (rule holds_append [OF h nf])
      show "nd_store ?k = nd_store n @ [MaxRoundRec r]" by (simp add: st(1))
      show "fixed_ok (put w i n) i ?k" by (rule fixed_ok_stable [OF holdsD(5) [OF h]]) (auto simp: st(1) stable_def conflicts_def)
      show "local_ok ?k" using l r by (simp add: local_ok_def st(1))
      show "role_ok (0, None) (put w i n) i ?k" by (rule role_ok_office [OF _ holdsD(7) [OF h nf]]) (simp add: office_def)
    qed (use l r fo in \<open>simp_all add: st(1)\<close>)
    from holdsD(4) [OF this] show "store_ok (put w i m) i" using view_cong(4) [of m ?k w i] by simp
    show "fixed_ok (put w i n) i m" by (rule fixed_ok_stable [OF holdsD(5) [OF h] st(2)]) (auto simp: st(1))
    show "local_ok m" using l r stableD [OF st(2)] st by (simp add: local_ok_def)
    have "nd_promised n \<le> Ballot r i" using l(2) r by (simp add: less_eq_ballot_iff)
    moreover have "cand_ok (put w i m) i m" using nov by (simp add: cand_ok_def m st vs)
    moreover have "lmax (put w i m) i = r" "lprom (put w i m) i = nd_promised n" using l(1) by (simp_all add: lmax_put lprom_put st(1))
    moreover have "nd_queue n = []" using holdsD(7) [OF h nf] fo by (simp add: role_ok_def)
    ultimately show "role_ok (0, None) (put w i m) i m" using r by (simp add: role_ok_def m st(9))
    show "vote_ok (put w i m) s b v" if "lvote (put w i m) s i b v" "\<not> lvote (put w i n) s i b v" for s b v
      using that by (simp add: vs)
    have sm: "sent m = sent n" by (simp add: sent_def st)
    show "(e \<in> sent n \<and> says (idle(i := (0, None))) (put w i m) e) \<or>
        (says (idle(i := (0, None))) (put w i m) e \<and> (\<forall>c. c \<noteq> i \<longrightarrow> candidate w c \<longrightarrow> fits (put w i m) c e))" if "e \<in> sent m" for e
      using that sm says_mono [OF gr sent_says [OF h]] by blast
    show "fits (put w i m) i e" if "e \<in> cl_net w \<union> sent m" for e
      using old [of e] that sm lm by (auto simp: fits_def says_def Let_def m split: message.splits)
  qed
qed

text \<open>A candidacy while its Prepare is broadcast: at most the candidate itself has promised.\<close>

definition campaign :: "cluster \<Rightarrow> node_id \<Rightarrow> ballot \<Rightarrow> slot \<Rightarrow> node \<Rightarrow> bool" where
  "campaign w i b f m \<longleftrightarrow> holds (0, None) w i m \<and>
     (\<not> nd_failed m \<longrightarrow> nd_role m = Candidate \<and> nd_ballot m = b \<and> ph_fromSlot (nd_phase1 m) = f \<and>
        fmdom' (ph_promises (nd_phase1 m)) \<subseteq> {i})"

lemma campaignD:
  assumes "campaign w i b f m"
  shows "holds (0, None) w i m"
    "\<not> nd_failed m \<Longrightarrow> nd_role m = Candidate \<and> nd_ballot m = b \<and> ph_fromSlot (nd_phase1 m) = f \<and> fmdom' (ph_promises (nd_phase1 m)) \<subseteq> {i}"
  using assms unfolding campaign_def by blast+

lemma other_candidate:
  assumes h: "holds g w i n" and c: "c \<noteq> i" "candidate w c"
  shows "Node (nd_ballot (cl_nodes w c)) = c"
proof -
  have "c \<in> set (cl_members (put w i n))" using c by (simp add: candidate_def)
  from cl_invD(4) [OF holdsD(2) [OF h] this] c show ?thesis by (auto simp: node_ok_def role_ok_def candidate_def)
qed

lemma prepare_msg_ok:
  assumes h: "holds (0, None) w i n" and nf: "\<not> nd_failed n" and cd: "nd_role n = Candidate"
    and e: "nv_Msg e = Prepare (nd_ballot n) (ph_fromSlot (nd_phase1 n))"
  shows "says (idle(i := (0, None))) (put w i n) e \<and> (\<forall>c. c \<noteq> i \<longrightarrow> candidate w c \<longrightarrow> fits (put w i n) c e) \<and>
    (nd_role n = Candidate \<longrightarrow> fits (put w i n) i e)"
proof -
  note c = candD [OF h nf cd]
  have "fits (put w i n) x e" if "x \<noteq> i" "candidate w x" for x
    using other_candidate [OF h that] c(1) that(1) e by (auto simp: fits_def Let_def)
  then show ?thesis using c(1,2) e by (auto simp: says_def fits_def Let_def)
qed

lemma campaign_promise:
  assumes c: "campaign w i b f m" and nf: "\<not> nd_failed m" and b: "nd_promised m = b"
  shows "campaign w i b f (answer now i b f m)"
proof -
  note d = campaignD [OF c]
  have cd: "nd_role m = Candidate" "nd_ballot m = b" "ph_fromSlot (nd_phase1 m) = f" "fmdom' (ph_promises (nd_phase1 m)) \<subseteq> {i}"
    using d(2) [OF nf] by auto
  let ?p = "\<lparr>pm_Ballot = b, pm_Accepted = acceptedFrom f m, pm_CommitIndex = nd_commitIndex m\<rparr>"
  define m1 where "m1 = m\<lparr>nd_phase1 := (nd_phase1 m)\<lparr>ph_promises := fmupd i ?p (ph_promises (nd_phase1 m))\<rparr>\<rparr>"
  have self: "Self m = i" by (rule holds_Self [OF d(1)])
  have "holds (0, None) w i m1"
    unfolding m1_def by (rule add_promise_holds [OF d(1) nf cd(1)]) (use own_promise [OF d(1) nf b, of f] cd in simp)
  moreover have sub: "fmdom' (ph_promises (nd_phase1 m1)) \<subseteq> {i}" using cd(4) by (auto simp: m1_def)
  ultimately have "campaign w i b f m1" using cd by (simp add: campaign_def m1_def)
  moreover have "fmsize (ph_promises (nd_phase1 m1)) \<le> 1" using card_mono [OF _ sub] by (simp add: fmsize_card)
  then have "fmsize (ph_promises (nd_phase1 m1)) < nd_quorum m1" using quorum_two [OF d(1)] by (simp add: m1_def)
  then have "onPromise now i ?p m = m1" using cd unfolding onPromise_def Let_def m1_def [symmetric] by simp
  then have "answer now i b f m = m1" using nf by (simp add: answer_def self send_def)
  ultimately show ?thesis by simp
qed

lemma campaign_self:
  assumes c: "campaign w i b f m" and nf: "\<not> nd_failed m"
  shows "campaign w i b f (onPrepare now i b f m)"
proof -
  note d = campaignD [OF c]
  have cd: "nd_role m = Candidate" "nd_ballot m = b" using d(2) [OF nf] by auto
  have le: "nd_promised m \<le> b"
    using candD(3) [OF d(1) nf cd(1)] cd(2) local_okD(1) [OF holdsD(6) [OF d(1) nf]] by (simp add: lprom_put)
  have self: "Self m = i" by (rule holds_Self [OF d(1)])
  have rf: "refusal now i b wait m = m" for wait
    using nf le cd by (simp add: refusal_def Let_def send_def self onNack_def)
  let ?m = "setPromised now b m"
  have "campaign w i b f ?m"
  proof -
    have "office ?m = office m" if "\<not> nd_failed ?m" using setPromised_sel(5) [OF that] cd by simp
    then show ?thesis using setPromised_holds [OF d(1) nf le] d(2) [OF nf] by (auto simp: campaign_def office_def)
  qed
  then have 1: "campaign w i b f (answer now i b f ?m)" if "\<not> nd_failed ?m"
    using campaign_promise [of w i b f ?m] setPromised_sel(1) that by simp
  have 2: "campaign w i b f (answer now i b f m)" if "b = nd_promised m"
    using campaign_promise [OF c nf] that by simp
  show ?thesis unfolding onPrepare_eq rf using c 1 2 \<open>campaign w i b f ?m\<close> by (simp only: split: if_split) blast
qed

lemma campaign_broadcast:
  assumes "campaign w i b f m"
    and "F = (\<lambda>p n'. if p = Self n' \<and> \<not> True then n' else send (onPrepare now i b f) p (Prepare b f) n')"
  shows "campaign w i b f (fold F ps m)"
  using assms(1)
proof (induction ps arbitrary: m)
  case (Cons p ps)
  note d = campaignD [OF Cons.prems]
  have self: "Self m = i" by (rule holds_Self [OF d(1)])
  have "campaign w i b f (F p m)"
  proof (cases "nd_failed m")
    case True
    then show ?thesis using Cons.prems by (simp add: assms(2) send_def)
  next
    case nf: False
    then have cd: "nd_role m = Candidate" "nd_ballot m = b" "ph_fromSlot (nd_phase1 m) = f" using d(2) by auto
    show ?thesis
    proof (cases "p = i")
      case True
      then show ?thesis using campaign_self [OF Cons.prems nf] nf self by (simp add: assms(2) send_def)
    next
      case False
      let ?e = "\<lparr>nv_From = i, nv_To = p, nv_Msg = Prepare b f\<rparr>"
      have "holds (0, None) w i (m\<lparr>nd_out := nd_out m @ [?e]\<rparr>)"
        using prepare_msg_ok [OF d(1) nf cd(1), of ?e] cd by (intro holds_push [OF d(1) nf]) auto
      then show ?thesis using d(2) nf self False by (simp add: assms(2) send_def campaign_def)
    qed
  qed
  then show ?case using Cons.IH by simp
qed simp

lemma startElection_holds:
  assumes h: "holds (0, None) w i n" and nf: "\<not> nd_failed n" and fo: "nd_role n = Follower"
    and r: "nd_maxRound n + 1 < 2 ^ 64" "nd_commitIndex n + 1 < 2 ^ 64"
  shows "holds (0, None) w i (startElection now n)"
proof -
  let ?r = "nd_maxRound n + 1"
  let ?n1 = "save (MaxRoundRec ?r) (n\<lparr>nd_maxRound := ?r\<rparr>)"
  have u: "u64 ?r = ?r" using r(1) by (simp add: u64_def)
  show ?thesis
  proof (cases "nd_failed ?n1")
    case True
    then have "startElection now n = ?n1" unfolding startElection_def Let_def u by simp
    then show ?thesis using holds_save_round [OF h nf, of ?r] by simp
  next
    case False
    from save_ok [OF False] obtain sv where n1: "?n1 = n\<lparr>nd_maxRound := ?r, nd_store := nd_store n @ [MaxRoundRec ?r], nd_saves := sv\<rparr>" by auto
    have ru: "randomElectionTimeout ?n1 = (fst (randomElectionTimeout ?n1), ?n1\<lparr>nd_rands := tl (nd_rands ?n1)\<rparr>)"
      by (simp add: randomElectionTimeout_def Let_def)
    define t where "t = fst (randomElectionTimeout ?n1)"
    define n3 where "n3 = n\<lparr>nd_maxRound := ?r, nd_store := nd_store n @ [MaxRoundRec ?r], nd_saves := sv, nd_rands := tl (nd_rands n),
        nd_ballot := Ballot ?r i, nd_role := Candidate,
        nd_phase1 := \<lparr>ph_fromSlot = nd_commitIndex n + 1, ph_promises = fmempty, ph_deadline = s64 (now + t), ph_lastSent = now\<rparr>\<rparr>"
    have h3: "holds (0, None) w i n3"
      by (rule new_candidate_holds [OF h nf fo, of ?r]) (simp_all add: n3_def stable_def conflicts_def)
    then have c: "campaign w i (Ballot ?r i) (nd_commitIndex n + 1) n3" by (simp add: campaign_def n3_def)
    have self: "Self n = i" by (rule holds_Self [OF h])
    have fr: "u64 (nd_commitIndex n + 1) = nd_commitIndex n + 1" using r(2) by (simp add: u64_def)
    have "startElection now n = broadcast (onPrepare now i (Ballot ?r i) (nd_commitIndex n + 1)) (Prepare (Ballot ?r i) (nd_commitIndex n + 1)) True n3"
      unfolding startElection_def Let_def u if_not_P [OF False]
      by (subst ru) (simp add: t_def n1 n3_def self fr del: One_nat_def add_Suc_right add_0_right)
    moreover have "campaign w i (Ballot ?r i) (nd_commitIndex n + 1)
        (broadcast (onPrepare now i (Ballot ?r i) (nd_commitIndex n + 1)) (Prepare (Ballot ?r i) (nd_commitIndex n + 1)) True n3)"
      unfolding broadcast_def by (rule campaign_broadcast [OF c refl])
    ultimately show ?thesis using campaignD(1) by metis
  qed
qed

end
