(* ===== verification/LogKeeps.thy ===== *)
theory LogKeeps
  imports LogPhase1
begin

text \<open>
  No call of a log node forgets a record of its store: what was promised, accepted or learned stays on
  disk through every handler, whatever the outcome of its saves.
\<close>

named_theorems kept \<open>a set of records stays in the store\<close>

lemma kept_save [kept]: "S \<subseteq> set (nd_store n) \<Longrightarrow> S \<subseteq> set (nd_store (save r n))"
  using save_store [of n r] by blast

lemma kept_view: "view n' = view n \<Longrightarrow> S \<subseteq> set (nd_store n) \<Longrightarrow> S \<subseteq> set (nd_store n')"
  using viewD(3) by metis

lemma kept_same [kept]:
  "S \<subseteq> set (nd_store n) \<Longrightarrow> S \<subseteq> set (nd_store (reset_election t n))"
  "S \<subseteq> set (nd_store n) \<Longrightarrow> S \<subseteq> set (nd_store (refreshLease now b n))"
  "S \<subseteq> set (nd_store n) \<Longrightarrow> S \<subseteq> set (nd_store (noteLeader now b n))"
  "S \<subseteq> set (nd_store n) \<Longrightarrow> S \<subseteq> set (nd_store (begin_call now n))"
  "S \<subseteq> set (nd_store n) \<Longrightarrow> S \<subseteq> set (nd_store (ack_read from acked seq n))"
  "S \<subseteq> set (nd_store n) \<Longrightarrow> S \<subseteq> set (nd_store (fold (ack_read from acked) seqs n))"
  by (erule kept_view [rotated], simp)+

lemma kept_stepDown [kept]: "S \<subseteq> set (nd_store n) \<Longrightarrow> S \<subseteq> set (nd_store (stepDown now l lb wait n))"
  by (simp add: stepDown_sel)

lemma kept_promise [kept]:
  "S \<subseteq> set (nd_store n) \<Longrightarrow> S \<subseteq> set (nd_store (raise_round b n))"
  "S \<subseteq> set (nd_store n) \<Longrightarrow> S \<subseteq> set (nd_store (setPromised now b n))"
  "S \<subseteq> set (nd_store n) \<Longrightarrow> S \<subseteq> set (nd_store (accept_body now from b s v n))"
  using raise_round_store setPromised_store accept_body_store by blast+

lemma kept_send:
  assumes "S \<subseteq> set (nd_store n)" and "S \<subseteq> set (nd_store (inl n))"
  shows "S \<subseteq> set (nd_store (send inl to m n))"
  using assms by (simp add: send_def)

lemma kept_fold:
  assumes "S \<subseteq> set (nd_store n)" and "\<And>x n. S \<subseteq> set (nd_store n) \<Longrightarrow> S \<subseteq> set (nd_store (f x n))"
  shows "S \<subseteq> set (nd_store (fold f xs n))"
  using assms(1) by (induction xs arbitrary: n) (auto dest: assms(2))

lemma kept_broadcast:
  assumes "S \<subseteq> set (nd_store n)" and "\<And>n. S \<subseteq> set (nd_store n) \<Longrightarrow> S \<subseteq> set (nd_store (inl n))"
  shows "S \<subseteq> set (nd_store (broadcast inl m self n))"
  unfolding broadcast_def by (rule kept_fold [OF assms(1)]) (simp add: kept_send assms(2))

lemma kept_onNack [kept]: "S \<subseteq> set (nd_store n) \<Longrightarrow> S \<subseteq> set (nd_store (onNack now m n))"
  unfolding onNack_def Let_def by (simp add: kept)

lemma kept_onHeartbeatAck [kept]: "S \<subseteq> set (nd_store n) \<Longrightarrow> S \<subseteq> set (nd_store (onHeartbeatAck now from m n))"
  unfolding onHeartbeatAck_def Let_def by (simp add: kept)

lemma kept_onHeartbeat [kept]: "S \<subseteq> set (nd_store n) \<Longrightarrow> S \<subseteq> set (nd_store (onHeartbeat now from m n))"
  unfolding onHeartbeat_def Let_def by (simp add: kept kept_send)

lemma advance_store [simp]: "nd_store (advance k n) = nd_store n"
  by (induction k n rule: advance.induct) simp_all

lemma kept_learn_with:
  assumes "S \<subseteq> set (nd_store n)" and "\<And>n. S \<subseteq> set (nd_store n) \<Longrightarrow> S \<subseteq> set (nd_store (D n))"
  shows "S \<subseteq> set (nd_store (learn_with D e n))"
  using assms by (simp add: learn_with_def Let_def advanceCommit_def kept)

lemma kept_onAccepted_with:
  assumes "S \<subseteq> set (nd_store n)" and "\<And>n. S \<subseteq> set (nd_store n) \<Longrightarrow> S \<subseteq> set (nd_store (D n))"
  shows "S \<subseteq> set (nd_store (onAccepted_with D from b s n))"
  using assms by (simp add: onAccepted_with_def Let_def kept_learn_with kept_broadcast split: option.split)

lemma kept_onAccept_with:
  assumes "S \<subseteq> set (nd_store n)" and "\<And>n. S \<subseteq> set (nd_store n) \<Longrightarrow> S \<subseteq> set (nd_store (D n))"
  shows "S \<subseteq> set (nd_store (onAccept_with D now from b s v n))"
  using assms by (simp add: onAccept_with_body Let_def kept_onAccepted_with kept_send kept)

lemma kept_propose_with:
  assumes "S \<subseteq> set (nd_store n)" and "\<And>n. S \<subseteq> set (nd_store n) \<Longrightarrow> S \<subseteq> set (nd_store (D n))"
  shows "S \<subseteq> set (nd_store (propose_with D now s v n))"
  using assms by (simp add: propose_with_def Let_def kept_onAccept_with kept_broadcast)

lemma kept_drain [kept]: "S \<subseteq> set (nd_store n) \<Longrightarrow> S \<subseteq> set (nd_store (drain k now n))"
  by (induction k arbitrary: n) (simp_all add: bump_slot_def kept_propose_with)

lemma kept_phase2 [kept]:
  "S \<subseteq> set (nd_store n) \<Longrightarrow> S \<subseteq> set (nd_store (drainQueue now n))"
  "S \<subseteq> set (nd_store n) \<Longrightarrow> S \<subseteq> set (nd_store (learn now e n))"
  "S \<subseteq> set (nd_store n) \<Longrightarrow> S \<subseteq> set (nd_store (onAccepted now from b s n))"
  "S \<subseteq> set (nd_store n) \<Longrightarrow> S \<subseteq> set (nd_store (onAccept now from b s v n))"
  "S \<subseteq> set (nd_store n) \<Longrightarrow> S \<subseteq> set (nd_store (propose now s v n))"
  by (simp_all add: drainQueue_def learn_def onAccepted_def onAccept_def propose_def kept kept_learn_with
      kept_onAccepted_with kept_onAccept_with kept_propose_with)

lemma kept_onLearn [kept]: "S \<subseteq> set (nd_store n) \<Longrightarrow> S \<subseteq> set (nd_store (onLearn now s b v n))"
  by (simp add: onLearn_def Let_def kept emit_def split: option.split)

lemma kept_onLearnRequest [kept]: "S \<subseteq> set (nd_store n) \<Longrightarrow> S \<subseteq> set (nd_store (onLearnRequest from f k n))"
  unfolding onLearnRequest_def Let_def by (simp add: kept_fold kept_send split: option.split)

lemma kept_repropose [kept]: "S \<subseteq> set (nd_store n) \<Longrightarrow> S \<subseteq> set (nd_store (repropose now ph ss n))"
  by (induction ss arbitrary: n) (simp_all add: Let_def kept)

lemma take_office_store [simp]: "nd_store (take_office now n) = nd_store n"
  by (simp add: take_office_def Let_def emit_def)

lemma kept_becomeLeader [kept]: "S \<subseteq> set (nd_store n) \<Longrightarrow> S \<subseteq> set (nd_store (becomeLeader now n))"
  unfolding becomeLeader_def Let_def by (simp add: kept)

lemma kept_onPromise [kept]: "S \<subseteq> set (nd_store n) \<Longrightarrow> S \<subseteq> set (nd_store (onPromise now from m n))"
  unfolding onPromise_def Let_def by (simp add: kept)

lemma kept_answer [kept]: "S \<subseteq> set (nd_store n) \<Longrightarrow> S \<subseteq> set (nd_store (answer now from b f n))"
  unfolding answer_def Let_def by (rule kept_send) (simp_all add: kept)

lemma kept_onPrepare [kept]: "S \<subseteq> set (nd_store n) \<Longrightarrow> S \<subseteq> set (nd_store (onPrepare now from b f n))"
  unfolding onPrepare_eq by (simp add: refusal_def Let_def kept kept_send)

lemma kept_startElection [kept]: "S \<subseteq> set (nd_store n) \<Longrightarrow> S \<subseteq> set (nd_store (startElection now n))"
  unfolding startElection_def Let_def by (simp add: randomElectionTimeout_def Let_def kept kept_broadcast)

lemma kept_leader_beat [kept]: "S \<subseteq> set (nd_store n) \<Longrightarrow> S \<subseteq> set (nd_store (leader_beat now seq n))"
  unfolding leader_beat_def Let_def by (simp add: kept kept_broadcast)

lemma kept_retransmit [kept]: "S \<subseteq> set (nd_store n) \<Longrightarrow> S \<subseteq> set (nd_store (retransmit now ss n))"
  by (induction ss arbitrary: n) (simp_all add: Let_def kept_broadcast split: option.split)

lemma kept_resend_prepares [kept]: "S \<subseteq> set (nd_store n) \<Longrightarrow> S \<subseteq> set (nd_store (resend_prepares n))"
  unfolding resend_prepares_def by (erule kept_fold) (simp add: kept_send)

lemma kept_tick [kept]: "S \<subseteq> set (nd_store n) \<Longrightarrow> S \<subseteq> set (nd_store (tick now n))"
  unfolding tick_def Let_def by (simp add: kept split: role.split)

lemma kept_handle [kept]: "S \<subseteq> set (nd_store n) \<Longrightarrow> S \<subseteq> set (nd_store (handle now e n))"
  unfolding handle_def by (simp add: kept split: message.split)

lemma kept_finish: "S \<subseteq> set (nd_store n) \<Longrightarrow> S \<subseteq> set (nd_store (fst (finish n)))"
  by (simp add: finish_def)

lemma kept_calls:
  assumes "S \<subseteq> set (nd_store n)"
  shows "S \<subseteq> set (nd_store (fst (Step now e n)))" "S \<subseteq> set (nd_store (fst (Tick now n)))"
    "S \<subseteq> set (nd_store (fst (Propose now v n)))" "S \<subseteq> set (nd_store (fst (ReadIndex now n)))" "S \<subseteq> set (nd_store (fst (Events n)))"
  using assms by (simp_all add: Step_def Tick_def Propose_def ReadIndex_def Events_def with_error_def bump_slot_def Let_def
      split_beta kept kept_finish)

end
