(* ===== verification/LogCalls.thy ===== *)
theory LogCalls
  imports LogPhase1
begin

text \<open>
  The timers and the driving calls of a log node keep the invariant: \<^verbatim>\<open>Step\<close>, \<^verbatim>\<open>Tick\<close>, \<^verbatim>\<open>Propose\<close> and \<^verbatim>\<open>ReadIndex\<close>,
  each with every outcome of its saves.
\<close>

section \<open>Timers\<close>

lemma broadcast_plain:
  assumes h: "holds (0, None) w i n" and m: "plain m"
    and inl: "\<And>n'. holds (0, None) w i n' \<Longrightarrow> \<not> nd_failed n' \<Longrightarrow> holds (0, None) w i (inl n')"
  shows "holds (0, None) w i (broadcast inl m self n)"
proof -
  have "holds (0, None) w i (fold (\<lambda>p n'. if p = Self n' \<and> \<not> self then n' else send inl p m n') ps n)" for ps
    using h by (induction ps arbitrary: n) (auto intro!: send_plain [OF _ m] inl)
  then show ?thesis unfolding broadcast_def .
qed

lemma leader_beat_holds:
  assumes h: "holds (0, None) w i n"
  shows "holds (0, None) w i (leader_beat now seq n)"
proof -
  have "view (n\<lparr>nd_lastHeartbeat := now\<rparr>) = view n" by (simp add: view_defs)
  from holds_view [OF h this] show ?thesis
    unfolding leader_beat_def Let_def by (rule broadcast_plain) (auto simp: plain_def intro: onHeartbeat_holds)
qed

lemma resent_view:
  assumes "fmlookup (nd_proposals n) s = Some p"
  shows "view (n\<lparr>nd_proposals := fmupd s (p\<lparr>pp_lastSent := t\<rparr>) (nd_proposals n)\<rparr>) = view n"
proof -
  have "fmmap (\<lambda>p. (pp_value p, pp_accepts p)) (fmupd s (p\<lparr>pp_lastSent := t\<rparr>) (nd_proposals n)) = fmmap (\<lambda>p. (pp_value p, pp_accepts p)) (nd_proposals n)"
    using assms by (intro fmap_ext) auto
  then show ?thesis by (simp add: view_defs)
qed

lemma retransmit_holds:
  assumes "holds (0, None) w i n" and "nd_role n = Leader"
  shows "holds (0, None) w i (retransmit now ss n)"
  using assms
proof (induction ss arbitrary: n)
  case (Cons s ss)
  note h = Cons.prems(1) and ld = Cons.prems(2)
  show ?case
  proof (cases "\<exists>p. fmlookup (nd_proposals n) s = Some p \<and> now \<ge> s64 (pp_lastSent p + cf_HeartbeatInterval (nd_cfg n))")
    case False
    then have "retransmit now (s # ss) n = retransmit now ss n" by (auto split: option.splits)
    then show ?thesis using Cons by simp
  next
    case True
    then obtain p where p: "fmlookup (nd_proposals n) s = Some p" "now \<ge> s64 (pp_lastSent p + cf_HeartbeatInterval (nd_cfg n))" by blast
    define n' where "n' = n\<lparr>nd_proposals := fmupd s (p\<lparr>pp_lastSent := now\<rparr>) (nd_proposals n)\<rparr>"
    define n1 where "n1 = broadcast id (Accept (nd_ballot n) s (pp_value p)) False n'"
    have vw: "view n' = view n" unfolding n'_def by (rule resent_view [OF p(1)])
    have h': "holds (0, None) w i n'" by (rule holds_view [OF h vw])
    have "holds (0, None) w i n1"
      unfolding n1_def
    proof (rule broadcast_others_holds [OF h'])
      fix e :: envelope
      assume nf: "\<not> nd_failed n'" and e: "nv_Msg e = Accept (nd_ballot n) s (pp_value p)"
      have "\<not> nd_failed n" using nf viewD(2) [OF vw] by simp
      from holdsD(7) [OF h this] ld p(1) have "lvote (put w i n) s i (nd_ballot n) (pp_value p)" "Node (nd_ballot n) = i"
        by (auto simp: role_ok_def lead_ok_def)
      then have "lvote (put w i n') s (Node (nd_ballot n)) (nd_ballot n) (pp_value p)" using put_same(2) [OF viewD(3) [OF vw], of w i] by simp
      then show "says (idle(i := (0, None))) (put w i n') e \<and> (\<forall>c. c \<noteq> i \<longrightarrow> candidate w c \<longrightarrow> fits (put w i n') c e) \<and>
          (nd_role n' = Candidate \<longrightarrow> fits (put w i n') i e)" using e by (simp add: says_def fits_def Let_def)
    qed
    moreover have "retransmit now (s # ss) n = (if nd_role n1 \<noteq> Leader then n1 else retransmit now ss n1)"
      using p by (simp add: Let_def n1_def n'_def)
    ultimately show ?thesis using Cons.IH [of n1] by simp
  qed
qed simp

lemma resend_prepares_holds:
  assumes h: "holds (0, None) w i n" and cd: "nd_role n = Candidate"
  shows "holds (0, None) w i (resend_prepares n)"
proof -
  define F where "F = (\<lambda>p n'. if p = Self n' \<or> fmlookup (ph_promises (nd_phase1 n')) p \<noteq> None then n'
      else send id p (Prepare (nd_ballot n') (ph_fromSlot (nd_phase1 n'))) n')"
  have step: "holds (0, None) w i (F p m) \<and> nd_role (F p m) = Candidate" if m: "holds (0, None) w i m" "nd_role m = Candidate" for p m
  proof -
    have "holds (0, None) w i (send id p (Prepare (nd_ballot m) (ph_fromSlot (nd_phase1 m))) m)"
      by (rule send_holds [OF m(1)]) (use m prepare_msg_ok [OF m(1) _ m(2)] in simp_all)
    then show ?thesis using m by (simp add: send_def F_def)
  qed
  have "holds (0, None) w i (fold F ps m)" if "holds (0, None) w i m" "nd_role m = Candidate" for ps m
    using that
  proof (induction ps arbitrary: m)
    case (Cons p ps)
    show ?case using Cons.IH [of "F p m"] step [OF Cons.prems, of p] by simp
  qed simp
  then show ?thesis using h cd unfolding resend_prepares_def F_def by blast
qed

text \<open>The range in which the counters of a call do not wrap around.\<close>

definition node_range :: "node \<Rightarrow> bool" where
  "node_range n \<longleftrightarrow> nd_maxRound n + 1 < 2 ^ 64 \<and> (nd_role n = Leader \<longrightarrow> slots_left n)"

lemma node_range_code [code]:
  "node_range n \<longleftrightarrow> nd_maxRound n + 1 < 18446744073709551616 \<and> (nd_role n = Leader \<longrightarrow> slots_left n)"
  by (simp add: node_range_def)

lemma commit_fits:
  assumes h: "holds (0, None) w i n" and nf: "\<not> nd_failed n" and vf: "votes_fit (put w i n)"
  shows "nd_commitIndex n + 1 < 2 ^ 64"
proof (cases "nd_commitIndex n = 0")
  case False
  then obtain e where e: "fmlookup (nd_chosen n) (nd_commitIndex n) = Some e"
    using local_okD(7) [OF holdsD(6) [OF h nf], of "nd_commitIndex n"] by auto
  obtain a where "lvote (put w i n) (nd_commitIndex n) a (le_Ballot e) (le_Value e)"
    using lchosen_voted [OF holds_chosen_slots(2) [OF h nf e]] by blast
  then have "nd_commitIndex n + 3 < 2 ^ 64" using vf unfolding votes_fit_def by blast
  then show ?thesis by simp
qed simp

lemma tick_holds:
  assumes h: "holds (0, None) w i n" and nf: "\<not> nd_failed n" and r: "node_range n" and vf: "votes_fit (put w i n)"
  shows "holds (0, None) w i (tick now n)"
proof (cases "nd_role n")
  case Follower
  have "holds (0, None) w i (startElection now n)"
    by (rule startElection_holds [OF h nf Follower]) (use r commit_fits [OF h nf vf] in \<open>simp_all add: node_range_def\<close>)
  then show ?thesis using h Follower by (simp add: tick_def)
next
  case Candidate
  let ?n = "n\<lparr>nd_phase1 := (nd_phase1 n)\<lparr>ph_lastSent := now\<rparr>\<rparr>"
  have "view ?n = view n" by (simp add: view_defs)
  then have "holds (0, None) w i (resend_prepares ?n)" using resend_prepares_holds [OF holds_view [OF h]] Candidate by simp
  moreover have "holds (0, None) w i (n\<lparr>nd_role := Follower, nd_phase1 := no_phase1\<rparr>)"
    by (rule holds_demote [OF h]) (use candD(8) [OF h nf Candidate] in \<open>simp_all add: durable_view_def stable_def conflicts_def\<close>)
  then have "holds (0, None) w i (reset_election now (n\<lparr>nd_role := Follower, nd_phase1 := no_phase1\<rparr>))"
    by (rule holds_view) simp
  ultimately show ?thesis using h Candidate by (simp add: tick_def)
next
  case Leader
  define n1 where "n1 = (if now \<ge> s64 (nd_lastHeartbeat n + cf_HeartbeatInterval (nd_cfg n)) then leader_beat now (maxPendingRead n) n else n)"
  define n2 where "n2 = retransmit now (fmkeys (nd_proposals n1)) n1"
  have h1: "holds (0, None) w i n1" using h leader_beat_holds [OF h] by (simp add: n1_def)
  have h2: "holds (0, None) w i n2" if "nd_role n1 = Leader" unfolding n2_def by (rule retransmit_holds [OF h1 that])
  have eq: "tick now n = (if nd_role n1 \<noteq> Leader then n1 else if nd_role n2 \<noteq> Leader then n2
      else if s64 (now - quorumContact now n2) > cf_ElectionTimeoutMax (nd_cfg n2) then stepDown now 0 zero_ballot 0 n2 else n2)"
    unfolding tick_def Leader n2_def n1_def Let_def by simp
  show ?thesis unfolding eq using h1 h2 holds_stepDown [OF h2] by simp
qed

section \<open>Messages\<close>

lemma onLearn_holds:
  assumes h: "holds (0, None) w i n" and nf: "\<not> nd_failed n" and c: "lchosen (put w i n) s b v" and r: "node_range n"
  shows "holds (0, None) w i (onLearn now s b v n)"
proof (cases "fmlookup (nd_chosen n) s")
  case None
  have "holds (0, None) w i (learn now \<lparr>le_Slot = s, le_Ballot = b, le_Value = v\<rparr> n)"
    unfolding learn_def by (rule learn_with_holds(1) [OF h nf _ drainQueue_holds]) (use c r in \<open>simp_all add: node_range_def\<close>)
  then show ?thesis using h None by (simp add: onLearn_def Let_def)
next
  case (Some e)
  have "le_Value e = v" using lchosen_agree [OF holdsD(2) [OF h] holds_chosen_slots(2) [OF h nf Some] c] .
  then show ?thesis using h Some by (simp add: onLearn_def Let_def ValueEqual_def)
qed

lemma onLearnRequest_holds:
  assumes h: "holds (0, None) w i n"
  shows "holds (0, None) w i (onLearnRequest from f k n)"
proof -
  define F where "F = (\<lambda>s n'. case fmlookup (nd_chosen n') s of None \<Rightarrow> n' | Some e \<Rightarrow> send id from (Learn s (le_Ballot e) (le_Value e)) n')"
  have step: "holds (0, None) w i (F s m)" if m: "holds (0, None) w i m" for s m
  proof (cases "fmlookup (nd_chosen m) s")
    case (Some e)
    have "holds (0, None) w i (send id from (Learn s (le_Ballot e) (le_Value e)) m)"
    proof (rule send_holds [OF m])
      fix x :: envelope assume "\<not> nd_failed m" "nv_Msg x = Learn s (le_Ballot e) (le_Value e)"
      then show "says (idle(i := (0, None))) (put w i m) x \<and> (\<forall>c. c \<noteq> i \<longrightarrow> candidate w c \<longrightarrow> fits (put w i m) c x) \<and>
          (nd_role m = Candidate \<longrightarrow> fits (put w i m) i x)"
        using holds_chosen_slots(2) [OF m _ Some] by (simp add: says_def fits_def Let_def)
    qed (use m in simp)
    then show ?thesis by (simp add: F_def Some)
  qed (use m in \<open>simp add: F_def\<close>)
  have "holds (0, None) w i (fold F ss m)" if "holds (0, None) w i m" for ss m
    using that by (induction ss arbitrary: m) (simp_all add: step)
  then show ?thesis using h unfolding onLearnRequest_def Let_def F_def by simp
qed

lemma handle_holds:
  assumes h: "holds (0, None) w i n" and nf: "\<not> nd_failed n" and r: "node_range n" and vf: "votes_fit (put w i n)"
    and e: "e \<in> cl_net w"
  shows "holds (0, None) w i (handle now e n)"
proof -
  let ?w = "put w i n"
  have m: "msg_ok (idle(i := (0, None))) ?w e" using cl_invD(5) [OF holdsD(2) [OF h]] e by simp
  have sy: "says idle ?w e" by (rule holdsD(3) [OF h e])
  have sl: "nd_role n = Leader \<Longrightarrow> slots_left n" using r by (simp add: node_range_def)
  have ft: "fits ?w c e" if "candidate ?w c" for c using m that by (simp add: msg_ok_def)
  show ?thesis
  proof (cases "nv_Msg e")
    case (Prepare b f)
    have "prepare_ok ?w b f"
      using sy ft Prepare by (auto simp: prepare_ok_def says_def fits_def Let_def)
    then show ?thesis using onPrepare_holds [OF h nf _ vf] Prepare nf by (simp add: handle_def)
  next
    case (Promise p)
    have "holds (0, None) w i (onPromise now (nv_From e) p n)"
    proof (rule onPromise_fit [OF h nf vf])
      assume "nd_role n = Candidate" "pm_Ballot p = nd_ballot n"
      then show "promise_ok ?w (nv_From e) (nd_ballot n) (ph_fromSlot (nd_phase1 n)) (pm_Accepted p)"
        using holds_fits [OF h nf, of e] e Promise by (simp add: fits_def Let_def)
    qed
    then show ?thesis using Promise nf by (simp add: handle_def)
  next
    case (Accept b s v)
    then have "lvote ?w s (Node b) b v" using sy by (simp add: says_def)
    then show ?thesis using onAccept_with_holds [OF h nf _ drainQueue_holds sl] Accept nf by (simp add: handle_def onAccept_def)
  next
    case (Accepted b s)
    then obtain v where "lvote ?w s (nv_From e) b v" using sy by (auto simp: says_def)
    then show ?thesis using onAccepted_with_holds [OF h nf _ drainQueue_holds sl] Accepted nf by (simp add: handle_def onAccepted_def)
  next
    case (Nack x)
    then show ?thesis using onNack_holds [OF h nf] nf by (simp add: handle_def)
  next
    case (Learn s b v)
    then have "lchosen ?w s b v" using sy by (simp add: says_def)
    then show ?thesis using onLearn_holds [OF h nf _ r] Learn nf by (simp add: handle_def)
  next
    case (LearnRequest f k)
    then show ?thesis using onLearnRequest_holds [OF h] nf by (simp add: handle_def)
  next
    case (Heartbeat x)
    then show ?thesis using onHeartbeat_holds [OF h nf] nf by (simp add: handle_def)
  next
    case (HeartbeatAck x)
    then show ?thesis using onHeartbeatAck_holds [OF h nf] nf by (simp add: handle_def)
  qed
qed

section \<open>The driving calls\<close>

text \<open>\<open>returns w i r\<close>: the node and the messages a call hands back, put into the cluster, satisfy the invariant.\<close>

definition deliver :: "cluster \<Rightarrow> node_id \<Rightarrow> node \<times> envelope list \<Rightarrow> cluster" where
  "deliver w i r = w\<lparr>cl_nodes := (cl_nodes w)(i := fst r), cl_net := cl_net w \<union> set (snd r)\<rparr>"

definition returns :: "cluster \<Rightarrow> node_id \<Rightarrow> node \<times> envelope list \<Rightarrow> bool" where
  "returns w i r \<longleftrightarrow> cl_inv idle (deliver w i r) \<and> nd_out (fst r) = []"

lemma holds_again:
  assumes "holds (0, None) w i n"
  shows "holds (0, None) (put w i n) i n"
proof -
  have "put (put w i n) i n = put w i n" by (simp add: put_def)
  moreover have "says idle (put w i n) e" if "e \<in> cl_net w \<union> sent n" for e
    using holdsD(3) [OF assms, of e] sent_says [OF assms, of e] that by (auto simp: fun_upd_idem)
  ultimately show ?thesis using holdsD(1,2) [OF assms] by (simp add: holds_def)
qed

lemma no_conflicts: "holds g w i n \<Longrightarrow> conflicts n = []"
  using fixedD(6) [OF holdsD(5)] by (fastforce simp: conflicts_def filter_empty_conv split: event.splits)

lemma holds_quiet:
  assumes h: "holds (0, None) w i n" and n': "durable_view n' = durable_view n" "office n' = office n" "stable n' = stable n"
    "nd_failed n' = nd_failed n" "nd_out n' = []"
  shows "holds (0, None) (put w i n) i n'"
proof (rule holds_mem [OF holds_again [OF h] _ n'(3)])
  note h' = holds_again [OF h]
  show st: "nd_store n' = nd_store n" using n'(1) by (simp add: durable_view_def)
  show "local_ok n'" if "\<not> nd_failed n'" using holdsD(6) [OF h] that local_ok_view [OF n'(1,3)] n'(4) by simp
  show "role_ok (0, None) (put (put w i n) i n) i n'" if "\<not> nd_failed n'"
    using role_ok_office [OF n'(2) holdsD(7) [OF h']] that n'(4) by simp
  show "fits (put (put w i n) i n') i e" if "\<not> nd_failed n'" "nd_role n' = Candidate" "e \<in> cl_net (put w i n) \<union> sent n'" for e
  proof -
    have "nd_role n = Candidate" "\<not> nd_failed n" using that(1,2) n'(2,4) by (simp_all add: office_def)
    moreover have "e \<in> cl_net (put w i n) \<union> sent n" using that(3) n'(5) by (auto simp: sent_def split: if_splits)
    ultimately show ?thesis using holds_fits [OF h'] fits_office [OF n'(2) st] by blast
  qed
next
  have "sent n' = {}" by (simp add: sent_def n'(5))
  then show "(e \<in> sent n \<and> says (idle(i := (0, None))) (put (put w i n) i n) e) \<or>
      (says (idle(i := (0, None))) (put (put w i n) i n) e \<and> (\<forall>c. c \<noteq> i \<longrightarrow> candidate (put w i n) c \<longrightarrow> fits (put (put w i n) i n) c e))"
    if "e \<in> sent n'" for e using that by blast
qed

lemma finish_returns:
  assumes h: "holds (0, None) w i n"
  shows "returns w i (finish n)"
proof -
  let ?n = "fst (finish n)"
  have o: "nd_out ?n = []" by (simp add: finish_def)
  have "holds (0, None) (put w i n) i ?n"
    by (rule holds_quiet [OF h]) (use no_conflicts [OF h] in \<open>simp_all add: finish_def durable_view_def office_def stable_def conflicts_def\<close>)
  moreover have "put (put w i n) i ?n = deliver w i (finish n)"
    by (simp add: put_def deliver_def finish_def sent_def)
  ultimately show ?thesis using holdsD(2) [of "(0, None)" "put w i n" i ?n] o by (simp add: returns_def fun_upd_idem)
qed

lemma rest_returns:
  assumes "holds (0, None) w i n" and "nd_out n = []"
  shows "returns w i (n, [])"
proof -
  have "deliver w i (n, []) = put w i n" using assms(2) by (simp add: deliver_def put_def sent_def)
  then show ?thesis using holdsD(2) [OF assms(1)] assms(2) by (simp add: returns_def fun_upd_idem)
qed

lemma begin_call_holds:
  assumes "holds (0, None) w i n"
  shows "holds (0, None) w i (begin_call now n)" "nd_out (begin_call now n) = nd_out n" "nd_failed (begin_call now n) = nd_failed n"
    "node_range (begin_call now n) = node_range n" "votes_fit (put w i (begin_call now n)) = votes_fit (put w i n)"
    "nd_role (begin_call now n) = nd_role n" "Self (begin_call now n) = Self n" "Peers (begin_call now n) = Peers n"
proof -
  note d = viewD [OF begin_call_view [of now n]]
  show "holds (0, None) w i (begin_call now n)" by (rule holds_view [OF assms]) simp
  show "votes_fit (put w i (begin_call now n)) = votes_fit (put w i n)" by (rule votes_fit_same [OF d(3)])
  show "nd_out (begin_call now n) = nd_out n" "nd_failed (begin_call now n) = nd_failed n" "nd_role (begin_call now n) = nd_role n"
    "Self (begin_call now n) = Self n" "Peers (begin_call now n) = Peers n"
    using d by auto
  show "node_range (begin_call now n) = node_range n"
    using d(9,10) by (simp add: node_range_def slots_left_def office_def durable_view_def)
qed

lemma Step_returns:
  assumes h: "holds (0, None) w i n" and o: "nd_out n = []" and r: "node_range n" and vf: "votes_fit (put w i n)"
    and e: "e \<in> cl_net w \<or> nv_From e \<notin> set (cl_members w)"
  shows "returns w i (Step now e n)"
proof (cases "nd_failed n")
  case True
  then show ?thesis using rest_returns [OF h o] by (simp add: Step_def)
next
  case nf: False
  note b = begin_call_holds [OF h, of now]
  let ?n = "begin_call now n"
  have "holds (0, None) w i (if nv_To e = Self ?n \<and> isPeer ?n (nv_From e) then handle now e ?n else ?n)"
  proof (cases "nv_To e = Self ?n \<and> isPeer ?n (nv_From e)")
    case True
    then have "nv_From e \<in> set (cl_members w)" using fixedD(2) [OF holdsD(5) [OF b(1)]] by (simp add: isPeer_def)
    with e have "e \<in> cl_net w" by blast
    from handle_holds [OF b(1) _ _ _ this] True nf r vf b show ?thesis by simp
  qed (use b(1) in auto)
  from finish_returns [OF this] show ?thesis using nf by (simp add: Step_def Let_def)
qed

lemma Tick_returns:
  assumes h: "holds (0, None) w i n" and o: "nd_out n = []" and r: "node_range n" and vf: "votes_fit (put w i n)"
  shows "returns w i (Tick now n)"
proof (cases "nd_failed n")
  case True
  then show ?thesis using rest_returns [OF h o] by (simp add: Tick_def)
next
  case nf: False
  note b = begin_call_holds [OF h, of now]
  from finish_returns [OF tick_holds [OF b(1)]] show ?thesis using nf r vf b by (simp add: Tick_def)
qed

definition sent_of :: "node \<times> envelope list \<times> 'a \<Rightarrow> node \<times> envelope list" where
  "sent_of r = (fst r, fst (snd r))"

lemma Propose_returns:
  assumes h: "holds (0, None) w i n" and o: "nd_out n = []" and r: "node_range n"
  shows "returns w i (sent_of (Propose now v n))"
proof (cases "nd_failed n")
  case True
  then show ?thesis using rest_returns [OF h o] by (simp add: Propose_def sent_of_def)
next
  case nf: False
  define m where "m = begin_call now n"
  note b = begin_call_holds [OF h, of now, folded m_def]
  have idle: "returns w i (m, [])" by (rule rest_returns [OF b(1)]) (simp add: b(2) o)
  have f: "returns w i (finish m)" by (rule finish_returns [OF b(1)])
  have q: "returns w i (finish (m\<lparr>nd_queue := nd_queue m @ [v]\<rparr>))" if "nd_role m = Leader"
    by (rule finish_returns [OF holds_queue [OF b(1)]]) (use that nf b(3) in simp_all)
  have p: "returns w i (finish (bump_slot (propose now (nd_nextSlot m) v m)))" if "nd_role m = Leader"
  proof (rule finish_returns, rule propose_next(1) [OF b(1)])
    show "\<not> nd_failed m" using nf b(3) by simp
    show "nd_nextSlot m + 1 < 2 ^ 64" using r b(4) that by (simp add: node_range_def slots_left_def)
  qed (use that in \<open>simp_all add: propose_def\<close>)
  show ?thesis
    unfolding Propose_def m_def [symmetric] using nf idle f q p by (simp add: Let_def with_error_def sent_of_def)
qed

lemma ReadIndex_returns:
  assumes h: "holds (0, None) w i n" and o: "nd_out n = []"
  shows "returns w i (sent_of (ReadIndex now n))"
proof (cases "nd_failed n")
  case True
  then show ?thesis using rest_returns [OF h o] by (simp add: ReadIndex_def sent_of_def)
next
  case nf: False
  define m where "m = begin_call now n"
  note b = begin_call_holds [OF h, of now, folded m_def]
  have idle: "returns w i (m, [])" by (rule rest_returns [OF b(1)]) (simp add: b(2) o)
  have "holds (0, None) w i (m\<lparr>nd_readSeq := q, nd_reads := rs\<rparr>)" for q rs
    by (rule holds_view [OF b(1)]) (simp add: view_defs)
  then have "returns w i (finish (leader_beat now q (m\<lparr>nd_readSeq := q, nd_reads := rs\<rparr>)))" for q rs
    by (intro finish_returns leader_beat_holds)
  then show ?thesis
    unfolding ReadIndex_def m_def [symmetric] using nf idle by (simp add: Let_def sent_of_def split_beta)
qed

lemma Events_returns:
  assumes h: "holds (0, None) w i n" and o: "nd_out n = []"
  shows "returns w i (fst (Events n), [])"
proof (rule rest_returns)
  show "holds (0, None) w i (fst (Events n))"
    by (rule holds_view [OF h]) (use no_conflicts [OF h] in \<open>simp add: Events_def view_defs\<close>)
qed (simp add: Events_def o)

end
