(* ===== verification/LogCluster.thy ===== *)
theory LogCluster
  imports LogKeeps LogCalls
begin

text \<open>
  A cluster of log nodes as a transition system, and the safety of the replicated log. A step is one
  driving call at one node, with any outcome of its saves and any random draws, or the restart of a
  node from its store. Messages stay in the network for ever: any of them may be delivered at any
  time, any number of times, or never; messages from strangers may arrive too. A call is taken while
  the 64-bit counters are in range; draining the events needs no range.
\<close>

section \<open>Restarting a node\<close>

lemma fold_keyed_other: "k \<notin> f ` set xs \<Longrightarrow> fmlookup (fold (\<lambda>x m. fmupd (f x) x m) xs m0) k = fmlookup m0 k"
  by (induction xs arbitrary: m0) auto

lemma fold_keyed_mem:
  "x \<in> set xs \<Longrightarrow> distinct (map f xs) \<Longrightarrow> fmlookup (fold (\<lambda>x m. fmupd (f x) x m) xs m0) (f x) = Some x"
proof (induction xs arbitrary: m0)
  case (Cons y ys)
  show ?case
  proof (cases "x = y")
    case True
    then show ?thesis using Cons.prems(2) fold_keyed_other [of "f x" f ys] by simp
  qed (use Cons in simp)
qed simp

lemma fold_keyed:
  assumes "keyed f m"
  shows "fold (\<lambda>x m. fmupd (f x) x m) (fmvals m) fmempty = m"
proof (rule fmap_ext)
  fix k
  have "map f (fmvals m) = fmkeys m"
    using assms by (auto simp: fmvals_def keyed_def fmlookup_dom'_iff intro!: map_idI)
  then have d: "distinct (map f (fmvals m))" by simp
  show "fmlookup (fold (\<lambda>x m. fmupd (f x) x m) (fmvals m) fmempty) k = fmlookup m k"
  proof (cases "fmlookup m k")
    case None
    then have "k \<notin> f ` set (fmvals m)" using assms by (auto simp: set_fmvals keyed_def)
    from fold_keyed_other [OF this] None show ?thesis by simp
  next
    case (Some x)
    then have "x \<in> set (fmvals m)" "f x = k" using assms by (auto simp: set_fmvals keyed_def)
    with fold_keyed_mem [OF _ d, of x fmempty] Some show ?thesis by simp
  qed
qed

lemma New_node:
  assumes new: "New cfg st = Inr m" and u: "cf_Unsafe cfg = None" and z: "fmlookup (st_chosen st) 0 = None"
  shows "nd_store m = st" "nd_cfg m = withDefaults cfg" "nd_quorum m = Quorum (length (cf_Peers cfg))"
    "nd_chosen m = st_chosen st" "nd_events m = []" "nd_role m = Follower" "nd_queue m = []" "nd_out m = []" "\<not> nd_failed m" "local_ok m"
proof -
  define n where "n = \<lparr>nd_cfg = withDefaults cfg, nd_store = st, nd_saves = [], nd_rands = [],
       nd_quorum = Quorum (length (cf_Peers cfg)), nd_promised = st_promised st,
       nd_maxRound = st_maxRound st, nd_accepted = st_accepted st, nd_chosen = st_chosen st,
       nd_commitIndex = 0, nd_leaseHolder = 0, nd_leaseUntil = 0, nd_leaderHint = 0,
       nd_leaderBallot = zero_ballot, nd_electionDeadline = 0, nd_started = False,
       nd_learnReqAfter = 0, nd_role = Follower, nd_ballot = zero_ballot, nd_phase1 = no_phase1,
       nd_proposals = fmempty, nd_nextSlot = 0, nd_firstOwnSlot = 0, nd_queue = [],
       nd_contacts = fmempty, nd_leaderSince = 0, nd_lastHeartbeat = 0, nd_readSeq = 0,
       nd_reads = fmempty, nd_out = [], nd_events = [], nd_failed = False\<rparr>"
  have w: "cf_Unsafe (withDefaults cfg) = None" "cf_Peers (withDefaults cfg) = cf_Peers cfg" using u by (simp_all add: withDefaults_def)
  obtain c where c: "advanceCommit n = n\<lparr>nd_commitIndex := c\<rparr>" "c < 2 ^ 64"
      "\<And>s. 0 < s \<Longrightarrow> s \<le> c \<Longrightarrow> fmlookup (nd_chosen n) s \<noteq> None"
    using advance_spec [of n "fmsize (nd_chosen n)"] z by (auto simp: advanceCommit_def n_def)
  have v: "config_Validate (withDefaults cfg) = None" using new by (auto simp: New_def Let_def split: option.splits)
  have "New cfg st = Inr (if nd_maxRound (advanceCommit n) < Round (nd_promised (advanceCommit n))
      then (advanceCommit n)\<lparr>nd_maxRound := Round (nd_promised (advanceCommit n))\<rparr> else advanceCommit n)"
    unfolding New_def Let_def n_def by (simp add: v w log_Load_def fold_keyed [OF keyed_st(1)] fold_keyed [OF keyed_st(2)])
  with new have "m = (if nd_maxRound (advanceCommit n) < Round (nd_promised (advanceCommit n))
      then (advanceCommit n)\<lparr>nd_maxRound := Round (nd_promised (advanceCommit n))\<rparr> else advanceCommit n)" by (metis sum.inject(2))
  then have m: "m = n\<lparr>nd_commitIndex := c, nd_maxRound := max (nd_maxRound n) (Round (nd_promised n))\<rparr>"
    by (simp add: c(1) max_def)
  show "nd_store m = st" "nd_cfg m = withDefaults cfg" "nd_quorum m = Quorum (length (cf_Peers cfg))"
    "nd_chosen m = st_chosen st" "nd_events m = []" "nd_role m = Follower" "nd_queue m = []" "nd_out m = []" "\<not> nd_failed m"
    by (simp_all add: m n_def)
  show "local_ok m" using c(2,3) by (simp add: local_ok_def m n_def)
qed

lemma New_fixed:
  assumes "New cfg st = Inr m" "cf_Unsafe cfg = None" "fmlookup (st_chosen st) 0 = None" "cf_Self cfg = a" "cf_Peers cfg = cl_members w"
  shows "fixed_ok w a m"
  using New_node [OF assms(1-3)] assms(2,4,5) st_chosen_mem by (auto simp: fixed_ok_def withDefaults_def local_ok_def)

lemma restart_chosen_zero:
  assumes h: "holds (0, None) w i n"
  shows "fmlookup (st_chosen (nd_store n)) 0 = None"
proof (cases "fmlookup (st_chosen (nd_store n)) 0")
  case (Some e)
  from st_chosen_mem [OF Some] have "lchosen (put w i n) 0 (le_Ballot e) (le_Value e)"
    using holdsD(4) [OF h] by (auto simp: store_ok_def)
  then show ?thesis using lchosen_voted voteD(8) [OF holdsD(2) [OF h]] by blast
qed

lemma restart_holds:
  assumes h: "holds (0, None) w i n" and new: "New (nd_cfg n) (nd_store n) = Inr m"
  shows "holds (0, None) w i m" "nd_out m = []"
proof -
  note f = fixedD [OF holdsD(5) [OF h]]
  note z = restart_chosen_zero [OF h]
  note m = New_node [OF new f(3) z]
  show "nd_out m = []" by (rule m(8))
  then have sn: "sent m = {}" by (simp add: sent_def)
  have fx: "fixed_ok (put w i n) i m" by (rule New_fixed [OF new f(3) z]) (simp_all add: f)
  show "holds (0, None) w i m"
  proof (rule holds_change [OF h put_same(1) [OF m(1)] _ fx])
    show "store_ok (put w i m) i" using holdsD(4) [OF h] by (simp add: view_cong(4) [OF m(1)])
    show "local_ok m" by (rule m(10))
    show "role_ok (0, None) (put w i m) i m" using m(6,7) by (simp add: role_ok_def)
    show "vote_ok (put w i m) s b v" if "lvote (put w i m) s i b v" "\<not> lvote (put w i n) s i b v" for s b v
      using that by (simp add: put_same(2) [OF m(1)])
    show "(e \<in> sent n \<and> says (idle(i := (0, None))) (put w i m) e) \<or>
        (says (idle(i := (0, None))) (put w i m) e \<and> (\<forall>c. c \<noteq> i \<longrightarrow> candidate w c \<longrightarrow> fits (put w i m) c e))" if "e \<in> sent m" for e
      using that sn by blast
  qed (simp add: m(6))
qed

section \<open>Steps of a cluster\<close>

datatype log_call = CallStep envelope | CallTick | CallPropose paxos_value | CallRead | CallEvents

definition run_call :: "int \<Rightarrow> log_call \<Rightarrow> node \<Rightarrow> node \<times> envelope list" where
  "run_call now c n =
     (case c of
        CallStep e \<Rightarrow> Step now e n
      | CallTick \<Rightarrow> Tick now n
      | CallPropose v \<Rightarrow> sent_of (Propose now v n)
      | CallRead \<Rightarrow> sent_of (ReadIndex now n)
      | CallEvents \<Rightarrow> (fst (Events n), []))"

definition with_env :: "save_outcome list \<Rightarrow> int list \<Rightarrow> node \<Rightarrow> node" where
  "with_env saves rands n = n\<lparr>nd_saves := saves, nd_rands := rands\<rparr>"

definition slot_fits :: "store_rec \<Rightarrow> bool" where
  "slot_fits r = (case r of AcceptedRec pv \<Rightarrow> pv_Slot pv + 3 < 2 ^ 64 | _ \<Rightarrow> True)"

lemma slot_fits_code [code]:
  "slot_fits r = (case r of AcceptedRec pv \<Rightarrow> pv_Slot pv + 3 < 18446744073709551616 | _ \<Rightarrow> True)"
  by (simp add: slot_fits_def split: store_rec.split)

definition in_range :: "cluster \<Rightarrow> node_id \<Rightarrow> bool" where
  "in_range w i \<longleftrightarrow> node_range (cl_nodes w i) \<and> (\<forall>a\<in>set (cl_members w). list_all slot_fits (lstore w a))"

definition may_call :: "cluster \<Rightarrow> node_id \<Rightarrow> log_call \<Rightarrow> bool" where
  "may_call w i c \<longleftrightarrow> i \<in> set (cl_members w) \<and> (c = CallEvents \<or> in_range w i) \<and>
     (case c of CallStep e \<Rightarrow> e \<in> cl_net w \<or> nv_From e \<notin> set (cl_members w) | _ \<Rightarrow> True)"

inductive cl_step :: "cluster \<Rightarrow> cluster \<Rightarrow> bool" where
  call: "may_call w i c \<Longrightarrow> cl_step w (deliver w i (run_call now c (with_env saves rands (cl_nodes w i))))"
| restart: "i \<in> set (cl_members w) \<Longrightarrow> New (nd_cfg (cl_nodes w i)) (lstore w i) = Inr n \<Longrightarrow> cl_step w (deliver w i (n, []))"

definition cl_init :: "node_id list \<Rightarrow> (node_id \<Rightarrow> config) \<Rightarrow> cluster" where
  "cl_init P cfg = \<lparr>cl_members = P, cl_nodes = (\<lambda>a. projr (New (cfg a) [])), cl_net = {}\<rparr>"

lemma cl_init_code [code]:
  "cl_init P cfg =
     \<lparr>cl_members = P, cl_nodes = fold (\<lambda>a f. f(a := f a)) P (\<lambda>a. projr (New (cfg a) [])), cl_net = {}\<rparr>"
proof -
  have "fold (\<lambda>a f. f(a := f a)) P f = f" for f :: "node_id \<Rightarrow> node" by (induction P) (simp_all add: fun_upd_idem)
  then show ?thesis by (simp add: cl_init_def)
qed

definition configured :: "node_id list \<Rightarrow> (node_id \<Rightarrow> config) \<Rightarrow> bool" where
  "configured P cfg \<longleftrightarrow> 2 \<le> length P \<and>
     (\<forall>a\<in>set P. config_Validate (cfg a) = None \<and> cf_Self (cfg a) = a \<and> cf_Peers (cfg a) = P \<and> cf_Unsafe (cfg a) = None)"

inductive log_reachable :: "node_id list \<Rightarrow> (node_id \<Rightarrow> config) \<Rightarrow> cluster \<Rightarrow> bool" for P cfg where
  init: "log_reachable P cfg (cl_init P cfg)"
| step: "log_reachable P cfg w \<Longrightarrow> cl_step w w' \<Longrightarrow> log_reachable P cfg w'"

section \<open>The invariant holds\<close>

definition quiet_inv :: "cluster \<Rightarrow> bool" where
  "quiet_inv w \<longleftrightarrow> cl_inv idle w \<and> (\<forall>a\<in>set (cl_members w). nd_out (cl_nodes w a) = [])"

lemma quiet_holds:
  assumes q: "quiet_inv w" and i: "i \<in> set (cl_members w)"
  shows "holds (0, None) w i (cl_nodes w i)" "put w i (cl_nodes w i) = w"
proof -
  show p: "put w i (cl_nodes w i) = w" using q i by (simp add: put_def sent_def quiet_inv_def)
  have "says idle w e" if "e \<in> cl_net w" for e using q that cl_invD(5) by (auto simp: quiet_inv_def msg_ok_def)
  then show "holds (0, None) w i (cl_nodes w i)" using q i by (simp add: holds_def p quiet_inv_def fun_upd_idem)
qed

lemma returns_quiet:
  assumes q: "quiet_inv w" and r: "returns w i r"
  shows "quiet_inv (deliver w i r)"
  using assms by (auto simp: quiet_inv_def returns_def deliver_def)

lemma in_range_votes: "in_range w i \<Longrightarrow> votes_fit w"
  by (fastforce simp: in_range_def votes_fit_def lvote_def list_all_iff slot_fits_def split: store_rec.splits)

lemma call_returns:
  assumes q: "quiet_inv w" and m: "may_call w i c"
  shows "returns w i (run_call now c (with_env saves rands (cl_nodes w i)))"
proof -
  have i: "i \<in> set (cl_members w)" and r: "c \<noteq> CallEvents \<Longrightarrow> in_range w i" using m by (auto simp: may_call_def)
  note h = quiet_holds [OF q i]
  define n where "n = with_env saves rands (cl_nodes w i)"
  have v: "view n = view (cl_nodes w i)" by (simp add: n_def with_env_def view_defs)
  have hn: "holds (0, None) w i n" by (rule holds_view [OF h(1) v])
  have o: "nd_out n = []" using q i viewD(5) [OF v] by (simp add: quiet_inv_def)
  have nr: "c \<noteq> CallEvents \<Longrightarrow> node_range n" using r by (simp add: in_range_def n_def with_env_def node_range_def slots_left_def)
  have vf: "c \<noteq> CallEvents \<Longrightarrow> votes_fit (put w i n)"
    using votes_fit_same [OF viewD(3) [OF v], of w i] in_range_votes [OF r] h(2) by simp
  have "returns w i (run_call now c n)"
  proof (cases c)
    case (CallStep e)
    then show ?thesis using Step_returns [OF hn o nr vf] m CallStep by (simp add: run_call_def may_call_def)
  next
    case CallTick
    then show ?thesis using Tick_returns [OF hn o nr vf] CallTick by (simp add: run_call_def)
  next
    case (CallPropose x)
    then show ?thesis using Propose_returns [OF hn o nr] CallPropose by (simp add: run_call_def)
  next
    case CallRead
    then show ?thesis using ReadIndex_returns [OF hn o] by (simp add: run_call_def)
  next
    case CallEvents
    then show ?thesis using Events_returns [OF hn o] by (simp add: run_call_def)
  qed
  then show ?thesis by (simp add: n_def)
qed

lemma cl_step_quiet: "cl_step w w' \<Longrightarrow> quiet_inv w \<Longrightarrow> quiet_inv w'"
proof (induction rule: cl_step.induct)
  case (call w i c now saves rands)
  then show ?case using returns_quiet call_returns by blast
next
  case (restart i w n)
  note h = restart_holds [OF quiet_holds(1) [OF restart.prems restart.hyps(1)] restart.hyps(2)]
  then show ?case using returns_quiet [OF restart.prems rest_returns] by blast
qed

lemma New_ready:
  assumes "config_Validate cfg = None"
  shows "New cfg st = Inr (projr (New cfg st))"
proof -
  have "config_Validate (withDefaults cfg) = None" using assms by (simp add: config_Validate_def withDefaults_idem)
  then show ?thesis by (simp add: New_def Let_def)
qed

lemma init_quiet:
  assumes c: "configured P cfg"
  shows "quiet_inv (cl_init P cfg)"
proof -
  let ?w = "cl_init P cfg"
  have n: "New (cfg a) [] = Inr (cl_nodes ?w a)" "cf_Unsafe (cfg a) = None" "cf_Self (cfg a) = a" "cf_Peers (cfg a) = cl_members ?w"
    if "a \<in> set P" for a using c New_ready that by (auto simp: configured_def cl_init_def)
  have z: "fmlookup (st_chosen []) 0 = None" by simp
  note m = New_node [OF n(1,2) z]
  have nov: "\<not> lvote ?w s a b v" for s a b v using m(1) by (auto simp: lvote_def cl_init_def)
  have "cl_inv idle ?w"
  proof (rule cl_invI)
    show "2 \<le> length (cl_members ?w)" using c by (simp add: configured_def cl_init_def)
    fix a assume "a \<in> set (cl_members ?w)"
    then have a: "a \<in> set P" by (simp add: cl_init_def)
    show "store_ok ?w a" using nov m(1) [OF a a] by (simp add: store_ok_def)
    have "fixed_ok ?w a (cl_nodes ?w a)" by (rule New_fixed [OF n(1,2) z n(3,4)]) (rule a)+
    then show "node_ok idle ?w a" using m(6,7,10) [OF a a] by (simp add: node_ok_def role_ok_def)
  qed (use nov in \<open>simp_all add: cl_init_def\<close>)
  moreover have "nd_out (cl_nodes ?w a) = []" if "a \<in> set (cl_members ?w)" for a
  proof -
    have "a \<in> set P" using that by (simp add: cl_init_def)
    then show ?thesis by (intro m(8))
  qed
  ultimately show ?thesis by (simp add: quiet_inv_def)
qed

lemma reachable_quiet: "log_reachable P cfg w \<Longrightarrow> configured P cfg \<Longrightarrow> quiet_inv w"
  by (induction rule: log_reachable.induct) (auto intro: init_quiet cl_step_quiet)

lemma deliver_sel [simp]:
  "cl_members (deliver w i r) = cl_members w" "cl_nodes (deliver w i r) a = (if a = i then fst r else cl_nodes w a)"
  by (simp_all add: deliver_def)

lemma cl_step_members: "cl_step w w' \<Longrightarrow> cl_members w' = cl_members w"
  by (induction rule: cl_step.induct) simp_all

lemma reachable_members: "log_reachable P cfg w \<Longrightarrow> cl_members w = P"
  by (induction rule: log_reachable.induct) (auto simp: cl_init_def cl_step_members)

lemma cl_step_kept: "cl_step w w' \<Longrightarrow> quiet_inv w \<Longrightarrow> set (lstore w a) \<subseteq> set (lstore w' a)"
proof (induction rule: cl_step.induct)
  case (call w i c now saves rands)
  let ?n = "with_env saves rands (cl_nodes w i)"
  have "set (lstore w i) \<subseteq> set (nd_store ?n)" by (simp add: with_env_def)
  from kept_calls [OF this] have "set (lstore w i) \<subseteq> set (nd_store (fst (run_call now c ?n)))"
    by (cases c) (simp_all add: run_call_def sent_of_def)
  then show ?case by simp
next
  case (restart i w n)
  have "nd_store n = lstore w i"
    using New_node(1) [OF restart.hyps(2)] restart_chosen_zero [OF quiet_holds(1) [OF restart.prems restart.hyps(1)]]
      fixedD(3) [OF holdsD(5) [OF quiet_holds(1) [OF restart.prems restart.hyps(1)]]] by blast
  then show ?case by simp
qed

lemma lchosen_kept:
  assumes "cl_members w' = cl_members w" and "\<And>a. set (lstore w a) \<subseteq> set (lstore w' a)" and "lchosen w s b v"
  shows "lchosen w' s b v"
proof -
  have "lvote w' s a b v" if "lvote w s a b v" for a using that assms(1,2) by (auto simp: lvote_def)
  then show ?thesis using assms(1,3) unfolding lchosen_def chosen_at_def by auto
qed

lemma cl_steps_kept:
  assumes "cl_step\<^sup>*\<^sup>* w w'" and "quiet_inv w"
  shows "quiet_inv w' \<and> cl_members w' = cl_members w \<and> (\<forall>s b v. lchosen w s b v \<longrightarrow> lchosen w' s b v)"
  using assms
proof (induction rule: rtranclp_induct)
  case (step x y)
  then have x: "quiet_inv x" "cl_members x = cl_members w" "\<And>s b v. lchosen w s b v \<Longrightarrow> lchosen x s b v" by blast+
  have "lchosen y s b v" if "lchosen x s b v" for s b v
    using lchosen_kept [OF cl_step_members [OF step.hyps(2)] cl_step_kept [OF step.hyps(2) x(1)] that] .
  then show ?case using x cl_step_quiet [OF step.hyps(2) x(1)] cl_step_members [OF step.hyps(2)] by auto
qed simp

lemma chosen_lchosen:
  assumes q: "quiet_inv w" and a: "a \<in> set (cl_members w)" and e: "node_Chosen (cl_nodes w a) s = Some e"
  shows "lchosen w s (le_Ballot e) (le_Value e)"
proof -
  note h = quiet_holds [OF q a]
  have "ChosenRec e \<in> set (lstore w a)" "le_Slot e = s"
    using fixedD(5) [OF holdsD(5) [OF h(1)]] e by (auto simp: node_Chosen_def)
  then show ?thesis using holdsD(4) [OF h(1)] h(2) by (auto simp: store_ok_def)
qed

section \<open>A run\<close>

text \<open>Runs in which every save succeeds and every draw is zero, as a function.\<close>

fun cl_run :: "(node_id \<times> int \<times> log_call) list \<Rightarrow> cluster \<Rightarrow> cluster option" where
  "cl_run [] w = Some w"
| "cl_run ((i, now, c) # as) w =
     (if may_call w i c then cl_run as (deliver w i (run_call now c (with_env [] [] (cl_nodes w i)))) else None)"

lemma cl_run_steps: "cl_run as w = Some w' \<Longrightarrow> cl_step\<^sup>*\<^sup>* w w'"
proof (induction as w rule: cl_run.induct)
  case (2 i now c as w)
  then have m: "may_call w i c" by (auto split: if_splits)
  with 2 have "cl_step\<^sup>*\<^sup>* (deliver w i (run_call now c (with_env [] [] (cl_nodes w i)))) w'" by simp
  with cl_step.call [OF m] show ?case by (rule converse_rtranclp_into_rtranclp)
qed simp

lemma reachable_steps: "cl_step\<^sup>*\<^sup>* w w' \<Longrightarrow> log_reachable P cfg w \<Longrightarrow> log_reachable P cfg w'"
  by (induction rule: rtranclp_induct) (auto intro: log_reachable.step)

definition pair_cfg :: "node_id \<Rightarrow> config" where
  "pair_cfg a = DefaultConfig a [1, 2]"

definition post :: "node_id \<Rightarrow> node_id \<Rightarrow> message \<Rightarrow> log_call" where
  "post from to m = CallStep \<lparr>nv_From = from, nv_To = to, nv_Msg = m\<rparr>"

text \<open>Node 1 is elected, commits its no-op in slot 1 and a client value in slot 2; then node 2 learns both.\<close>

definition election :: "(node_id \<times> int \<times> log_call) list" where
  "election =
     (let b = Ballot 1 1; t = 1000000000
      in [(1, 0, CallTick), (1, t, CallTick), (2, 0, post 1 2 (Prepare b 1)),
          (1, t, post 2 1 (Promise \<lparr>pm_Ballot = b, pm_Accepted = [], pm_CommitIndex = 0\<rparr>)),
          (1, t, CallPropose ''pay''), (2, 1, post 1 2 (Accept b 1 [])), (2, 1, post 1 2 (Accept b 2 ''pay'')),
          (1, t, post 2 1 (Accepted b 2)), (1, t, post 2 1 (Accepted b 1))])"

definition catch_up :: "(node_id \<times> int \<times> log_call) list" where
  "catch_up = (let b = Ballot 1 1 in [(2, 2, post 1 2 (Learn 2 b ''pay'')), (2, 3, post 1 2 (Learn 1 b []))])"

definition elected :: cluster where
  "elected = the (cl_run election (cl_init [1, 2] pair_cfg))"

definition caught_up :: cluster where
  "caught_up = the (cl_run catch_up elected)"

lemma pair_configured: "configured [1, 2] pair_cfg"
  by code_simp

lemma elected_run: "cl_run election (cl_init [1, 2] pair_cfg) = Some elected"
proof -
  have "cl_run election (cl_init [1, 2] pair_cfg) \<noteq> None" by code_simp
  then show ?thesis unfolding elected_def by (metis option.collapse)
qed

lemma caught_up_run: "cl_run catch_up elected = Some caught_up"
proof -
  have "cl_run catch_up elected \<noteq> None" by code_simp
  then show ?thesis unfolding caught_up_def by (metis option.collapse)
qed

lemma pair_reachable:
  "log_reachable [1, 2] pair_cfg elected" "cl_step\<^sup>*\<^sup>* elected caught_up" "log_reachable [1, 2] pair_cfg caught_up"
proof -
  show e: "log_reachable [1, 2] pair_cfg elected"
    by (rule reachable_steps [OF cl_run_steps [OF elected_run] log_reachable.init])
  show s: "cl_step\<^sup>*\<^sup>* elected caught_up" by (rule cl_run_steps [OF caught_up_run])
  show "log_reachable [1, 2] pair_cfg caught_up" by (rule reachable_steps [OF s e])
qed

definition pay_entry :: log_entry where
  "pay_entry = \<lparr>le_Slot = 2, le_Ballot = Ballot 1 1, le_Value = ''pay''\<rparr>"

lemma pay_chosen:
  "node_Chosen (cl_nodes elected 1) 2 = Some pay_entry" "node_Chosen (cl_nodes caught_up 2) 2 = Some pay_entry"
  by code_simp+

section \<open>Safety of the log\<close>

text \<open>
  C1. Agreement. In a cluster of at least two nodes with valid configurations, whatever calls are made,
  messages lost, repeated or reordered, saves failing with or without effect and nodes restarted: if
  some node holds a chosen value for a slot and now or later some node, the same or another, holds
  one, the two values are the same.
\<close>

theorem log_agreement:
  assumes "configured P cfg" and "log_reachable P cfg w" and "cl_step\<^sup>*\<^sup>* w w'" and "a \<in> set P" and "c \<in> set P"
    and "node_Chosen (cl_nodes w a) s = Some e" and "node_Chosen (cl_nodes w' c) s = Some e'"
  shows "le_Value e = le_Value e'"
proof -
  have q: "quiet_inv w" by (rule reachable_quiet [OF assms(2,1)])
  note k = cl_steps_kept [OF assms(3) q]
  have P: "cl_members w = P" by (rule reachable_members [OF assms(2)])
  have "lchosen w s (le_Ballot e) (le_Value e)" using chosen_lchosen [OF q _ assms(6)] assms(4) P by simp
  then have 1: "lchosen w' s (le_Ballot e) (le_Value e)" using k by blast
  have 2: "lchosen w' s (le_Ballot e') (le_Value e')" using chosen_lchosen [OF _ _ assms(7)] assms(5) P k by simp
  from k have "cl_inv idle w'" by (simp add: quiet_inv_def)
  from lchosen_agree [OF this 1 2] show ?thesis .
qed

theorem log_agreement_witness:
  "node_Chosen (cl_nodes elected 1) 2 = Some pay_entry \<and> node_Chosen (cl_nodes caught_up 2) 2 = Some pay_entry \<and>
   le_Value pay_entry = le_Value pay_entry"
  using log_agreement [OF pair_configured pair_reachable(1,2) _ _ pay_chosen] pay_chosen by simp

text \<open>
  C15. No node ever reports a \<^verbatim>\<open>LearnConflict\<close>: a Learn never carries a value different from the one the node
  holds for the slot.
\<close>

theorem no_learn_conflict:
  assumes "configured P cfg" and "log_reachable P cfg w" and "a \<in> set P"
  shows "LearnConflict s x y \<notin> set (nd_events (cl_nodes w a))"
proof -
  have q: "quiet_inv w" by (rule reachable_quiet [OF assms(2,1)])
  have "a \<in> set (cl_members w)" using reachable_members [OF assms(2)] assms(3) by simp
  from fixedD(6) [OF holdsD(5) [OF quiet_holds(1) [OF q this]]] show ?thesis .
qed

theorem no_learn_conflict_witness:
  "LearnConflict 2 pay_entry pay_entry \<notin> set (nd_events (cl_nodes caught_up 2))"
  using no_learn_conflict [OF pair_configured pair_reachable(3), of 2 2 pay_entry pay_entry] by simp

lemma committed_lchosen:
  assumes q: "quiet_inv w" and x: "x \<in> set (cl_members w)" "0 < s" "s \<le> nd_commitIndex (cl_nodes w x)"
  shows "\<exists>e. node_Chosen (cl_nodes w x) s = Some e \<and> le_Slot e = s \<and> lchosen w s (le_Ballot e) (le_Value e)"
proof -
  note f = fixedD [OF holdsD(5) [OF quiet_holds(1) [OF q x(1)]]]
  obtain e where e: "fmlookup (nd_chosen (cl_nodes w x)) s = Some e" using f(8) [OF x(2,3)] by auto
  then have "node_Chosen (cl_nodes w x) s = Some e" by (simp add: node_Chosen_def)
  then show ?thesis using f(5) [OF e] chosen_lchosen [OF q x(1)] by blast
qed

text \<open>
  C16. The committed prefixes of two nodes agree, failed or not: every slot up to a node's commit index has
  a chosen entry there, and slots below both commit indexes hold the same value at both.
\<close>

theorem committed_prefixes_agree:
  assumes "configured P cfg" and "log_reachable P cfg w" and "a \<in> set P" and "c \<in> set P"
    and "0 < s" and "s \<le> nd_commitIndex (cl_nodes w a)" and "s \<le> nd_commitIndex (cl_nodes w c)"
  shows "\<exists>e e'. node_Chosen (cl_nodes w a) s = Some e \<and> node_Chosen (cl_nodes w c) s = Some e' \<and>
    le_Slot e = s \<and> le_Slot e' = s \<and> le_Value e = le_Value e'"
proof -
  have q: "quiet_inv w" by (rule reachable_quiet [OF assms(2,1)])
  then have inv: "cl_inv idle w" by (simp add: quiet_inv_def)
  have P: "cl_members w = P" by (rule reachable_members [OF assms(2)])
  obtain e where e: "node_Chosen (cl_nodes w a) s = Some e" "le_Slot e = s" "lchosen w s (le_Ballot e) (le_Value e)"
    using committed_lchosen [OF q _ assms(5,6)] assms(3) P by auto
  obtain e' where e': "node_Chosen (cl_nodes w c) s = Some e'" "le_Slot e' = s" "lchosen w s (le_Ballot e') (le_Value e')"
    using committed_lchosen [OF q _ assms(5,7)] assms(4) P by auto
  show ?thesis using e e' lchosen_agree [OF inv e(3) e'(3)] by blast
qed

theorem committed_prefixes_agree_witness:
  "\<exists>e e'. node_Chosen (cl_nodes caught_up 1) 2 = Some e \<and> node_Chosen (cl_nodes caught_up 2) 2 = Some e' \<and>
    le_Slot e = 2 \<and> le_Slot e' = 2 \<and> le_Value e = le_Value e'"
proof -
  have f: "2 \<le> nd_commitIndex (cl_nodes caught_up 1)" "2 \<le> nd_commitIndex (cl_nodes caught_up 2)" by code_simp+
  show ?thesis by (rule committed_prefixes_agree [OF pair_configured pair_reachable(3) _ _ _ f]) simp_all
qed

end
