(* ===== verification/LogLoops.thy ===== *)
theory LogLoops
  imports LogPropose
begin

text \<open>
  The two loops of a log node return, and the bounds of the model never cut them short: \<^verbatim>\<open>drainQueue\<close>
  satisfies the equation of the source's loop, and \<^verbatim>\<open>advanceCommit\<close> stops exactly at the first slot that
  is not chosen.
\<close>

section \<open>The queue never grows inside a call\<close>

named_theorems qlen \<open>a bound on the queue is kept\<close>

lemma qlen_save [qlen]: "nd_queue (save r n) = nd_queue n"
  by (cases rule: save_cases [of r n]) simp_all

lemma qlen_view: "view n' = view n \<Longrightarrow> nd_queue n' = nd_queue n"
  by (drule viewD(9)) (simp add: office_def)

lemma qlen_same [qlen]:
  "nd_queue (refreshLease now b n) = nd_queue n" "nd_queue (noteLeader now b n) = nd_queue n"
  "nd_queue (raise_round b n) = nd_queue n"
  using qlen_view [OF refreshLease_view] qlen_view [OF noteLeader_view] by (auto simp: raise_round_def qlen_save)

lemma qlen_setPromised [qlen]: "length (nd_queue n) \<le> k \<Longrightarrow> length (nd_queue (setPromised now b n)) \<le> k"
  by (simp add: setPromised_def Let_def qlen stepDown_sel)

lemma qlen_accept_body [qlen]: "length (nd_queue n) \<le> k \<Longrightarrow> length (nd_queue (accept_body now from b s v n)) \<le> k"
  unfolding accept_body_def Let_def by (simp add: qlen)

lemma qlen_onNack [qlen]: "length (nd_queue n) \<le> k \<Longrightarrow> length (nd_queue (onNack now m n)) \<le> k"
  by (simp add: onNack_def Let_def qlen stepDown_sel)

lemma qlen_send: "length (nd_queue n) \<le> k \<Longrightarrow> length (nd_queue (inl n)) \<le> k \<Longrightarrow> length (nd_queue (send inl to m n)) \<le> k"
  by (simp add: send_def)

lemma qlen_broadcast:
  assumes "length (nd_queue n) \<le> k" and "\<And>n. length (nd_queue n) \<le> k \<Longrightarrow> length (nd_queue (inl n)) \<le> k"
  shows "length (nd_queue (broadcast inl m self n)) \<le> k"
proof -
  have "length (nd_queue (fold (\<lambda>p n'. if p = Self n' \<and> \<not> self then n' else send inl p m n') ps n)) \<le> k" for ps
    using assms(1) by (induction ps arbitrary: n) (simp_all add: qlen_send assms(2))
  then show ?thesis unfolding broadcast_def .
qed

lemma advance_queue [simp]: "nd_queue (advance k n) = nd_queue n"
  by (induction k n rule: advance.induct) simp_all

definition shrinks :: "(node \<Rightarrow> node) \<Rightarrow> bool" where
  "shrinks D \<longleftrightarrow> (\<forall>n. length (nd_queue (D n)) \<le> length (nd_queue n))"

lemma shrinksD: "shrinks D \<Longrightarrow> length (nd_queue n) \<le> k \<Longrightarrow> length (nd_queue (D n)) \<le> k"
  unfolding shrinks_def using order_trans by blast

lemma qlen_learn_with: "shrinks D \<Longrightarrow> length (nd_queue n) \<le> k \<Longrightarrow> length (nd_queue (learn_with D e n)) \<le> k"
  by (simp add: learn_with_def Let_def advanceCommit_def qlen shrinksD)

lemma qlen_onAccepted_with: "shrinks D \<Longrightarrow> length (nd_queue n) \<le> k \<Longrightarrow> length (nd_queue (onAccepted_with D from b s n)) \<le> k"
  by (simp add: onAccepted_with_def Let_def qlen_learn_with qlen_broadcast split: option.split)

lemma qlen_onAccept_with: "shrinks D \<Longrightarrow> length (nd_queue n) \<le> k \<Longrightarrow> length (nd_queue (onAccept_with D now from b s v n)) \<le> k"
  by (simp add: onAccept_with_body Let_def qlen_onAccepted_with qlen_send qlen)

lemma qlen_propose_with: "shrinks D \<Longrightarrow> length (nd_queue n) \<le> k \<Longrightarrow> length (nd_queue (propose_with D now s v n)) \<le> k"
  by (simp add: propose_with_def Let_def qlen_onAccept_with qlen_broadcast)

lemma drain_shrinks: "shrinks (drain k now)"
proof (induction k)
  case (Suc k)
  have "length (nd_queue (drain (Suc k) now n)) \<le> length (nd_queue n)" for n
    by (auto simp: bump_slot_def intro!: shrinksD [OF Suc.IH] qlen_propose_with [OF Suc.IH])
  then show ?case by (simp add: shrinks_def)
qed (simp add: shrinks_def)

section \<open>The rest of the loop only matters on short queues\<close>

definition same_upto :: "nat \<Rightarrow> (node \<Rightarrow> node) \<Rightarrow> (node \<Rightarrow> node) \<Rightarrow> bool" where
  "same_upto k D D' \<longleftrightarrow> shrinks D \<and> (\<forall>n. length (nd_queue n) \<le> k \<longrightarrow> D n = D' n)"

lemma same_uptoD: "same_upto k D D' \<Longrightarrow> length (nd_queue n) \<le> k \<Longrightarrow> D n = D' n" "same_upto k D D' \<Longrightarrow> shrinks D"
  by (simp_all add: same_upto_def)

lemma learn_with_same: "same_upto k D D' \<Longrightarrow> length (nd_queue n) \<le> k \<Longrightarrow> learn_with D e n = learn_with D' e n"
  by (simp add: learn_with_def Let_def advanceCommit_def same_uptoD qlen)

lemma onAccepted_with_same:
  "same_upto k D D' \<Longrightarrow> length (nd_queue n) \<le> k \<Longrightarrow> onAccepted_with D from b s n = onAccepted_with D' from b s n"
  by (simp add: onAccepted_with_def Let_def learn_with_same split: option.split)

lemma onAccept_with_same:
  assumes "same_upto k D D'" and "length (nd_queue n) \<le> k"
  shows "onAccept_with D now from b s v n = onAccept_with D' now from b s v n"
proof -
  let ?r = "accept_body now from b s v n"
  have "onAccepted_with D f b s ?r = onAccepted_with D' f b s ?r" for f
    by (rule onAccepted_with_same [OF assms(1) qlen_accept_body [OF assms(2)]])
  then show ?thesis unfolding onAccept_with_body Let_def by (simp add: send_def)
qed

lemma broadcast_same:
  assumes "length (nd_queue n) \<le> k" and "\<And>n. length (nd_queue n) \<le> k \<Longrightarrow> inl n = inl' n"
    and "\<And>n. length (nd_queue n) \<le> k \<Longrightarrow> length (nd_queue (inl n)) \<le> k"
  shows "broadcast inl m self n = broadcast inl' m self n"
proof -
  have "fold (\<lambda>p n'. if p = Self n' \<and> \<not> self then n' else send inl p m n') ps n =
      fold (\<lambda>p n'. if p = Self n' \<and> \<not> self then n' else send inl' p m n') ps n" for ps
    using assms(1)
  proof (induction ps arbitrary: n)
    case (Cons p ps)
    have "send inl p m n = send inl' p m n" using assms(2) [OF Cons.prems] by (simp add: send_def)
    moreover have "length (nd_queue (send inl p m n)) \<le> k" using qlen_send [of n k inl] Cons.prems assms(3) by blast
    ultimately show ?case using Cons by simp
  qed simp
  then show ?thesis unfolding broadcast_def .
qed

lemma propose_with_same:
  assumes "same_upto k D D'" and "length (nd_queue n) \<le> k"
  shows "propose_with D now s v n = propose_with D' now s v n"
  unfolding propose_with_def Let_def
proof (rule broadcast_same [of _ k])
  fix m :: node assume m: "length (nd_queue m) \<le> k"
  show "onAccept_with D now f b s v m = onAccept_with D' now f b s v m" for f b by (rule onAccept_with_same [OF assms(1) m])
  show "length (nd_queue (onAccept_with D now f b s v m)) \<le> k" for f b
    by (rule qlen_onAccept_with [OF same_uptoD(2) [OF assms(1)] m])
qed (use assms(2) in simp)

lemma drain_enough: "length (nd_queue n) \<le> j \<Longrightarrow> length (nd_queue n) \<le> k \<Longrightarrow> drain j now n = drain k now n"
proof (induction j arbitrary: k n)
  case 0
  then show ?case using drain_stop [of n k now] by (simp add: may_drain_def)
next
  case (Suc j)
  show ?case
  proof (cases "may_drain n")
    case False
    then show ?thesis using drain_stop by simp
  next
    case True
    then have "nd_queue n \<noteq> []" by (simp add: may_drain_def)
    then obtain l where l: "k = Suc l" "length (tl (nd_queue n)) \<le> j" "length (tl (nd_queue n)) \<le> l"
      using Suc.prems by (cases k) auto
    let ?n = "n\<lparr>nd_queue := tl (nd_queue n)\<rparr>" and ?m = "length (tl (nd_queue n))"
    have "same_upto ?m (drain j now) (drain l now)"
      unfolding same_upto_def
    proof (intro conjI allI impI)
      fix m :: node assume "length (nd_queue m) \<le> ?m"
      with l(2,3) show "drain j now m = drain l now m" using Suc.IH [of m l] by linarith
    qed (rule drain_shrinks)
    from propose_with_same [OF this, of ?n]
    have p: "propose_with (drain j now) now (nd_nextSlot n) (hd (nd_queue n)) ?n = propose_with (drain l now) now (nd_nextSlot n) (hd (nd_queue n)) ?n" (is "?p = _")
      by simp
    have "length (nd_queue (bump_slot ?p)) \<le> ?m" by (simp add: bump_slot_def qlen_propose_with [OF drain_shrinks])
    then have "drain j now (bump_slot ?p) = drain l now (bump_slot ?p)" by (intro Suc.IH order_trans [OF _ l(2)] order_trans [OF _ l(3)])
    then show ?thesis using True l(1) p by simp
  qed
qed

text \<open>
  C17. \<^verbatim>\<open>drainQueue\<close> returns for every node and satisfies the equation of its loop: while a value is queued,
  the window is open, the node leads and has not failed, it takes the first value, proposes it at the
  next slot, advances the slot and goes on, including the drains nested in the proposal itself.
\<close>

theorem drainQueue_loop:
  "drainQueue now n =
     (if may_drain n
      then drainQueue now (bump_slot (propose now (nd_nextSlot n) (hd (nd_queue n)) (n\<lparr>nd_queue := tl (nd_queue n)\<rparr>)))
      else n)"
proof (cases "may_drain n")
  case False
  then show ?thesis by (simp add: drainQueue_def drain_stop)
next
  case True
  then have "nd_queue n \<noteq> []" by (simp add: may_drain_def)
  then obtain k where k: "length (nd_queue n) = Suc k" "length (tl (nd_queue n)) = k" by (cases "nd_queue n") auto
  let ?n = "n\<lparr>nd_queue := tl (nd_queue n)\<rparr>"
  have "same_upto k (drain k now) (drainQueue now)"
    unfolding same_upto_def drainQueue_def by (intro conjI allI impI drain_shrinks drain_enough order_refl)
  from propose_with_same [OF this, of ?n]
  have p: "propose_with (drain k now) now (nd_nextSlot n) (hd (nd_queue n)) ?n = propose now (nd_nextSlot n) (hd (nd_queue n)) ?n" (is "?p = _")
    using k(2) by (simp add: propose_def)
  have "length (nd_queue (bump_slot ?p)) \<le> k" using k(2) by (simp add: bump_slot_def qlen_propose_with [OF drain_shrinks])
  then have "drain k now (bump_slot ?p) = drainQueue now (bump_slot ?p)" unfolding drainQueue_def by (intro drain_enough) simp_all
  then show ?thesis using True k(1) p by (simp add: drainQueue_def)
qed

section \<open>The commit index\<close>

lemma advance_stops:
  assumes "fmlookup (nd_chosen n) 0 = None" and "nd_commitIndex n < 2 ^ 64"
    and "card {s \<in> fmdom' (nd_chosen n). nd_commitIndex n < s} \<le> k"
  shows "\<exists>c. advance k n = n\<lparr>nd_commitIndex := c\<rparr> \<and> nd_commitIndex n \<le> c \<and> c < 2 ^ 64 \<and>
      (\<forall>s. nd_commitIndex n < s \<longrightarrow> s \<le> c \<longrightarrow> fmlookup (nd_chosen n) s \<noteq> None) \<and> fmlookup (nd_chosen n) (u64 (c + 1)) = None"
  using assms
proof (induction k arbitrary: n)
  case 0
  have "fmlookup (nd_chosen n) (u64 (nd_commitIndex n + 1)) = None"
  proof (cases "fmlookup (nd_chosen n) (u64 (nd_commitIndex n + 1))")
    case (Some e)
    then have "u64 (nd_commitIndex n + 1) = nd_commitIndex n + 1" using "0.prems"(1,2) by (auto simp: u64_def mod_if split: if_splits)
    then have "nd_commitIndex n + 1 \<in> {s \<in> fmdom' (nd_chosen n). nd_commitIndex n < s}" using Some by (simp add: fmlookup_dom'_iff)
    moreover have "finite {s \<in> fmdom' (nd_chosen n). nd_commitIndex n < s}" by simp
    ultimately show ?thesis using "0.prems"(3) by (metis card_eq_0_iff empty_iff le_zero_eq)
  qed simp
  moreover have "advance 0 n = n\<lparr>nd_commitIndex := nd_commitIndex n\<rparr>" by simp
  ultimately show ?case using "0.prems"(2) by (metis leD order_refl)
next
  case (Suc k)
  show ?case
  proof (cases "fmlookup (nd_chosen n) (u64 (nd_commitIndex n + 1))")
    case None
    then have "advance (Suc k) n = n\<lparr>nd_commitIndex := nd_commitIndex n\<rparr>" by simp
    then show ?thesis using Suc.prems(2) None by (metis leD order_refl)
  next
    case (Some e)
    then have u: "u64 (nd_commitIndex n + 1) = nd_commitIndex n + 1" "nd_commitIndex n + 1 < 2 ^ 64"
      using Suc.prems(1,2) by (auto simp: u64_def mod_if split: if_splits)
    let ?m = "n\<lparr>nd_commitIndex := nd_commitIndex n + 1\<rparr>"
    let ?A = "{s \<in> fmdom' (nd_chosen n). nd_commitIndex n < s}" and ?B = "{s \<in> fmdom' (nd_chosen ?m). nd_commitIndex ?m < s}"
    have "?B = ?A - {nd_commitIndex n + 1}" by auto
    moreover have "nd_commitIndex n + 1 \<in> ?A" using Some u(1) by (simp add: fmlookup_dom'_iff)
    ultimately have "card ?B \<le> k" using Suc.prems(3) by (simp add: card_Diff_singleton)
    then obtain c where c: "advance k ?m = ?m\<lparr>nd_commitIndex := c\<rparr>" "nd_commitIndex ?m \<le> c" "c < 2 ^ 64"
        "\<forall>s. nd_commitIndex ?m < s \<longrightarrow> s \<le> c \<longrightarrow> fmlookup (nd_chosen ?m) s \<noteq> None" "fmlookup (nd_chosen ?m) (u64 (c + 1)) = None"
      using Suc.IH [of ?m] Suc.prems(1) u(2) by (simp del: One_nat_def) blast
    have "fmlookup (nd_chosen n) s \<noteq> None" if "nd_commitIndex n < s" "s \<le> c" for s
      using c(4) that Some u(1) by (cases "s = nd_commitIndex n + 1") auto
    then show ?thesis using c Some u(1) by (intro exI [of _ c]) simp
  qed
qed

text \<open>
  \<^verbatim>\<open>advanceCommit\<close> returns: it changes the commit index only, passes every chosen slot that follows it
  without a gap, and stops at the first slot that is not chosen.
\<close>

theorem advanceCommit_stops:
  assumes "fmlookup (nd_chosen n) 0 = None" and "nd_commitIndex n < 2 ^ 64"
  shows "\<exists>c. advanceCommit n = n\<lparr>nd_commitIndex := c\<rparr> \<and> nd_commitIndex n \<le> c \<and> c < 2 ^ 64 \<and>
      (\<forall>s. nd_commitIndex n < s \<and> s \<le> c \<longrightarrow> node_Chosen n s \<noteq> None) \<and> node_Chosen n (u64 (c + 1)) = None"
proof -
  have "card {s \<in> fmdom' (nd_chosen n). nd_commitIndex n < s} \<le> fmsize (nd_chosen n)"
    unfolding fmsize_card by (rule card_mono) auto
  from advance_stops [OF assms this] show ?thesis unfolding advanceCommit_def node_Chosen_def by auto
qed

definition gap_node :: node where
  "gap_node = (projr (New (DefaultConfig 1 [1, 2])
     (map (\<lambda>s. ChosenRec \<lparr>le_Slot = s, le_Ballot = Ballot 1 1, le_Value = ''v''\<rparr>) [1, 2, 4])))\<lparr>nd_commitIndex := 0\<rparr>"

theorem advanceCommit_stops_witness:
  "(\<exists>c. advanceCommit gap_node = gap_node\<lparr>nd_commitIndex := c\<rparr> \<and> nd_commitIndex gap_node \<le> c \<and> c < 2 ^ 64 \<and>
      (\<forall>s. nd_commitIndex gap_node < s \<and> s \<le> c \<longrightarrow> node_Chosen gap_node s \<noteq> None) \<and> node_Chosen gap_node (u64 (c + 1)) = None) \<and>
   nd_commitIndex (advanceCommit gap_node) = 2"
proof
  have "fmlookup (nd_chosen gap_node) 0 = None" "nd_commitIndex gap_node < 2 ^ 64" by code_simp+
  from advanceCommit_stops [OF this]
  show "\<exists>c. advanceCommit gap_node = gap_node\<lparr>nd_commitIndex := c\<rparr> \<and> nd_commitIndex gap_node \<le> c \<and> c < 2 ^ 64 \<and>
      (\<forall>s. nd_commitIndex gap_node < s \<and> s \<le> c \<longrightarrow> node_Chosen gap_node s \<noteq> None) \<and> node_Chosen gap_node (u64 (c + 1)) = None" .
  show "nd_commitIndex (advanceCommit gap_node) = 2" by code_simp
qed

end
