(* ===== verification/Jsonx.thy ===== *)
theory Jsonx
  imports Prelude
begin

text \<open>
  Package \<^verbatim>\<open>internal/jsonx\<close>: the strict decoding rule every layer applies. The JSON decoder of the standard
  library is an argument: it returns the value and the offset behind it, or \<open>None\<close> for text it rejects,
  an unknown field included.
\<close>

datatype strict_error = JsonError | OffsetOutOfRange | TrailingData

definition json_space :: "char \<Rightarrow> bool" where
  "json_space c \<longleftrightarrow> c = CHR '' '' \<or> c = CHR 0x09 \<or> c = CHR 0x0A \<or> c = CHR 0x0D"

definition DecodeStrict :: "(string \<Rightarrow> ('a \<times> int) option) \<Rightarrow> string \<Rightarrow> strict_error + 'a" where
  "DecodeStrict dec b =
     (case dec b of
        None \<Rightarrow> Inl JsonError
      | Some (v, off) \<Rightarrow>
          if off < 0 \<or> off > int (length b) then Inl OffsetOutOfRange
          else if list_all json_space (drop (nat off) b) then Inr v
          else Inl TrailingData)"

lemma DecodeStrict_whole: "dec b = Some (v, int (length b)) \<Longrightarrow> DecodeStrict dec b = Inr v"
  by (simp add: DecodeStrict_def)

end
