(* ===== verification/Wal.thy ===== *)
theory Wal
  imports LogBase Jsonx
begin

text \<open>
  Package \<^verbatim>\<open>internal/replog/wal\<close>: the durable store on an append-only file. A record is an 8-byte header,
  payload length and CRC-32C in big-endian order, followed by a JSON payload.

  \<^item> The file's content is a list of bytes in the state. CRC-32C and the JSON codec of a record are the
    functions of \<open>wal_codec\<close>.
  \<^item> Which file operation fails is an argument: a predicate on the operations of \<^verbatim>\<open>Open\<close> and \<^verbatim>\<open>Load\<close>, and a
    \<open>write_outcome\<close> of every append. A failed write leaves any part of the record behind unless the
    truncation that follows works; a failed sync leaves all of it.
  \<^item> A crash keeps the synced prefix and any part of what was written after it (\<open>survives\<close>).
\<close>

section \<open>Records\<close>

record membership =
  mb_Self :: node_id
  mb_Peers :: "node_id list"

record wal_rec =
  wr_Membership :: "membership option"
  wr_Promised :: "ballot option"
  wr_MaxRound :: "nat option"
  wr_Accepted :: "pvalue option"
  wr_Chosen :: "log_entry option"

definition no_rec :: wal_rec where
  "no_rec = \<lparr>wr_Membership = None, wr_Promised = None, wr_MaxRound = None, wr_Accepted = None, wr_Chosen = None\<rparr>"

definition wal_fields :: "wal_rec \<Rightarrow> nat" where
  "wal_fields r = length (filter id [wr_Membership r \<noteq> None, wr_Promised r \<noteq> None, wr_MaxRound r \<noteq> None,
     wr_Accepted r \<noteq> None, wr_Chosen r \<noteq> None])"

definition member_rec :: "membership \<Rightarrow> wal_rec" where
  "member_rec m = no_rec\<lparr>wr_Membership := Some m\<rparr>"

text \<open>The record of each of the four \<^verbatim>\<open>Save\<close> calls.\<close>

definition rec_of :: "store_rec \<Rightarrow> wal_rec" where
  "rec_of r =
     (case r of
        PromisedRec b \<Rightarrow> no_rec\<lparr>wr_Promised := Some b\<rparr>
      | MaxRoundRec n \<Rightarrow> no_rec\<lparr>wr_MaxRound := Some n\<rparr>
      | AcceptedRec pv \<Rightarrow> no_rec\<lparr>wr_Accepted := Some pv\<rparr>
      | ChosenRec e \<Rightarrow> no_rec\<lparr>wr_Chosen := Some e\<rparr>)"

record wal_codec =
  wk_crc :: "string \<Rightarrow> nat"
  wk_marshal :: "wal_rec \<Rightarrow> string option"
  wk_read :: "string \<Rightarrow> (wal_rec \<times> int) option"

definition headerBytes :: nat where "headerBytes = 8"
definition maxRecordBytes :: nat where "maxRecordBytes = 4 * MaxValueBytes + 2 ^ 16"

datatype wal_error =
    EmptyRecord nat | ChecksumMismatch nat | UndecodableRecord nat | MemberPosition nat | PrefixLength nat nat
  | OpenError | OpenDirError | SyncDirError | StatError | ReadError | TruncateError nat | SyncTruncateError
  | WriteError | SyncError | EncodeError | RecordTooLarge nat | FileClosed | WriteFailed wal_error
  | OtherMembership membership membership | NoMembership | CloseError

definition is_ErrCorrupt :: "wal_error \<Rightarrow> bool" where
  "is_ErrCorrupt e =
     (case e of EmptyRecord _ \<Rightarrow> True | ChecksumMismatch _ \<Rightarrow> True | UndecodableRecord _ \<Rightarrow> True
      | MemberPosition _ \<Rightarrow> True | PrefixLength _ _ \<Rightarrow> True | _ \<Rightarrow> False)"

record wal_file =
  wf_bytes :: string
  wf_size :: nat
  wf_member :: "membership option"
  wf_err :: "wal_error option"
  wf_open :: bool

section \<open>Scanning\<close>

definition allZero :: "string \<Rightarrow> bool" where
  "allZero b = list_all (\<lambda>c. of_char c = (0::nat)) b"

function scan_loop :: "wal_codec \<Rightarrow> wal_rec list \<Rightarrow> nat \<Rightarrow> string \<Rightarrow> wal_error + wal_rec list \<times> nat" where
  "scan_loop k recs off rest =
     (if rest = [] then Inr (recs, off)
      else if length rest < headerBytes then Inr (recs, off)
      else
        (let n = be_value (take 4 rest); sum = be_value (take 4 (drop 4 rest))
         in if n = 0 then (if allZero rest then Inr (recs, off) else Inl (EmptyRecord off))
            else if n > maxRecordBytes \<or> headerBytes + n > length rest then Inr (recs, off)
            else
              (let payload = take n (drop headerBytes rest); last = (headerBytes + n = length rest)
               in if wk_crc k payload \<noteq> sum then (if last then Inr (recs, off) else Inl (ChecksumMismatch off))
                  else (case DecodeStrict (wk_read k) payload of
                          Inl _ \<Rightarrow> Inl (UndecodableRecord off)
                        | Inr r \<Rightarrow>
                            if wal_fields r \<noteq> 1 then Inl (UndecodableRecord off)
                            else scan_loop k (recs @ [r]) (off + (headerBytes + n)) (drop (headerBytes + n) rest)))))"
  by pat_completeness auto
termination
  by (relation "measure (\<lambda>(k, recs, off, rest). length rest)") (auto simp: headerBytes_def)

declare scan_loop.simps [simp del]

datatype wal_io = IoOpen | IoOpenDir | IoSyncDir | IoScanStat | IoRead | IoStat | IoTruncate | IoSync

definition wal_scan :: "wal_codec \<Rightarrow> (wal_io \<Rightarrow> bool) \<Rightarrow> string \<Rightarrow> wal_error + wal_rec list \<times> nat" where
  "wal_scan k fails b =
     (if fails IoScanStat then Inl StatError
      else if b \<noteq> [] \<and> fails IoRead then Inl ReadError
      else scan_loop k [] 0 b)"

section \<open>Open, Bind, Load\<close>

fun check_members :: "nat \<Rightarrow> wal_rec list \<Rightarrow> membership option \<Rightarrow> wal_error + membership option" where
  "check_members i [] m = Inr m"
| "check_members i (r # rs) m =
     (case wr_Membership r of
        None \<Rightarrow> check_members (i + 1) rs m
      | Some x \<Rightarrow> if i \<noteq> 0 then Inl (MemberPosition (i + 1)) else check_members (i + 1) rs (Some x))"

text \<open>\<open>wal_Open\<close> takes the content at the path, \<open>None\<close> when there is no file, and returns the content it leaves.\<close>

definition wal_Open :: "wal_codec \<Rightarrow> (wal_io \<Rightarrow> bool) \<Rightarrow> string option \<Rightarrow> string option \<times> (wal_error + wal_file)" where
  "wal_Open k fails disk =
     (if fails IoOpen then (disk, Inl OpenError)
      else
        (let b = (case disk of None \<Rightarrow> [] | Some b \<Rightarrow> b)
         in if disk = None \<and> fails IoOpenDir then (Some b, Inl OpenDirError)
            else if disk = None \<and> fails IoSyncDir then (Some b, Inl SyncDirError)
            else (case wal_scan k fails b of
                    Inl e \<Rightarrow> (Some b, Inl e)
                  | Inr (recs, valid) \<Rightarrow>
                      if fails IoStat then (Some b, Inl StatError)
                      else if valid < length b \<and> fails IoTruncate then (Some b, Inl (TruncateError valid))
                      else
                        (let b1 = (if valid < length b then take valid b else b)
                         in if valid < length b \<and> fails IoSync then (Some b1, Inl SyncTruncateError)
                            else (Some b1,
                                  map_sum id (\<lambda>m. \<lparr>wf_bytes = b1, wf_size = valid, wf_member = m, wf_err = None, wf_open = True\<rparr>)
                                    (check_members 0 recs None))))))"

datatype write_outcome = WriteOk | WriteFails nat bool | SyncFails

definition frame :: "wal_codec \<Rightarrow> string \<Rightarrow> string" where
  "frame k payload = be_bytes 4 (u32 (length payload)) @ be_bytes 4 (wk_crc k payload) @ payload"

definition write_at :: "string \<Rightarrow> nat \<Rightarrow> string \<Rightarrow> string" where
  "write_at b off buf = take off b @ buf @ drop (off + length buf) b"

definition appendLocked :: "wal_codec \<Rightarrow> write_outcome \<Rightarrow> wal_rec \<Rightarrow> wal_file \<Rightarrow> wal_file \<times> wal_error option" where
  "appendLocked k out r w =
     (case wf_err w of
        Some e \<Rightarrow> (w, Some e)
      | None \<Rightarrow>
          if \<not> wf_open w then (w, Some FileClosed)
          else (case wk_marshal k r of
                  None \<Rightarrow> (w, Some EncodeError)
                | Some payload \<Rightarrow>
                    if length payload > maxRecordBytes then (w, Some (RecordTooLarge (length payload)))
                    else
                      (let buf = frame k payload
                       in case out of
                            WriteFails n trunc \<Rightarrow>
                              (let b = write_at (wf_bytes w) (wf_size w) (take n buf)
                               in (w\<lparr>wf_err := Some WriteError, wf_bytes := (if trunc then take (wf_size w) b else b)\<rparr>, Some WriteError))
                          | SyncFails \<Rightarrow>
                              (w\<lparr>wf_bytes := write_at (wf_bytes w) (wf_size w) buf, wf_err := Some SyncError\<rparr>, Some SyncError)
                          | WriteOk \<Rightarrow>
                              (w\<lparr>wf_bytes := write_at (wf_bytes w) (wf_size w) buf, wf_size := wf_size w + length buf\<rparr>, None))))"

definition wal_Save :: "wal_codec \<Rightarrow> write_outcome \<Rightarrow> store_rec \<Rightarrow> wal_file \<Rightarrow> wal_file \<times> wal_error option" where
  "wal_Save k out r w = appendLocked k out (rec_of r) w"

definition wal_Membership :: "wal_file \<Rightarrow> membership option" where
  "wal_Membership w = wf_member w"

definition wal_Bind :: "wal_codec \<Rightarrow> write_outcome \<Rightarrow> node_id \<Rightarrow> node_id list \<Rightarrow> wal_file \<Rightarrow> wal_file \<times> wal_error option" where
  "wal_Bind k out self peers w =
     (let want = \<lparr>mb_Self = self, mb_Peers = sort peers\<rparr>
      in case wf_member w of
           Some m \<Rightarrow>
             if mb_Self m \<noteq> mb_Self want \<or> mb_Peers m \<noteq> mb_Peers want then (w, Some (OtherMembership m want)) else (w, None)
         | None \<Rightarrow>
             if wf_size w > 0 then (w, Some NoMembership)
             else (case appendLocked k out (member_rec want) w of
                     (w1, Some e) \<Rightarrow> (w1, Some e)
                   | (w1, None) \<Rightarrow> (w1\<lparr>wf_member := Some want\<rparr>, None)))"

record wal_replay =
  wp_promised :: ballot
  wp_maxRound :: nat
  wp_accepted :: "(slot, pvalue) fmap"
  wp_chosen :: "(slot, log_entry) fmap"

definition replay_rec :: "wal_rec \<Rightarrow> wal_replay \<Rightarrow> wal_replay" where
  "replay_rec r d =
     (case wr_Promised r of Some b \<Rightarrow> d\<lparr>wp_promised := b\<rparr>
      | None \<Rightarrow> (case wr_MaxRound r of Some n \<Rightarrow> d\<lparr>wp_maxRound := n\<rparr>
      | None \<Rightarrow> (case wr_Accepted r of Some pv \<Rightarrow> d\<lparr>wp_accepted := fmupd (pv_Slot pv) pv (wp_accepted d)\<rparr>
      | None \<Rightarrow> (case wr_Chosen r of Some e \<Rightarrow> d\<lparr>wp_chosen := fmupd (le_Slot e) e (wp_chosen d)\<rparr>
      | None \<Rightarrow> d))))"

definition wal_Load :: "wal_codec \<Rightarrow> (wal_io \<Rightarrow> bool) \<Rightarrow> wal_file \<Rightarrow> wal_error + durable" where
  "wal_Load k fails w =
     (if \<not> wf_open w then Inl FileClosed
      else case wf_err w of
        Some e \<Rightarrow> Inl (WriteFailed e)
      | None \<Rightarrow>
          (case wal_scan k fails (wf_bytes w) of
             Inl e \<Rightarrow> Inl e
           | Inr (recs, valid) \<Rightarrow>
               if valid \<noteq> wf_size w then Inl (PrefixLength valid (wf_size w))
               else
                 (let d = fold replay_rec recs \<lparr>wp_promised = zero_ballot, wp_maxRound = 0, wp_accepted = fmempty, wp_chosen = fmempty\<rparr>
                  in Inr \<lparr>du_Promised = wp_promised d, du_MaxRound = wp_maxRound d, du_Accepted = fmvals (wp_accepted d),
                          du_Chosen = fmvals (wp_chosen d)\<rparr>)))"

definition wal_Close :: "bool \<Rightarrow> wal_file \<Rightarrow> wal_file \<times> wal_error option" where
  "wal_Close fails w =
     (if \<not> wf_open w then (w, None) else (w\<lparr>wf_open := False\<rparr>, if fails then Some CloseError else None))"

section \<open>What the codec must promise\<close>

definition codec_ok :: "wal_codec \<Rightarrow> wal_rec \<Rightarrow> bool" where
  "codec_ok k r \<longleftrightarrow>
     (\<forall>p. wk_marshal k r = Some p \<longrightarrow> p \<noteq> [] \<and> wk_crc k p < 2 ^ 32 \<and> wk_read k p = Some (r, int (length p)))"


definition payload_of :: "wal_codec \<Rightarrow> wal_rec \<Rightarrow> string" where
  "payload_of k r = (case wk_marshal k r of None \<Rightarrow> [] | Some p \<Rightarrow> p)"

definition frame_of :: "wal_codec \<Rightarrow> wal_rec \<Rightarrow> string" where
  "frame_of k r = frame k (payload_of k r)"

definition frames :: "wal_codec \<Rightarrow> wal_rec list \<Rightarrow> string" where
  "frames k rs = concat (map (frame_of k) rs)"

text \<open>A record an append accepts.\<close>

definition writable :: "wal_codec \<Rightarrow> wal_rec \<Rightarrow> bool" where
  "writable k r \<longleftrightarrow> codec_ok k r \<and> wal_fields r = 1 \<and> wk_marshal k r \<noteq> None \<and> length (payload_of k r) \<le> maxRecordBytes"

lemma writableD:
  assumes "writable k r"
  shows "payload_of k r \<noteq> []" "length (payload_of k r) \<le> maxRecordBytes" "wk_crc k (payload_of k r) < 2 ^ 32"
    "DecodeStrict (wk_read k) (payload_of k r) = Inr r" "wal_fields r = 1"
  using assms DecodeStrict_whole [of "wk_read k" "payload_of k r" r] by (auto simp: writable_def codec_ok_def payload_of_def)

lemma length_frame [simp]: "length (frame k p) = headerBytes + length p"
  by (simp add: frame_def headerBytes_def)

lemma frame_parts:
  assumes "length p \<le> maxRecordBytes" and "wk_crc k p < 2 ^ 32"
  shows "be_value (take 4 (frame k p @ t)) = length p" "be_value (take 4 (drop 4 (frame k p @ t))) = wk_crc k p"
    "take (length p) (drop headerBytes (frame k p @ t)) = p" "drop (headerBytes + length p) (frame k p @ t) = t"
proof -
  have l: "length p < 2 ^ 32" using assms(1) by (simp add: maxRecordBytes_def MaxValueBytes_def)
  show "be_value (take 4 (frame k p @ t)) = length p"
    using be_value_be_bytes [of "length p" 4] l by (simp add: frame_def u32_id)
  show "be_value (take 4 (drop 4 (frame k p @ t))) = wk_crc k p"
    using be_value_be_bytes [of "wk_crc k p" 4] assms(2) by (simp add: frame_def)
qed (simp_all add: frame_def headerBytes_def)

lemma scan_frame:
  assumes "writable k r"
  shows "scan_loop k recs off (frame_of k r @ t) = scan_loop k (recs @ [r]) (off + length (frame_of k r)) t"
proof -
  note w = writableD [OF assms]
  define x where "x = frame_of k r @ t"
  have p: "be_value (take 4 x) = length (payload_of k r)" "be_value (take 4 (drop 4 x)) = wk_crc k (payload_of k r)"
      "take (length (payload_of k r)) (drop headerBytes x) = payload_of k r" "drop (headerBytes + length (payload_of k r)) x = t"
    using frame_parts [OF w(2,3), of t] by (simp_all only: x_def frame_of_def)
  have l: "length x = headerBytes + length (payload_of k r) + length t" "x \<noteq> []"
    by (auto simp: x_def frame_of_def headerBytes_def simp flip: length_greater_0_conv)
  have "scan_loop k recs off x = scan_loop k (recs @ [r]) (off + (headerBytes + length (payload_of k r))) t"
    using w l by (subst scan_loop.simps) (simp add: Let_def p)
  then show ?thesis by (simp add: x_def frame_of_def)
qed

lemma scan_frames:
  "list_all (writable k) rs \<Longrightarrow>
     scan_loop k recs off (frames k rs @ t) = scan_loop k (recs @ rs) (off + length (frames k rs)) t"
  by (induction rs arbitrary: recs off) (simp_all add: frames_def scan_frame add.assoc)

lemma scan_torn:
  assumes w: "writable k r" and n: "n < length (frame_of k r)"
  shows "scan_loop k recs off (take n (frame_of k r)) = Inr (recs, off)"
proof (cases "n < headerBytes")
  case True
  then show ?thesis by (subst scan_loop.simps) (simp add: frame_of_def)
next
  case False
  note v = writableD [OF w]
  have l: "length (take n (frame_of k r)) = n" using n by simp
  have "take 4 (take n (frame_of k r)) = take 4 (frame_of k r)" using False by (simp add: headerBytes_def min_def)
  then have b: "be_value (take 4 (take n (frame_of k r))) = length (payload_of k r)"
    using frame_parts(1) [OF v(2,3), of "[]"] by (simp add: frame_of_def)
  have "headerBytes + length (payload_of k r) > n" using n by (simp add: frame_of_def)
  then show ?thesis using v(1) False by (subst scan_loop.simps) (simp add: l b Let_def del: length_take take_take)
qed


section \<open>Appends, failures and crashes\<close>

fun wal_run :: "wal_codec \<Rightarrow> (wal_rec \<times> write_outcome) list \<Rightarrow> wal_file \<Rightarrow> wal_file \<times> wal_error option list" where
  "wal_run k [] w = (w, [])"
| "wal_run k ((r, out) # ops) w =
     (case appendLocked k out r w of (w1, e) \<Rightarrow> (case wal_run k ops w1 of (w2, es) \<Rightarrow> (w2, e # es)))"

definition acked :: "('a \<times> write_outcome) list \<Rightarrow> wal_error option list \<Rightarrow> 'a list" where
  "acked ops es = map (\<lambda>(op, e). fst op) (filter (\<lambda>(op, e). e = None) (zip ops es))"

definition refused :: "('a \<times> write_outcome) list \<Rightarrow> wal_error option list \<Rightarrow> 'a set" where
  "refused ops es = set (map (\<lambda>(op, e). fst op) (filter (\<lambda>(op, e). e \<noteq> None) (zip ops es)))"

text \<open>What a crash leaves: the synced prefix and any part of what was written behind it.\<close>

definition survives :: "nat \<Rightarrow> wal_file \<Rightarrow> string" where
  "survives n w = take (wf_size w + n) (wf_bytes w)"

text \<open>The file holds the frames of \<open>rs\<close>, and behind them at most a part of the frame of one record of \<open>F\<close>.\<close>

definition torn :: "wal_codec \<Rightarrow> wal_rec set \<Rightarrow> string \<Rightarrow> bool" where
  "torn k F t \<longleftrightarrow> t = [] \<or> (\<exists>r\<in>F. \<exists>n. writable k r \<and> t = take n (frame_of k r))"

definition wal_inv :: "wal_codec \<Rightarrow> wal_rec list \<Rightarrow> wal_rec set \<Rightarrow> wal_file \<Rightarrow> bool" where
  "wal_inv k rs F w \<longleftrightarrow> list_all (writable k) rs \<and> wf_size w = length (frames k rs) \<and>
     (\<exists>t. wf_bytes w = frames k rs @ t \<and> (wf_err w = None \<longrightarrow> t = []) \<and> torn k F t)"

lemma frames_snoc [simp]: "frames k (rs @ [r]) = frames k rs @ frame_of k r"
  by (simp add: frames_def)

lemma write_at_end [simp]: "n = length b \<Longrightarrow> write_at b n buf = b @ buf"
  by (simp add: write_at_def)

lemma torn_mono: "torn k F t \<Longrightarrow> F \<subseteq> G \<Longrightarrow> torn k G t"
  unfolding torn_def by (metis subsetD)

lemma torn_take: "writable k r \<Longrightarrow> torn k (insert r F) (take n (frame_of k r))"
  unfolding torn_def by (metis insertI1)

lemma wal_inv_mono: "wal_inv k rs F w \<Longrightarrow> F \<subseteq> G \<Longrightarrow> wal_inv k rs G w"
  using torn_mono [of k F _ G] by (auto simp: wal_inv_def)

lemma torn_inv:
  assumes "list_all (writable k) rs" "wf_size w = length (frames k rs)" "wf_err w \<noteq> None" "writable k r"
    and "wf_bytes w = frames k rs @ take n (frame_of k r)"
  shows "wal_inv k rs (insert r F) w"
  using assms torn_take [of k r F n] by (auto simp: wal_inv_def)

lemma append_inv:
  assumes inv: "wal_inv k rs F w" and c: "codec_ok k r" "wal_fields r = 1" and a: "appendLocked k out r w = (w', e)"
  shows "wal_inv k (if e = None then rs @ [r] else rs) (if e = None then F else insert r F) w'"
proof (cases "wf_err w = None \<and> wf_open w \<and> wk_marshal k r \<noteq> None \<and> length (payload_of k r) \<le> maxRecordBytes")
  case False
  have "w' = w \<and> e \<noteq> None"
  proof (cases "wf_err w")
    case (Some x)
    then have "appendLocked k out r w = (w, Some x)" by (simp add: appendLocked_def)
    then show ?thesis using a by simp
  qed (use False a in \<open>auto simp: appendLocked_def payload_of_def split: option.splits if_splits\<close>)
  then show ?thesis using wal_inv_mono [OF inv, of "insert r F"] by auto
next
  case True
  have wr: "writable k r" using True c by (simp add: writable_def)
  have b: "wf_bytes w = frames k rs" "wf_size w = length (frames k rs)" "list_all (writable k) rs"
    using inv True by (auto simp: wal_inv_def)
  have f: "frame_of k r = take (length (frame_of k r)) (frame_of k r)" by simp
  have ap: "appendLocked k out r w = (case out of
      WriteFails n trunc \<Rightarrow> (w\<lparr>wf_err := Some WriteError, wf_bytes := (if trunc then frames k rs else frames k rs @ take n (frame_of k r))\<rparr>, Some WriteError)
    | SyncFails \<Rightarrow> (w\<lparr>wf_bytes := frames k rs @ frame_of k r, wf_err := Some SyncError\<rparr>, Some SyncError)
    | WriteOk \<Rightarrow> (w\<lparr>wf_bytes := frames k rs @ frame_of k r, wf_size := wf_size w + length (frame_of k r)\<rparr>, None))"
    using True b(1,2) by (auto simp: appendLocked_def payload_of_def frame_of_def Let_def split: option.splits write_outcome.split)
  show ?thesis
  proof (cases out)
    case WriteOk
    then have "e = None" "wf_bytes w' = frames k (rs @ [r])" "wf_size w' = length (frames k (rs @ [r]))" using ap a b(2) by auto
    then show ?thesis using b(3) wr by (simp add: wal_inv_def torn_def)
  next
    case (WriteFails n trunc)
    then have "e \<noteq> None" "wf_size w' = wf_size w" "wf_err w' \<noteq> None"
      "wf_bytes w' = frames k rs @ take (if trunc then 0 else n) (frame_of k r)" using ap a by auto
    then show ?thesis using torn_inv [OF b(3) _ _ wr] b(2) by auto
  next
    case SyncFails
    then have "e \<noteq> None" "wf_size w' = wf_size w" "wf_err w' \<noteq> None"
      "wf_bytes w' = frames k rs @ take (length (frame_of k r)) (frame_of k r)" using ap a by auto
    then show ?thesis using torn_inv [OF b(3) _ _ wr, of w' "length (frame_of k r)"] b(2) by auto
  qed
qed

lemma run_inv:
  "wal_inv k rs F w \<Longrightarrow> \<forall>(r, out)\<in>set ops. codec_ok k r \<and> wal_fields r = 1 \<Longrightarrow> wal_run k ops w = (w', es) \<Longrightarrow>
     wal_inv k (rs @ acked ops es) (F \<union> refused ops es) w' \<and> length es = length ops"
proof (induction k ops w arbitrary: rs F es rule: wal_run.induct)
  case (1 k w)
  then show ?case by (simp add: acked_def refused_def)
next
  case (2 k r out ops w)
  obtain w1 e where a: "appendLocked k out r w = (w1, e)" by (cases "appendLocked k out r w")
  obtain es' where es: "wal_run k ops w1 = (w', es')" "es = e # es'" using "2.prems"(3) a by (auto split: prod.splits)
  let ?rs = "if e = None then rs @ [r] else rs" and ?F = "if e = None then F else insert r F"
  have "wal_inv k ?rs ?F w1" using append_inv [OF "2.prems"(1) _ _ a] "2.prems"(2) by simp
  from "2.IH" [OF a [symmetric] this _ es(1)] "2.prems"(2)
  have i: "wal_inv k (?rs @ acked ops es') (?F \<union> refused ops es') w' \<and> length es' = length ops" by auto
  have 1: "?rs @ acked ops es' = rs @ acked ((r, out) # ops) es" by (simp add: es(2) acked_def)
  have 2: "?F \<union> refused ops es' = F \<union> refused ((r, out) # ops) es" by (auto simp: es(2) refused_def)
  show ?case using i es(2) unfolding 1 2 by simp
qed

lemma inv_recovers:
  assumes inv: "wal_inv k rs F w"
  shows "\<exists>rs'. scan_loop k [] 0 (survives n w) = Inr (rs', length (frames k rs')) \<and>
     take (length (frames k rs')) (survives n w) = frames k rs' \<and> list_all (writable k) rs' \<and> (rs' = rs \<or> (\<exists>r\<in>F. rs' = rs @ [r]))"
proof -
  obtain t where t: "wf_bytes w = frames k rs @ t" "t = [] \<or> (\<exists>r\<in>F. \<exists>n. writable k r \<and> t = take n (frame_of k r))"
    and l: "list_all (writable k) rs" "wf_size w = length (frames k rs)"
    using inv unfolding wal_inv_def torn_def by (elim conjE exE)
  have b: "survives n w = frames k rs @ take n t" using t(1) l(2) by (simp add: survives_def)
  have sc: "scan_loop k [] 0 (survives n w) = scan_loop k rs (length (frames k rs)) (take n t)"
    using scan_frames [OF l(1), of "[]" 0] by (simp add: b)
  consider "take n t = []" | r m where "r \<in> F" "writable k r" "take n t = take m (frame_of k r)" "m < length (frame_of k r)"
    | r where "r \<in> F" "writable k r" "take n t = frame_of k r"
  proof -
    assume 1: "take n t = [] \<Longrightarrow> thesis"
      and 2: "\<And>r m. r \<in> F \<Longrightarrow> writable k r \<Longrightarrow> take n t = take m (frame_of k r) \<Longrightarrow> m < length (frame_of k r) \<Longrightarrow> thesis"
      and 3: "\<And>r. r \<in> F \<Longrightarrow> writable k r \<Longrightarrow> take n t = frame_of k r \<Longrightarrow> thesis"
    show thesis
    proof (cases "t = []")
      case False
      then obtain r m where r: "r \<in> F" "writable k r" "t = take m (frame_of k r)" using t(2) by blast
      then have "take n t = take (min n m) (frame_of k r)" by (simp add: min.commute)
      then show thesis using 2 [OF r(1,2), of "min n m"] 3 [OF r(1,2)]
        by (cases "min n m < length (frame_of k r)") (metis, metis not_less take_all)
    qed (use 1 in simp)
  qed
  then show ?thesis
  proof cases
    case 1
    have "scan_loop k rs (length (frames k rs)) [] = Inr (rs, length (frames k rs))" by (subst scan_loop.simps) simp
    then show ?thesis using l(1) by (intro exI [of _ rs]) (simp add: sc, simp add: 1 b)
  next
    case (2 r m)
    then show ?thesis using l(1) scan_torn [OF 2(2,4)] by (intro exI [of _ rs]) (simp add: sc, simp add: b)
  next
    case (3 r)
    have "scan_loop k rs (length (frames k rs)) (frame_of k r @ []) = Inr (rs @ [r], length (frames k rs) + length (frame_of k r))"
      unfolding scan_frame [OF 3(2)] by (subst scan_loop.simps) simp
    then show ?thesis using l(1) 3 by (intro exI [of _ "rs @ [r]"]) (simp add: sc, simp add: b)
  qed
qed


section \<open>Opening what was left\<close>

lemma check_members_later: "\<forall>r\<in>set rs. wr_Membership r = None \<Longrightarrow> check_members i rs m = Inr m"
  by (induction rs arbitrary: i) auto

lemma rec_of_member [simp]: "wr_Membership (rec_of r) = None"
  by (simp add: rec_of_def no_rec_def split: store_rec.split)

lemma rec_of_fields [simp]: "wal_fields (rec_of r) = 1" "wal_fields (member_rec m) = 1"
  by (simp_all add: wal_fields_def rec_of_def member_rec_def no_rec_def split: store_rec.split)

lemma replay_rec_of:
  "replay_rec (rec_of (PromisedRec b)) d = d\<lparr>wp_promised := b\<rparr>"
  "replay_rec (rec_of (MaxRoundRec n)) d = d\<lparr>wp_maxRound := n\<rparr>"
  "replay_rec (rec_of (AcceptedRec pv)) d = d\<lparr>wp_accepted := fmupd (pv_Slot pv) pv (wp_accepted d)\<rparr>"
  "replay_rec (rec_of (ChosenRec e)) d = d\<lparr>wp_chosen := fmupd (le_Slot e) e (wp_chosen d)\<rparr>"
  by (simp_all add: replay_rec_def rec_of_def no_rec_def)

lemma replay_recs:
  "fold replay_rec (map rec_of rs) \<lparr>wp_promised = zero_ballot, wp_maxRound = 0, wp_accepted = fmempty, wp_chosen = fmempty\<rparr> =
     \<lparr>wp_promised = st_promised rs, wp_maxRound = st_maxRound rs, wp_accepted = st_accepted rs, wp_chosen = st_chosen rs\<rparr>"
  by (induction rs rule: rev_induct) (simp_all add: replay_rec_of split: store_rec.split)

lemma replay_member [simp]: "replay_rec (member_rec m) d = d"
  by (simp add: replay_rec_def member_rec_def no_rec_def)

lemma scan_all: "list_all (writable k) rs \<Longrightarrow> scan_loop k [] 0 (frames k rs) = Inr (rs, length (frames k rs))"
  using scan_frames [of k rs "[]" 0 "[]"] by (simp add: scan_loop.simps [of k rs _ "[]"])

lemma Open_left:
  assumes "scan_loop k [] 0 b = Inr (rs, length (frames k rs))" and "take (length (frames k rs)) b = frames k rs"
    and "check_members 0 rs None = Inr m"
  shows "snd (wal_Open k (\<lambda>_. False) (Some b)) =
    Inr \<lparr>wf_bytes = frames k rs, wf_size = length (frames k rs), wf_member = m, wf_err = None, wf_open = True\<rparr>"
  using assms by (auto simp: wal_Open_def wal_scan_def Let_def)

lemma Load_left:
  assumes "list_all (writable k) (member_rec m # map rec_of rs)" and "f = frames k (member_rec m # map rec_of rs)"
  shows "wal_Load k (\<lambda>_. False) \<lparr>wf_bytes = f, wf_size = length f, wf_member = x, wf_err = None, wf_open = True\<rparr> = Inr (log_Load rs)"
  using scan_all [OF assms(1)] replay_recs [of rs] by (simp add: wal_Load_def wal_scan_def assms(2) log_Load_def)

lemma acked_map: "acked (map (map_prod f id) ops) es = map f (acked ops es)"
  by (induction ops es rule: list_induct2') (auto simp: acked_def)

lemma refused_map: "refused (map (map_prod f id) ops) es = f ` refused ops es"
  by (induction ops es rule: list_induct2') (auto simp: refused_def)

lemma fresh_file:
  assumes "snd (wal_Open k (\<lambda>_. False) None) = Inr w0"
  shows "w0 = \<lparr>wf_bytes = [], wf_size = 0, wf_member = None, wf_err = None, wf_open = True\<rparr>"
  using assms by (simp add: wal_Open_def wal_scan_def scan_loop.simps)

lemma fresh_bound:
  assumes "snd (wal_Open k (\<lambda>_. False) None) = Inr w0" and "wal_Bind k WriteOk self peers w0 = (w1, None)"
    and "codec_ok k (member_rec \<lparr>mb_Self = self, mb_Peers = sort peers\<rparr>)"
  shows "wal_inv k [member_rec \<lparr>mb_Self = self, mb_Peers = sort peers\<rparr>] {} w1"
proof -
  let ?m = "\<lparr>mb_Self = self, mb_Peers = sort peers\<rparr>"
  note w0 = fresh_file [OF assms(1)]
  have "wal_inv k [] {} w0" by (simp add: wal_inv_def w0 frames_def torn_def)
  moreover obtain w e where a: "appendLocked k WriteOk (member_rec ?m) w0 = (w, e)" by fastforce
  moreover have "e = None" "w1 = w\<lparr>wf_member := Some ?m\<rparr>"
    using assms(2) a by (auto simp: wal_Bind_def w0 split: option.splits)
  ultimately have "wal_inv k [member_rec ?m] {} w" using append_inv [OF _ assms(3) _ a, of "[]" "{}"] by simp
  then show ?thesis by (simp add: wal_inv_def \<open>w1 = _\<close>)
qed



definition sample_member :: membership where
  "sample_member = \<lparr>mb_Self = 1, mb_Peers = [1, 2, 3]\<rparr>"

definition sample_ops :: "(store_rec \<times> write_outcome) list" where
  "sample_ops = [(MaxRoundRec 3, WriteOk), (PromisedRec (Ballot 3 1), WriteFails 9 False), (MaxRoundRec 4, WriteOk)]"

text \<open>A codec for the records of the example, with the length of the payload as its checksum.\<close>

definition sample_texts :: "(wal_rec \<times> string) list" where
  "sample_texts = [(member_rec sample_member, ''member''), (rec_of (MaxRoundRec 3), ''round 3''),
     (rec_of (PromisedRec (Ballot 3 1)), ''promised 3.1''), (rec_of (MaxRoundRec 4), ''round 4'')]"

definition sample_codec :: wal_codec where
  "sample_codec = \<lparr>wk_crc = length, wk_marshal = map_of sample_texts,
     wk_read = (\<lambda>p. map_option (\<lambda>(r, _). (r, int (length p))) (find (\<lambda>(_, q). q = p) sample_texts))\<rparr>"

lemma sample_codec_ok: "codec_ok sample_codec (member_rec sample_member)" "\<forall>(r, out)\<in>set sample_ops. codec_ok sample_codec (rec_of r)"
proof -
  have "list_all (\<lambda>r. case wk_marshal sample_codec r of None \<Rightarrow> True
      | Some p \<Rightarrow> p \<noteq> [] \<and> wk_crc sample_codec p < 4294967296 \<and> wk_read sample_codec p = Some (r, int (length p)))
    (member_rec sample_member # map (rec_of \<circ> fst) sample_ops)" by code_simp
  then show "codec_ok sample_codec (member_rec sample_member)" "\<forall>(r, out)\<in>set sample_ops. codec_ok sample_codec (rec_of r)"
    by (auto simp: codec_ok_def list_all_iff split: option.splits)
qed

definition fresh :: wal_file where
  "fresh = projr (snd (wal_Open sample_codec (\<lambda>_. False) None))"

definition bound :: wal_file where
  "bound = fst (wal_Bind sample_codec WriteOk 1 [3, 1, 2] fresh)"

definition crashed :: wal_file where
  "crashed = fst (wal_run sample_codec (map (map_prod rec_of id) sample_ops) bound)"

lemma sample_run:
  "snd (wal_Open sample_codec (\<lambda>_. False) None) = Inr fresh" "wal_Bind sample_codec WriteOk 1 [3, 1, 2] fresh = (bound, None)"
  "wal_run sample_codec (map (map_prod rec_of id) sample_ops) bound = (crashed, [None, Some WriteError, Some WriteError])"
  "length (survives 5 crashed) = 34"
  by code_simp+


section \<open>Any file\<close>

lemma scan_prefix:
  "scan_loop k recs off rest = Inr (rs, v) \<Longrightarrow>
     off \<le> v \<and> v - off \<le> length rest \<and> scan_loop k recs off (take (v - off) rest) = Inr (rs, v)"
proof (induction k recs off rest rule: scan_loop.induct)
  case (1 k recs off rest)
  have nil: "scan_loop k recs off [] = Inr (recs, off)" by (subst scan_loop.simps) simp
  define n where "n = be_value (take 4 rest)"
  define p where "p = take n (drop headerBytes rest)"
  show ?case
  proof (cases "Inr (recs, off) = (Inr (rs, v) :: wal_error + wal_rec list \<times> nat)")
    case True
    then show ?thesis using nil by simp
  next
    case False
    then have c: "rest \<noteq> []" "\<not> length rest < headerBytes" "n \<noteq> 0" "\<not> (n > maxRecordBytes \<or> headerBytes + n > length rest)"
        "\<not> wk_crc k p \<noteq> be_value (take 4 (drop 4 rest))"
      using "1.prems" unfolding scan_loop.simps [of k recs off rest] Let_def n_def [symmetric] p_def [symmetric]
      by (auto split: if_splits)
    obtain r where r: "DecodeStrict (wk_read k) p = Inr r" "\<not> wal_fields r \<noteq> 1"
        "scan_loop k (recs @ [r]) (off + (headerBytes + n)) (drop (headerBytes + n) rest) = Inr (rs, v)"
      using "1.prems" c unfolding scan_loop.simps [of k recs off rest] Let_def n_def [symmetric] p_def [symmetric]
      by (auto split: if_splits sum.splits)
    let ?m = "headerBytes + n"
    have ih: "off + ?m \<le> v" "v - (off + ?m) \<le> length (drop ?m rest)"
        "scan_loop k (recs @ [r]) (off + ?m) (take (v - (off + ?m)) (drop ?m rest)) = Inr (rs, v)"
      using "1.IH" [OF c(1,2) n_def refl c(3,4) p_def refl c(5) r(1,2) r(3)] by simp_all
    define x where "x = take (v - off) rest"
    have l: "length x = v - off" "?m \<le> v - off" using ih(1,2) c(4) by (auto simp: x_def)
    have t: "be_value (take 4 x) = n" "take 4 (drop 4 x) = take 4 (drop 4 rest)" "take n (drop headerBytes x) = p"
        "drop ?m x = take (v - (off + ?m)) (drop ?m rest)"
      using l(2) by (simp_all add: x_def n_def headerBytes_def p_def drop_take min_def)
    have g: "x \<noteq> []" "\<not> length x < headerBytes" "\<not> headerBytes + n > length x" using l c(3) by (auto simp: headerBytes_def)
    have "scan_loop k recs off x = scan_loop k (recs @ [r]) (off + ?m) (drop ?m x)"
      using c(3-5) r(1,2) g by (subst scan_loop.simps) (simp only: t Let_def if_False if_True sum.case simp_thms de_Morgan_disj)
    moreover have "v - off \<le> length rest" using ih(1,2) c(4) by simp linarith
    ultimately show ?thesis using ih t(4) by (simp flip: x_def)
  qed
qed


text \<open>
  C24. Opening settles a file, whatever bytes it holds and whichever file operations fail: when \<^verbatim>\<open>Open\<close>
  succeeds, the bytes it leaves are a prefix of those it found and end where the file's valid prefix
  ends, \<^verbatim>\<open>Load\<close> then returns a durable state rather than a corruption error, and opening the same bytes
  again gives the same file without truncating anything.
\<close>

theorem Open_settles:
  assumes "wal_Open k fails disk = (d, Inr w)"
  shows "d = Some (wf_bytes w) \<and> wf_size w = length (wf_bytes w) \<and>
    wf_bytes w = take (wf_size w) (case disk of None \<Rightarrow> [] | Some b \<Rightarrow> b) \<and>
    (\<exists>du. wal_Load k (\<lambda>_. False) w = Inr du) \<and> wal_Open k (\<lambda>_. False) d = (d, Inr w)"
proof -
  define b where "b = (case disk of None \<Rightarrow> [] | Some b \<Rightarrow> b)"
  let ?b1 = "\<lambda>v. if v < length b then take v b else b"
  let ?f = "\<lambda>v m. \<lparr>wf_bytes = ?b1 v, wf_size = v, wf_member = m, wf_err = None, wf_open = True\<rparr>"
  obtain recs v where sc: "wal_scan k fails b = Inr (recs, v)" and d: "d = Some (?b1 v)"
      and cm: "map_sum id (?f v) (check_members 0 recs None) = Inr w"
    using assms unfolding wal_Open_def Let_def b_def [symmetric] by (auto split: if_splits sum.splits)
  have s: "scan_loop k [] 0 b = Inr (recs, v)" using sc by (auto simp: wal_scan_def split: if_splits)
  obtain m where m: "check_members 0 recs None = Inr m" and w: "w = ?f v m"
    using cm by (cases "check_members 0 recs None") auto
  note p = scan_prefix [OF s]
  have t: "(if v < length b then take v b else b) = take v b" using p by auto
  have l: "length (take v b) = v" using p by simp
  have sb: "scan_loop k [] 0 (take v b) = Inr (recs, v)" using p by simp
  have wb: "w = \<lparr>wf_bytes = take v b, wf_size = v, wf_member = m, wf_err = None, wf_open = True\<rparr>" "d = Some (take v b)"
    using w d unfolding t by blast+
  have "wal_Open k (\<lambda>_. False) d = (d, Inr w)" unfolding wb wal_Open_def wal_scan_def Let_def using sb m l by simp
  moreover have "\<exists>du. wal_Load k (\<lambda>_. False) w = Inr du" unfolding wb wal_Load_def wal_scan_def Let_def using sb by simp
  ultimately show ?thesis using l by (simp add: wb b_def [symmetric])
qed

theorem Open_settles_witness:
  "wal_Open sample_codec (\<lambda>_. False) (Some (survives 5 crashed)) =
     (Some (survives 0 crashed), Inr (projr (snd (wal_Open sample_codec (\<lambda>_. False) (Some (survives 5 crashed)))))) \<and>
   wal_Open sample_codec (\<lambda>_. False) (Some (survives 0 crashed)) =
     (Some (survives 0 crashed), Inr (projr (snd (wal_Open sample_codec (\<lambda>_. False) (Some (survives 5 crashed))))))"
proof -
  have o: "wal_Open sample_codec (\<lambda>_. False) (Some (survives 5 crashed)) =
      (Some (survives 0 crashed), Inr (projr (snd (wal_Open sample_codec (\<lambda>_. False) (Some (survives 5 crashed))))))"
    by code_simp
  then show ?thesis using Open_settles [OF o] by blast
qed



end
