(* ===== verification/Codec.thy ===== *)
theory Codec
  imports Replicas Jsonx
begin

text \<open>
  The byte form of a command: \<^verbatim>\<open>Encode\<close>, \<^verbatim>\<open>Decode\<close> and \<^verbatim>\<open>DecodeOp\<close> of \<^verbatim>\<open>internal/tournament/codec.go\<close>. The JSON
  encoder and decoder of the standard library are the functions of \<open>command_json\<close>. What is relied on
  of them is stated where a theorem needs it. A panic is \<open>None\<close>.
\<close>

section \<open>The wire form of a command (codec.go)\<close>

record wireCommand =
  wc_Key :: idempotency_key
  wc_ReceivedAt :: int
  wc_Op :: string
  wc_Body :: string

record command_json =
  cj_body :: "op \<Rightarrow> string"
  cj_wire :: "wireCommand \<Rightarrow> string option"
  cj_readWire :: "string \<Rightarrow> (wireCommand \<times> int) option"
  cj_readBody :: "string \<Rightarrow> string \<Rightarrow> (op \<times> int) option"

datatype encode_error = CannotEncode | MarshalError

datatype decode_error =
    BadWire strict_error | BadKey detail | MissingBody | UnknownOpName string | BadBody string strict_error

definition EncodeBytes :: "command_json \<Rightarrow> command \<Rightarrow> encode_error + string" where
  "EncodeBytes j c =
     (case Encode c of
        None \<Rightarrow> Inl CannotEncode
      | Some (k, at, name, op) \<Rightarrow>
          (case cj_wire j \<lparr>wc_Key = k, wc_ReceivedAt = at, wc_Op = name, wc_Body = cj_body j op\<rparr> of
             None \<Rightarrow> Inl MarshalError
           | Some b \<Rightarrow> Inr b))"

definition op_names :: "string list" where
  "op_names = [''create_tournament'', ''join'', ''submit_score'', ''close'', ''settle'', ''open_session'', ''enter'',
     ''start_round'', ''play_move'', ''finish_round'', ''claim_payout'']"

definition Decode :: "command_json \<Rightarrow> string \<Rightarrow> decode_error + command" where
  "Decode j b =
     (case DecodeStrict (cj_readWire j) b of
        Inl e \<Rightarrow> Inl (BadWire e)
      | Inr w \<Rightarrow>
          (case ValidateKey (wc_Key w) of
             Some e \<Rightarrow> Inl (BadKey e)
           | None \<Rightarrow>
               if wc_Body w = [] then Inl MissingBody
               else if wc_Op w \<notin> set op_names then Inl (UnknownOpName (wc_Op w))
               else (case DecodeStrict (cj_readBody j (wc_Op w)) (wc_Body w) of
                       Inl e \<Rightarrow> Inl (BadBody (wc_Op w) e)
                     | Inr op \<Rightarrow> Inr \<lparr>cm_Key = wc_Key w, cm_ReceivedAt = wc_ReceivedAt w, cm_Op = op\<rparr>)))"

definition DecodeOp :: "command_json \<Rightarrow> string \<Rightarrow> string \<Rightarrow> (decode_error + op) option" where
  "DecodeOp j name body =
     map_option (\<lambda>b. map_sum id cm_Op (Decode j b))
       (cj_wire j \<lparr>wc_Key = ''k'', wc_ReceivedAt = 0, wc_Op = name, wc_Body = body\<rparr>)"

section \<open>Round trip\<close>

lemma OpName_known: "OpName op \<noteq> [] \<longleftrightarrow> OpName op \<in> set op_names"
  by (cases op) (simp_all add: op_names_def)

lemma OpName_Canonical [simp]: "OpName (Canonical op) = OpName op"
  by (cases op) simp_all

text \<open>What is relied on of the JSON codec at one command: reading what was written gives it back, and no
  value is written as the empty text.\<close>

definition json_reads_back :: "command_json \<Rightarrow> command \<Rightarrow> bool" where
  "json_reads_back j c \<longleftrightarrow>
     (let op = Canonical (cm_Op c); body = cj_body j op;
          w = \<lparr>wc_Key = cm_Key c, wc_ReceivedAt = cm_ReceivedAt c, wc_Op = OpName op, wc_Body = body\<rparr>
      in body \<noteq> [] \<and> cj_readBody j (OpName op) body = Some (op, int (length body)) \<and>
         (\<forall>b. cj_wire j w = Some b \<longrightarrow> cj_readWire j b = Some (w, int (length b))))"



text \<open>A codec that knows two commands and writes each as the name of its operation.\<close>

definition sample_wire :: "command \<Rightarrow> wireCommand" where
  "sample_wire c = \<lparr>wc_Key = cm_Key c, wc_ReceivedAt = cm_ReceivedAt c, wc_Op = OpName (cm_Op c), wc_Body = OpName (cm_Op c)\<rparr>"

definition sample_table :: "(string \<times> command) list" where
  "sample_table = [(''create_tournament'', create_cmd), (''join'', join_cmd ''a'')]"

definition sample_json :: command_json where
  "sample_json = \<lparr>cj_body = OpName, cj_wire = (\<lambda>w. Some (wc_Op w)),
     cj_readWire = (\<lambda>b. map_option (\<lambda>c. (sample_wire c, int (length b))) (map_of sample_table b)),
     cj_readBody = (\<lambda>name b. map_option (\<lambda>c. (Canonical (cm_Op c), int (length b))) (map_of sample_table name))\<rparr>"


end
