(* ===== verification/ReplicaCore.thy ===== *)
theory ReplicaCore
  imports Codec Outcomes LogCluster
begin

text \<open>
  Package \<^verbatim>\<open>internal/replica\<close>, \<^verbatim>\<open>core.go\<close>: one replica's log node and its state machine. Chosen slots are
  applied in order by \<open>ApplyNext\<close> and \<open>ApplyCommitted\<close>. The hash functions and the JSON codec are
  arguments; \<open>None\<close> is a panic of the state machine, or for \<open>ApplyCommitted\<close> a loop that does not end.
\<close>

section \<open>The core (core.go)\<close>

record core =
  co_log :: node
  co_state :: tstate

datatype apply_error = SlotNotChosen | Undecodable decode_error

text \<open>The zero \<^verbatim>\<open>Command\<close> and \<^verbatim>\<open>Result\<close> of a skipped slot are \<open>None\<close>.\<close>

record applied =
  ap_Slot :: slot
  ap_Key :: idempotency_key
  ap_Command :: "command option"
  ap_Result :: "result option"
  ap_NoOp :: bool
  ap_Err :: "apply_error option"

datatype submit_error = SubmitKey detail | SubmitEncode encode_error | SubmitLog log_error

definition NewCore :: "config \<Rightarrow> store_rec list \<Rightarrow> config_error + core" where
  "NewCore cfg store = map_sum id (\<lambda>n. \<lparr>co_log = n, co_state = NewState\<rparr>) (New cfg store)"

definition core_Step :: "int \<Rightarrow> envelope \<Rightarrow> core \<Rightarrow> core \<times> envelope list" where
  "core_Step now env c = (case Step now env (co_log c) of (n, out) \<Rightarrow> (c\<lparr>co_log := n\<rparr>, out))"

definition core_Tick :: "int \<Rightarrow> core \<Rightarrow> core \<times> envelope list" where
  "core_Tick now c = (case Tick now (co_log c) of (n, out) \<Rightarrow> (c\<lparr>co_log := n\<rparr>, out))"

definition core_Submit :: "command_json \<Rightarrow> int \<Rightarrow> command \<Rightarrow> core \<Rightarrow> core \<times> envelope list \<times> submit_error option" where
  "core_Submit j now cmd c =
     (case ValidateKey (cm_Key cmd) of
        Some e \<Rightarrow> (c, [], Some (SubmitKey e))
      | None \<Rightarrow>
          (case EncodeBytes j cmd of
             Inl e \<Rightarrow> (c, [], Some (SubmitEncode e))
           | Inr v \<Rightarrow> (case Propose now v (co_log c) of (n, out, err) \<Rightarrow> (c\<lparr>co_log := n\<rparr>, out, map_option SubmitLog err))))"

definition core_ReadIndex :: "int \<Rightarrow> core \<Rightarrow> core \<times> envelope list \<times> (log_error + nat)" where
  "core_ReadIndex now c = (case ReadIndex now (co_log c) of (n, out, r) \<Rightarrow> (c\<lparr>co_log := n\<rparr>, out, r))"

definition core_Events :: "core \<Rightarrow> core \<times> event list" where
  "core_Events c = (case LogNode.Events (co_log c) of (n, evs) \<Rightarrow> (c\<lparr>co_log := n\<rparr>, evs))"

definition core_Failed :: "core \<Rightarrow> bool" where
  "core_Failed c = nd_failed (co_log c)"

definition skipped :: "slot \<Rightarrow> apply_error option \<Rightarrow> applied" where
  "skipped s e = \<lparr>ap_Slot = s, ap_Key = [], ap_Command = None, ap_Result = None, ap_NoOp = True, ap_Err = e\<rparr>"

definition core_Skip :: "hashes \<Rightarrow> slot \<Rightarrow> core \<Rightarrow> core" where
  "core_Skip hx s c = c\<lparr>co_state := Skip hx s (co_state c)\<rparr>"

definition ApplyNext :: "hashes \<Rightarrow> command_json \<Rightarrow> core \<Rightarrow> (core \<times> applied option) option" where
  "ApplyNext hx j c =
     (let next = u64 (ts_applied (co_state c) + 1)
      in if next > nd_commitIndex (co_log c) then Some (c, None)
         else case node_Chosen (co_log c) next of
           None \<Rightarrow> Some (core_Skip hx next c, Some (skipped next (Some SlotNotChosen)))
         | Some e \<Rightarrow>
             if NoOp e then Some (core_Skip hx next c, Some (skipped next None))
             else case Decode j (le_Value e) of
               Inl err \<Rightarrow> Some (core_Skip hx next c, Some (skipped next (Some (Undecodable err))))
             | Inr cmd \<Rightarrow>
                 (case Apply hx next (le_Ballot e) cmd (co_state c) of
                    None \<Rightarrow> None
                  | Some (res, s) \<Rightarrow>
                      Some (c\<lparr>co_state := s\<rparr>,
                            Some \<lparr>ap_Slot = next, ap_Key = cm_Key cmd, ap_Command = Some cmd, ap_Result = Some res,
                                  ap_NoOp = False, ap_Err = None\<rparr>)))"

partial_function (option) apply_loop ::
  "hashes \<Rightarrow> command_json \<Rightarrow> applied list \<Rightarrow> core \<Rightarrow> (core \<times> applied list) option" where
  [code]: "apply_loop hx j out c =
     (case ApplyNext hx j c of
        None \<Rightarrow> None
      | Some cx \<Rightarrow> (case snd cx of None \<Rightarrow> Some (fst cx, out) | Some a \<Rightarrow> apply_loop hx j (out @ [a]) (fst cx)))"

definition ApplyCommitted :: "hashes \<Rightarrow> command_json \<Rightarrow> core \<Rightarrow> (core \<times> applied list) option" where
  "ApplyCommitted hx j c = apply_loop hx j [] c"

record replica_status =
  st_Self :: node_id
  st_Leader :: node_id
  st_Role :: role
  st_Ballot :: ballot
  st_Ready :: bool
  st_CommitIndex :: slot
  st_Applied :: slot
  st_StateHash :: string
  st_Tournaments :: nat

definition core_Status :: "core \<Rightarrow> replica_status" where
  "core_Status c =
     (case node_Leader (co_log c) of (leader, lb, _) \<Rightarrow>
        \<lparr>st_Self = Self (co_log c), st_Leader = leader, st_Role = nd_role (co_log c), st_Ballot = lb,
         st_Ready = Ready (co_log c), st_CommitIndex = nd_commitIndex (co_log c),
         st_Applied = ts_applied (co_state c), st_StateHash = ts_hash (co_state c),
         st_Tournaments = TournamentCount (co_state c)\<rparr>)"

section \<open>Applying the committed prefix\<close>

text \<open>What the state machine is given for a slot of a node's log.\<close>

definition read_value :: "command_json \<Rightarrow> paxos_value \<Rightarrow> command option" where
  "read_value j v = (if v = [] then None else case Decode j v of Inl _ \<Rightarrow> None | Inr cmd \<Rightarrow> Some cmd)"

definition slot_item :: "command_json \<Rightarrow> node \<Rightarrow> slot \<Rightarrow> log_item" where
  "slot_item j n s =
     (s, case node_Chosen n s of None \<Rightarrow> None | Some e \<Rightarrow> map_option (Pair (le_Ballot e)) (read_value j (le_Value e)))"

lemma execute_applied: "execute hx sl b cmd s = Some (r, s') \<Longrightarrow> ts_applied s' = ts_applied s"
  by (auto simp: execute_def Let_def split: option.splits if_splits prod.splits dest!: dispatch_admin admin_results)

lemma Apply_applied:
  assumes "Apply hx sl b cmd s = Some (r, s')" and "ts_applied s < sl"
  shows "ts_applied s' = sl"
  using assms by (auto simp: Apply_def Let_def split: option.splits if_splits dest!: mix_sel execute_applied)

lemma apply_log_applied:
  "apply_log hx log s = Some (rs, s') \<Longrightarrow> map fst log = [Suc (ts_applied s)..<Suc k] \<Longrightarrow> ts_applied s \<le> k \<Longrightarrow> ts_applied s' = k"
proof (induction hx log s arbitrary: rs rule: apply_log.induct)
  case (1 hx s)
  then show ?case by (simp split: if_splits)
next
  case (2 hx sl log s)
  then have sl: "sl = Suc (ts_applied s)" "map fst log = [Suc sl..<Suc k]" "sl \<le> k"
    using upt_eq_Cons_conv [of "Suc (ts_applied s)" "Suc k" sl "map fst log"] by auto
  have "ts_applied (Skip hx sl s) = sl" using sl(1) by (simp add: Skip_def)
  then show ?case using "2.IH" "2.prems"(1) sl by auto
next
  case (3 hx sl b cmd log s)
  then have sl: "sl = Suc (ts_applied s)" "map fst log = [Suc sl..<Suc k]" "sl \<le> k"
    using upt_eq_Cons_conv [of "Suc (ts_applied s)" "Suc k" sl "map fst log"] by auto
  obtain res s1 rs' where a: "Apply hx sl b cmd s = Some (res, s1)" "apply_log hx log s1 = Some (rs', s')"
    using "3.prems"(1) by (auto split: option.splits)
  have "ts_applied s1 = sl" using Apply_applied [OF a(1)] sl(1) by simp
  then show ?case using "3.IH" [OF a(1) refl a(2)] sl by simp
qed

lemma apply_log_append:
  "apply_log hx (l1 @ l2) s =
     (case apply_log hx l1 s of
        None \<Rightarrow> None
      | Some (rs, s') \<Rightarrow> (case apply_log hx l2 s' of None \<Rightarrow> None | Some (rs2, s2) \<Rightarrow> Some (rs @ rs2, s2)))"
  by (induction hx l1 s rule: apply_log.induct) (auto split: option.splits)

lemma apply_loop_simps:
  "ApplyNext hx j c = None \<Longrightarrow> apply_loop hx j out c = None"
  "ApplyNext hx j c = Some (c1, None) \<Longrightarrow> apply_loop hx j out c = Some (c1, out)"
  "ApplyNext hx j c = Some (c1, Some a) \<Longrightarrow> apply_loop hx j out c = apply_loop hx j (out @ [a]) c1"
  by (subst apply_loop.simps, simp)+

lemma ApplyNext_idle: "nd_commitIndex (co_log c) < u64 (ts_applied (co_state c) + 1) \<Longrightarrow> ApplyNext hx j c = Some (c, None)"
  by (simp add: ApplyNext_def)

text \<open>The report of a missing entry is made exactly for a slot without one.\<close>

definition err_ok :: "node \<Rightarrow> applied \<Rightarrow> bool" where
  "err_ok n a \<longleftrightarrow> (ap_Err a = Some SlotNotChosen \<longleftrightarrow> node_Chosen n (ap_Slot a) = None)"

lemma ApplyNext_item:
  assumes "s = u64 (ts_applied (co_state c) + 1)" and "s \<le> nd_commitIndex (co_log c)"
  shows "case apply_log hx [slot_item j (co_log c) s] (co_state c) of
      None \<Rightarrow> ApplyNext hx j c = None
    | Some (rs, st) \<Rightarrow> \<exists>a. ApplyNext hx j c = Some (c\<lparr>co_state := st\<rparr>, Some a) \<and> ap_Slot a = s \<and> rs = [ap_Result a] \<and>
        err_ok (co_log c) a"
  using assms by (auto simp: err_ok_def ApplyNext_def slot_item_def read_value_def NoOp_def core_Skip_def skipped_def Let_def
      split: option.splits sum.splits)

text \<open>The loop, as a function of the log: it applies the slots above the applied slot up to the commit index.\<close>

definition due :: "core \<Rightarrow> slot list" where
  "due c = [Suc (ts_applied (co_state c))..<Suc (nd_commitIndex (co_log c))]"

lemma apply_loop_log:
  assumes "Suc (nd_commitIndex (co_log c)) < 2 ^ 64" and "Suc (ts_applied (co_state c)) < 2 ^ 64"
  shows "case apply_log hx (map (slot_item j (co_log c)) (due c)) (co_state c) of
      None \<Rightarrow> apply_loop hx j out c = None
    | Some (rs, st) \<Rightarrow> \<exists>as. apply_loop hx j out c = Some (c\<lparr>co_state := st\<rparr>, out @ as) \<and>
        map ap_Slot as = due c \<and> map ap_Result as = rs \<and> list_all (err_ok (co_log c)) as"
  using assms
proof (induction "nd_commitIndex (co_log c) - ts_applied (co_state c)" arbitrary: c out)
  case 0
  have u: "u64 (ts_applied (co_state c) + 1) = Suc (ts_applied (co_state c))" using 0 by (simp add: u64_id)
  have le: "nd_commitIndex (co_log c) \<le> ts_applied (co_state c)" using 0 by simp
  have "due c = []" using le by (simp add: due_def)
  moreover have "ApplyNext hx j c = Some (c, None)" by (rule ApplyNext_idle) (use le u in simp)
  ultimately show ?case by (simp add: apply_loop_simps)
next
  case (Suc k)
  let ?n = "co_log c" and ?s = "Suc (ts_applied (co_state c))"
  let ?it = "slot_item j ?n"
  have le: "?s \<le> nd_commitIndex ?n" using Suc.hyps(2) by simp
  have u: "?s = u64 (ts_applied (co_state c) + 1)" using Suc.prems by (simp add: u64_id)
  have due: "due c = ?s # [Suc ?s..<Suc (nd_commitIndex ?n)]" using le by (simp add: due_def upt_conv_Cons)
  note it = ApplyNext_item [OF u le, of hx j]
  show ?case
  proof (cases "apply_log hx [?it ?s] (co_state c)")
    case None
    then show ?thesis using it due apply_log_append [of hx "[?it ?s]" "map ?it [Suc ?s..<Suc (nd_commitIndex ?n)]" "co_state c"]
      by (simp add: apply_loop_simps del: upt_Suc)
  next
    case (Some x)
    obtain rs st where x: "x = (rs, st)" by (cases x)
    let ?c = "c\<lparr>co_state := st\<rparr>"
    obtain a where a: "ApplyNext hx j c = Some (?c, Some a)" "ap_Slot a = ?s" "rs = [ap_Result a]"
        "err_ok ?n a" using it Some x by auto
    have ap: "ts_applied st = ?s" using apply_log_applied [OF Some [unfolded x], of ?s] by (simp add: slot_item_def)
    have d: "due c = ?s # due ?c" using due by (simp add: due_def ap)
    have sp': "apply_log hx (map ?it (due c)) (co_state c) =
        (case apply_log hx (map ?it (due ?c)) st of None \<Rightarrow> None | Some (rs2, s2) \<Rightarrow> Some (ap_Result a # rs2, s2))"
      using apply_log_append [of hx "[?it ?s]" "map ?it (due ?c)" "co_state c"] Some x a(3) by (simp add: d split: option.split)
    have "k = nd_commitIndex (co_log ?c) - ts_applied (co_state ?c)" using Suc.hyps(2) ap by simp
    moreover have "Suc (ts_applied (co_state ?c)) < 2 ^ 64" using ap le Suc.prems(1) by simp
    ultimately have ih: "case apply_log hx (map ?it (due ?c)) st of
        None \<Rightarrow> apply_loop hx j (out @ [a]) ?c = None
      | Some (rs, st) \<Rightarrow> \<exists>as. apply_loop hx j (out @ [a]) ?c = Some (c\<lparr>co_state := st\<rparr>, (out @ [a]) @ as) \<and>
          map ap_Slot as = due ?c \<and> map ap_Result as = rs \<and> list_all (err_ok ?n) as"
      using Suc.hyps(1) [of ?c "out @ [a]"] Suc.prems(1) by (simp split: option.splits prod.splits)
    show ?thesis
    proof (cases "apply_log hx (map ?it (due ?c)) st")
      case None
      then show ?thesis using ih sp' apply_loop_simps(3) [OF a(1), of out] by simp
    next
      case (Some y)
      obtain rs2 s2 where y: "y = (rs2, s2)" by (cases y)
      obtain as where as: "apply_loop hx j (out @ [a]) ?c = Some (c\<lparr>co_state := s2\<rparr>, (out @ [a]) @ as)"
          "map ap_Slot as = due ?c" "map ap_Result as = rs2" "list_all (err_ok ?n) as" using ih Some y by auto
      then have "apply_loop hx j out c = Some (c\<lparr>co_state := s2\<rparr>, out @ a # as)"
        using apply_loop_simps(3) [OF a(1), of out] by simp
      moreover have "map ap_Slot (a # as) = due c" "map ap_Result (a # as) = ap_Result a # rs2"
        "list_all (err_ok ?n) (a # as)" using as a(2,4) d by simp_all
      ultimately show ?thesis using sp' Some y by (auto intro!: exI [of _ "a # as"])
    qed
  qed
qed


text \<open>The coming outcomes of the saves and the random draws of a core's log node.\<close>

definition env_core :: "save_outcome list \<Rightarrow> int list \<Rightarrow> core \<Rightarrow> core" where
  "env_core saves rands c = c\<lparr>co_log := with_env saves rands (co_log c)\<rparr>"

end
