(* ===== verification/ReplicaSystem.thy ===== *)
theory ReplicaSystem
  imports ReplicaCore
begin

text \<open>
  The replicated service: a cluster of cores. A step is one call of \<^verbatim>\<open>core.go\<close> at one replica, with any
  outcome of its saves and any random draws; one \<^verbatim>\<open>ApplyNext\<close>; or the restart of a replica from its store
  with an empty state machine. The network is that of \<open>LogCluster\<close>. Every replica's state is the state
  machine run over a prefix of the one log the cluster agrees on.
\<close>

section \<open>Steps\<close>

record rsystem =
  rs_cl :: cluster
  rs_states :: "node_id \<Rightarrow> tstate"

definition core_at :: "rsystem \<Rightarrow> node_id \<Rightarrow> core" where
  "core_at S i = \<lparr>co_log = cl_nodes (rs_cl S) i, co_state = rs_states S i\<rparr>"

definition put_core :: "rsystem \<Rightarrow> node_id \<Rightarrow> core \<times> envelope list \<Rightarrow> rsystem" where
  "put_core S i r =
     \<lparr>rs_cl = deliver (rs_cl S) i (co_log (fst r), snd r), rs_states = (rs_states S)(i := co_state (fst r))\<rparr>"

datatype core_call = CoreStep envelope | CoreTick | CoreSubmit command | CoreRead | CoreEvents

definition core_run :: "command_json \<Rightarrow> int \<Rightarrow> core_call \<Rightarrow> core \<Rightarrow> core \<times> envelope list" where
  "core_run j now call c =
     (case call of
        CoreStep e \<Rightarrow> core_Step now e c
      | CoreTick \<Rightarrow> core_Tick now c
      | CoreSubmit cmd \<Rightarrow> (case core_Submit j now cmd c of (c', out, _) \<Rightarrow> (c', out))
      | CoreRead \<Rightarrow> (case core_ReadIndex now c of (c', out, _) \<Rightarrow> (c', out))
      | CoreEvents \<Rightarrow> (fst (core_Events c), []))"

text \<open>A command that is refused before it reaches the log is no step: it changes nothing.\<close>

definition log_call_of :: "command_json \<Rightarrow> core_call \<Rightarrow> log_call option" where
  "log_call_of j call =
     (case call of
        CoreStep e \<Rightarrow> Some (CallStep e)
      | CoreTick \<Rightarrow> Some CallTick
      | CoreSubmit cmd \<Rightarrow>
          if ValidateKey (cm_Key cmd) \<noteq> None then None
          else (case EncodeBytes j cmd of Inl _ \<Rightarrow> None | Inr v \<Rightarrow> Some (CallPropose v))
      | CoreRead \<Rightarrow> Some CallRead
      | CoreEvents \<Rightarrow> Some CallEvents)"

lemma core_run_refused: "log_call_of j call = None \<Longrightarrow> core_run j now call c = (c, [])"
  by (auto simp: log_call_of_def core_run_def core_Submit_def split: core_call.splits if_splits sum.splits option.splits)

lemma core_run_log:
  assumes "log_call_of j call = Some lc"
  shows "core_run j now call c = (c\<lparr>co_log := fst (run_call now lc (co_log c))\<rparr>, snd (run_call now lc (co_log c)))"
  using assms
  by (auto simp: log_call_of_def core_run_def run_call_def core_Step_def core_Tick_def core_Submit_def core_ReadIndex_def
      core_Events_def sent_of_def split: core_call.splits if_splits sum.splits option.splits prod.splits)

inductive rs_step :: "hashes \<Rightarrow> command_json \<Rightarrow> rsystem \<Rightarrow> rsystem \<Rightarrow> bool" for hx j where
  call: "log_call_of j call = Some lc \<Longrightarrow> may_call (rs_cl S) i lc \<Longrightarrow>
    rs_step hx j S (put_core S i (core_run j now call (env_core saves rands (core_at S i))))"
| apply_next: "i \<in> set (cl_members (rs_cl S)) \<Longrightarrow> ApplyNext hx j (core_at S i) = Some (c, x) \<Longrightarrow>
    rs_step hx j S (put_core S i (c, []))"
| restart: "i \<in> set (cl_members (rs_cl S)) \<Longrightarrow> NewCore (nd_cfg (cl_nodes (rs_cl S) i)) (lstore (rs_cl S) i) = Inr c \<Longrightarrow>
    rs_step hx j S (put_core S i (c, []))"

definition rs_init :: "node_id list \<Rightarrow> (node_id \<Rightarrow> config) \<Rightarrow> rsystem" where
  "rs_init P cfg = \<lparr>rs_cl = cl_init P cfg, rs_states = (\<lambda>_. NewState)\<rparr>"

lemma deliver_same [simp]: "deliver w i (cl_nodes w i, []) = w"
  by (simp add: deliver_def)

lemma ApplyNext_log: "ApplyNext hx j c = Some (c', x) \<Longrightarrow> co_log c' = co_log c"
  by (auto simp: ApplyNext_def Let_def core_Skip_def split: if_splits option.splits sum.splits)

lemma rs_step_log: "rs_step hx j S S' \<Longrightarrow> cl_step (rs_cl S) (rs_cl S') \<or> rs_cl S' = rs_cl S"
proof (induction rule: rs_step.induct)
  case (call call lc S i now saves rands)
  then show ?case using cl_step.call [OF call(2)]
    by (simp add: put_core_def core_run_log [OF call(1)] env_core_def core_at_def)
next
  case (apply_next i S c x)
  then have "co_log c = cl_nodes (rs_cl S) i" using ApplyNext_log by (fastforce simp: core_at_def)
  then show ?case by (simp add: put_core_def)
next
  case (restart i S c)
  then obtain n where "New (nd_cfg (cl_nodes (rs_cl S) i)) (lstore (rs_cl S) i) = Inr n" "co_log c = n"
    by (cases "New (nd_cfg (cl_nodes (rs_cl S) i)) (lstore (rs_cl S) i)") (auto simp: NewCore_def)
  then show ?case using cl_step.restart [OF restart(1)] by (simp add: put_core_def)
qed

section \<open>Every state is a prefix of the agreed log\<close>

text \<open>\<open>traces hx j w s\<close>: the state \<open>s\<close> is the state machine run over the chosen values of the slots up to its
  applied slot.\<close>

definition traces :: "hashes \<Rightarrow> command_json \<Rightarrow> cluster \<Rightarrow> tstate \<Rightarrow> bool" where
  "traces hx j w s \<longleftrightarrow>
     (\<exists>log rs. apply_log hx log NewState = Some (rs, s) \<and> map fst log = [1..<Suc (ts_applied s)] \<and>
        (\<forall>x\<in>set log. \<exists>b v. lchosen w (fst x) b v \<and> map_option snd (snd x) = read_value j v))"

lemma traces_New: "traces hx j w NewState"
  unfolding traces_def by (rule exI [of _ "[]"]) (simp add: NewState_def)

lemma traces_mono: "(\<And>s b v. lchosen w s b v \<Longrightarrow> lchosen w' s b v) \<Longrightarrow> traces hx j w s \<Longrightarrow> traces hx j w' s"
  unfolding traces_def by blast

lemma traces_snoc:
  assumes t: "traces hx j w s" and a: "apply_log hx [x] s = Some (rs, s')" and x: "fst x = Suc (ts_applied s)"
    and c: "lchosen w (fst x) b v" "map_option snd (snd x) = read_value j v"
  shows "traces hx j w s' \<and> ts_applied s' = fst x"
proof -
  obtain log rs0 where l: "apply_log hx log NewState = Some (rs0, s)" "map fst log = [1..<Suc (ts_applied s)]"
      "\<forall>x\<in>set log. \<exists>b v. lchosen w (fst x) b v \<and> map_option snd (snd x) = read_value j v"
    using t unfolding traces_def by blast
  have "apply_log hx (log @ [x]) NewState = Some (rs0 @ rs, s')" using apply_log_append [of hx log "[x]"] l(1) a by simp
  moreover have s': "ts_applied s' = Suc (ts_applied s)" using apply_log_applied [OF a, of "Suc (ts_applied s)"] x by simp
  moreover have "map fst (log @ [x]) = [1..<Suc (ts_applied s')]" using l(2) x s' by simp
  moreover have "\<forall>y\<in>set (log @ [x]). \<exists>b v. lchosen w (fst y) b v \<and> map_option snd (snd y) = read_value j v" using l(3) c by auto
  ultimately show ?thesis unfolding traces_def using x s' by metis
qed

lemma no_slot_zero:
  assumes q: "quiet_inv w" and i: "i \<in> set (cl_members w)"
  shows "node_Chosen (cl_nodes w i) 0 = None"
proof (cases "node_Chosen (cl_nodes w i) 0")
  case (Some e)
  have "lchosen w 0 (le_Ballot e) (le_Value e)" by (rule chosen_lchosen [OF q i Some])
  moreover have "cl_inv idle w" using q by (simp add: quiet_inv_def)
  ultimately show ?thesis using lchosen_voted voteD(8) by blast
qed

lemma ApplyNext_traces:
  assumes q: "quiet_inv w" and i: "i \<in> set (cl_members w)" and c: "co_log c = cl_nodes w i"
    and t: "traces hx j w (co_state c)" "ts_applied (co_state c) < 2 ^ 64" and n: "ApplyNext hx j c = Some (c', x)"
  shows "traces hx j w (co_state c') \<and> ts_applied (co_state c') < 2 ^ 64"
proof (cases "u64 (ts_applied (co_state c) + 1) \<le> nd_commitIndex (co_log c)")
  case False
  then show ?thesis using t n ApplyNext_idle [of c hx j] by simp
next
  case True
  let ?s = "u64 (ts_applied (co_state c) + 1)"
  show ?thesis
  proof (cases "ts_applied (co_state c) < 2 ^ 64 - 1")
    case False
    with t(2) have "ts_applied (co_state c) + 1 = 2 ^ 64" by linarith
    then have "?s = 0" by (simp add: u64_def)
    then show ?thesis using t n True no_slot_zero [OF q i] c by (auto simp: ApplyNext_def core_Skip_def Skip_def Let_def)
  next
    case small: True
    then have s: "?s = Suc (ts_applied (co_state c))" using u64_Suc by simp
    have le: "?s \<le> nd_commitIndex (cl_nodes w i)" using True c by simp
    obtain e where e: "node_Chosen (co_log c) ?s = Some e" "lchosen w ?s (le_Ballot e) (le_Value e)"
      using committed_lchosen [OF q i _ le] s c by auto
    obtain rs where a: "apply_log hx [slot_item j (co_log c) ?s] (co_state c) = Some (rs, co_state c')"
      using ApplyNext_item [OF refl True, of hx j] n by (auto split: option.splits)
    have f: "fst (slot_item j (co_log c) ?s) = ?s" "map_option snd (snd (slot_item j (co_log c) ?s)) = read_value j (le_Value e)"
      using e(1) by (simp_all add: slot_item_def option.map_comp comp_def option.map_ident)
    have "traces hx j w (co_state c') \<and> ts_applied (co_state c') = ?s"
      using traces_snoc [OF t(1) a _ _ f(2)] f(1) s e(2) by metis
    then show ?thesis using u64_less by metis
  qed
qed

definition rs_inv :: "hashes \<Rightarrow> command_json \<Rightarrow> rsystem \<Rightarrow> bool" where
  "rs_inv hx j S \<longleftrightarrow> quiet_inv (rs_cl S) \<and>
     (\<forall>i\<in>set (cl_members (rs_cl S)). traces hx j (rs_cl S) (rs_states S i) \<and> ts_applied (rs_states S i) < 2 ^ 64)"

lemma rs_invD:
  assumes "rs_inv hx j S"
  shows "quiet_inv (rs_cl S)" "i \<in> set (cl_members (rs_cl S)) \<Longrightarrow> traces hx j (rs_cl S) (rs_states S i)"
    "i \<in> set (cl_members (rs_cl S)) \<Longrightarrow> ts_applied (rs_states S i) < 2 ^ 64"
  using assms by (simp_all add: rs_inv_def)

text \<open>What a step does to the log: members stay, chosen values stay chosen.\<close>

lemma rs_step_chosen:
  assumes "rs_step hx j S S'" and "quiet_inv (rs_cl S)"
  shows "quiet_inv (rs_cl S') \<and> cl_members (rs_cl S') = cl_members (rs_cl S) \<and>
    (\<forall>s b v. lchosen (rs_cl S) s b v \<longrightarrow> lchosen (rs_cl S') s b v)"
proof -
  have "cl_step\<^sup>*\<^sup>* (rs_cl S) (rs_cl S')" using rs_step_log [OF assms(1)] by auto
  from cl_steps_kept [OF this assms(2)] show ?thesis .
qed

lemma rs_step_states:
  assumes "rs_step hx j S S'" and "rs_inv hx j S" and "i \<in> set (cl_members (rs_cl S))"
  shows "traces hx j (rs_cl S) (rs_states S' i) \<and> ts_applied (rs_states S' i) < 2 ^ 64"
  using assms
proof (induction rule: rs_step.induct)
  case (call call lc S a now saves rands)
  then show ?case using rs_invD(2,3) [OF call.prems]
    by (simp add: put_core_def core_run_log [OF call(1)] env_core_def core_at_def)
next
  case (apply_next a S c x)
  have "traces hx j (rs_cl S) (co_state c) \<and> ts_applied (co_state c) < 2 ^ 64"
    using ApplyNext_traces [OF rs_invD(1) [OF apply_next.prems(1)] apply_next.hyps(1) _ _ _ apply_next.hyps(2)]
      rs_invD(2,3) [OF apply_next.prems(1) apply_next.hyps(1)] by (simp add: core_at_def)
  then show ?case using rs_invD(2,3) [OF apply_next.prems] by (simp add: put_core_def)
next
  case (restart a S c)
  then have "co_state c = NewState"
    by (cases "New (nd_cfg (cl_nodes (rs_cl S) a)) (lstore (rs_cl S) a)") (auto simp: NewCore_def)
  moreover have "ts_applied NewState < 2 ^ 64" by (simp add: NewState_def)
  ultimately show ?case using rs_invD(2,3) [OF restart.prems] traces_New by (simp add: put_core_def)
qed

lemma rs_step_inv:
  assumes "rs_step hx j S S'" and "rs_inv hx j S"
  shows "rs_inv hx j S'"
  using rs_step_chosen [OF assms(1) rs_invD(1) [OF assms(2)]] rs_step_states [OF assms] traces_mono
  unfolding rs_inv_def by metis

lemma rs_steps_inv:
  assumes "(rs_step hx j)\<^sup>*\<^sup>* S S'" and "rs_inv hx j S"
  shows "rs_inv hx j S' \<and> cl_members (rs_cl S') = cl_members (rs_cl S) \<and>
    (\<forall>s b v. lchosen (rs_cl S) s b v \<longrightarrow> lchosen (rs_cl S') s b v)"
  using assms
proof (induction rule: rtranclp_induct)
  case (step x y)
  then show ?case using rs_step_inv rs_step_chosen rs_invD(1) by metis
qed simp

lemma rs_init_inv: "configured P cfg \<Longrightarrow> rs_inv hx j (rs_init P cfg)"
  using init_quiet traces_New by (simp add: rs_inv_def rs_init_def NewState_def)

lemma traces_agree:
  assumes inv: "cl_inv idle w" and s: "traces hx j w s" and t: "traces hx j w t" and a: "ts_applied s = ts_applied t"
  shows "erase s = erase t"
proof -
  obtain l1 r1 where l1: "apply_log hx l1 NewState = Some (r1, s)" "map fst l1 = [1..<Suc (ts_applied s)]"
      "\<forall>x\<in>set l1. \<exists>b v. lchosen w (fst x) b v \<and> map_option snd (snd x) = read_value j v" using s unfolding traces_def by blast
  obtain l2 r2 where l2: "apply_log hx l2 NewState = Some (r2, t)" "map fst l2 = [1..<Suc (ts_applied t)]"
      "\<forall>x\<in>set l2. \<exists>b v. lchosen w (fst x) b v \<and> map_option snd (snd x) = read_value j v" using t unfolding traces_def by blast
  have f: "map fst l1 = map fst l2" using l1(2) l2(2) a by simp
  then have len: "length l1 = length l2" by (metis length_map)
  have "map_option snd (snd (l1 ! k)) = map_option snd (snd (l2 ! k))" if k: "k < length l1" for k
  proof -
    have fk: "fst (l1 ! k) = fst (l2 ! k)" using f k len by (metis nth_map)
    obtain b v where v: "lchosen w (fst (l1 ! k)) b v" "map_option snd (snd (l1 ! k)) = read_value j v" using l1(3) k nth_mem by blast
    obtain b' v' where v': "lchosen w (fst (l2 ! k)) b' v'" "map_option snd (snd (l2 ! k)) = read_value j v'" using l2(3) k len nth_mem by metis
    from lchosen_agree [OF inv v(1)] v'(1) fk have "v = v'" by metis
    with v v' show ?thesis by simp
  qed
  then have "commands_of l1 = commands_of l2"
    using f len by (auto simp: commands_of_def list_eq_iff_nth_eq case_prod_beta)
  from same_commands [OF this refl, of hx NewState] l1(1) l2(1) show ?thesis by simp
qed


lemma traces_prefix:
  assumes t: "traces hx j w t" and m: "m \<le> ts_applied t"
  obtains u l rs where "traces hx j w u" "ts_applied u = m" "apply_log hx l u = Some (rs, t)"
proof -
  obtain log rs where l: "apply_log hx log NewState = Some (rs, t)" "map fst log = [1..<Suc (ts_applied t)]"
      "\<forall>x\<in>set log. \<exists>b v. lchosen w (fst x) b v \<and> map_option snd (snd x) = read_value j v" using t unfolding traces_def by blast
  have p: "map fst (take m log) = [1..<Suc m]" using l(2) m by (simp add: take_map [symmetric] take_upt del: upt_Suc)
  obtain ru u rs' where u: "apply_log hx (take m log) NewState = Some (ru, u)" "apply_log hx (drop m log) u = Some (rs', t)"
    using apply_log_append [of hx "take m log" "drop m log" NewState] l(1) by (auto split: option.splits)
  have a: "ts_applied u = m" using apply_log_applied [OF u(1), of m] p by (simp add: NewState_def del: upt_Suc)
  have "traces hx j w u" unfolding traces_def using u(1) p a l(3) in_set_takeD by metis
  then show thesis using that a u(2) by blast
qed

lemma traces_results:
  assumes inv: "cl_inv idle w" and s: "traces hx j w s" and t: "traces hx j w t" and le: "ts_applied s \<le> ts_applied t"
    and k: "fmlookup (ts_results s) k = Some r"
  shows "fmlookup (ts_results t) k = Some r"
proof -
  obtain u l rs where u: "traces hx j w u" "ts_applied u = ts_applied s" "apply_log hx l u = Some (rs, t)"
    using traces_prefix [OF t le] .
  have "erase u = erase s" by (rule traces_agree [OF inv u(1) s u(2)])
  then have "ts_results u = ts_results s" using erase_sel(3) by metis
  then show ?thesis using apply_log_results [OF u(3)] k by simp
qed

definition json_typed :: "command_json \<Rightarrow> bool" where
  "json_typed j \<longleftrightarrow> (\<forall>b cmd. Decode j b = Inr cmd \<longrightarrow> cmd_typed cmd)"

lemma read_value_typed: "json_typed j \<Longrightarrow> read_value j v = Some cmd \<Longrightarrow> cmd_typed cmd"
  by (auto simp: read_value_def json_typed_def split: if_splits sum.splits)

lemma traces_good:
  assumes t: "traces hx j w s" and hx: "deals hx" and j: "json_typed j"
  shows "state_ok hx s \<and> results_ok s"
proof -
  obtain log rs where l: "apply_log hx log NewState = Some (rs, s)"
      "\<forall>x\<in>set log. \<exists>b v. lchosen w (fst x) b v \<and> map_option snd (snd x) = read_value j v" using t unfolding traces_def by blast
  have "log_typed log" unfolding log_typed_def using l(2) read_value_typed [OF j] by fastforce
  from apply_log_good [OF conjunct1 [OF New_good] conjunct2 [OF New_good] hx this] l(1) show ?thesis by auto
qed

section \<open>A run\<close>

text \<open>Runs in which every save succeeds and every draw is zero, as a function; \<open>None\<close> instead of a call is
  \<^verbatim>\<open>ApplyNext\<close>.\<close>

definition rs_act :: "hashes \<Rightarrow> command_json \<Rightarrow> node_id \<Rightarrow> int \<Rightarrow> core_call option \<Rightarrow> rsystem \<Rightarrow> rsystem option" where
  "rs_act hx j i now act S =
     (case act of
        Some call \<Rightarrow>
          (case log_call_of j call of
             None \<Rightarrow> None
           | Some lc \<Rightarrow>
               if may_call (rs_cl S) i lc then Some (put_core S i (core_run j now call (env_core [] [] (core_at S i)))) else None)
      | None \<Rightarrow>
          if i \<in> set (cl_members (rs_cl S))
          then map_option (\<lambda>(c, x). put_core S i (c, [])) (ApplyNext hx j (core_at S i)) else None)"

fun rs_run :: "hashes \<Rightarrow> command_json \<Rightarrow> (node_id \<times> int \<times> core_call option) list \<Rightarrow> rsystem \<Rightarrow> rsystem option" where
  "rs_run hx j [] S = Some S"
| "rs_run hx j ((i, now, act) # as) S = (case rs_act hx j i now act S of None \<Rightarrow> None | Some S1 \<Rightarrow> rs_run hx j as S1)"

lemma rs_act_step: "rs_act hx j i now act S = Some S' \<Longrightarrow> rs_step hx j S S'"
  by (auto simp: rs_act_def split: option.splits if_splits intro: rs_step.intros)

lemma rs_run_steps: "rs_run hx j as S = Some S' \<Longrightarrow> (rs_step hx j)\<^sup>*\<^sup>* S S'"
proof (induction hx j as S rule: rs_run.induct)
  case (2 hx j i now act as S)
  then obtain S1 where s: "rs_act hx j i now act S = Some S1" "rs_run hx j as S1 = Some S'" by (auto split: option.splits)
  from rs_act_step [OF s(1)] "2.IH" [OF s] show ?case by (rule converse_rtranclp_into_rtranclp)
qed simp

definition mail :: "node_id \<Rightarrow> node_id \<Rightarrow> message \<Rightarrow> core_call option" where
  "mail from to m = Some (CoreStep \<lparr>nv_From = from, nv_To = to, nv_Msg = m\<rparr>)"

text \<open>Replica 1 is elected and gets a tournament created in slot 2; it applies both slots. Then replica 2 learns
  them and applies them.\<close>

definition first_run :: "(node_id \<times> int \<times> core_call option) list" where
  "first_run =
     (let b = Ballot 1 1; t = 1000000000; v = ''create_tournament''
      in [(1, 0, Some CoreTick), (1, t, Some CoreTick), (2, 0, mail 1 2 (Prepare b 1)),
          (1, t, mail 2 1 (Promise \<lparr>pm_Ballot = b, pm_Accepted = [], pm_CommitIndex = 0\<rparr>)),
          (1, t, Some (CoreSubmit create_cmd)), (2, 1, mail 1 2 (Accept b 1 [])), (2, 1, mail 1 2 (Accept b 2 v)),
          (1, t, mail 2 1 (Accepted b 2)), (1, t, mail 2 1 (Accepted b 1)), (1, t, None), (1, t, None)])"

definition second_run :: "(node_id \<times> int \<times> core_call option) list" where
  "second_run = (let b = Ballot 1 1 in [(2, 2, mail 1 2 (Learn 2 b ''create_tournament'')), (2, 3, mail 1 2 (Learn 1 b [])),
     (2, 3, None), (2, 3, None)])"

definition created :: rsystem where
  "created = the (rs_run plain_hashes sample_json first_run (rs_init [1, 2] pair_cfg))"

definition both_created :: rsystem where
  "both_created = the (rs_run plain_hashes sample_json second_run created)"

definition decided :: rsystem where
  "decided = the (rs_run plain_hashes sample_json (take 9 first_run) (rs_init [1, 2] pair_cfg))"

lemma decided_run: "(rs_step plain_hashes sample_json)\<^sup>*\<^sup>* (rs_init [1, 2] pair_cfg) decided"
proof -
  have "rs_run plain_hashes sample_json (take 9 first_run) (rs_init [1, 2] pair_cfg) \<noteq> None" by code_simp
  then show ?thesis unfolding decided_def by (metis rs_run_steps option.collapse)
qed

lemma decided_facts: "nd_commitIndex (cl_nodes (rs_cl decided) 1) = 2" "ts_applied (rs_states decided 1) = 0"
  by code_simp+

lemma sample_json_typed: "json_typed sample_json"
proof -
  have "op \<in> {Canonical (cm_Op create_cmd), Canonical (cm_Op (join_cmd ''a''))}"
    if "cj_readBody sample_json n b = Some (op, k)" for op k n b
    using that by (auto simp: sample_json_def sample_table_def split: if_splits)
  moreover have "cmd_typed \<lparr>cm_Key = k, cm_ReceivedAt = r, cm_Op = op\<rparr>"
    if "op \<in> {Canonical (cm_Op create_cmd), Canonical (cm_Op (join_cmd ''a''))}" for op k r
    using that by (auto simp: cmd_typed_def create_cmd_def join_cmd_def rules_typed_def sample_rules_def canonicalRules_def)
  ultimately show ?thesis
    unfolding json_typed_def Decode_def DecodeStrict_def by (fastforce split: option.splits sum.splits if_splits)
qed

lemma created_run: "(rs_step plain_hashes sample_json)\<^sup>*\<^sup>* (rs_init [1, 2] pair_cfg) created"
proof -
  have "rs_run plain_hashes sample_json first_run (rs_init [1, 2] pair_cfg) \<noteq> None" by code_simp
  then show ?thesis unfolding created_def by (metis rs_run_steps option.collapse)
qed

lemma both_created_run: "(rs_step plain_hashes sample_json)\<^sup>*\<^sup>* created both_created"
proof -
  have "rs_run plain_hashes sample_json second_run created \<noteq> None" by code_simp
  then show ?thesis unfolding both_created_def by (metis rs_run_steps option.collapse)
qed

lemma created_facts:
  "ts_applied (rs_states created 1) = 2" "ts_applied (rs_states both_created 2) = 2"
  "nd_commitIndex (cl_nodes (rs_cl created) 1) = 2"
  "map_option (\<lambda>r. re_Code (rc_result r)) (fmlookup (ts_results (rs_states created 1)) ''k1'') = Some OK"
  by code_simp+

section \<open>Properties of the replicated service\<close>

text \<open>
  C9. \<^verbatim>\<open>ApplyCommitted\<close> is the state machine run over the committed log: it applies exactly the slots above
  the applied slot up to the commit index, each once and in order, a no-op or undecodable entry as a
  skip, and reports them with their results; it leaves the log alone. It panics exactly when the state
  machine does. The last 64-bit slot is out of range.
\<close>

theorem ApplyCommitted_refines:
  assumes "Suc (nd_commitIndex (co_log c)) < 2 ^ 64" and "Suc (ts_applied (co_state c)) < 2 ^ 64"
  shows "map_option (\<lambda>(c', as). (c', map ap_Slot as, map ap_Result as)) (ApplyCommitted hx j c) =
    map_option (\<lambda>(rs, st). (c\<lparr>co_state := st\<rparr>, [Suc (ts_applied (co_state c))..<Suc (nd_commitIndex (co_log c))], rs))
      (apply_log hx (map (slot_item j (co_log c)) [Suc (ts_applied (co_state c))..<Suc (nd_commitIndex (co_log c))]) (co_state c))"
  using apply_loop_log [OF assms, of hx j "[]"]
  unfolding ApplyCommitted_def due_def by (auto split: option.splits simp del: upt_Suc)

theorem ApplyCommitted_refines_witness:
  "map_option (\<lambda>(c', as). (map ap_Slot as, map ap_Result as)) (ApplyCommitted plain_hashes sample_json (core_at decided 1)) =
   map_option (\<lambda>(rs, st). ([1, 2], rs))
     (apply_log plain_hashes (map (slot_item sample_json (cl_nodes (rs_cl decided) 1)) [1, 2]) (rs_states decided 1))"
proof -
  have u: "[Suc 0..<Suc 2] = [1, 2]" by code_simp
  have c: "co_log (core_at decided 1) = cl_nodes (rs_cl decided) 1" "co_state (core_at decided 1) = rs_states decided 1"
    by (simp_all add: core_at_def)
  have "map_option (\<lambda>x. snd x) (map_option (\<lambda>(c', as). (c', map ap_Slot as, map ap_Result as))
      (ApplyCommitted plain_hashes sample_json (core_at decided 1))) =
    map_option (\<lambda>x. snd x) (map_option (\<lambda>(rs, st). ((core_at decided 1)\<lparr>co_state := st\<rparr>, [1, 2], rs))
      (apply_log plain_hashes (map (slot_item sample_json (cl_nodes (rs_cl decided) 1)) [1, 2]) (rs_states decided 1)))"
    using ApplyCommitted_refines [of "core_at decided 1" plain_hashes sample_json] unfolding c decided_facts u by simp
  then show ?thesis by (simp add: option.map_comp comp_def split_def)
qed

text \<open>
  C2. Replicas never diverge. Whatever calls, faults, message losses and restarts happen: two replicas
  that have applied the same number of slots, at the same time or at different times of a run, have the
  same state hash and the same state up to the ballots recorded in it.
\<close>

theorem replicas_never_diverge:
  assumes "configured P cfg" and "(rs_step hx j)\<^sup>*\<^sup>* (rs_init P cfg) S" and "(rs_step hx j)\<^sup>*\<^sup>* S S'" and "a \<in> set P" and "c \<in> set P"
    and "ts_applied (rs_states S a) = ts_applied (rs_states S' c)"
  shows "ts_hash (rs_states S a) = ts_hash (rs_states S' c) \<and> erase (rs_states S a) = erase (rs_states S' c)"
proof -
  note i = rs_steps_inv [OF assms(2) rs_init_inv [OF assms(1)]]
  have P: "cl_members (rs_cl S) = P" using i by (simp add: rs_init_def cl_init_def)
  note k = rs_steps_inv [OF assms(3) conjunct1 [OF i]]
  have 1: "traces hx j (rs_cl S') (rs_states S a)" using traces_mono rs_invD(2) i k P assms(4) by metis
  have 2: "traces hx j (rs_cl S') (rs_states S' c)" using rs_invD(2) k P assms(5) by metis
  have "cl_inv idle (rs_cl S')" using k rs_invD(1) by (metis quiet_inv_def)
  from traces_agree [OF this 1 2 assms(6)] show ?thesis using erase_sel(6) by metis
qed

theorem replicas_never_diverge_witness:
  "ts_applied (rs_states created 1) = 2 \<and> ts_hash (rs_states created 1) = ts_hash (rs_states both_created 2) \<and>
   erase (rs_states created 1) = erase (rs_states both_created 2)"
  using replicas_never_diverge [OF pair_configured created_run both_created_run, of 1 2] created_facts by simp

text \<open>
  C3. One recorded result per key, in the whole service. When some replica has recorded a result for an
  idempotency key, every replica that records one for that key, then or later, records the same
  fingerprint and the same result; a replica that has applied at least as many slots has recorded it.
\<close>

theorem results_agree:
  assumes "configured P cfg" and "(rs_step hx j)\<^sup>*\<^sup>* (rs_init P cfg) S" and "(rs_step hx j)\<^sup>*\<^sup>* S S'" and "a \<in> set P" and "c \<in> set P"
    and "fmlookup (ts_results (rs_states S a)) k = Some r"
  shows "(fmlookup (ts_results (rs_states S' c)) k = Some r' \<longrightarrow> r' = r) \<and>
    (ts_applied (rs_states S a) \<le> ts_applied (rs_states S' c) \<longrightarrow> fmlookup (ts_results (rs_states S' c)) k = Some r)"
proof -
  note i = rs_steps_inv [OF assms(2) rs_init_inv [OF assms(1)]]
  have P: "cl_members (rs_cl S) = P" using i by (simp add: rs_init_def cl_init_def)
  note k = rs_steps_inv [OF assms(3) conjunct1 [OF i]]
  have 1: "traces hx j (rs_cl S') (rs_states S a)" using traces_mono rs_invD(2) i k P assms(4) by metis
  have 2: "traces hx j (rs_cl S') (rs_states S' c)" using rs_invD(2) k P assms(5) by metis
  have inv: "cl_inv idle (rs_cl S')" using k rs_invD(1) by (metis quiet_inv_def)
  show ?thesis
    using traces_results [OF inv 1 2 _ assms(6)] traces_results [OF inv 2 1, of k r'] assms(6) by (metis nat_le_linear option.inject)
qed

theorem results_agree_witness:
  "\<exists>r. fmlookup (ts_results (rs_states created 1)) ''k1'' = Some r \<and> fmlookup (ts_results (rs_states both_created 2)) ''k1'' = Some r"
proof -
  obtain r where r: "fmlookup (ts_results (rs_states created 1)) ''k1'' = Some r" using created_facts(4) by auto
  then show ?thesis using results_agree [OF pair_configured created_run both_created_run _ _ r, of 2 r] created_facts by simp
qed

text \<open>
  C8. Catching up. On every replica of the service \<^verbatim>\<open>ApplyCommitted\<close> returns without a panic, after it
  the state machine has applied every slot up to the commit index, and no slot was reported as
  committed but not chosen. The state machine's invariant holds afterwards. The decoder only returns
  prize shares of 32 bits, and the last 64-bit slot is out of range.
\<close>

theorem replica_catches_up:
  assumes "configured P cfg" and "(rs_step hx j)\<^sup>*\<^sup>* (rs_init P cfg) S" and "a \<in> set P" and "deals hx" and "json_typed j"
    and "Suc (nd_commitIndex (cl_nodes (rs_cl S) a)) < 2 ^ 64" and "Suc (ts_applied (rs_states S a)) < 2 ^ 64"
  shows "\<exists>c as. ApplyCommitted hx j (core_at S a) = Some (c, as) \<and> co_log c = cl_nodes (rs_cl S) a \<and>
     ts_applied (co_state c) = max (ts_applied (rs_states S a)) (nd_commitIndex (cl_nodes (rs_cl S) a)) \<and>
     state_ok hx (co_state c) \<and> (\<forall>x\<in>set as. ap_Err x \<noteq> Some SlotNotChosen)"
proof -
  let ?c = "core_at S a"
  note i = rs_steps_inv [OF assms(2) rs_init_inv [OF assms(1)]]
  have P: "cl_members (rs_cl S) = P" using i by (simp add: rs_init_def cl_init_def)
  have t: "traces hx j (rs_cl S) (rs_states S a)" using rs_invD(2) i P assms(3) by metis
  note g = traces_good [OF t assms(4,5)]
  let ?log = "map (slot_item j (co_log ?c)) (due ?c)"
  have ty: "log_typed ?log"
    unfolding log_typed_def slot_item_def using read_value_typed [OF assms(5)] by (auto split: option.splits)
  obtain rs s where r: "apply_log hx ?log (co_state ?c) = Some (rs, s)" "state_ok hx s"
    using apply_log_good [OF _ _ assms(4) ty, of "co_state ?c"] g by (auto simp: core_at_def)
  have "map fst ?log = due ?c" by (simp add: slot_item_def map_idI)
  then have ap: "ts_applied s = max (ts_applied (rs_states S a)) (nd_commitIndex (cl_nodes (rs_cl S) a))"
    using apply_log_applied [OF r(1), of "max (ts_applied (rs_states S a)) (nd_commitIndex (cl_nodes (rs_cl S) a))"]
    by (auto simp: due_def core_at_def max_def)
  from apply_loop_log [of ?c hx j "[]"] assms(6,7) r obtain as where
    as: "apply_loop hx j [] ?c = Some (?c\<lparr>co_state := s\<rparr>, as)" "map ap_Slot as = due ?c" "list_all (err_ok (co_log ?c)) as"
    by (auto simp: core_at_def)
  have "ap_Err x \<noteq> Some SlotNotChosen" if x: "x \<in> set as" for x
  proof -
    have "ap_Slot x \<in> set (due ?c)" using as(2) x by (metis image_eqI list.set_map)
    then have "node_Chosen (cl_nodes (rs_cl S) a) (ap_Slot x) \<noteq> None"
      using committed_lchosen [OF rs_invD(1) [OF conjunct1 [OF i]], of a "ap_Slot x"] P assms(3) by (auto simp: due_def core_at_def)
    then show ?thesis using as(3) x by (auto simp: list_all_iff err_ok_def core_at_def)
  qed
  then show ?thesis using ap r(2) as(1) by (auto simp: ApplyCommitted_def core_at_def)
qed


theorem replica_catches_up_witness:
  "\<exists>c as. ApplyCommitted plain_hashes sample_json (core_at decided 1) = Some (c, as) \<and> ts_applied (co_state c) = 2 \<and>
     state_ok plain_hashes (co_state c)"
  using replica_catches_up [OF pair_configured decided_run _ deals_plain sample_json_typed, of 1] decided_facts by auto

end
