(* ===== verification/Runner.thy ===== *)
theory Runner
  imports ReplicaCore "HOL-Library.Multiset"
begin

text \<open>
  Package \<^verbatim>\<open>internal/replica\<close>, \<^verbatim>\<open>runner.go\<close>: the event loop that owns a core. One iteration handles one event
  and is a function on the runner's state.

  \<^item> What other goroutines do between two events is an argument: \<open>ab\<close> tells which requests have been
    abandoned by their callers, \<open>free\<close> whether no reader holds the state when the loop tries its lock.
  \<^item> A request is a number, its reply channel a list of what was sent on it: \<open>rn_submitReplies\<close> and
    \<open>rn_readReplies\<close>. The channels have room for one reply, so a second one would block the loop.
  \<^item> Log output is left out. A map is ranged over in the order of its keys; the order of replies to
    different requests is not observable. A panic of the state machine is \<open>None\<close>.
\<close>

section \<open>State\<close>

datatype run_error = ErrLeadershipLost | ErrStopped | CoreFailed node_id | SubmitRefused submit_error | ReadRefused log_error

datatype submitReply = Answer result | Refused run_error

record waiter =
  wt_id :: nat
  wt_cmd :: command
  wt_fp :: string

record readReq =
  rq_id :: nat
  rq_index :: slot

record runner =
  rn_core :: core
  rn_waiters :: "(idempotency_key, waiter list) fmap"
  rn_nwaiters :: int
  rn_pendingReads :: "(nat, readReq) fmap"
  rn_applyWaits :: "readReq list"
  rn_held :: int
  rn_applyWait :: bool
  rn_status :: replica_status
  rn_advanced :: nat
  rn_sent :: "envelope list"
  rn_submitReplies :: "(nat \<times> submitReply) list"
  rn_readReplies :: "(nat \<times> run_error option) list"
  rn_changes :: "(replica_status \<times> replica_status \<times> applied list) list"

definition NewRunner :: "core \<Rightarrow> runner" where
  "NewRunner c = \<lparr>rn_core = c, rn_waiters = fmempty, rn_nwaiters = 0, rn_pendingReads = fmempty, rn_applyWaits = [],
     rn_held = 0, rn_applyWait = False, rn_status = core_Status c, rn_advanced = 0, rn_sent = [], rn_submitReplies = [],
     rn_readReplies = [], rn_changes = []\<rparr>"

definition submit_reply :: "nat \<Rightarrow> submitReply \<Rightarrow> runner \<Rightarrow> runner" where
  "submit_reply i x r = r\<lparr>rn_submitReplies := rn_submitReplies r @ [(i, x)]\<rparr>"

definition read_reply :: "nat \<Rightarrow> run_error option \<Rightarrow> runner \<Rightarrow> runner" where
  "read_reply i x r = r\<lparr>rn_readReplies := rn_readReplies r @ [(i, x)]\<rparr>"

definition store_held :: "runner \<Rightarrow> runner" where
  "store_held r = r\<lparr>rn_held := rn_nwaiters r + int (fmsize (rn_pendingReads r)) + int (length (rn_applyWaits r))\<rparr>"

section \<open>After an event\<close>

definition applyCommitted :: "hashes \<Rightarrow> command_json \<Rightarrow> bool \<Rightarrow> runner \<Rightarrow> (runner \<times> applied list) option" where
  "applyCommitted hx j free r =
     (if nd_commitIndex (co_log (rn_core r)) \<le> ts_applied (co_state (rn_core r)) then Some (r, [])
      else
        (let r1 = r\<lparr>rn_applyWait := True\<rparr>
         in if \<not> free then Some (r1, [])
            else (case ApplyCommitted hx j (rn_core r1) of
                    None \<Rightarrow> None
                  | Some (c, as) \<Rightarrow> Some (r1\<lparr>rn_core := c, rn_applyWait := False\<rparr>, as))))"

definition read_event :: "event \<Rightarrow> runner \<times> (nat \<times> log_error) list \<Rightarrow> runner \<times> (nat \<times> log_error) list" where
  "read_event ev rf =
     (case rf of (r, failed) \<Rightarrow>
        (case ev of
           ReadReady seq index \<Rightarrow>
             (case fmlookup (rn_pendingReads r) seq of
                None \<Rightarrow> (r, failed)
              | Some rq \<Rightarrow>
                  (r\<lparr>rn_pendingReads := fmdrop seq (rn_pendingReads r), rn_applyWaits := rn_applyWaits r @ [rq\<lparr>rq_index := index\<rparr>]\<rparr>, failed))
         | ReadFailed seq err \<Rightarrow>
             (case fmlookup (rn_pendingReads r) seq of
                None \<Rightarrow> (r, failed)
              | Some rq \<Rightarrow> (r\<lparr>rn_pendingReads := fmdrop seq (rn_pendingReads r)\<rparr>, failed @ [(rq_id rq, err)]))
         | LeaderChanged _ _ _ \<Rightarrow> (r, failed)
         | LearnConflict _ _ _ \<Rightarrow> (r, failed)))"

definition snapshot :: "applied list \<Rightarrow> runner \<Rightarrow> runner" where
  "snapshot as r =
     (let st = core_Status (rn_core r); prev = rn_status r
      in r\<lparr>rn_advanced := (if st_Applied st > st_Applied prev then rn_advanced r + 1 else rn_advanced r), rn_status := st,
           rn_changes := (if st \<noteq> prev then rn_changes r @ [(prev, st, as)] else rn_changes r)\<rparr>)"

definition answer_waiter :: "hashes \<Rightarrow> idempotency_key \<Rightarrow> string \<Rightarrow> result \<Rightarrow> waiter \<Rightarrow> runner \<Rightarrow> runner" where
  "answer_waiter hx key fp res w r =
     (if wt_fp w = fp then submit_reply (wt_id w) (Answer res) r
      else case State_Replay hx (wt_cmd w) (co_state (rn_core r)) of
        Some res' \<Rightarrow> submit_reply (wt_id w) (Answer res') r
      | None \<Rightarrow>
          r\<lparr>rn_waiters := fmupd key (fmget (rn_waiters r) [] key @ [w]) (rn_waiters r), rn_nwaiters := rn_nwaiters r + 1\<rparr>)"

definition answer_applied :: "hashes \<Rightarrow> applied \<Rightarrow> runner \<Rightarrow> runner" where
  "answer_applied hx a r =
     (case (ap_Command a, ap_Result a) of
        (Some cmd, Some res) \<Rightarrow>
          if ap_NoOp a then r
          else (case fmlookup (rn_waiters r) (ap_Key a) of
                  None \<Rightarrow> r
                | Some ws \<Rightarrow>
                    fold (answer_waiter hx (ap_Key a) (Fingerprint (hx_fp hx) cmd) res) ws
                      (r\<lparr>rn_waiters := fmdrop (ap_Key a) (rn_waiters r), rn_nwaiters := rn_nwaiters r - int (length ws)\<rparr>))
      | _ \<Rightarrow> r)"

definition refuse_waiters :: "run_error \<Rightarrow> runner \<Rightarrow> runner" where
  "refuse_waiters err r =
     (fold (\<lambda>w. submit_reply (wt_id w) (Refused err)) (concat (fmvals (rn_waiters r))) r)\<lparr>rn_waiters := fmempty, rn_nwaiters := 0\<rparr>"

definition finish_reads :: "(nat \<Rightarrow> bool) \<Rightarrow> runner \<Rightarrow> runner" where
  "finish_reads ab r =
     (let st = rn_status r;
          live = filter (\<lambda>q. \<not> ab (rq_id q)) (rn_applyWaits r)
      in (fold (\<lambda>q. read_reply (rq_id q) None) (filter (\<lambda>q. st_Applied st \<ge> rq_index q) live) r)
           \<lparr>rn_applyWaits := filter (\<lambda>q. \<not> st_Applied st \<ge> rq_index q) live\<rparr>)"

definition after :: "hashes \<Rightarrow> command_json \<Rightarrow> (nat \<Rightarrow> bool) \<Rightarrow> bool \<Rightarrow> envelope list \<Rightarrow> runner \<Rightarrow> runner option" where
  "after hx j ab free outs r =
     (let r1 = r\<lparr>rn_sent := rn_sent r @ outs\<rparr>;
          (c, evs) = core_Events (rn_core r1);
          (r2, failed) = fold read_event evs (r1\<lparr>rn_core := c\<rparr>, [])
      in case applyCommitted hx j free r2 of
           None \<Rightarrow> None
         | Some (r3, as) \<Rightarrow>
             (let r4 = snapshot as r3;
                  r5 = fold (\<lambda>(i, err). read_reply i (Some (ReadRefused err))) failed r4;
                  r6 = fold (answer_applied hx) as r5;
                  r7 = (if fmsize (rn_waiters r6) > 0 \<and> st_Role (rn_status r6) \<noteq> Leader then refuse_waiters ErrLeadershipLost r6 else r6);
                  r8 = finish_reads ab r7
              in Some (store_held r8)))"

section \<open>Events\<close>

definition handleSubmit ::
  "hashes \<Rightarrow> command_json \<Rightarrow> (nat \<Rightarrow> bool) \<Rightarrow> bool \<Rightarrow> int \<Rightarrow> nat \<Rightarrow> command \<Rightarrow> runner \<Rightarrow> runner option" where
  "handleSubmit hx j ab free now i cmd r =
     (if ab i then Some r
      else case State_Replay hx cmd (co_state (rn_core r)) of
        Some res \<Rightarrow> Some (submit_reply i (Answer res) r)
      | None \<Rightarrow>
          (case core_Submit j now cmd (rn_core r) of
             (c, outs, Some err) \<Rightarrow>
               after hx j ab free outs (submit_reply i (Refused (SubmitRefused err)) (r\<lparr>rn_core := c\<rparr>))
           | (c, outs, None) \<Rightarrow>
               (let w = \<lparr>wt_id = i, wt_cmd = cmd, wt_fp = Fingerprint (hx_fp hx) cmd\<rparr>
                in after hx j ab free outs
                     (r\<lparr>rn_core := c, rn_waiters := fmupd (cm_Key cmd) (fmget (rn_waiters r) [] (cm_Key cmd) @ [w]) (rn_waiters r),
                        rn_nwaiters := rn_nwaiters r + 1\<rparr>))))"

definition handleRead :: "hashes \<Rightarrow> command_json \<Rightarrow> (nat \<Rightarrow> bool) \<Rightarrow> bool \<Rightarrow> int \<Rightarrow> nat \<Rightarrow> runner \<Rightarrow> runner option" where
  "handleRead hx j ab free now i r =
     (if ab i then Some r
      else case core_ReadIndex now (rn_core r) of
        (c, outs, Inl err) \<Rightarrow> after hx j ab free outs (read_reply i (Some (ReadRefused err)) (r\<lparr>rn_core := c\<rparr>))
      | (c, outs, Inr seq) \<Rightarrow>
          after hx j ab free outs (r\<lparr>rn_core := c, rn_pendingReads := fmupd seq \<lparr>rq_id = i, rq_index = 0\<rparr> (rn_pendingReads r)\<rparr>))"

definition sweep_key :: "(nat \<Rightarrow> bool) \<Rightarrow> idempotency_key \<Rightarrow> runner \<Rightarrow> runner" where
  "sweep_key ab key r =
     (let ws = fmget (rn_waiters r) [] key; kept = filter (\<lambda>w. \<not> ab (wt_id w)) ws
      in r\<lparr>rn_nwaiters := rn_nwaiters r - (int (length ws) - int (length kept)),
           rn_waiters := (if kept = [] then fmdrop key (rn_waiters r) else fmupd key kept (rn_waiters r))\<rparr>)"

definition sweepAbandoned :: "(nat \<Rightarrow> bool) \<Rightarrow> runner \<Rightarrow> runner" where
  "sweepAbandoned ab r =
     (let r1 = fold (sweep_key ab) (fmkeys (rn_waiters r)) r;
          gone = filter (\<lambda>seq. case fmlookup (rn_pendingReads r) seq of None \<Rightarrow> False | Some q \<Rightarrow> ab (rq_id q)) (fmkeys (rn_pendingReads r))
      in store_held (r1\<lparr>rn_pendingReads := fold fmdrop gone (rn_pendingReads r1),
           rn_applyWaits := filter (\<lambda>q. \<not> ab (rq_id q)) (rn_applyWaits r1)\<rparr>))"

definition failAll :: "run_error \<Rightarrow> runner \<Rightarrow> runner" where
  "failAll err r =
     (let r1 = refuse_waiters err r;
          r2 = fold (\<lambda>q. read_reply (rq_id q) (Some err)) (fmvals (rn_pendingReads r1) @ rn_applyWaits r1) r1
      in r2\<lparr>rn_pendingReads := fmempty, rn_applyWaits := [], rn_held := 0\<rparr>)"

datatype run_event =
    Done | Inbox envelope | Ticker | Submits nat command | Reads nat | Kick

definition handle_event ::
  "hashes \<Rightarrow> command_json \<Rightarrow> (nat \<Rightarrow> bool) \<Rightarrow> bool \<Rightarrow> int \<Rightarrow> run_event \<Rightarrow> runner \<Rightarrow> runner option" where
  "handle_event hx j ab free now ev r =
     (case ev of
        Done \<Rightarrow> Some r
      | Inbox env \<Rightarrow> (case core_Step now env (rn_core r) of (c, outs) \<Rightarrow> after hx j ab free outs (r\<lparr>rn_core := c\<rparr>))
      | Ticker \<Rightarrow>
          (let r1 = sweepAbandoned ab r
           in case core_Tick now (rn_core r1) of (c, outs) \<Rightarrow> after hx j ab free outs (r1\<lparr>rn_core := c\<rparr>))
      | Submits i cmd \<Rightarrow> handleSubmit hx j ab free now i cmd r
      | Reads i \<Rightarrow> handleRead hx j ab free now i r
      | Kick \<Rightarrow> after hx j ab free [] r)"

text \<open>One iteration of \<^verbatim>\<open>Run\<close>; the flag says that the loop has returned.\<close>

definition run_iteration ::
  "hashes \<Rightarrow> command_json \<Rightarrow> (nat \<Rightarrow> bool) \<Rightarrow> bool \<Rightarrow> int \<Rightarrow> run_event \<Rightarrow> runner \<Rightarrow> (runner \<times> bool) option" where
  "run_iteration hx j ab free now ev r =
     (if ev = Done then Some (failAll ErrStopped r, True)
      else map_option (\<lambda>r1. if core_Failed (rn_core r1) then (failAll (CoreFailed (Self (co_log (rn_core r1)))) r1, True) else (r1, False))
             (handle_event hx j ab free now ev r))"

definition run_start :: "hashes \<Rightarrow> command_json \<Rightarrow> (nat \<Rightarrow> bool) \<Rightarrow> bool \<Rightarrow> int \<Rightarrow> core \<Rightarrow> runner option" where
  "run_start hx j ab free now c =
     (case core_Tick now c of (c1, outs) \<Rightarrow> after hx j ab free outs ((NewRunner c)\<lparr>rn_core := c1\<rparr>))"

end
