(* ===== verification/RunnerInv.thy ===== *)
theory RunnerInv
  imports Runner
begin

text \<open>
  The invariant of the event loop: every request is held or answered at most once, the counters count,
  and every answer is the one recorded in the state machine. Requests are counted as multisets:
  \<open>flow\<close> is the requests held and answered, and no handler loses or repeats one.
\<close>

section \<open>Sums over maps\<close>

definition fmsum :: "('v \<Rightarrow> 'b multiset) \<Rightarrow> ('k, 'v) fmap \<Rightarrow> 'b multiset" where
  "fmsum f m = (\<Sum>k\<in>fmdom' m. f (the (fmlookup m k)))"

lemma finite_fmdom' [simp]: "finite (fmdom' m)"
  by (simp add: fmdom'_alt_def)

lemma fmsum_empty [simp]: "fmsum f fmempty = {#}"
  by (simp add: fmsum_def)

lemma fmsum_drop: "fmlookup m k = Some v \<Longrightarrow> fmsum f m = f v + fmsum f (fmdrop k m)"
proof -
  assume k: "fmlookup m k = Some v"
  then have "k \<in> fmdom' m" by (simp add: fmlookup_dom'_iff)
  then have "fmsum f m = f v + (\<Sum>x\<in>fmdom' m - {k}. f (the (fmlookup m x)))"
    unfolding fmsum_def by (subst sum.remove [of _ k]) (simp_all add: k)
  also have "(\<Sum>x\<in>fmdom' m - {k}. f (the (fmlookup m x))) = fmsum f (fmdrop k m)"
    unfolding fmsum_def by (rule sum.cong) auto
  finally show ?thesis .
qed

lemma fmsum_upd: "fmsum f (fmupd k v m) = f v + fmsum f (fmdrop k m)"
proof -
  have "fmdrop k (fmupd k v m) = fmdrop k m" by (rule fmap_ext) simp
  then show ?thesis using fmsum_drop [of "fmupd k v m" k v f] by simp
qed

lemma fmsum_get: "f d = {#} \<Longrightarrow> fmsum f m = f (fmget m d k) + fmsum f (fmdrop k m)"
proof (cases "fmlookup m k")
  case None
  then have "fmdrop k m = m" by (intro fmap_ext) auto
  then show "f d = {#} \<Longrightarrow> ?thesis" using None by (simp add: fmget_def)
qed (simp add: fmget_def fmsum_drop)

lemma fmsum_vals: "fmsum f m = sum_list (map f (fmvals m))"
  by (simp add: fmsum_def fmvals_def comp_def sum_list_distinct_conv_sum_set)

section \<open>Requests held and answered\<close>

definition held_ids :: "(idempotency_key, waiter list) fmap \<Rightarrow> nat multiset" where
  "held_ids m = fmsum (\<lambda>ws. mset (map wt_id ws)) m"

definition flow :: "runner \<Rightarrow> nat multiset" where
  "flow r = held_ids (rn_waiters r) + mset (map fst (rn_submitReplies r))"

definition pend_ids :: "(nat, readReq) fmap \<Rightarrow> nat multiset" where
  "pend_ids m = fmsum (\<lambda>q. {#rq_id q#}) m"

definition rflow :: "runner \<Rightarrow> nat multiset" where
  "rflow r = pend_ids (rn_pendingReads r) + mset (map rq_id (rn_applyWaits r)) + mset (map fst (rn_readReplies r))"

lemma held_ids_empty [simp]: "held_ids fmempty = {#}" "pend_ids fmempty = {#}"
  by (simp_all add: held_ids_def pend_ids_def)

lemma held_upd: "held_ids (fmupd k ws m) = mset (map wt_id ws) + held_ids (fmdrop k m)"
  by (simp add: held_ids_def fmsum_upd)

lemma held_get: "held_ids m = mset (map wt_id (fmget m [] k)) + held_ids (fmdrop k m)"
  unfolding held_ids_def by (rule fmsum_get) simp

lemma held_vals: "held_ids m = mset (map wt_id (concat (fmvals m)))"
proof -
  have "sum_list (map (\<lambda>ws. mset (map wt_id ws)) wss) = mset (map wt_id (concat wss))" for wss by (induction wss) simp_all
  then show ?thesis by (simp only: held_ids_def fmsum_vals)
qed

lemma pend_vals: "pend_ids m = mset (map rq_id (fmvals m))"
proof -
  have "sum_list (map (\<lambda>q. {#rq_id q#}) qs) = mset (map rq_id qs)" for qs by (induction qs) simp_all
  then show ?thesis by (simp only: pend_ids_def fmsum_vals)
qed

section \<open>Answers\<close>

text \<open>\<open>answers hx s cmd res\<close>: the state \<open>s\<close> has recorded a result under the key of \<open>cmd\<close>, and \<open>res\<close> is that result, up
  to the replay flag, when it was recorded for the fingerprint of \<open>cmd\<close>, and \<open>key_reused\<close> otherwise.\<close>

definition answers :: "hashes \<Rightarrow> tstate \<Rightarrow> command \<Rightarrow> result \<Rightarrow> bool" where
  "answers hx s cmd res \<longleftrightarrow>
     (case fmlookup (ts_results s) (cm_Key cmd) of
        None \<Rightarrow> False
      | Some rec \<Rightarrow>
          if rc_fingerprint rec = Fingerprint (hx_fp hx) cmd
          then res = rc_result rec \<or> res = (rc_result rec)\<lparr>re_Replayed := True\<rparr>
          else re_Code res = KeyReused)"

lemma Replay_answers: "State_Replay hx cmd s = Some res \<Longrightarrow> answers hx s cmd res"
  by (auto simp: State_Replay_def answers_def key_reused_def reject_def split: option.splits if_splits)

lemma answers_kept:
  assumes "\<And>k rec. fmlookup (ts_results s) k = Some rec \<Longrightarrow> fmlookup (ts_results s') k = Some rec" and "answers hx s cmd res"
  shows "answers hx s' cmd res"
  using assms(2) assms(1) [of "cm_Key cmd"] by (auto simp: answers_def split: option.splits)

lemma answers_same:
  "answers hx s cmd res \<Longrightarrow> cm_Key cmd' = cm_Key cmd \<Longrightarrow> Fingerprint (hx_fp hx) cmd' = Fingerprint (hx_fp hx) cmd \<Longrightarrow> answers hx s cmd' res"
  by (simp add: answers_def split: option.splits)

lemma Apply_answers:
  assumes a: "Apply hx sl b cmd s = Some (res, s')" and sl: "ts_applied s < sl"
    and k: "ValidateKey (cm_Key cmd) = None" and o: "cm_Op cmd \<noteq> UnknownOp"
  shows "answers hx s' cmd res"
proof (cases "fmlookup (ts_results s) (cm_Key cmd)")
  case None
  then show ?thesis using Apply_records [OF a sl k o] by (simp add: answers_def)
next
  case (Some rec)
  have "fmlookup (ts_results s') (cm_Key cmd) = Some rec" by (rule Apply_results [OF a Some])
  then show ?thesis using Apply_known_key [OF sl k Some, of hx b] a
    by (auto simp: answers_def key_reused_def reject_def split: if_splits)
qed

text \<open>Every operation the decoder returns is a known one.\<close>

definition json_known :: "command_json \<Rightarrow> bool" where
  "json_known j \<longleftrightarrow> (\<forall>b cmd. Decode j b = Inr cmd \<longrightarrow> cm_Op cmd \<noteq> UnknownOp)"

lemma Decode_key: "Decode j b = Inr cmd \<Longrightarrow> ValidateKey (cm_Key cmd) = None"
  by (auto simp: Decode_def split: sum.splits option.splits if_splits)

definition told :: "hashes \<Rightarrow> tstate \<Rightarrow> applied \<Rightarrow> bool" where
  "told hx s a \<longleftrightarrow> (\<forall>cmd res. ap_Command a = Some cmd \<longrightarrow> ap_Result a = Some res \<longrightarrow> ap_Key a = cm_Key cmd \<and> answers hx s cmd res)"

lemma ApplyNext_told:
  assumes n: "ApplyNext hx j c = Some (c', Some a)" and k: "json_known j" and s: "Suc (ts_applied (co_state c)) < 2 ^ 64"
  shows "told hx (co_state c') a"
proof (cases "ap_Command a")
  case (Some cmd)
  define sl where "sl = u64 (ts_applied (co_state c) + 1)"
  obtain e :: log_entry and res st where e: "Decode j (le_Value e) = Inr cmd" "Apply hx sl (le_Ballot e) cmd (co_state c) = Some (res, st)"
      "co_state c' = st" "ap_Key a = cm_Key cmd" "ap_Result a = Some res"
    using n Some unfolding ApplyNext_def sl_def [symmetric] Let_def
    by (auto simp: skipped_def split: if_splits option.splits sum.splits)
  have "ts_applied (co_state c) < sl" using s by (simp add: sl_def u64_id)
  from Apply_answers [OF e(2) this Decode_key [OF e(1)]] e k show ?thesis by (auto simp: told_def json_known_def Some)
qed (simp add: told_def)

lemma ApplyNext_results:
  assumes "ApplyNext hx j c = Some (c', x)" and "fmlookup (ts_results (co_state c)) k = Some rec"
  shows "fmlookup (ts_results (co_state c')) k = Some rec"
  using assms Apply_results
  by (fastforce simp: ApplyNext_def core_Skip_def Skip_def Let_def split: if_splits option.splits sum.splits)


lemma ApplyNext_applied:
  assumes n: "ApplyNext hx j c = Some (c', Some a)" and s: "Suc (ts_applied (co_state c)) < 2 ^ 64"
  shows "co_log c' = co_log c" "ts_applied (co_state c') = Suc (ts_applied (co_state c))"
    "Suc (ts_applied (co_state c)) \<le> nd_commitIndex (co_log c)"
proof -
  have u: "u64 (ts_applied (co_state c) + 1) = Suc (ts_applied (co_state c))" using s by (simp add: u64_id)
  show le: "Suc (ts_applied (co_state c)) \<le> nd_commitIndex (co_log c)"
    using n ApplyNext_idle [of c hx j] unfolding u by (cases "nd_commitIndex (co_log c) < Suc (ts_applied (co_state c))") auto
  obtain rs st where r: "apply_log hx [slot_item j (co_log c) (Suc (ts_applied (co_state c)))] (co_state c) = Some (rs, st)"
      "c' = c\<lparr>co_state := st\<rparr>"
    using ApplyNext_item [OF u [symmetric] le, of hx j] n by (auto split: option.splits)
  show "co_log c' = co_log c" using r(2) by simp
  show "ts_applied (co_state c') = Suc (ts_applied (co_state c))"
    using apply_log_applied [OF r(1), of "Suc (ts_applied (co_state c))"] r(2) by (simp add: slot_item_def)
qed

definition keeps_results :: "tstate \<Rightarrow> tstate \<Rightarrow> bool" where
  "keeps_results s s' \<longleftrightarrow> (\<forall>k rec. fmlookup (ts_results s) k = Some rec \<longrightarrow> fmlookup (ts_results s') k = Some rec)"

lemma told_kept: "keeps_results s s' \<Longrightarrow> told hx s a \<Longrightarrow> told hx s' a"
  using answers_kept unfolding keeps_results_def told_def by blast

lemma apply_loop_told:
  assumes "apply_loop hx j out c = Some y" and "json_known j" and "Suc (ts_applied (co_state c)) < 2 ^ 64"
    and "Suc (nd_commitIndex (co_log c)) < 2 ^ 64" and "list_all (told hx (co_state c)) out"
  shows "co_log (fst y) = co_log c \<and> keeps_results (co_state c) (co_state (fst y)) \<and> list_all (told hx (co_state (fst y))) (snd y) \<and>
    Suc (ts_applied (co_state (fst y))) < 2 ^ 64"
  using assms
proof (induction "nd_commitIndex (co_log c) - ts_applied (co_state c)" arbitrary: out c rule: less_induct)
  case less
  obtain c1 x where n: "ApplyNext hx j c = Some (c1, x)"
    using less.prems(1) apply_loop_simps(1) by (cases "ApplyNext hx j c") auto
  show ?case
  proof (cases x)
    case None
    have c1: "c1 = c" using n None by (auto simp: ApplyNext_def Let_def split: if_splits option.splits sum.splits)
    have y: "y = (c1, out)" using less.prems(1) apply_loop_simps(2) [OF n [unfolded None], of out] by simp
    have "keeps_results (co_state c) (co_state c)" by (simp add: keeps_results_def)
    then show ?thesis using less.prems unfolding y c1 by simp
  next
    case (Some a)
    note n' = n [unfolded Some]
    note ap = ApplyNext_applied [OF n' less.prems(3)]
    have kr: "keeps_results (co_state c) (co_state c1)" using ApplyNext_results [OF n] by (simp add: keeps_results_def)
    have "list_all (told hx (co_state c1)) (out @ [a])"
      using less.prems(5) told_kept [OF kr] ApplyNext_told [OF n' less.prems(2,3)] by (auto simp: list_all_iff)
    moreover have "apply_loop hx j (out @ [a]) c1 = Some y" using less.prems(1) apply_loop_simps(3) [OF n', of out] by simp
    ultimately have "co_log (fst y) = co_log c1 \<and> keeps_results (co_state c1) (co_state (fst y)) \<and>
        list_all (told hx (co_state (fst y))) (snd y) \<and> Suc (ts_applied (co_state (fst y))) < 2 ^ 64"
      using less.hyps [of c1 "out @ [a]"] less.prems(2-4) ap by auto
    then show ?thesis using ap(1) kr by (auto simp: keeps_results_def)
  qed
qed

section \<open>The invariant\<close>

text \<open>\<open>sub\<close> tells which command each request submitted.\<close>

definition wt_ok :: "hashes \<Rightarrow> (nat \<Rightarrow> command option) \<Rightarrow> idempotency_key \<Rightarrow> waiter \<Rightarrow> bool" where
  "wt_ok hx sub k w \<longleftrightarrow> cm_Key (wt_cmd w) = k \<and> wt_fp w = Fingerprint (hx_fp hx) (wt_cmd w) \<and> sub (wt_id w) = Some (wt_cmd w)"

definition waiters_ok :: "hashes \<Rightarrow> (nat \<Rightarrow> command option) \<Rightarrow> (idempotency_key, waiter list) fmap \<Rightarrow> bool" where
  "waiters_ok hx sub m \<longleftrightarrow> (\<forall>k ws. fmlookup m k = Some ws \<longrightarrow> ws \<noteq> [] \<and> list_all (wt_ok hx sub k) ws)"

definition reply_ok :: "hashes \<Rightarrow> (nat \<Rightarrow> command option) \<Rightarrow> tstate \<Rightarrow> nat \<times> submitReply \<Rightarrow> bool" where
  "reply_ok hx sub s x \<longleftrightarrow> (\<forall>res. snd x = Answer res \<longrightarrow> (\<exists>cmd. sub (fst x) = Some cmd \<and> answers hx s cmd res))"

definition rn_inv :: "hashes \<Rightarrow> (nat \<Rightarrow> command option) \<Rightarrow> runner \<Rightarrow> bool" where
  "rn_inv hx sub r \<longleftrightarrow> waiters_ok hx sub (rn_waiters r) \<and> rn_nwaiters r = int (size (held_ids (rn_waiters r))) \<and>
     list_all (reply_ok hx sub (co_state (rn_core r))) (rn_submitReplies r)"

definition sside :: "runner \<Rightarrow> (idempotency_key, waiter list) fmap \<times> int \<times> (nat \<times> submitReply) list" where
  "sside r = (rn_waiters r, rn_nwaiters r, rn_submitReplies r)"

definition rside :: "runner \<Rightarrow> core \<times> replica_status \<times> (nat, readReq) fmap \<times> readReq list \<times> (nat \<times> run_error option) list" where
  "rside r = (rn_core r, rn_status r, rn_pendingReads r, rn_applyWaits r, rn_readReplies r)"

lemma sside_flow: "sside r' = sside r \<Longrightarrow> flow r' = flow r"
  by (simp add: sside_def flow_def)

lemma rside_rflow: "rside r' = rside r \<Longrightarrow> rflow r' = rflow r"
  by (simp add: rside_def rflow_def)

lemma reply_ok_kept: "keeps_results s s' \<Longrightarrow> reply_ok hx sub s x \<Longrightarrow> reply_ok hx sub s' x"
  using answers_kept unfolding keeps_results_def reply_ok_def by blast

lemma rn_inv_state:
  assumes "rn_inv hx sub r" and "sside r' = sside r" and "keeps_results (co_state (rn_core r)) (co_state (rn_core r'))"
  shows "rn_inv hx sub r'"
  using assms reply_ok_kept [OF assms(3)] by (auto simp: rn_inv_def sside_def list_all_iff)

lemma keeps_refl [simp]: "keeps_results s s"
  by (simp add: keeps_results_def)

lemma submit_reply_sel [simp]:
  "rn_waiters (submit_reply i x r) = rn_waiters r" "rn_nwaiters (submit_reply i x r) = rn_nwaiters r"
  "rn_submitReplies (submit_reply i x r) = rn_submitReplies r @ [(i, x)]" "rside (submit_reply i x r) = rside r"
  "rn_core (submit_reply i x r) = rn_core r" "flow (submit_reply i x r) = add_mset i (flow r)"
  by (simp_all add: submit_reply_def rside_def flow_def)

lemma read_reply_sel [simp]:
  "sside (read_reply i x r) = sside r" "rn_core (read_reply i x r) = rn_core r" "rn_status (read_reply i x r) = rn_status r"
  "rn_pendingReads (read_reply i x r) = rn_pendingReads r" "rn_applyWaits (read_reply i x r) = rn_applyWaits r"
  "rn_readReplies (read_reply i x r) = rn_readReplies r @ [(i, x)]" "rn_waiters (read_reply i x r) = rn_waiters r"
  by (simp_all add: read_reply_def sside_def)

lemma fold_read_reply:
  "sside (fold (\<lambda>x. read_reply (f x) (g x)) xs r) = sside r" "rn_core (fold (\<lambda>x. read_reply (f x) (g x)) xs r) = rn_core r"
  "rn_status (fold (\<lambda>x. read_reply (f x) (g x)) xs r) = rn_status r"
  "rn_pendingReads (fold (\<lambda>x. read_reply (f x) (g x)) xs r) = rn_pendingReads r"
  "rn_applyWaits (fold (\<lambda>x. read_reply (f x) (g x)) xs r) = rn_applyWaits r"
  "rn_readReplies (fold (\<lambda>x. read_reply (f x) (g x)) xs r) = rn_readReplies r @ map (\<lambda>x. (f x, g x)) xs"
  by (induction xs arbitrary: r) simp_all

section \<open>Answering\<close>

lemma answer_waiter_inv:
  assumes inv: "rn_inv hx sub r" and w: "wt_ok hx sub k w"
    and a: "fp = Fingerprint (hx_fp hx) cmd" "cm_Key cmd = k" "answers hx (co_state (rn_core r)) cmd res"
  shows "rn_inv hx sub (answer_waiter hx k fp res w r) \<and> rside (answer_waiter hx k fp res w r) = rside r \<and>
    flow (answer_waiter hx k fp res w r) = add_mset (wt_id w) (flow r)"
proof -
  let ?st = "co_state (rn_core r)"
  have ans: "rn_inv hx sub (submit_reply (wt_id w) (Answer x) r)" if "answers hx ?st (wt_cmd w) x" for x
    using inv w that by (auto simp: rn_inv_def reply_ok_def wt_ok_def)
  consider "wt_fp w = fp" | x where "wt_fp w \<noteq> fp" "State_Replay hx (wt_cmd w) ?st = Some x"
    | "wt_fp w \<noteq> fp" "State_Replay hx (wt_cmd w) ?st = None" by fastforce
  then show ?thesis
  proof cases
    case 1
    then have "answers hx ?st (wt_cmd w) res" using answers_same [OF a(3), of "wt_cmd w"] w a(1,2) by (simp add: wt_ok_def)
    then show ?thesis using 1 ans by (simp add: answer_waiter_def)
  next
    case 2
    then show ?thesis using ans [OF Replay_answers] by (simp add: answer_waiter_def)
  next
    case 3
    let ?ws = "fmget (rn_waiters r) [] k"
    have "list_all (wt_ok hx sub k) ?ws" using inv by (auto simp: rn_inv_def waiters_ok_def fmget_def split: option.split)
    then have "waiters_ok hx sub (fmupd k (?ws @ [w]) (rn_waiters r))" using inv w by (auto simp: rn_inv_def waiters_ok_def)
    moreover have "held_ids (fmupd k (?ws @ [w]) (rn_waiters r)) = add_mset (wt_id w) (held_ids (rn_waiters r))"
      using held_get [of "rn_waiters r" k] by (simp add: held_upd)
    ultimately show ?thesis using 3 inv by (simp add: answer_waiter_def rn_inv_def rside_def flow_def)
  qed
qed

lemma answer_waiters_inv:
  assumes "rn_inv hx sub r" and "list_all (wt_ok hx sub k) ws"
    and "fp = Fingerprint (hx_fp hx) cmd" "cm_Key cmd = k" "answers hx (co_state (rn_core r)) cmd res"
  shows "rn_inv hx sub (fold (answer_waiter hx k fp res) ws r) \<and> rside (fold (answer_waiter hx k fp res) ws r) = rside r \<and>
    flow (fold (answer_waiter hx k fp res) ws r) = mset (map wt_id ws) + flow r"
  using assms
proof (induction ws arbitrary: r)
  case (Cons w ws)
  let ?r = "answer_waiter hx k fp res w r"
  have "wt_ok hx sub k w" using Cons.prems(2) by simp
  note 1 = answer_waiter_inv [OF Cons.prems(1) this Cons.prems(3-5)]
  then have "rn_core ?r = rn_core r" by (simp add: rside_def)
  with 1 Cons.IH [of ?r] Cons.prems show ?case by simp
qed simp

lemma answer_applied_inv:
  assumes inv: "rn_inv hx sub r" and t: "told hx (co_state (rn_core r)) a"
  shows "rn_inv hx sub (answer_applied hx a r) \<and> rside (answer_applied hx a r) = rside r \<and> flow (answer_applied hx a r) = flow r"
proof -
  consider "answer_applied hx a r = r"
    | cmd res ws where "ap_Command a = Some cmd" "ap_Result a = Some res" "fmlookup (rn_waiters r) (ap_Key a) = Some ws"
        "answer_applied hx a r = fold (answer_waiter hx (ap_Key a) (Fingerprint (hx_fp hx) cmd) res) ws
           (r\<lparr>rn_waiters := fmdrop (ap_Key a) (rn_waiters r), rn_nwaiters := rn_nwaiters r - int (length ws)\<rparr>)"
    unfolding answer_applied_def
    by (cases "ap_Command a"; cases "ap_Result a"; cases "ap_NoOp a"; cases "fmlookup (rn_waiters r) (ap_Key a)") simp_all
  then show ?thesis
  proof cases
    case 1
    then show ?thesis using inv by simp
  next
    case (2 cmd res ws)
    let ?r = "r\<lparr>rn_waiters := fmdrop (ap_Key a) (rn_waiters r), rn_nwaiters := rn_nwaiters r - int (length ws)\<rparr>"
    have h: "held_ids (rn_waiters r) = mset (map wt_id ws) + held_ids (fmdrop (ap_Key a) (rn_waiters r))"
      using held_get [of "rn_waiters r" "ap_Key a"] 2(3) by (simp add: fmget_def)
    have ws: "list_all (wt_ok hx sub (ap_Key a)) ws" using inv 2(3) by (auto simp: rn_inv_def waiters_ok_def)
    have "rn_inv hx sub ?r" using inv h by (auto simp: rn_inv_def waiters_ok_def)
    from answer_waiters_inv [OF this ws refl, of cmd res] t 2(1,2)
    have "rn_inv hx sub (answer_applied hx a r) \<and> rside (answer_applied hx a r) = rside ?r \<and>
        flow (answer_applied hx a r) = mset (map wt_id ws) + flow ?r" unfolding 2(4) by (simp add: told_def)
    then show ?thesis using h by (simp add: rside_def flow_def)
  qed
qed

lemma answer_all_inv:
  assumes "rn_inv hx sub r" and "list_all (told hx (co_state (rn_core r))) as"
  shows "rn_inv hx sub (fold (answer_applied hx) as r) \<and> rside (fold (answer_applied hx) as r) = rside r \<and>
    flow (fold (answer_applied hx) as r) = flow r"
  using assms
proof (induction as arbitrary: r)
  case (Cons a as)
  have "told hx (co_state (rn_core r)) a" using Cons.prems by simp
  note 1 = answer_applied_inv [OF Cons.prems(1) this]
  then have "rn_core (answer_applied hx a r) = rn_core r" by (simp add: rside_def)
  with 1 Cons.IH [of "answer_applied hx a r"] Cons.prems show ?case by simp
qed simp

lemma fold_refuse:
  "rn_waiters (fold (\<lambda>w. submit_reply (wt_id w) (Refused err)) ws r) = rn_waiters r"
  "rside (fold (\<lambda>w. submit_reply (wt_id w) (Refused err)) ws r) = rside r"
  "rn_core (fold (\<lambda>w. submit_reply (wt_id w) (Refused err)) ws r) = rn_core r"
  "rn_submitReplies (fold (\<lambda>w. submit_reply (wt_id w) (Refused err)) ws r) =
     rn_submitReplies r @ map (\<lambda>w. (wt_id w, Refused err)) ws"
  by (induction ws arbitrary: r) simp_all

lemma refuse_waiters_inv:
  assumes "rn_inv hx sub r"
  shows "rn_inv hx sub (refuse_waiters err r) \<and> rside (refuse_waiters err r) = rside r \<and> flow (refuse_waiters err r) = flow r \<and>
    rn_waiters (refuse_waiters err r) = fmempty"
proof -
  have "waiters_ok hx sub fmempty" by (simp add: waiters_ok_def)
  moreover have "rside (refuse_waiters err r) = rside r"
    using fold_refuse(2) [of err "concat (fmvals (rn_waiters r))" r] by (simp add: refuse_waiters_def rside_def)
  moreover have "map fst (map (\<lambda>w. (wt_id w, Refused err)) ws) = map wt_id ws" for ws :: "waiter list" by simp
  ultimately show ?thesis
    using assms by (auto simp: refuse_waiters_def rn_inv_def flow_def fold_refuse held_vals reply_ok_def list_all_iff comp_def)
qed

section \<open>Reads\<close>

lemma read_event_flow:
  assumes "read_event ev (r, failed) = (r', failed')"
  shows "sside r' = sside r \<and> rn_core r' = rn_core r \<and> rn_status r' = rn_status r \<and> rn_readReplies r' = rn_readReplies r \<and>
    pend_ids (rn_pendingReads r') + mset (map rq_id (rn_applyWaits r')) + mset (map fst failed') =
    pend_ids (rn_pendingReads r) + mset (map rq_id (rn_applyWaits r)) + mset (map fst failed)"
proof -
  have "pend_ids (rn_pendingReads r) = add_mset (rq_id q) (pend_ids (fmdrop seq (rn_pendingReads r)))"
    if "fmlookup (rn_pendingReads r) seq = Some q" for seq q using that by (simp add: pend_ids_def fmsum_drop)
  then show ?thesis using assms by (auto simp: read_event_def sside_def split: event.splits option.splits)
qed

lemma read_events_flow:
  assumes "fold read_event evs (r, failed) = (r', failed')"
  shows "sside r' = sside r \<and> rn_core r' = rn_core r \<and> rn_status r' = rn_status r \<and> rn_readReplies r' = rn_readReplies r \<and>
    pend_ids (rn_pendingReads r') + mset (map rq_id (rn_applyWaits r')) + mset (map fst failed') =
    pend_ids (rn_pendingReads r) + mset (map rq_id (rn_applyWaits r)) + mset (map fst failed)"
  using assms
proof (induction evs arbitrary: r failed)
  case (Cons ev evs)
  obtain r1 f1 where 1: "read_event ev (r, failed) = (r1, f1)" by fastforce
  from read_event_flow [OF 1] Cons.IH [of r1 f1] Cons.prems 1 show ?case by simp
qed simp

lemma finish_reads_flow:
  "sside (finish_reads ab r) = sside r \<and> rn_core (finish_reads ab r) = rn_core r \<and> rn_status (finish_reads ab r) = rn_status r \<and>
   rn_pendingReads (finish_reads ab r) = rn_pendingReads r \<and> rflow (finish_reads ab r) \<subseteq># rflow r"
proof -
  let ?live = "filter (\<lambda>q. \<not> ab (rq_id q)) (rn_applyWaits r)"
  let ?P = "\<lambda>q. st_Applied (rn_status r) \<ge> rq_index q"
  have m: "mset (map rq_id (filter (\<lambda>q. \<not> ?P q) ?live)) + mset (map rq_id (filter ?P ?live)) = mset (map rq_id ?live)"
    by (simp only: mset_map mset_filter image_mset_union [symmetric]) (simp add: multiset_partition [of _ ?P, symmetric] add.commute)
  have "mset (map rq_id ?live) \<subseteq># mset (map rq_id (rn_applyWaits r))"
    by (simp add: image_mset_subseteq_mono)
  then have "mset (map rq_id (filter (\<lambda>q. \<not> ?P q) ?live)) + mset (map rq_id (filter ?P ?live)) \<subseteq># mset (map rq_id (rn_applyWaits r))"
    unfolding m .
  then have "rflow (finish_reads ab r) \<subseteq># rflow r"
    by (simp add: rflow_def finish_reads_def Let_def fold_read_reply comp_def ac_simps)
  moreover have "sside (finish_reads ab r) = sside r"
    using fold_read_reply(1) by (simp add: finish_reads_def Let_def sside_def)
  ultimately show ?thesis by (simp add: finish_reads_def Let_def fold_read_reply)
qed

section \<open>After an event\<close>

lemma core_calls_state [simp]:
  "co_state (fst (core_Step now e c)) = co_state c" "co_state (fst (core_Tick now c)) = co_state c"
  "co_state (fst (core_Submit j now cmd c)) = co_state c" "co_state (fst (core_ReadIndex now c)) = co_state c"
  "co_state (fst (core_Events c)) = co_state c"
  by (simp_all add: core_Step_def core_Tick_def core_Submit_def core_ReadIndex_def core_Events_def split_beta split: option.split sum.split)

definition in_slots :: "core \<Rightarrow> bool" where
  "in_slots c \<longleftrightarrow> Suc (ts_applied (co_state c)) < 2 ^ 64 \<and> Suc (nd_commitIndex (co_log c)) < 2 ^ 64"

lemma core_Events_slots [simp]: "in_slots (fst (core_Events c)) = in_slots c"
  by (simp add: in_slots_def core_Events_def LogNode.Events_def)

lemma applyCommitted_cases:
  assumes "applyCommitted hx j free r = Some (r', as)"
  obtains "as = []" "r' = r" | "as = []" "r' = r\<lparr>rn_applyWait := True\<rparr>"
    | c where "ApplyCommitted hx j (rn_core r) = Some (c, as)" "r' = r\<lparr>rn_applyWait := False, rn_core := c\<rparr>"
proof (cases "nd_commitIndex (co_log (rn_core r)) \<le> ts_applied (co_state (rn_core r)) \<or> \<not> free")
  case True
  then show thesis using assms that(1,2) by (auto simp: applyCommitted_def split: if_splits)
next
  case False
  then obtain c where "ApplyCommitted hx j (rn_core r) = Some (c, as)" "r' = r\<lparr>rn_applyWait := True, rn_core := c, rn_applyWait := False\<rparr>"
    using assms by (cases "ApplyCommitted hx j (rn_core r)") (auto simp: applyCommitted_def)
  then show thesis using that(3) [of c] by simp
qed

lemma applyCommitted_told:
  assumes "applyCommitted hx j free r = Some (r', as)" and "json_known j" and "in_slots (rn_core r)"
  shows "sside r' = sside r \<and> keeps_results (co_state (rn_core r)) (co_state (rn_core r')) \<and> list_all (told hx (co_state (rn_core r'))) as \<and>
    rflow r' = rflow r \<and> in_slots (rn_core r')"
  using assms(1)
proof (cases rule: applyCommitted_cases)
  case (3 c)
  have "apply_loop hx j [] (rn_core r) = Some (c, as)" using 3(1) by (simp add: ApplyCommitted_def)
  from apply_loop_told [OF this assms(2)] assms(3)
  have "co_log c = co_log (rn_core r)" "keeps_results (co_state (rn_core r)) (co_state c)" "list_all (told hx (co_state c)) as"
    "Suc (ts_applied (co_state c)) < 2 ^ 64" by (simp_all add: in_slots_def)
  then show ?thesis using assms(3) by (simp add: 3(2) sside_def rflow_def in_slots_def)
qed (use assms(3) in \<open>simp_all add: sside_def rflow_def\<close>)

definition held_ok :: "runner \<Rightarrow> bool" where
  "held_ok r \<longleftrightarrow> rn_held r = int (size (held_ids (rn_waiters r)) + size (pend_ids (rn_pendingReads r)) + length (rn_applyWaits r))"

lemma size_pend: "size (pend_ids m) = fmsize m"
  by (simp add: pend_vals fmvals_def fmsize_card distinct_card [symmetric])

lemma store_held_ok: "rn_inv hx sub r \<Longrightarrow> held_ok (store_held r) \<and> rn_inv hx sub (store_held r) \<and> flow (store_held r) = flow r \<and>
   rflow (store_held r) = rflow r \<and> rside (store_held r) = rside r \<and> rn_waiters (store_held r) = rn_waiters r"
  by (simp add: held_ok_def store_held_def rn_inv_def flow_def rflow_def size_pend rside_def)

lemma snapshot_sides: "sside (snapshot as r) = sside r" "rn_core (snapshot as r) = rn_core r" "rflow (snapshot as r) = rflow r"
  "rn_status (snapshot as r) = core_Status (rn_core r)"
  by (simp_all add: snapshot_def Let_def sside_def rflow_def)

text \<open>What every event leaves: the invariant, every submit still held or answered, no read twice, and no
  waiter on a replica that does not lead.\<close>

definition settled :: "hashes \<Rightarrow> (nat \<Rightarrow> command option) \<Rightarrow> runner \<Rightarrow> bool" where
  "settled hx sub r \<longleftrightarrow> rn_inv hx sub r \<and> held_ok r \<and> in_slots (rn_core r) \<and> rn_status r = core_Status (rn_core r) \<and>
     (nd_role (co_log (rn_core r)) \<noteq> Leader \<longrightarrow> rn_waiters r = fmempty)"

lemma fmsize_pos: "fmsize m > 0 \<longleftrightarrow> m \<noteq> fmempty"
proof -
  have "fmsize m = 0 \<longleftrightarrow> m = fmempty"
    by (metis card_eq_0_iff finite_fmdom' fmsize_card fmdom'_empty fmrestrict_set_dom fmrestrict_set_null)
  then show ?thesis by auto
qed

lemma after_settled:
  assumes a: "after hx j ab free outs r = Some r'" and inv: "rn_inv hx sub r" and j: "json_known j" and sl: "in_slots (rn_core r)"
  shows "settled hx sub r' \<and> flow r' = flow r \<and> rflow r' \<subseteq># rflow r"
proof -
  define r1 where "r1 = r\<lparr>rn_sent := rn_sent r @ outs\<rparr>"
  obtain c evs where ev: "core_Events (rn_core r1) = (c, evs)" by fastforce
  obtain r2 failed where e: "fold read_event evs (r1\<lparr>rn_core := c\<rparr>, []) = (r2, failed)" by fastforce
  obtain r3 as where ap: "applyCommitted hx j free r2 = Some (r3, as)"
    using a by (auto simp: after_def Let_def r1_def [symmetric] ev e split: option.splits)
  define r4 where "r4 = snapshot as r3"
  define r5 where "r5 = fold (\<lambda>(i, err). read_reply i (Some (ReadRefused err))) failed r4"
  define r6 where "r6 = fold (answer_applied hx) as r5"
  define r7 where "r7 = (if fmsize (rn_waiters r6) > 0 \<and> st_Role (rn_status r6) \<noteq> Leader then refuse_waiters ErrLeadershipLost r6 else r6)"
  define r8 where "r8 = finish_reads ab r7"
  have r': "r' = store_held r8"
    using a unfolding after_def Let_def r1_def [symmetric] ev e prod.case ap option.case r4_def [symmetric] r5_def [symmetric]
      r6_def [symmetric] r7_def [symmetric] r8_def [symmetric] by simp
  have cs: "co_state c = co_state (rn_core r)" "in_slots c"
    using core_calls_state(5) [of "rn_core r1"] core_Events_slots [of "rn_core r1"] sl unfolding ev by (simp_all add: r1_def)
  note f2 = read_events_flow [OF e]
  have s2: "sside r2 = sside r" "rn_core r2 = c" using f2 by (simp_all add: r1_def sside_def)
  have i2: "rn_inv hx sub r2" by (rule rn_inv_state [OF inv]) (simp_all add: s2 cs)
  have t3: "sside r3 = sside r2" "keeps_results (co_state (rn_core r2)) (co_state (rn_core r3))"
      "list_all (told hx (co_state (rn_core r3))) as" "rflow r3 = rflow r2" "in_slots (rn_core r3)"
    using applyCommitted_told [OF ap j] cs s2 by simp_all
  have g: "r5 = fold (\<lambda>x. read_reply (fst x) (Some (ReadRefused (snd x)))) failed r4" by (simp add: r5_def split_def)
  have s5: "sside r5 = sside r" "rn_core r5 = rn_core r3" "rn_status r5 = core_Status (rn_core r3)"
    using t3(1) s2 by (simp_all add: g fold_read_reply r4_def snapshot_sides)
  have i5: "rn_inv hx sub r5" by (rule rn_inv_state [OF i2]) (use s5 s2 t3(2) in simp_all)
  note a6 = answer_all_inv [OF i5, of as, folded r6_def]
  have a6: "rn_inv hx sub r6" "rside r6 = rside r5" "flow r6 = flow r5" using a6 t3(3) s5(2) by simp_all
  have c6: "rn_core r6 = rn_core r3" "rn_status r6 = core_Status (rn_core r3)" using a6(2) s5 by (simp_all add: rside_def)
  have a7: "rn_inv hx sub r7" "rside r7 = rside r6" "flow r7 = flow r6"
    using refuse_waiters_inv [OF a6(1)] a6(1) by (simp_all add: r7_def)
  have l7: "rn_waiters r7 = fmempty" if "nd_role (co_log (rn_core r3)) \<noteq> Leader"
    using that refuse_waiters_inv [OF a6(1)] c6(2) by (auto simp: r7_def fmsize_pos core_Status_def split: prod.splits)
  note f8 = finish_reads_flow [of ab r7, folded r8_def]
  have i8: "rn_inv hx sub r8" by (rule rn_inv_state [OF a7(1)]) (use f8 in simp_all)
  note h8 = store_held_ok [OF i8]
  have c8: "rn_core r' = rn_core r3" "rn_status r' = core_Status (rn_core r3)" "rn_waiters r' = rn_waiters r7"
    using f8 h8 a7(2) c6 by (simp_all add: r' rside_def sside_def)
  have "settled hx sub r'" unfolding settled_def c8 using h8 t3(5) l7 by (simp add: r')
  moreover have "flow r' = flow r"
    using h8 sside_flow [of r8 r7] f8 a7(3) a6(3) sside_flow [OF s5(1)] by (simp add: r')
  moreover have "rflow r5 = rflow r"
  proof -
    have "rflow r5 = rflow r4 + mset (map fst failed)"
      by (simp add: g rflow_def fold_read_reply comp_def)
    also have "\<dots> = rflow r2 + mset (map fst failed)" using t3(4) by (simp add: r4_def snapshot_sides)
    also have "\<dots> = rflow r" using f2 by (simp add: rflow_def r1_def ac_simps)
    finally show ?thesis .
  qed
  then have "rflow r' \<subseteq># rflow r"
    using h8 f8 rside_rflow [OF a7(2)] rside_rflow [OF a6(2)] by (simp add: r')
  ultimately show ?thesis by blast
qed

section \<open>Events\<close>

lemma sweep_key_inv:
  assumes "rn_inv hx sub r"
  shows "rn_inv hx sub (sweep_key ab k r) \<and> flow (sweep_key ab k r) \<subseteq># flow r \<and> rside (sweep_key ab k r) = rside r \<and>
    (\<forall>i. \<not> ab i \<longrightarrow> count (flow (sweep_key ab k r)) i = count (flow r) i)"
proof -
  let ?ws = "fmget (rn_waiters r) [] k"
  let ?kept = "filter (\<lambda>w. \<not> ab (wt_id w)) ?ws"
  let ?m = "if ?kept = [] then fmdrop k (rn_waiters r) else fmupd k ?kept (rn_waiters r)"
  have h: "held_ids ?m = mset (map wt_id ?kept) + held_ids (fmdrop k (rn_waiters r))"
    by (cases "?kept = []") (simp_all only: held_upd if_True if_False list.map mset.simps add_0 simp_thms)
  have g: "held_ids (rn_waiters r) = mset (map wt_id ?ws) + held_ids (fmdrop k (rn_waiters r))" by (rule held_get)
  have sub: "mset (map wt_id ?kept) \<subseteq># mset (map wt_id ?ws)" by (simp add: image_mset_subseteq_mono)
  have "list_all (wt_ok hx sub k) ?ws" using assms by (auto simp: rn_inv_def waiters_ok_def fmget_def split: option.split)
  then have "waiters_ok hx sub ?m" using assms by (auto simp: rn_inv_def waiters_ok_def list_all_iff)
  moreover have "int (size (held_ids ?m)) = int (size (held_ids (rn_waiters r))) - (int (length ?ws) - int (length ?kept))"
    unfolding h g by (simp only: size_union size_mset length_map of_nat_add)
  ultimately have "rn_inv hx sub (sweep_key ab k r)" using assms by (simp add: rn_inv_def sweep_key_def Let_def)
  moreover have f: "flow (sweep_key ab k r) = held_ids ?m + mset (map fst (rn_submitReplies r))" by (simp add: flow_def sweep_key_def Let_def)
  have "flow (sweep_key ab k r) \<subseteq># flow r" unfolding f unfolding flow_def h g using sub by simp
  moreover have "count (mset (map wt_id (filter (\<lambda>w. \<not> ab (wt_id w)) ws))) i = count (mset (map wt_id ws)) i" if "\<not> ab i" for i ws
    using that by (induction ws) auto
  then have "count (flow (sweep_key ab k r)) i = count (flow r) i" if "\<not> ab i" for i
    using that unfolding f unfolding flow_def h g by simp
  ultimately show ?thesis by (simp add: rside_def sweep_key_def Let_def)
qed

lemma sweep_keys_inv:
  "rn_inv hx sub r \<Longrightarrow> rn_inv hx sub (fold (sweep_key ab) ks r) \<and> flow (fold (sweep_key ab) ks r) \<subseteq># flow r \<and>
     rside (fold (sweep_key ab) ks r) = rside r \<and> (\<forall>i. \<not> ab i \<longrightarrow> count (flow (fold (sweep_key ab) ks r)) i = count (flow r) i)"
proof (induction ks arbitrary: r)
  case (Cons k ks)
  note 1 = sweep_key_inv [OF Cons.prems, of ab k]
  from 1 Cons.IH [of "sweep_key ab k r"] show ?case by (auto intro: subset_mset.order_trans)
qed simp

lemma pend_drops: "pend_ids (fold fmdrop ks m) \<subseteq># pend_ids m"
proof (induction ks arbitrary: m)
  case (Cons k ks)
  have "pend_ids (fmdrop k m) \<subseteq># pend_ids m"
  proof (cases "fmlookup m k")
    case None
    then have "fmdrop k m = m" by (intro fmap_ext) auto
    then show ?thesis by simp
  qed (simp add: pend_ids_def fmsum_drop)
  with Cons.IH [of "fmdrop k m"] show ?case by (auto intro: subset_mset.order_trans)
qed simp

lemma sweepAbandoned_inv:
  assumes "rn_inv hx sub r"
  shows "rn_inv hx sub (sweepAbandoned ab r) \<and> flow (sweepAbandoned ab r) \<subseteq># flow r \<and> rflow (sweepAbandoned ab r) \<subseteq># rflow r \<and>
    rn_core (sweepAbandoned ab r) = rn_core r \<and> (\<forall>i. \<not> ab i \<longrightarrow> count (flow (sweepAbandoned ab r)) i = count (flow r) i)"
proof -
  let ?r1 = "fold (sweep_key ab) (fmkeys (rn_waiters r)) r"
  note 1 = sweep_keys_inv [OF assms, of ab "fmkeys (rn_waiters r)"]
  define gone where "gone = filter (\<lambda>seq. case fmlookup (rn_pendingReads r) seq of None \<Rightarrow> False | Some q \<Rightarrow> ab (rq_id q)) (fmkeys (rn_pendingReads r))"
  define r2 where "r2 = ?r1\<lparr>rn_pendingReads := fold fmdrop gone (rn_pendingReads ?r1),
     rn_applyWaits := filter (\<lambda>q. \<not> ab (rq_id q)) (rn_applyWaits ?r1)\<rparr>"
  have e: "sweepAbandoned ab r = store_held r2" by (simp add: sweepAbandoned_def Let_def r2_def gone_def)
  have i2: "rn_inv hx sub r2" "flow r2 = flow ?r1" using 1 by (simp_all add: r2_def rn_inv_def flow_def)
  have "mset (map rq_id (filter (\<lambda>q. \<not> ab (rq_id q)) (rn_applyWaits ?r1))) \<subseteq># mset (map rq_id (rn_applyWaits ?r1))"
    by (simp add: image_mset_subseteq_mono)
  then have "rflow r2 \<subseteq># rflow ?r1" using pend_drops [of gone "rn_pendingReads ?r1"] by (simp add: rflow_def r2_def subset_mset.add_mono)
  then show ?thesis using store_held_ok [OF i2(1)] 1 i2(2) rside_rflow [of ?r1 r] by (simp add: e r2_def rside_def store_held_def)
qed

lemma failAll_inv:
  assumes "rn_inv hx sub r"
  shows "rn_inv hx sub (failAll err r) \<and> flow (failAll err r) = flow r \<and> rflow (failAll err r) = rflow r \<and>
    rn_waiters (failAll err r) = fmempty \<and> rn_pendingReads (failAll err r) = fmempty \<and> rn_applyWaits (failAll err r) = [] \<and>
    held_ok (failAll err r)"
proof -
  let ?r1 = "refuse_waiters err r"
  note 1 = refuse_waiters_inv [OF assms, of err]
  let ?r2 = "fold (\<lambda>q. read_reply (rq_id q) (Some err)) (fmvals (rn_pendingReads ?r1) @ rn_applyWaits ?r1) ?r1"
  have s: "sside ?r2 = sside ?r1" "rn_core ?r2 = rn_core ?r1" by (rule fold_read_reply)+
  have e: "failAll err r = ?r2\<lparr>rn_pendingReads := fmempty, rn_applyWaits := [], rn_held := 0\<rparr>"
    by (simp add: failAll_def Let_def)
  have "sside (failAll err r) = sside ?r1" unfolding e using s(1) by (simp add: sside_def)
  then have f: "sside (failAll err r) = sside ?r1" .
  have c: "rn_core (failAll err r) = rn_core ?r1" unfolding e using s(2) by simp
  have i: "rn_inv hx sub (failAll err r)" by (rule rn_inv_state [OF conjunct1 [OF 1] f]) (simp add: c)
  have w: "flow (failAll err r) = flow ?r1" "rn_waiters (failAll err r) = rn_waiters ?r1"
    using sside_flow [OF f] f unfolding sside_def by simp_all
  have "rflow (failAll err r) = rflow ?r1"
    unfolding e rflow_def by (simp add: fold_read_reply comp_def pend_vals ac_simps)
  moreover have "rn_pendingReads (failAll err r) = fmempty" "rn_applyWaits (failAll err r) = []" "rn_held (failAll err r) = 0"
    by (simp_all add: e)
  ultimately show ?thesis using 1 i w rside_rflow [of ?r1 r] by (simp add: held_ok_def)
qed

lemma handleSubmit_inv:
  assumes a: "handleSubmit hx j ab free now i cmd r = Some r'" and st: "settled hx sub r" and j: "json_known j" and i: "sub i = Some cmd"
    and sl: "in_slots (fst (core_Submit j now cmd (rn_core r)))"
  shows "settled hx sub r' \<and> flow r' = (if ab i then flow r else add_mset i (flow r)) \<and> rflow r' \<subseteq># rflow r"
proof -
  have inv: "rn_inv hx sub r" using st by (simp add: settled_def)
  let ?st = "co_state (rn_core r)"
  obtain c outs e where s: "core_Submit j now cmd (rn_core r) = (c, outs, e)" by (cases "core_Submit j now cmd (rn_core r)")
  have cs: "co_state c = ?st" "in_slots c" using core_calls_state(3) [of j now cmd "rn_core r"] sl unfolding s by simp_all
  consider "ab i" "r' = r" | res where "\<not> ab i" "State_Replay hx cmd ?st = Some res" "r' = submit_reply i (Answer res) r"
    | err where "\<not> ab i" "e = Some err" "after hx j ab free outs (submit_reply i (Refused (SubmitRefused err)) (r\<lparr>rn_core := c\<rparr>)) = Some r'"
    | "\<not> ab i" "e = None" "after hx j ab free outs (r\<lparr>rn_core := c,
          rn_waiters := fmupd (cm_Key cmd) (fmget (rn_waiters r) [] (cm_Key cmd) @ [\<lparr>wt_id = i, wt_cmd = cmd, wt_fp = Fingerprint (hx_fp hx) cmd\<rparr>]) (rn_waiters r),
          rn_nwaiters := rn_nwaiters r + 1\<rparr>) = Some r'"
    using a unfolding handleSubmit_def s by (cases "ab i"; cases "State_Replay hx cmd ?st"; cases e) auto
  then show ?thesis
  proof cases
    case 1
    then show ?thesis using st by simp
  next
    case (2 res)
    have "rn_inv hx sub r'" using inv i Replay_answers [OF 2(2)] by (auto simp: 2(3) rn_inv_def reply_ok_def)
    then show ?thesis using st rside_rflow [of r' r] by (simp add: 2(1,3) settled_def held_ok_def) (simp add: submit_reply_def)
  next
    case (3 err)
    have "rn_inv hx sub (submit_reply i (Refused (SubmitRefused err)) (r\<lparr>rn_core := c\<rparr>))"
      using inv cs by (simp add: rn_inv_def reply_ok_def)
    from after_settled [OF 3(3) this j] cs 3(1) show ?thesis by (simp add: rflow_def flow_def submit_reply_def)
  next
    case 4
    let ?w = "\<lparr>wt_id = i, wt_cmd = cmd, wt_fp = Fingerprint (hx_fp hx) cmd\<rparr>"
    let ?ws = "fmget (rn_waiters r) [] (cm_Key cmd)"
    have "list_all (wt_ok hx sub (cm_Key cmd)) ?ws" using inv by (auto simp: rn_inv_def waiters_ok_def fmget_def split: option.split)
    then have "waiters_ok hx sub (fmupd (cm_Key cmd) (?ws @ [?w]) (rn_waiters r))"
      using inv i by (auto simp: rn_inv_def waiters_ok_def wt_ok_def)
    moreover have "held_ids (fmupd (cm_Key cmd) (?ws @ [?w]) (rn_waiters r)) = add_mset i (held_ids (rn_waiters r))"
      using held_get [of "rn_waiters r" "cm_Key cmd"] by (simp add: held_upd)
    ultimately show ?thesis using after_settled [OF 4(3) _ j, of sub] cs inv 4(1) by (simp add: rn_inv_def flow_def rflow_def)
  qed
qed

lemma handleRead_inv:
  assumes a: "handleRead hx j ab free now i r = Some r'" and st: "settled hx sub r" and j: "json_known j"
    and sl: "in_slots (fst (core_ReadIndex now (rn_core r)))"
  shows "settled hx sub r' \<and> flow r' = flow r \<and> rflow r' \<subseteq># add_mset i (rflow r)"
proof -
  have inv: "rn_inv hx sub r" using st by (simp add: settled_def)
  obtain c outs e where s: "core_ReadIndex now (rn_core r) = (c, outs, e)" by (cases "core_ReadIndex now (rn_core r)")
  have cs: "co_state c = co_state (rn_core r)" "in_slots c" using core_calls_state(4) [of now "rn_core r"] sl unfolding s by simp_all
  consider "r' = r" | err where "after hx j ab free outs (read_reply i (Some (ReadRefused err)) (r\<lparr>rn_core := c\<rparr>)) = Some r'"
    | seq where "after hx j ab free outs (r\<lparr>rn_core := c, rn_pendingReads := fmupd seq \<lparr>rq_id = i, rq_index = 0\<rparr> (rn_pendingReads r)\<rparr>) = Some r'"
    using a unfolding handleRead_def s by (cases "ab i"; cases e) auto
  then show ?thesis
  proof cases
    case 1
    then show ?thesis using st by simp
  next
    case (2 err)
    have "rn_inv hx sub (read_reply i (Some (ReadRefused err)) (r\<lparr>rn_core := c\<rparr>))"
      by (rule rn_inv_state [OF inv]) (simp_all add: cs sside_def read_reply_def)
    from after_settled [OF 2 this j] cs show ?thesis by (simp add: rflow_def flow_def read_reply_def)
  next
    case (3 seq)
    let ?m = "fmupd seq \<lparr>rq_id = i, rq_index = 0\<rparr> (rn_pendingReads r)"
    have "pend_ids (fold fmdrop [seq] (rn_pendingReads r)) \<subseteq># pend_ids (rn_pendingReads r)" by (rule pend_drops)
    then have m: "pend_ids ?m \<subseteq># add_mset i (pend_ids (rn_pendingReads r))" by (simp add: pend_ids_def fmsum_upd)
    have "rn_inv hx sub (r\<lparr>rn_core := c, rn_pendingReads := ?m\<rparr>)" by (rule rn_inv_state [OF inv]) (simp_all add: cs sside_def)
    from after_settled [OF 3 this j] cs
    have "settled hx sub r' \<and> flow r' = flow r" and f: "rflow r' \<subseteq># pend_ids ?m + (mset (map rq_id (rn_applyWaits r)) + mset (map fst (rn_readReplies r)))"
      by (simp_all add: rflow_def flow_def add.assoc)
    moreover have "pend_ids ?m + (mset (map rq_id (rn_applyWaits r)) + mset (map fst (rn_readReplies r))) \<subseteq># add_mset i (rflow r)"
      using subset_mset.add_right_mono [OF m, of "mset (map rq_id (rn_applyWaits r)) + mset (map fst (rn_readReplies r))"]
      by (simp add: rflow_def ac_simps)
    ultimately show ?thesis using subset_mset.order_trans by blast
  qed
qed

definition event_core :: "command_json \<Rightarrow> int \<Rightarrow> run_event \<Rightarrow> core \<Rightarrow> core" where
  "event_core j now ev c =
     (case ev of
        Inbox env \<Rightarrow> fst (core_Step now env c)
      | Ticker \<Rightarrow> fst (core_Tick now c)
      | Submits i cmd \<Rightarrow> fst (core_Submit j now cmd c)
      | Reads i \<Rightarrow> fst (core_ReadIndex now c)
      | _ \<Rightarrow> c)"

definition new_subs :: "run_event \<Rightarrow> (nat \<times> command) list" where
  "new_subs ev = (case ev of Submits i cmd \<Rightarrow> [(i, cmd)] | _ \<Rightarrow> [])"

definition new_reads :: "run_event \<Rightarrow> nat list" where
  "new_reads ev = (case ev of Reads i \<Rightarrow> [i] | _ \<Rightarrow> [])"

lemma after_core:
  assumes a: "after hx j ab free outs (r\<lparr>rn_core := c\<rparr>) = Some r'" and inv: "rn_inv hx sub r" and j: "json_known j"
    and c: "co_state c = co_state (rn_core r)" "in_slots c"
  shows "settled hx sub r' \<and> flow r' = flow r \<and> rflow r' \<subseteq># rflow r"
proof -
  have "rn_inv hx sub (r\<lparr>rn_core := c\<rparr>)" by (rule rn_inv_state [OF inv]) (simp_all add: c sside_def)
  from after_settled [OF a this j] c(2) show ?thesis by (simp add: flow_def rflow_def)
qed

text \<open>What one event does to the requests: a submit is added unless its caller is gone, and only abandoned
  submits may be forgotten.\<close>

lemma handle_event_inv:
  assumes a: "handle_event hx j ab free now ev r = Some r'" and st: "settled hx sub r" and j: "json_known j"
    and i: "\<forall>(i, cmd)\<in>set (new_subs ev). sub i = Some cmd" and sl: "in_slots (event_core j now ev (rn_core r))"
  shows "settled hx sub r' \<and> flow r' \<subseteq># mset (map fst (new_subs ev)) + flow r \<and> rflow r' \<subseteq># mset (new_reads ev) + rflow r \<and>
    (\<forall>i. \<not> ab i \<longrightarrow> count (flow r') i = count (mset (map fst (new_subs ev)) + flow r) i)"
proof -
  have inv: "rn_inv hx sub r" using st by (simp add: settled_def)
  show ?thesis
  proof (cases ev)
    case Done
    then show ?thesis using a st by (simp add: handle_event_def new_subs_def new_reads_def)
  next
    case (Inbox env)
    obtain c outs where s: "core_Step now env (rn_core r) = (c, outs)" by fastforce
    have "after hx j ab free outs (r\<lparr>rn_core := c\<rparr>) = Some r'" using a by (simp add: handle_event_def Inbox s)
    from after_core [OF this inv j] core_calls_state(1) [of now env "rn_core r"] sl
    show ?thesis unfolding Inbox event_core_def s by (simp add: s new_subs_def new_reads_def)
  next
    case Ticker
    note w = sweepAbandoned_inv [OF inv, of ab]
    obtain c outs where s: "core_Tick now (rn_core r) = (c, outs)" by fastforce
    have t: "core_Tick now (rn_core (sweepAbandoned ab r)) = (c, outs)" using w s by simp
    have "after hx j ab free outs ((sweepAbandoned ab r)\<lparr>rn_core := c\<rparr>) = Some r'" using a by (simp add: handle_event_def Ticker t)
    from after_core [OF this conjunct1 [OF w] j] core_calls_state(2) [of now "rn_core r"] sl w
    have "settled hx sub r' \<and> flow r' = flow (sweepAbandoned ab r) \<and> rflow r' \<subseteq># rflow (sweepAbandoned ab r)"
      unfolding Ticker event_core_def s by (simp add: s)
    then show ?thesis using w subset_mset.order_trans [of "rflow r'" "rflow (sweepAbandoned ab r)" "rflow r"] by (simp add: Ticker new_subs_def new_reads_def)
  next
    case (Submits i cmd)
    have "handleSubmit hx j ab free now i cmd r = Some r'" using a by (simp add: handle_event_def Submits)
    from handleSubmit_inv [OF this st j] i sl show ?thesis by (auto simp: Submits event_core_def new_subs_def new_reads_def)
  next
    case (Reads i)
    have "handleRead hx j ab free now i r = Some r'" using a by (simp add: handle_event_def Reads)
    from handleRead_inv [OF this st j] sl show ?thesis by (simp add: Reads event_core_def new_subs_def new_reads_def)
  next
    case Kick
    have "after hx j ab free [] (r\<lparr>rn_core := rn_core r\<rparr>) = Some r'" using a by (simp add: handle_event_def Kick)
    from after_core [OF this inv j] sl show ?thesis by (simp add: Kick event_core_def new_subs_def new_reads_def)
  qed
qed

end
