(* ===== verification/RunnerSafe.thy ===== *)
theory RunnerSafe
  imports RunnerInv
begin

text \<open>
  Runs of the event loop from its start, with any events, any moments at which callers give up, any reads
  that keep the state locked and any outcome of saves, and what every run guarantees to its callers.
\<close>

section \<open>Runs\<close>

definition env_run :: "save_outcome list \<Rightarrow> int list \<Rightarrow> runner \<Rightarrow> runner" where
  "env_run saves rands r = r\<lparr>rn_core := env_core saves rands (rn_core r)\<rparr>"

text \<open>\<open>runner_reach hx j c subs reads gone r stopped\<close>: the loop started on the core \<open>c\<close>, took the requests \<open>subs\<close> and \<open>reads\<close>, of
  which those in \<open>gone\<close> were abandoned at some point, and is in state \<open>r\<close>; \<open>stopped\<close> when \<^verbatim>\<open>Run\<close> has returned.
  Every request has a number of its own. Slots stay below the end of the 64-bit range.\<close>

inductive runner_reach ::
  "hashes \<Rightarrow> command_json \<Rightarrow> core \<Rightarrow> (nat \<times> command) list \<Rightarrow> nat list \<Rightarrow> (nat \<Rightarrow> bool) \<Rightarrow> runner \<Rightarrow> bool \<Rightarrow> bool"
  for hx j c where
  start: "run_start hx j ab free now (env_core saves rands c) = Some r \<Longrightarrow>
    in_slots (fst (core_Tick now (env_core saves rands c))) \<Longrightarrow> runner_reach hx j c [] [] ab r False"
| event: "runner_reach hx j c subs reads gone r False \<Longrightarrow>
    run_iteration hx j ab free now ev (env_run saves rands r) = Some (r', stopped) \<Longrightarrow>
    in_slots (event_core j now ev (rn_core (env_run saves rands r))) \<Longrightarrow>
    set (map fst (new_subs ev)) \<inter> set (map fst subs) = {} \<Longrightarrow> set (new_reads ev) \<inter> set reads = {} \<Longrightarrow>
    runner_reach hx j c (new_subs ev @ subs) (new_reads ev @ reads) (\<lambda>i. gone i \<or> ab i) r' stopped"

text \<open>What holds of every state of the loop, and what after it has stopped.\<close>

definition run_ok ::
  "hashes \<Rightarrow> (nat \<times> command) list \<Rightarrow> nat list \<Rightarrow> (nat \<Rightarrow> bool) \<Rightarrow> runner \<Rightarrow> bool \<Rightarrow> bool" where
  "run_ok hx subs reads gone r stopped \<longleftrightarrow> distinct (map fst subs) \<and> distinct reads \<and>
     rn_inv hx (map_of subs) r \<and> held_ok r \<and> flow r \<subseteq># mset (map fst subs) \<and> rflow r \<subseteq># mset reads \<and>
     (\<forall>i\<in>set (map fst subs). \<not> gone i \<longrightarrow> count (flow r) i = 1) \<and>
     (if stopped then rn_waiters r = fmempty \<and> rn_pendingReads r = fmempty \<and> rn_applyWaits r = []
      else settled hx (map_of subs) r)"

lemma waiters_ok_ext: "waiters_ok hx sub m \<Longrightarrow> (\<And>i x. sub i = Some x \<Longrightarrow> sub' i = Some x) \<Longrightarrow> waiters_ok hx sub' m"
  by (fastforce simp: waiters_ok_def wt_ok_def list_all_iff)

lemma settled_ext:
  assumes "settled hx sub r" and "\<And>i x. sub i = Some x \<Longrightarrow> sub' i = Some x"
  shows "settled hx sub' r"
proof -
  have "reply_ok hx sub' s x" if "reply_ok hx sub s x" for s x using that assms(2) by (fastforce simp: reply_ok_def)
  then show ?thesis using assms waiters_ok_ext [of hx sub _ sub'] by (auto simp: settled_def rn_inv_def list_all_iff)
qed

lemma env_run_settled:
  assumes "settled hx sub r"
  shows "settled hx sub (env_run saves rands r)" "flow (env_run saves rands r) = flow r" "rflow (env_run saves rands r) = rflow r"
proof -
  have "core_Status (env_core saves rands c) = core_Status c" for c
    by (simp add: core_Status_def env_core_def with_env_def node_Leader_def Ready_def knob_def split: prod.split)
  then show "settled hx sub (env_run saves rands r)"
    using assms by (simp add: settled_def env_run_def env_core_def with_env_def rn_inv_def held_ok_def in_slots_def)
qed (simp_all add: env_run_def flow_def rflow_def)

lemma failAll_ok:
  assumes "rn_inv hx (map_of subs) r" and "distinct (map fst subs)" and "distinct reads" and "flow r \<subseteq># mset (map fst subs)"
    and "rflow r \<subseteq># mset reads" and "\<forall>i\<in>set (map fst subs). \<not> gone i \<longrightarrow> count (flow r) i = 1"
  shows "run_ok hx subs reads gone (failAll err r) True"
  using failAll_inv [OF assms(1), of err] assms(2-6) by (simp add: run_ok_def)

lemma run_start_ok:
  assumes "run_start hx j ab free now c = Some r" and "in_slots (fst (core_Tick now c))" and "json_known j"
  shows "run_ok hx [] [] gone r False"
proof -
  obtain c1 outs where t: "core_Tick now c = (c1, outs)" by fastforce
  have a: "after hx j ab free outs ((NewRunner c)\<lparr>rn_core := c1\<rparr>) = Some r" using assms(1) by (simp add: run_start_def t)
  have i: "rn_inv hx (map_of []) (NewRunner c)" by (simp add: rn_inv_def NewRunner_def waiters_ok_def)
  have c1: "co_state c1 = co_state (rn_core (NewRunner c))" "in_slots c1"
    using core_calls_state(2) [of now c] assms(2) unfolding t by (simp_all add: NewRunner_def)
  have "flow (NewRunner c) = {#}" "rflow (NewRunner c) = {#}" by (simp_all add: NewRunner_def flow_def rflow_def)
  then show ?thesis using after_core [OF a i assms(3) c1] by (simp add: run_ok_def settled_def)
qed

lemma run_event_ok:
  assumes ok: "run_ok hx subs reads gone r False" and j: "json_known j"
    and it: "run_iteration hx j ab free now ev (env_run saves rands r) = Some (r', stopped)"
    and sl: "in_slots (event_core j now ev (rn_core (env_run saves rands r)))"
    and d: "set (map fst (new_subs ev)) \<inter> set (map fst subs) = {}" "set (new_reads ev) \<inter> set reads = {}"
  shows "run_ok hx (new_subs ev @ subs) (new_reads ev @ reads) (\<lambda>i. gone i \<or> ab i) r' stopped"
proof -
  let ?r = "env_run saves rands r" and ?subs = "new_subs ev @ subs" and ?reads = "new_reads ev @ reads"
  have st: "settled hx (map_of subs) r" and ds: "distinct (map fst subs)" "distinct reads"
    and f: "flow r \<subseteq># mset (map fst subs)" "rflow r \<subseteq># mset reads" "\<forall>i\<in>set (map fst subs). \<not> gone i \<longrightarrow> count (flow r) i = 1"
    using ok by (simp_all add: run_ok_def)
  have n: "distinct (map fst (new_subs ev))" "distinct (new_reads ev)" by (simp_all add: new_subs_def new_reads_def split: run_event.split)
  have dn: "distinct (map fst ?subs)" "distinct ?reads" using ds d n by (simp_all)
  have ext: "map_of ?subs i = Some x" if "map_of subs i = Some x" for i x
    using that d(1) by (metis (no_types, lifting) disjoint_iff domI dom_map_of_conv_image_fst list.set_map map_add_dom_app_simps(3) map_of_append)
  have ex: "settled hx (map_of ?subs) r" by (rule settled_ext [OF st ext])
  note e = env_run_settled [OF ex, where saves = saves and rands = rands]
  show ?thesis
  proof (cases "ev = Done")
    case True
    then have "r' = failAll ErrStopped ?r" "stopped" using it by (simp_all add: run_iteration_def)
    moreover have "run_ok hx ?subs ?reads (\<lambda>i. gone i \<or> ab i) (failAll ErrStopped ?r) True"
      by (rule failAll_ok) (use e f dn True in \<open>auto simp: settled_def new_subs_def new_reads_def\<close>)
    ultimately show ?thesis by simp
  next
    case False
    obtain r1 where h: "handle_event hx j ab free now ev ?r = Some r1"
        and r': "(r', stopped) = (if core_Failed (rn_core r1) then (failAll (CoreFailed (Self (co_log (rn_core r1)))) r1, True) else (r1, False))"
      using it False by (auto simp: run_iteration_def)
    have "map_of ?subs i = Some cmd" if "(i, cmd) \<in> set (new_subs ev)" for i cmd using that dn(1) by simp
    then have "\<forall>(i, cmd)\<in>set (new_subs ev). map_of ?subs i = Some cmd" by blast
    note g = handle_event_inv [OF h e(1) j this sl]
    have f1: "flow r1 \<subseteq># mset (map fst ?subs)" "rflow r1 \<subseteq># mset ?reads"
      using g subset_mset.add_left_mono [OF f(1), of "mset (map fst (new_subs ev))"] subset_mset.add_left_mono [OF f(2), of "mset (new_reads ev)"]
      unfolding e(2,3) map_append mset_append by (blast intro: subset_mset.order_trans)+
    have c1: "count (flow r1) i = 1" if "i \<in> set (map fst ?subs)" "\<not> (gone i \<or> ab i)" for i
    proof -
      have "count (flow r1) i = count (mset (map fst (new_subs ev))) i + count (flow r) i" using g that(2) e(2) by simp
      moreover have "count (flow r) i = (if i \<in> set (map fst subs) then 1 else 0)"
        using f(1,3) that(2) by (auto simp: not_in_iff dest: mset_subset_eqD)
      moreover have "count (mset (map fst (new_subs ev))) i = (if i \<in> set (map fst (new_subs ev)) then 1 else 0)"
        using n(1) by (simp only: distinct_count_atmost_1)
      ultimately show ?thesis using that(1) d(1) by auto
    qed
    show ?thesis
    proof (cases "core_Failed (rn_core r1)")
      case True
      have "run_ok hx ?subs ?reads (\<lambda>i. gone i \<or> ab i) (failAll (CoreFailed (Self (co_log (rn_core r1)))) r1) True"
        by (rule failAll_ok) (use g f1 c1 dn in \<open>auto simp: settled_def\<close>)
      then show ?thesis using r' True by simp
    next
      case False
      then show ?thesis using r' g f1 c1 dn by (auto simp: run_ok_def settled_def)
    qed
  qed
qed

lemma reach_ok: "runner_reach hx j c subs reads gone r stopped \<Longrightarrow> json_known j \<Longrightarrow> run_ok hx subs reads gone r stopped"
proof (induction rule: runner_reach.induct)
  case (start ab free now saves rands r)
  then show ?case using run_start_ok by blast
next
  case (event subs reads gone r ab free now ev saves rands r' stopped)
  then show ?case using run_event_ok [OF event.IH [OF event.prems] event.prems event.hyps(2-5)] by simp
qed


section \<open>A run\<close>

text \<open>Runs in which no caller gives up, no read holds the state, every save succeeds and every draw is zero, as a
  function. A run that stops early is not one.\<close>

fun run_list ::
  "hashes \<Rightarrow> command_json \<Rightarrow> (int \<times> run_event) list \<Rightarrow> (nat \<times> command) list \<times> nat list \<times> runner \<Rightarrow> ((nat \<times> command) list \<times> nat list \<times> runner) option" where
  "run_list hx j [] x = Some x"
| "run_list hx j ((now, ev) # evs) (subs, reads, r) =
     (if in_slots (event_core j now ev (rn_core (env_run [] [] r))) \<and> set (map fst (new_subs ev)) \<inter> set (map fst subs) = {} \<and>
         set (new_reads ev) \<inter> set reads = {}
      then (case run_iteration hx j (\<lambda>_. False) True now ev (env_run [] [] r) of
              None \<Rightarrow> None
            | Some rs \<Rightarrow> if snd rs then None else run_list hx j evs (new_subs ev @ subs, new_reads ev @ reads, fst rs))
      else None)"

lemma run_list_reach:
  "run_list hx j evs (subs, reads, r) = Some (subs', reads', r') \<Longrightarrow> runner_reach hx j c subs reads (\<lambda>_. False) r False \<Longrightarrow>
     runner_reach hx j c subs' reads' (\<lambda>_. False) r' False"
proof (induction hx j evs "(subs, reads, r)" arbitrary: subs reads r rule: run_list.induct)
  case (2 hx j now ev evs subs reads r)
  then obtain r1 where r1: "run_iteration hx j (\<lambda>_. False) True now ev (env_run [] [] r) = Some (r1, False)"
      "run_list hx j evs (new_subs ev @ subs, new_reads ev @ reads, r1) = Some (subs', reads', r')"
      "in_slots (event_core j now ev (rn_core (env_run [] [] r)))" "set (map fst (new_subs ev)) \<inter> set (map fst subs) = {}"
      "set (new_reads ev) \<inter> set reads = {}"
    by (auto split: if_splits option.splits)
  have "runner_reach hx j c (new_subs ev @ subs) (new_reads ev @ reads) (\<lambda>i. False \<or> False) r1 False"
    by (rule runner_reach.event [OF "2.prems"(2) r1(1,3-5)])
  then have "runner_reach hx j c (new_subs ev @ subs) (new_reads ev @ reads) (\<lambda>_. False) r1 False" by simp
  with "2.hyps" [of "(r1, False)"] r1 show ?case by simp
qed simp

lemma in_slots_code [code]:
  "in_slots c \<longleftrightarrow> ts_applied (co_state c) < 18446744073709551615 \<and> nd_commitIndex (co_log c) < 18446744073709551615"
  by (simp add: in_slots_def)

definition solo_core :: core where
  "solo_core = projr (NewCore (pair_cfg 1) [])"

definition solo_start :: runner where
  "solo_start = the (run_start plain_hashes sample_json (\<lambda>_. False) True 0 (env_core [] [] solo_core))"

text \<open>The replica is elected, request 7 creates a tournament, and both slots are decided.\<close>

definition solo_events :: "(int \<times> run_event) list" where
  "solo_events =
     (let b = Ballot 1 1; t = 1000000000; from2 = (\<lambda>m. Inbox \<lparr>nv_From = 2, nv_To = 1, nv_Msg = m\<rparr>)
      in [(t, Ticker), (t, from2 (Promise \<lparr>pm_Ballot = b, pm_Accepted = [], pm_CommitIndex = 0\<rparr>)),
          (t, Submits 7 create_cmd), (t, from2 (Accepted b 1)), (t, from2 (Accepted b 2)), (t, Submits 8 create_cmd)])"

definition solo_run :: runner where
  "solo_run = snd (snd (the (run_list plain_hashes sample_json solo_events ([], [], solo_start))))"

definition solo_stopped :: runner where
  "solo_stopped = failAll ErrStopped (env_run [] [] solo_run)"

definition reply_codes :: "runner \<Rightarrow> (nat \<times> (code \<times> bool) option) list" where
  "reply_codes r = map (\<lambda>(i, x). (i, case x of Answer res \<Rightarrow> Some (re_Code res, re_Replayed res) | Refused _ \<Rightarrow> None)) (rn_submitReplies r)"

lemma solo_started:
  "map_option (\<lambda>r. in_slots (fst (core_Tick 0 (env_core [] [] solo_core))))
     (run_start plain_hashes sample_json (\<lambda>_. False) True 0 (env_core [] [] solo_core)) = Some True"
  by code_simp

lemma solo_ran:
  "map_option (\<lambda>(subs, reads, r). (subs, reads, in_slots (rn_core r), reply_codes r))
     (run_list plain_hashes sample_json solo_events ([], [], solo_start)) =
   Some ([(8, create_cmd), (7, create_cmd)], [], True, [(7, Some (OK, False)), (8, Some (OK, True))])"
  by code_simp

lemma solo_facts:
  "run_list plain_hashes sample_json solo_events ([], [], solo_start) = Some ([(8, create_cmd), (7, create_cmd)], [], solo_run)"
  "in_slots (rn_core solo_run)" "reply_codes solo_run = [(7, Some (OK, False)), (8, Some (OK, True))]"
  using solo_ran unfolding solo_run_def by auto

lemma solo_reach:
  "runner_reach plain_hashes sample_json solo_core [(8, create_cmd), (7, create_cmd)] [] (\<lambda>_. False) solo_run False"
proof -
  have "run_start plain_hashes sample_json (\<lambda>_. False) True 0 (env_core [] [] solo_core) = Some solo_start"
    "in_slots (fst (core_Tick 0 (env_core [] [] solo_core)))" using solo_started unfolding solo_start_def by auto
  from runner_reach.start [OF this] run_list_reach [OF solo_facts(1)] show ?thesis by blast
qed

lemma solo_stopped_reach:
  "runner_reach plain_hashes sample_json solo_core [(8, create_cmd), (7, create_cmd)] [] (\<lambda>_. False) solo_stopped True"
proof -
  have "run_iteration plain_hashes sample_json (\<lambda>_. False) True 1000000001 Done (env_run [] [] solo_run) = Some (solo_stopped, True)"
    by (simp add: run_iteration_def solo_stopped_def)
  moreover have "in_slots (event_core sample_json 1000000001 Done (rn_core (env_run [] [] solo_run)))"
    using solo_facts(2) by (simp add: event_core_def in_slots_def env_run_def env_core_def with_env_def)
  ultimately show ?thesis using runner_reach.event [OF solo_reach] by (fastforce simp: new_subs_def new_reads_def)
qed

lemma sample_json_known: "json_known sample_json"
proof -
  have "op \<noteq> UnknownOp" if "cj_readBody sample_json n b = Some (op, k)" for op k n b
    using that by (auto simp: sample_json_def sample_table_def create_cmd_def join_cmd_def split: if_splits)
  then show ?thesis unfolding json_known_def Decode_def DecodeStrict_def by (fastforce split: option.splits sum.splits if_splits)
qed

section \<open>What callers can rely on\<close>

lemma distinct_sub:
  assumes "mset xs \<subseteq># mset ys" and "distinct ys"
  shows "distinct xs"
proof -
  have "count (mset xs) a = (if a \<in> set xs then 1 else 0)" for a
  proof -
    have "count (mset xs) a \<le> count (mset ys) a" by (rule mset_subset_eq_count [OF assms(1)])
    also have "\<dots> \<le> 1" using assms(2) by (simp add: distinct_count_atmost_1)
    finally show ?thesis by (cases "a \<in> set xs") (auto simp: not_in_iff [symmetric] le_Suc_eq)
  qed
  then show ?thesis by (simp add: distinct_count_atmost_1)
qed

text \<open>
  C26. Every request is answered at most once, so the loop never blocks on a reply: no two replies go to
  the same submit or the same read, and a submit that is still held has had none. The counters \<^verbatim>\<open>nwaiters\<close>
  and \<^verbatim>\<open>Held\<close> are the numbers of requests the loop holds.
\<close>

theorem answered_once:
  assumes "json_known j" and "runner_reach hx j c subs reads gone r stopped"
  shows "distinct (map fst (rn_submitReplies r)) \<and> distinct (map fst (rn_readReplies r)) \<and>
    set (map wt_id (concat (fmvals (rn_waiters r)))) \<inter> set (map fst (rn_submitReplies r)) = {} \<and>
    rn_nwaiters r = int (length (concat (fmvals (rn_waiters r)))) \<and>
    rn_held r = rn_nwaiters r + int (fmsize (rn_pendingReads r)) + int (length (rn_applyWaits r))"
proof -
  have ok: "run_ok hx subs reads gone r stopped" by (rule reach_ok [OF assms(2,1)])
  have f: "mset (map wt_id (concat (fmvals (rn_waiters r))) @ map fst (rn_submitReplies r)) \<subseteq># mset (map fst subs)"
    using ok by (simp add: run_ok_def flow_def held_vals)
  have g: "mset (map fst (rn_readReplies r)) \<subseteq># mset reads"
    using ok subset_mset.order_trans [OF mset_subset_eq_add_right] unfolding run_ok_def rflow_def by blast
  have sub: "distinct xs" if "mset xs \<subseteq># mset ys" "distinct ys" for xs ys :: "nat list"
    using distinct_sub that by blast
  have "distinct (map wt_id (concat (fmvals (rn_waiters r))) @ map fst (rn_submitReplies r))" using sub [OF f] ok by (simp add: run_ok_def)
  moreover have "distinct (map fst (rn_readReplies r))" using sub [OF g] ok by (simp add: run_ok_def)
  moreover have "rn_nwaiters r = int (length (concat (fmvals (rn_waiters r))))"
    using ok by (simp only: run_ok_def rn_inv_def held_vals size_mset length_map)
  moreover have "rn_held r = rn_nwaiters r + int (fmsize (rn_pendingReads r)) + int (length (rn_applyWaits r))"
    using ok by (simp add: run_ok_def rn_inv_def held_ok_def size_pend)
  ultimately show ?thesis by simp
qed

theorem answered_once_witness:
  "distinct (map fst (rn_submitReplies solo_run)) \<and> reply_codes solo_run = [(7, Some (OK, False)), (8, Some (OK, True))]"
  using answered_once [OF sample_json_known solo_reach] solo_facts(3) by blast

text \<open>
  C27. Every answer is the recorded one. A submit that is answered with a result gets the result recorded
  under its key in the replica's state machine, up to the replay flag, if it was recorded for the same
  request, and key_reused if it was recorded for another.
\<close>

theorem answers_are_recorded:
  assumes "json_known j" and "runner_reach hx j c subs reads gone r stopped" and "(i, Answer res) \<in> set (rn_submitReplies r)"
  shows "\<exists>cmd. (i, cmd) \<in> set subs \<and> answers hx (co_state (rn_core r)) cmd res"
proof -
  have "rn_inv hx (map_of subs) r" using reach_ok [OF assms(2,1)] by (simp add: run_ok_def)
  then show ?thesis using assms(3) map_of_SomeD by (fastforce simp: rn_inv_def reply_ok_def list_all_iff)
qed

theorem answers_are_recorded_witness:
  "\<exists>res cmd. (7, Answer res) \<in> set (rn_submitReplies solo_run) \<and> cmd = create_cmd \<and> answers plain_hashes (co_state (rn_core solo_run)) cmd res"
proof -
  have "(7, Some (OK, False)) \<in> set (reply_codes solo_run)" unfolding solo_facts(3) by simp
  then obtain res where r: "(7, Answer res) \<in> set (rn_submitReplies solo_run)"
    by (auto simp: reply_codes_def split: submitReply.splits)
  from answers_are_recorded [OF sample_json_known solo_reach r] r show ?thesis by auto
qed



end
