(* ===== verification/Service.thy ===== *)
theory Service
  imports ReplicaSystem RunnerSafe
begin

text \<open>
  The whole service: one event loop of \<^verbatim>\<open>runner.go\<close> per replica over a network, with replicas that stop and are
  started again from their stores. Every step is a sequence of steps of \<open>ReplicaSystem\<close>, so what holds of the cores
  holds of the loops, and with what \<open>RunnerSafe\<close> says of each loop it gives what a client may rely on whichever
  replicas it talks to.
\<close>

section \<open>Steps\<close>

text \<open>\<open>se_runner\<close> is the replica's loop since it was last started, \<open>se_subs\<close> and \<open>se_reads\<close> are the requests it took.\<close>

record seat =
  se_runner :: runner
  se_subs :: "(nat \<times> command) list"
  se_reads :: "nat list"
  se_up :: bool

record service =
  sv_members :: "node_id list"
  sv_seat :: "node_id \<Rightarrow> seat"
  sv_net :: "envelope set"

abbreviation sv_core :: "service \<Rightarrow> node_id \<Rightarrow> core" where
  "sv_core S i \<equiv> rn_core (se_runner (sv_seat S i))"

text \<open>The cores of a service. The outcomes that saves and draws are still going to have are the environment's.\<close>

definition cores :: "service \<Rightarrow> rsystem" where
  "cores S =
     \<lparr>rs_cl = \<lparr>cl_members = sv_members S, cl_nodes = (\<lambda>i. if i \<in> set (sv_members S) then with_env [] [] (co_log (sv_core S i)) else co_log (sv_core S i)), cl_net = sv_net S\<rparr>,
      rs_states = (\<lambda>i. co_state (sv_core S i))\<rparr>"

definition new_mail :: "runner \<Rightarrow> runner \<Rightarrow> envelope list" where
  "new_mail r r' = drop (length (rn_sent r)) (rn_sent r')"

definition seat_upd :: "service \<Rightarrow> node_id \<Rightarrow> seat \<Rightarrow> envelope list \<Rightarrow> service" where
  "seat_upd S i s outs = S\<lparr>sv_seat := (sv_seat S)(i := s), sv_net := sv_net S \<union> set outs\<rparr>"

text \<open>Which events may come: a message from the network or from outside of the cluster. Slots and ballots
  are in the range the log is proved for.\<close>

definition may_take :: "service \<Rightarrow> node_id \<Rightarrow> run_event \<Rightarrow> bool" where
  "may_take S i ev \<longleftrightarrow> i \<in> set (sv_members S) \<and> in_range (rs_cl (cores S)) i \<and>
     (case ev of Inbox e \<Rightarrow> e \<in> sv_net S \<or> nv_From e \<notin> set (sv_members S) | _ \<Rightarrow> True)"

definition started :: "runner \<Rightarrow> seat" where
  "started r = \<lparr>se_runner = r, se_subs = [], se_reads = [], se_up = True\<rparr>"

definition took :: "run_event \<Rightarrow> runner \<Rightarrow> bool \<Rightarrow> seat \<Rightarrow> seat" where
  "took ev r stopped s =
     \<lparr>se_runner = r, se_subs = new_subs ev @ se_subs s, se_reads = new_reads ev @ se_reads s, se_up = (\<not> stopped)\<rparr>"

text \<open>A replica that is down, or goes down between two events, is started on what its store holds.\<close>

inductive sv_step :: "hashes \<Rightarrow> command_json \<Rightarrow> service \<Rightarrow> service \<Rightarrow> bool" for hx j where
  event: "se_up (sv_seat S i) \<Longrightarrow> may_take S i ev \<Longrightarrow> r = env_run saves rands (se_runner (sv_seat S i)) \<Longrightarrow>
    run_iteration hx j ab free now ev r = Some (r', stopped) \<Longrightarrow> in_slots (event_core j now ev (rn_core r)) \<Longrightarrow>
    set (map fst (new_subs ev)) \<inter> set (map fst (se_subs (sv_seat S i))) = {} \<Longrightarrow>
    set (new_reads ev) \<inter> set (se_reads (sv_seat S i)) = {} \<Longrightarrow>
    sv_step hx j S (seat_upd S i (took ev r' stopped (sv_seat S i)) (new_mail r r'))"
| start: "i \<in> set (sv_members S) \<Longrightarrow> NewCore (nd_cfg (co_log (sv_core S i))) (nd_store (co_log (sv_core S i))) = Inr c \<Longrightarrow>
    may_take (seat_upd S i (started (NewRunner c)) []) i Ticker \<Longrightarrow>
    run_start hx j ab free now (env_core saves rands c) = Some r \<Longrightarrow>
    in_slots (fst (core_Tick now (env_core saves rands c))) \<Longrightarrow>
    sv_step hx j S (seat_upd S i (started r) (rn_sent r))"

definition sv_init :: "node_id list \<Rightarrow> (node_id \<Rightarrow> config) \<Rightarrow> service" where
  "sv_init P cfg =
     \<lparr>sv_members = P,
      sv_seat = (\<lambda>i. \<lparr>se_runner = NewRunner \<lparr>co_log = projr (New (cfg i) []), co_state = NewState\<rparr>, se_subs = [], se_reads = [], se_up = False\<rparr>),
      sv_net = {}\<rparr>"

section \<open>What the loop does to its core\<close>

definition links :: "runner \<Rightarrow> core \<times> envelope list" where
  "links r = (rn_core r, rn_sent r)"

lemma fold_links: "(\<And>x s. f (g x s) = f s) \<Longrightarrow> f (fold g xs s) = f s"
  by (induction xs arbitrary: s) simp_all

lemma links_simps [simp]:
  "links (submit_reply i x r) = links r" "links (read_reply i y r) = links r" "links (store_held r) = links r"
  "links (snapshot as r) = links r" "links (answer_waiter hx k fp res w r) = links r" "links (sweep_key ab k r) = links r"
  by (simp_all add: links_def submit_reply_def read_reply_def store_held_def snapshot_def answer_waiter_def sweep_key_def Let_def
      split: option.split)

lemma links_cong [simp]:
  "links (r\<lparr>rn_waiters := w, rn_nwaiters := n\<rparr>) = links r" "links (r\<lparr>rn_applyWaits := q\<rparr>) = links r"
  "links (r\<lparr>rn_pendingReads := p, rn_applyWaits := q\<rparr>) = links r" "links (r\<lparr>rn_pendingReads := p\<rparr>) = links r"
  "links (r\<lparr>rn_pendingReads := p, rn_applyWaits := q, rn_held := h\<rparr>) = links r" "links (r\<lparr>rn_applyWait := b\<rparr>) = links r"
  by (simp_all add: links_def)

lemma links_folds [simp]:
  "links (fold (\<lambda>x. read_reply (f x) (g x)) xs r) = links r" "links (fold (answer_applied hx) as r) = links r"
  "links (refuse_waiters err r) = links r" "links (finish_reads ab r) = links r" "links (sweepAbandoned ab r) = links r"
  "links (failAll err r) = links r"
proof -
  show 1: "links (fold (\<lambda>x. read_reply (f x) (g x)) xs r) = links r" for f :: "'a \<Rightarrow> nat" and g xs r by (rule fold_links) simp
  have "links (answer_applied hx a r) = links r" for a r
    by (simp add: answer_applied_def fold_links [where f = links] split: option.split)
  then show "links (fold (answer_applied hx) as r) = links r" by (rule fold_links)
  show 2: "links (refuse_waiters err r) = links r" for r by (simp add: refuse_waiters_def fold_links [where f = links])
  show "links (finish_reads ab r) = links r" by (simp add: finish_reads_def Let_def fold_links [where f = links])
  show "links (sweepAbandoned ab r) = links r" by (simp add: sweepAbandoned_def Let_def fold_links [where f = links])
  show "links (failAll err r) = links r" using 2 by (simp add: failAll_def Let_def fold_links [where f = links])
qed

lemma read_events_links: "links (fst (fold read_event evs x)) = links (fst x)"
proof -
  have "links (fst (read_event ev y)) = links (fst y)" for ev y
    by (cases y) (simp add: read_event_def split: event.split option.split)
  then show ?thesis by (rule fold_links [where f = "\<lambda>x. links (fst x)"])
qed

text \<open>\<open>settles hx j c c'\<close>: draining the core's events and applying what is committed, if the state was free, takes \<open>c\<close> to \<open>c'\<close>.\<close>

definition settles :: "hashes \<Rightarrow> command_json \<Rightarrow> core \<Rightarrow> core \<Rightarrow> bool" where
  "settles hx j c c' \<longleftrightarrow> c' = fst (core_Events c) \<or> (\<exists>as. ApplyCommitted hx j (fst (core_Events c)) = Some (c', as))"

lemma after_links:
  assumes "after hx j ab free outs r = Some r'"
  shows "settles hx j (rn_core r) (rn_core r') \<and> rn_sent r' = rn_sent r @ outs"
proof -
  define r1 where "r1 = r\<lparr>rn_sent := rn_sent r @ outs\<rparr>"
  obtain c evs where ev: "core_Events (rn_core r1) = (c, evs)" by fastforce
  obtain r2 failed where e: "fold read_event evs (r1\<lparr>rn_core := c\<rparr>, []) = (r2, failed)" by fastforce
  obtain r3 as where ap: "applyCommitted hx j free r2 = Some (r3, as)"
    using assms by (auto simp: after_def Let_def r1_def [symmetric] ev e split: option.splits)
  have "links r' = links r3"
    using assms unfolding after_def Let_def r1_def [symmetric] ev e prod.case ap option.case
    by (auto simp: split_def)
  moreover have "links r2 = (c, rn_sent r @ outs)"
    using read_events_links [of evs "(r1\<lparr>rn_core := c\<rparr>, [])"] unfolding e by (simp add: links_def r1_def)
  moreover have "c = fst (core_Events (rn_core r))" using ev by (simp add: r1_def)
  ultimately have l: "rn_core r' = rn_core r3" "rn_sent r' = rn_sent r3" "rn_core r2 = fst (core_Events (rn_core r))"
      "rn_sent r2 = rn_sent r @ outs" by (simp_all add: links_def)
  from ap show ?thesis by (cases rule: applyCommitted_cases) (auto simp: l settles_def)
qed

text \<open>The call of \<^verbatim>\<open>core.go\<close> that an event makes.\<close>

definition event_call :: "hashes \<Rightarrow> (nat \<Rightarrow> bool) \<Rightarrow> run_event \<Rightarrow> runner \<Rightarrow> core_call option" where
  "event_call hx ab ev r =
     (case ev of
        Inbox e \<Rightarrow> Some (CoreStep e)
      | Ticker \<Rightarrow> Some CoreTick
      | Submits i cmd \<Rightarrow> if ab i \<or> State_Replay hx cmd (co_state (rn_core r)) \<noteq> None then None else Some (CoreSubmit cmd)
      | Reads i \<Rightarrow> if ab i then None else Some CoreRead
      | _ \<Rightarrow> None)"

definition called :: "command_json \<Rightarrow> int \<Rightarrow> core_call option \<Rightarrow> core \<Rightarrow> core \<times> envelope list" where
  "called j now call c = (case call of None \<Rightarrow> (c, []) | Some cc \<Rightarrow> core_run j now cc c)"

text \<open>An event makes its call and settles, or it leaves the core alone.\<close>

definition moves :: "hashes \<Rightarrow> command_json \<Rightarrow> int \<Rightarrow> core_call option \<Rightarrow> runner \<Rightarrow> runner \<Rightarrow> bool" where
  "moves hx j now call r r' \<longleftrightarrow> links r' = links r \<or>
     (case called j now call (rn_core r) of (c, outs) \<Rightarrow> settles hx j c (rn_core r') \<and> rn_sent r' = rn_sent r @ outs)"

lemma after_moves:
  assumes "after hx j ab free outs r1 = Some r'" and "called j now call (rn_core r) = (rn_core r1, outs)" and "rn_sent r1 = rn_sent r"
  shows "moves hx j now call r r'"
  using after_links [OF assms(1)] assms(2,3) by (simp add: moves_def)

lemma handle_event_moves:
  assumes "handle_event hx j ab free now ev r = Some r'"
  shows "moves hx j now (event_call hx ab ev r) r r'"
proof (cases ev)
  case Done
  then show ?thesis using assms by (simp add: handle_event_def moves_def)
next
  case (Inbox e)
  then show ?thesis using assms
    by (auto simp: handle_event_def event_call_def called_def core_run_def split: prod.splits intro!: after_moves)
next
  case Ticker
  have "links (sweepAbandoned ab r) = links r" by simp
  then have s: "rn_core (sweepAbandoned ab r) = rn_core r" "rn_sent (sweepAbandoned ab r) = rn_sent r" unfolding links_def by simp_all
  show ?thesis using assms
    by (auto simp: Ticker s handle_event_def event_call_def called_def core_run_def split: prod.splits intro!: after_moves)
next
  case (Submits i cmd)
  show ?thesis
  proof (cases "ab i \<or> State_Replay hx cmd (co_state (rn_core r)) \<noteq> None")
    case True
    then show ?thesis using assms by (auto simp: Submits handle_event_def handleSubmit_def moves_def split: if_splits)
  next
    case False
    then show ?thesis using assms
      by (auto simp: Submits handle_event_def handleSubmit_def event_call_def called_def core_run_def submit_reply_def Let_def
          split: prod.splits option.splits intro!: after_moves)
  qed
next
  case (Reads i)
  show ?thesis
  proof (cases "ab i")
    case True
    then show ?thesis using assms by (simp add: Reads handle_event_def handleRead_def moves_def)
  next
    case False
    then show ?thesis using assms
      by (auto simp: Reads handle_event_def handleRead_def event_call_def called_def core_run_def read_reply_def
          split: prod.splits sum.splits intro!: after_moves)
  qed
next
  case Kick
  then show ?thesis using assms by (auto simp: handle_event_def event_call_def called_def intro!: after_moves)
qed

lemma run_iteration_moves:
  assumes "run_iteration hx j ab free now ev r = Some (r', stopped)"
  shows "moves hx j now (event_call hx ab ev r) r r'"
proof (cases "ev = Done")
  case True
  then show ?thesis using assms by (auto simp: run_iteration_def moves_def)
next
  case False
  then obtain r1 where r1: "handle_event hx j ab free now ev r = Some r1" "links r' = links r1"
    using assms by (auto simp: run_iteration_def split: if_splits)
  from handle_event_moves [OF r1(1)] r1(2) show ?thesis by (simp add: moves_def links_def)
qed

lemma run_start_moves:
  assumes "run_start hx j ab free now c = Some r"
  shows "\<exists>c1 outs. core_Tick now c = (c1, outs) \<and> settles hx j c1 (rn_core r) \<and> rn_sent r = outs"
proof -
  obtain c1 outs where t: "core_Tick now c = (c1, outs)" by fastforce
  then have "after hx j ab free outs ((NewRunner c)\<lparr>rn_core := c1\<rparr>) = Some r" using assms by (simp add: run_start_def)
  from after_links [OF this] t show ?thesis by (simp add: NewRunner_def)
qed

section \<open>Every step is a sequence of steps of the cores\<close>

lemma cores_sel [simp]:
  "cl_members (rs_cl (cores S)) = sv_members S" "cl_net (rs_cl (cores S)) = sv_net S"
  "rs_states (cores S) i = co_state (sv_core S i)" "i \<in> set (sv_members S) \<Longrightarrow> core_at (cores S) i = env_core [] [] (sv_core S i)"
  "i \<in> set (sv_members S) \<Longrightarrow> cl_nodes (rs_cl (cores S)) i = with_env [] [] (co_log (sv_core S i))"
  by (simp_all add: cores_def core_at_def env_core_def)

lemma env_env [simp]: "env_core s r (env_core s' r' c) = env_core s r c" "rn_core (env_run s r x) = env_core s r (rn_core x)"
    "rn_sent (env_run s r x) = rn_sent x" "co_state (env_core s r c) = co_state c"
  by (simp_all add: env_core_def with_env_def env_run_def)

lemma put_core_sel [simp]:
  "core_at (put_core S i x) i = fst x" "put_core (put_core S i x) i y = put_core S i (fst y, snd x @ snd y)"
  "cl_members (rs_cl (put_core S i x)) = cl_members (rs_cl S)"
  by (simp_all add: core_at_def put_core_def deliver_def Un_assoc)

lemma put_core_same: "put_core S i (core_at S i, []) = S"
  by (simp add: put_core_def core_at_def)

lemma cores_upd: "i \<in> set (sv_members S) \<Longrightarrow> cores (seat_upd S i s outs) = put_core (cores S) i (env_core [] [] (rn_core (se_runner s)), outs)"
  by (auto simp: cores_def seat_upd_def put_core_def deliver_def env_core_def)

lemma env_Events: "fst (core_Events (env_core s r c)) = env_core s r (fst (core_Events c))"
  by (simp add: core_Events_def env_core_def with_env_def LogNode.Events_def)

lemma env_ApplyNext: "ApplyNext hx j c = Some (c', x) \<Longrightarrow> ApplyNext hx j (env_core s r c) = Some (env_core s r c', x)"
  by (auto simp: ApplyNext_def env_core_def with_env_def Let_def node_Chosen_def core_Skip_def
      split: if_splits option.splits sum.splits)

definition applies :: "hashes \<Rightarrow> command_json \<Rightarrow> core \<Rightarrow> core \<Rightarrow> bool" where
  "applies hx j c c' \<longleftrightarrow> (\<exists>x. ApplyNext hx j c = Some (c', x))"

lemma apply_loop_nexts: "apply_loop hx j out c = Some y \<Longrightarrow> (applies hx j)\<^sup>*\<^sup>* c (fst y)"
proof (rule apply_loop.raw_induct [where P = "\<lambda>hx j out c y. (applies hx j)\<^sup>*\<^sup>* c (fst y)"])
  fix f hx j out c y
  assume ih: "\<And>hx j out c y. f hx j out c = Some y \<Longrightarrow> (applies hx j)\<^sup>*\<^sup>* c (fst y)"
    and y: "(case ApplyNext hx j c of None \<Rightarrow> None
      | Some cx \<Rightarrow> (case snd cx of None \<Rightarrow> Some (fst cx, out) | Some a \<Rightarrow> f hx j (out @ [a]) (fst cx))) = Some y"
  from y obtain c1 x where n: "ApplyNext hx j c = Some (c1, x)" by (auto split: option.splits)
  then have "applies hx j c c1" by (auto simp: applies_def)
  moreover have "(applies hx j)\<^sup>*\<^sup>* c1 (fst y)" using y n ih by (cases x) auto
  ultimately show "(applies hx j)\<^sup>*\<^sup>* c (fst y)" by (rule converse_rtranclp_into_rtranclp)
qed

lemma nexts_steps:
  assumes "(applies hx j)\<^sup>*\<^sup>* c c'" and "i \<in> set (cl_members (rs_cl S))"
  shows "(rs_step hx j)\<^sup>*\<^sup>* (put_core S i (env_core s r c, outs)) (put_core S i (env_core s r c', outs))"
  using assms(1)
proof (induction rule: rtranclp_induct)
  case (step y z)
  then obtain x where "ApplyNext hx j (env_core s r y) = Some (env_core s r z, x)" using env_ApplyNext by (auto simp: applies_def)
  then have "rs_step hx j (put_core S i (env_core s r y, outs)) (put_core S i (env_core s r z, outs))"
    using rs_step.apply_next [of i "put_core S i (env_core s r y, outs)" hx j "env_core s r z" x] assms(2) by simp
  with step.IH show ?case by simp
qed simp

lemma settles_steps:
  assumes "settles hx j c c'" and "i \<in> set (cl_members (rs_cl S))" and c: "env_core [] [] c0 = env_core [] [] c"
  shows "(rs_step hx j)\<^sup>*\<^sup>* (put_core S i (c0, outs)) (put_core S i (env_core [] [] c', outs))"
proof -
  let ?S = "put_core S i (c0, outs)" and ?c = "fst (core_Events c)"
  have "rs_step hx j ?S (put_core ?S i (core_run j 0 CoreEvents (env_core [] [] (core_at ?S i))))"
    by (rule rs_step.call [where lc = CallEvents]) (simp_all add: log_call_of_def may_call_def assms(2))
  then have 1: "rs_step hx j ?S (put_core S i (env_core [] [] ?c, outs))" by (simp add: core_run_def env_Events c)
  have "(applies hx j)\<^sup>*\<^sup>* ?c c'"
    using assms(1) apply_loop_nexts unfolding settles_def ApplyCommitted_def by fastforce
  from nexts_steps [OF this assms(2)] 1 show ?thesis by (rule converse_rtranclp_into_rtranclp [rotated])
qed

lemma called_steps:
  assumes "may_take S i ev" and "call = event_call hx ab ev r \<or> ev = Ticker \<and> call = Some CoreTick"
    and "called j now call (env_core saves rands (sv_core S i)) = (c, outs)" and "settles hx j c c'"
  shows "(rs_step hx j)\<^sup>*\<^sup>* (cores S) (put_core (cores S) i (env_core [] [] c', outs))"
proof (cases "Option.bind call (log_call_of j)")
  case None
  then have co: "c = env_core saves rands (sv_core S i)" "outs = []"
    using assms(3) core_run_refused by (auto simp: called_def split: option.splits)
  from settles_steps [OF assms(4), of i "cores S" "core_at (cores S) i" "[]"] assms(1) co(1) show ?thesis
    using put_core_same [of "cores S" i] co(2) by (simp add: may_take_def)
next
  case (Some lc)
  then obtain cc where cc: "call = Some cc" "log_call_of j cc = Some lc" by (auto simp: bind_eq_Some_conv)
  have m: "may_call (rs_cl (cores S)) i lc"
    using assms(1,2) cc
    by (auto simp: may_take_def may_call_def event_call_def log_call_of_def split: run_event.splits core_call.splits if_splits sum.splits)
  have "rs_step hx j (cores S) (put_core (cores S) i (c, outs))"
    using rs_step.call [OF cc(2) m, of hx now saves rands] assms(1,3) by (simp add: called_def cc(1) may_take_def)
  moreover have "(rs_step hx j)\<^sup>*\<^sup>* (put_core (cores S) i (c, outs)) (put_core (cores S) i (env_core [] [] c', outs))"
    by (rule settles_steps [OF assms(4) _ refl]) (use assms(1) in \<open>simp add: may_take_def\<close>)
  ultimately show ?thesis by (rule converse_rtranclp_into_rtranclp)
qed

lemma New_env: "New cfg store = Inr n \<Longrightarrow> with_env [] [] n = n"
proof -
  have a: "nd_saves (advance k m) = nd_saves m \<and> nd_rands (advance k m) = nd_rands m" for k m
    by (induction k m rule: advance.induct) simp_all
  have e: "with_env [] [] m = m" if "nd_saves m = []" "nd_rands m = []" for m using that by (simp add: with_env_def)
  show "New cfg store = Inr n \<Longrightarrow> with_env [] [] n = n"
    by (auto simp: New_def Let_def advanceCommit_def a intro!: e split: option.splits if_splits)
qed

lemma NewCore_env: "NewCore cfg store = Inr c \<Longrightarrow> env_core [] [] c = c"
  by (cases "New cfg store") (auto simp: NewCore_def env_core_def dest: New_env)

lemma sv_step_steps: "sv_step hx j S S' \<Longrightarrow> (rs_step hx j)\<^sup>*\<^sup>* (cores S) (cores S')"
proof (induction rule: sv_step.induct)
  case (event S i ev r saves rands ab free now r' stopped)
  have r': "se_runner (took ev r' stopped (sv_seat S i)) = r'" by (simp add: took_def)
  have i: "i \<in> set (sv_members S)" using event(2) by (simp add: may_take_def)
  have c: "rn_core r = env_core saves rands (sv_core S i)" using event(3) by simp
  have "links r' = links r \<or> (\<exists>c outs. called j now (event_call hx ab ev r) (rn_core r) = (c, outs) \<and> settles hx j c (rn_core r') \<and>
      rn_sent r' = rn_sent r @ outs)"
    using run_iteration_moves [OF event(4)] by (auto simp: moves_def)
  then show ?case
  proof (elim disjE exE conjE)
    assume "links r' = links r"
    then have "env_core [] [] (rn_core r') = core_at (cores S) i" "new_mail r r' = []"
      using c i by (simp_all add: links_def new_mail_def)
    then show ?thesis unfolding cores_upd [OF i] r' using put_core_same [of "cores S" i] by simp
  next
    fix c' outs assume a: "called j now (event_call hx ab ev r) (rn_core r) = (c', outs)" "settles hx j c' (rn_core r')"
      "rn_sent r' = rn_sent r @ outs"
    have "new_mail r r' = outs" using a(3) by (simp add: new_mail_def)
    then show ?thesis unfolding cores_upd [OF i] r' using called_steps [OF event(2) _ a(1) [unfolded c] a(2)] by blast
  qed
next
  case (start i S c ab free now saves rands r)
  let ?S = "seat_upd S i (started (NewRunner c)) []"
  have "rs_step hx j (cores S) (put_core (cores S) i (c, []))"
    by (rule rs_step.restart) (use start(1,2) in \<open>simp_all add: with_env_def\<close>)
  then have 1: "rs_step hx j (cores S) (cores ?S)"
    using NewCore_env [OF start(2)] by (simp add: cores_upd [OF start(1)] started_def NewRunner_def)
  have c: "sv_core ?S i = c" by (simp add: seat_upd_def started_def NewRunner_def)
  obtain c1 outs where t: "core_Tick now (env_core saves rands c) = (c1, outs)" "settles hx j c1 (rn_core r)" "rn_sent r = outs"
    using run_start_moves [OF start(4)] by blast
  have "called j now (Some CoreTick) (env_core saves rands (sv_core ?S i)) = (c1, outs)"
    unfolding c using t(1) by (simp add: called_def core_run_def)
  from called_steps [OF start(3) _ this t(2)] have "(rs_step hx j)\<^sup>*\<^sup>* (cores ?S) (put_core (cores ?S) i (env_core [] [] (rn_core r), outs))" by blast
  moreover have "put_core (cores ?S) i (env_core [] [] (rn_core r), outs) = cores (seat_upd S i (started r) (rn_sent r))"
    unfolding cores_upd [OF start(1)] by (simp add: t(3) started_def)
  ultimately show ?case using 1 by (metis converse_rtranclp_into_rtranclp)
qed

lemma sv_steps_steps: "(sv_step hx j)\<^sup>*\<^sup>* S S' \<Longrightarrow> (rs_step hx j)\<^sup>*\<^sup>* (cores S) (cores S')"
  by (induction rule: rtranclp_induct) (auto dest: sv_step_steps)

lemma cores_init:
  assumes "configured P cfg"
  shows "rs_inv hx j (cores (sv_init P cfg)) \<and> sv_members (sv_init P cfg) = P"
proof -
  have "rs_inv hx j (rs_init P cfg)" by (rule rs_init_inv [OF assms])
  moreover have "with_env [] [] (projr (New (cfg i) [])) = projr (New (cfg i) [])" if "i \<in> set P" for i
    using New_ready [of "cfg i" "[]"] assms that by (intro New_env) (auto simp: configured_def)
  then have "cores (sv_init P cfg) = rs_init P cfg"
    by (auto simp: cores_def rs_init_def cl_init_def sv_init_def NewRunner_def)
  ultimately show ?thesis by (simp add: sv_init_def)
qed

section \<open>Every seat holds a run of the loop\<close>

definition seat_ok :: "hashes \<Rightarrow> command_json \<Rightarrow> seat \<Rightarrow> bool" where
  "seat_ok hx j s \<longleftrightarrow> (\<exists>c gone. runner_reach hx j c (se_subs s) (se_reads s) gone (se_runner s) (\<not> se_up s)) \<or>
     \<not> se_up s \<and> rn_submitReplies (se_runner s) = []"

lemma sv_step_seats:
  assumes "sv_step hx j S S'" and "\<forall>i. seat_ok hx j (sv_seat S i)"
  shows "\<forall>i. seat_ok hx j (sv_seat S' i)"
  using assms
proof (induction rule: sv_step.induct)
  case (event S i ev r saves rands ab free now r' stopped)
  have "seat_ok hx j (sv_seat S i)" using event.prems by blast
  with event(1) obtain c gone where
      "runner_reach hx j c (se_subs (sv_seat S i)) (se_reads (sv_seat S i)) gone (se_runner (sv_seat S i)) False"
    by (auto simp: seat_ok_def)
  from runner_reach.event [OF this event(4,5) [unfolded event(3)] event(6,7)]
  have "seat_ok hx j (took ev r' stopped (sv_seat S i))" by (auto simp: seat_ok_def took_def)
  then show ?case using event.prems by (simp add: seat_upd_def)
next
  case (start i S c ab free now saves rands r)
  have "seat_ok hx j (started r)" using runner_reach.start [OF start(4,5)] by (auto simp: seat_ok_def started_def)
  then show ?case using start.prems by (simp add: seat_upd_def)
qed

lemma sv_steps_seats: "(sv_step hx j)\<^sup>*\<^sup>* S S' \<Longrightarrow> \<forall>i. seat_ok hx j (sv_seat S i) \<Longrightarrow> seat_ok hx j (sv_seat S' a)"
proof (induction arbitrary: a rule: rtranclp_induct)
  case (step y z)
  then show ?case using sv_step_seats by blast
qed simp

lemma init_seats: "seat_ok hx j (sv_seat (sv_init P cfg) i)"
  by (simp add: seat_ok_def sv_init_def NewRunner_def)

text \<open>What the replica \<open>a\<close> has answered to the command \<open>cmd\<close> since it was last started.\<close>

definition answered :: "service \<Rightarrow> node_id \<Rightarrow> command \<Rightarrow> result \<Rightarrow> bool" where
  "answered S a cmd res \<longleftrightarrow>
     (\<exists>i. (i, cmd) \<in> set (se_subs (sv_seat S a)) \<and> (i, Answer res) \<in> set (rn_submitReplies (se_runner (sv_seat S a))))"

lemma answered_answers:
  assumes "answered S a cmd res" and "seat_ok hx j (sv_seat S a)" and "json_known j"
  shows "answers hx (co_state (sv_core S a)) cmd res"
proof -
  let ?s = "sv_seat S a"
  obtain i where i: "(i, cmd) \<in> set (se_subs ?s)" "(i, Answer res) \<in> set (rn_submitReplies (se_runner ?s))"
    using assms(1) by (auto simp: answered_def)
  then obtain c gone where "runner_reach hx j c (se_subs ?s) (se_reads ?s) gone (se_runner ?s) (\<not> se_up ?s)"
    using assms(2) by (auto simp: seat_ok_def)
  then have ok: "run_ok hx (se_subs ?s) (se_reads ?s) gone (se_runner ?s) (\<not> se_up ?s)" by (rule reach_ok [OF _ assms(3)])
  then have "map_of (se_subs ?s) i = Some cmd" using i(1) by (simp add: run_ok_def)
  then show ?thesis using ok i(2) by (auto simp: run_ok_def rn_inv_def list_all_iff reply_ok_def)
qed

text \<open>Both answers are read off one state: that of the replica that has applied more.\<close>

lemma answers_meet:
  assumes "cl_inv idle w" and "traces hx j w s" and "traces hx j w t" and "answers hx s cmd res" and "answers hx t cmd' res'"
  obtains u where "answers hx u cmd res" "answers hx u cmd' res'"
proof (cases "ts_applied s \<le> ts_applied t")
  case True
  then show thesis using that [OF answers_kept [OF traces_results [OF assms(1-3)] assms(4)] assms(5)] by blast
next
  case False
  then show thesis using that [OF assms(4) answers_kept [OF traces_results [OF assms(1,3,2)] assms(5)]] by simp
qed

lemma answers_once:
  assumes "answers hx u cmd res" and "answers hx u cmd' res'" and "cm_Key cmd = cm_Key cmd'"
  shows "if Fingerprint (hx_fp hx) cmd = Fingerprint (hx_fp hx) cmd'
    then res\<lparr>re_Replayed := True\<rparr> = res'\<lparr>re_Replayed := True\<rparr> \<or> re_Code res = KeyReused \<and> re_Code res' = KeyReused
    else re_Code res = KeyReused \<or> re_Code res' = KeyReused"
  using assms by (auto simp: answers_def split: option.splits if_splits)

section \<open>A run\<close>

text \<open>Runs in which every save succeeds and every draw is zero, as a function; \<open>None\<close> instead of an event starts the replica.\<close>

definition sv_act :: "hashes \<Rightarrow> command_json \<Rightarrow> node_id \<Rightarrow> int \<Rightarrow> run_event option \<Rightarrow> service \<Rightarrow> service option" where
  "sv_act hx j i now act S =
     (case act of
        Some ev \<Rightarrow>
          (let r = env_run [] [] (se_runner (sv_seat S i))
           in if se_up (sv_seat S i) \<and> may_take S i ev \<and> in_slots (event_core j now ev (rn_core r)) \<and>
                 set (map fst (new_subs ev)) \<inter> set (map fst (se_subs (sv_seat S i))) = {} \<and>
                 set (new_reads ev) \<inter> set (se_reads (sv_seat S i)) = {}
              then (case run_iteration hx j (\<lambda>_. False) True now ev r of
                      None \<Rightarrow> None
                    | Some (r', stopped) \<Rightarrow> Some (seat_upd S i (took ev r' stopped (sv_seat S i)) (new_mail r r')))
              else None)
      | None \<Rightarrow>
          (case NewCore (nd_cfg (co_log (sv_core S i))) (nd_store (co_log (sv_core S i))) of
             Inl _ \<Rightarrow> None
           | Inr c \<Rightarrow>
               if i \<in> set (sv_members S) \<and> may_take (seat_upd S i (started (NewRunner c)) []) i Ticker \<and>
                  in_slots (fst (core_Tick now (env_core [] [] c)))
               then map_option (\<lambda>r. seat_upd S i (started r) (rn_sent r)) (run_start hx j (\<lambda>_. False) True now (env_core [] [] c))
               else None))"

fun sv_run :: "hashes \<Rightarrow> command_json \<Rightarrow> (node_id \<times> int \<times> run_event option) list \<Rightarrow> service \<Rightarrow> service option" where
  "sv_run hx j [] S = Some S"
| "sv_run hx j ((i, now, act) # as) S = (case sv_act hx j i now act S of None \<Rightarrow> None | Some S1 \<Rightarrow> sv_run hx j as S1)"

lemma sv_act_step: "sv_act hx j i now act S = Some S' \<Longrightarrow> sv_step hx j S S'"
proof (cases act)
  case (Some ev)
  assume "sv_act hx j i now act S = Some S'"
  with Some show ?thesis
    by (auto simp: sv_act_def Let_def split: option.splits if_splits intro!: sv_step.event [OF _ _ refl])
next
  case None
  assume "sv_act hx j i now act S = Some S'"
  with None show ?thesis by (auto simp: sv_act_def split: sum.splits if_splits intro!: sv_step.start)
qed

lemma sv_run_steps: "sv_run hx j as S = Some S' \<Longrightarrow> (sv_step hx j)\<^sup>*\<^sup>* S S'"
proof (induction hx j as S rule: sv_run.induct)
  case (2 hx j i now act as S)
  then obtain S1 where s: "sv_act hx j i now act S = Some S1" "sv_run hx j as S1 = Some S'" by (auto split: option.splits)
  from sv_act_step [OF s(1)] "2.IH" [OF s] show ?case by (rule converse_rtranclp_into_rtranclp)
qed simp

text \<open>Both replicas start, replica 1 is elected and answers request 7, which creates a tournament. Replica 2 learns
  the two slots, is stopped and started again, and answers the same command, sent to it as request 3.\<close>

definition letter :: "node_id \<Rightarrow> node_id \<Rightarrow> message \<Rightarrow> run_event option" where
  "letter from to m = Some (Inbox \<lparr>nv_From = from, nv_To = to, nv_Msg = m\<rparr>)"

definition serving :: "(node_id \<times> int \<times> run_event option) list" where
  "serving =
     (let b = Ballot 1 1; t = 1000000000; v = ''create_tournament''
      in [(1, 0, None), (2, 0, None), (1, t, Some Ticker), (2, 1, letter 1 2 (Prepare b 1)),
          (1, t, letter 2 1 (Promise \<lparr>pm_Ballot = b, pm_Accepted = [], pm_CommitIndex = 0\<rparr>)),
          (1, t, Some (Submits 7 create_cmd)), (2, 1, letter 1 2 (Accept b 1 [])), (2, 1, letter 1 2 (Accept b 2 v)),
          (1, t, letter 2 1 (Accepted b 2)), (1, t, letter 2 1 (Accepted b 1)),
          (2, 2, letter 1 2 (Learn 2 b v)), (2, 3, letter 1 2 (Learn 1 b [])), (2, 3, Some Done), (2, 4, None),
          (2, 5, Some (Submits 3 create_cmd))])"

definition served :: service where
  "served = the (sv_run plain_hashes sample_json serving (sv_init [1, 2] pair_cfg))"

definition seat_view :: "service \<Rightarrow> node_id \<Rightarrow> (nat \<times> command) list \<times> (nat \<times> (code \<times> bool) option) list" where
  "seat_view S a = (se_subs (sv_seat S a), reply_codes (se_runner (sv_seat S a)))"

lemma sv_init_code [code]:
  "sv_init P cfg =
     \<lparr>sv_members = P,
      sv_seat = fold (\<lambda>i f. f(i := f i)) P
        (\<lambda>i. \<lparr>se_runner = NewRunner \<lparr>co_log = projr (New (cfg i) []), co_state = NewState\<rparr>, se_subs = [], se_reads = [], se_up = False\<rparr>),
      sv_net = {}\<rparr>"
proof -
  have "fold (\<lambda>i f. f(i := f i)) P f = f" for f :: "node_id \<Rightarrow> seat" by (rule fold_links [where f = id, simplified]) simp
  then show ?thesis by (simp add: sv_init_def)
qed

lemma serving_ran:
  "map_option (\<lambda>S. (seat_view S 1, seat_view S 2)) (sv_run plain_hashes sample_json serving (sv_init [1, 2] pair_cfg)) =
   Some (([(7, create_cmd)], [(7, Some (OK, False))]), ([(3, create_cmd)], [(3, Some (OK, True))]))"
  by code_simp

lemma served_run: "(sv_step plain_hashes sample_json)\<^sup>*\<^sup>* (sv_init [1, 2] pair_cfg) served"
proof -
  obtain S where "sv_run plain_hashes sample_json serving (sv_init [1, 2] pair_cfg) = Some S" using serving_ran by auto
  then show ?thesis using sv_run_steps by (simp add: served_def)
qed

lemma reply_code_answer: "(i, Some y) \<in> set (reply_codes r) \<Longrightarrow> \<exists>res. (i, Answer res) \<in> set (rn_submitReplies r) \<and> (re_Code res, re_Replayed res) = y"
  by (auto simp: reply_codes_def split: submitReply.splits)

lemma served_answers:
  "\<exists>res. answered served 1 create_cmd res \<and> re_Code res = OK \<and> \<not> re_Replayed res"
  "\<exists>res. answered served 2 create_cmd res \<and> re_Code res = OK \<and> re_Replayed res"
proof -
  have "seat_view served 1 = ([(7, create_cmd)], [(7, Some (OK, False))])" "seat_view served 2 = ([(3, create_cmd)], [(3, Some (OK, True))])"
    using serving_ran unfolding served_def by auto
  then have s: "se_subs (sv_seat served 1) = [(7, create_cmd)]" "(7, Some (OK, False)) \<in> set (reply_codes (se_runner (sv_seat served 1)))"
    "se_subs (sv_seat served 2) = [(3, create_cmd)]" "(3, Some (OK, True)) \<in> set (reply_codes (se_runner (sv_seat served 2)))"
    by (simp_all add: seat_view_def)
  show "\<exists>res. answered served 1 create_cmd res \<and> re_Code res = OK \<and> \<not> re_Replayed res"
    using reply_code_answer [OF s(2)] s(1) unfolding answered_def by force
  show "\<exists>res. answered served 2 create_cmd res \<and> re_Code res = OK \<and> re_Replayed res"
    using reply_code_answer [OF s(4)] s(3) unfolding answered_def by force
qed

section \<open>What clients can rely on\<close>

text \<open>
  C4. A command takes effect once in the whole service, and every client is told the same. Whichever replicas two
  submits with the same idempotency key are sent to, before or after restarts, lost messages, failed saves and changes
  of the leader: if both are answered and have the same fingerprint, the two results are equal up to the replay flag,
  or both are told that the key was used for another request; if their fingerprints differ, one of them is told so.
  Refusals, which carry no result, are not answers.
\<close>

theorem service_answers_agree:
  assumes "configured P cfg" and "json_known j" and "(sv_step hx j)\<^sup>*\<^sup>* (sv_init P cfg) S" and "(sv_step hx j)\<^sup>*\<^sup>* S S'"
    and "a \<in> set P" and "c \<in> set P" and "answered S a cmd res" and "answered S' c cmd' res'" and "cm_Key cmd = cm_Key cmd'"
  shows "if Fingerprint (hx_fp hx) cmd = Fingerprint (hx_fp hx) cmd'
    then res\<lparr>re_Replayed := True\<rparr> = res'\<lparr>re_Replayed := True\<rparr> \<or> re_Code res = KeyReused \<and> re_Code res' = KeyReused
    else re_Code res = KeyReused \<or> re_Code res' = KeyReused"
proof -
  note z = cores_init [OF assms(1), of hx j]
  note i = rs_steps_inv [OF sv_steps_steps [OF assms(3)] conjunct1 [OF z]]
  note k = rs_steps_inv [OF sv_steps_steps [OF assms(4)] conjunct1 [OF i]]
  have P: "sv_members S = P" "sv_members S' = P" using z i k by simp_all
  have 1: "traces hx j (rs_cl (cores S')) (co_state (sv_core S a))"
    using traces_mono [of "rs_cl (cores S)" "rs_cl (cores S')"] rs_invD(2) [OF conjunct1 [OF i], of a] k P(1) assms(5) by simp
  have 2: "traces hx j (rs_cl (cores S')) (co_state (sv_core S' c))"
    using rs_invD(2) [OF conjunct1 [OF k], of c] P(2) assms(6) by simp
  have w: "cl_inv idle (rs_cl (cores S'))" using rs_invD(1) [OF conjunct1 [OF k]] by (simp add: quiet_inv_def)
  have s: "seat_ok hx j (sv_seat S a)" for a using sv_steps_seats [OF assms(3)] init_seats by blast
  have s': "seat_ok hx j (sv_seat S' c)" using sv_steps_seats [OF assms(4)] s by blast
  obtain u where "answers hx u cmd res" "answers hx u cmd' res'"
    using answers_meet [OF w 1 2 answered_answers [OF assms(7) s assms(2)] answered_answers [OF assms(8) s' assms(2)]] .
  from answers_once [OF this assms(9)] show ?thesis .
qed

theorem service_answers_agree_witness:
  "\<exists>res res'. answered served 1 create_cmd res \<and> answered served 2 create_cmd res' \<and> re_Code res = OK \<and>
     res' \<noteq> res \<and> res' = res\<lparr>re_Replayed := True\<rparr>"
proof -
  obtain res res' where r: "answered served 1 create_cmd res" "re_Code res = OK" "\<not> re_Replayed res"
      "answered served 2 create_cmd res'" "re_Code res' = OK" "re_Replayed res'" using served_answers by blast
  have "res\<lparr>re_Replayed := True\<rparr> = res'\<lparr>re_Replayed := True\<rparr>"
    using service_answers_agree [OF pair_configured sample_json_known served_run rtranclp.rtrancl_refl _ _ r(1) r(4)] r(2) by simp
  moreover have "res'\<lparr>re_Replayed := True\<rparr> = res'" using r(6) by simp
  ultimately show ?thesis using r by metis
qed

end
