(* ===== verification/Limiter.thy ===== *)
theory Limiter
  imports Prelude
begin

text \<open>
  Package \<^verbatim>\<open>internal/intent\<close>, \<^verbatim>\<open>limit.go\<close>: the rate limiter of the play routes. A \<^verbatim>\<open>time.Time\<close> is an integer
  number of nanoseconds, a \<^verbatim>\<open>time.Duration\<close> a 64-bit integer; \<^verbatim>\<open>Time.Sub\<close> saturates. The mutex is left out:
  every call holds it for its whole body.

  The limiter keeps one arrival time per key and forgets the keys that have nothing left to wait for. It is shown
  equal to token buckets that are refilled continuously and never forgotten.
\<close>

section \<open>The code\<close>

record rate =
  rt_Every :: int
  rt_Burst :: int

record limiter =
  lm_rate :: rate
  lm_tat :: "(string, int) fmap"

definition limiterSweepAt :: nat where
  "limiterSweepAt = 4096"

definition newLimiter :: "rate \<Rightarrow> limiter" where
  "newLimiter r = \<lparr>lm_rate = r, lm_tat = fmempty\<rparr>"

definition time_Sub :: "int \<Rightarrow> int \<Rightarrow> int" where
  "time_Sub t u = max (- (2 ^ 63)) (min (2 ^ 63 - 1) (t - u))"

definition allow :: "string \<Rightarrow> int \<Rightarrow> limiter \<Rightarrow> limiter \<times> int \<times> bool" where
  "allow key now l =
     (if rt_Burst (lm_rate l) < 0 \<or> rt_Every (lm_rate l) \<le> 0 then (l, 0, True)
      else
        (let burst = (if rt_Burst (lm_rate l) = 0 then 1 else rt_Burst (lm_rate l));
             ok = fmlookup (lm_tat l) key \<noteq> None;
             tat = (case fmlookup (lm_tat l) key of None \<Rightarrow> now | Some t \<Rightarrow> if t < now then now else t);
             tolerance = s64 ((burst - 1) * rt_Every (lm_rate l));
             wait = s64 (time_Sub tat now - tolerance)
         in if wait > 0 then (l, wait, False)
            else
              (let kept = (if \<not> ok \<and> fmsize (lm_tat l) \<ge> limiterSweepAt
                           then fmfilter (\<lambda>k. \<not> fmget (lm_tat l) now k \<le> now) (lm_tat l) else lm_tat l)
               in (l\<lparr>lm_tat := fmupd key (tat + rt_Every (lm_rate l)) kept\<rparr>, 0, True))))"

definition limiter_size :: "limiter \<Rightarrow> nat" where
  "limiter_size l = fmsize (lm_tat l)"

fun allow_all :: "(string \<times> int) list \<Rightarrow> limiter \<Rightarrow> (int \<times> bool) list" where
  "allow_all [] l = []"
| "allow_all (q # qs) l = (case allow (fst q) (snd q) l of (l', a) \<Rightarrow> a # allow_all qs l')"

section \<open>Token buckets\<close>

text \<open>
  The reference. A token is worth \<open>every\<close> nanoseconds of refill; a bucket holds at most \<open>cap\<close> of them and gains one per
  nanosecond. A request takes a token or is told how long the bucket needs to have one.
\<close>

record buckets =
  tb_clock :: int
  tb_level :: "string \<Rightarrow> int"

definition full_buckets :: "int \<Rightarrow> int \<Rightarrow> buckets" where
  "full_buckets cap now = \<lparr>tb_clock = now, tb_level = (\<lambda>_. cap)\<rparr>"

definition refill :: "int \<Rightarrow> int \<Rightarrow> buckets \<Rightarrow> buckets" where
  "refill cap now b = \<lparr>tb_clock = now, tb_level = (\<lambda>k. min cap (tb_level b k + (now - tb_clock b)))\<rparr>"

definition take_token :: "int \<Rightarrow> string \<Rightarrow> buckets \<Rightarrow> buckets \<times> int \<times> bool" where
  "take_token every key b =
     (if tb_level b key \<ge> every then (b\<lparr>tb_level := (tb_level b)(key := tb_level b key - every)\<rparr>, 0, True)
      else (b, every - tb_level b key, False))"

definition bucket_allow :: "int \<Rightarrow> int \<Rightarrow> string \<Rightarrow> int \<Rightarrow> buckets \<Rightarrow> buckets \<times> int \<times> bool" where
  "bucket_allow cap every key now b = take_token every key (refill cap now b)"

fun bucket_all :: "int \<Rightarrow> int \<Rightarrow> (string \<times> int) list \<Rightarrow> buckets \<Rightarrow> (int \<times> bool) list" where
  "bucket_all cap every [] b = []"
| "bucket_all cap every (q # qs) b =
     (case bucket_allow cap every (fst q) (snd q) b of (b', a) \<Rightarrow> a # bucket_all cap every qs b')"

definition bursts :: "rate \<Rightarrow> int" where
  "bursts r = (if rt_Burst r = 0 then 1 else rt_Burst r)"

definition capacity :: "rate \<Rightarrow> int" where
  "capacity r = bursts r * rt_Every r"

definition limiting :: "rate \<Rightarrow> bool" where
  "limiting r \<longleftrightarrow> rt_Burst r \<ge> 0 \<and> rt_Every r > 0 \<and> in_s64 (capacity r)"

section \<open>The limiter keeps the buckets\<close>

definition owed :: "limiter \<Rightarrow> int \<Rightarrow> string \<Rightarrow> int" where
  "owed l now key = (case fmlookup (lm_tat l) key of None \<Rightarrow> 0 | Some t \<Rightarrow> max 0 (t - now))"

definition keeps :: "limiter \<Rightarrow> buckets \<Rightarrow> bool" where
  "keeps l b \<longleftrightarrow> (\<forall>k. tb_level b k = capacity (lm_rate l) - owed l (tb_clock b) k \<and> tb_level b k \<ge> 0)"

lemma keeps_levels: "keeps l b \<Longrightarrow> 0 \<le> tb_level b k"
  by (metis keeps_def)

lemma bursts_pos: "limiting r \<Longrightarrow> bursts r \<ge> 1"
  by (auto simp: limiting_def bursts_def)

lemma capacity_bounds:
  assumes "limiting r"
  shows "rt_Every r > 0" "rt_Every r \<le> capacity r" "capacity r < 2 ^ 63"
    "(bursts r - 1) * rt_Every r = capacity r - rt_Every r"
proof -
  show e: "rt_Every r > 0" using assms by (simp add: limiting_def)
  have "1 * rt_Every r \<le> bursts r * rt_Every r" using bursts_pos [OF assms] e by (intro mult_right_mono) auto
  then show "rt_Every r \<le> capacity r" by (simp add: capacity_def)
  show "capacity r < 2 ^ 63" using assms by (simp add: limiting_def in_s64_def)
  show "(bursts r - 1) * rt_Every r = capacity r - rt_Every r" by (simp add: capacity_def left_diff_distrib)
qed

lemma refill_owed:
  assumes "keeps l b" "tb_clock b \<le> now"
  shows "tb_level (refill (capacity (lm_rate l)) now b) k = capacity (lm_rate l) - owed l now k"
    and "0 \<le> owed l now k" and "owed l now k \<le> capacity (lm_rate l)"
  using assms by (auto simp: keeps_def refill_def owed_def split: option.splits)
    (smt (verit, best))+

lemma allow_cases:
  assumes lim: "limiting (lm_rate l)" and o: "0 \<le> owed l now key" "owed l now key \<le> capacity (lm_rate l)"
  defines "e \<equiv> rt_Every (lm_rate l)" and "cap \<equiv> capacity (lm_rate l)"
  shows "owed l now key > cap - e \<Longrightarrow> allow key now l = (l, e - (cap - owed l now key), False)"
    and "owed l now key \<le> cap - e \<Longrightarrow>
      \<exists>l'. allow key now l = (l', 0, True) \<and> lm_rate l' = lm_rate l \<and>
        (\<forall>k. owed l' now k = (if k = key then owed l now key + e else owed l now k))"
proof -
  let ?tat = "case fmlookup (lm_tat l) key of None \<Rightarrow> now | Some t \<Rightarrow> if t < now then now else t"
  have t: "?tat = now + owed l now key" by (auto simp: owed_def split: option.splits)
  have c: "0 < e" "e \<le> cap" "cap < 2 ^ 63" "(bursts (lm_rate l) - 1) * e = cap - e"
    using capacity_bounds [OF lim] by (auto simp: e_def cap_def)
  have sub: "time_Sub ?tat now = owed l now key" using o c by (simp add: t time_Sub_def cap_def)
  have tol: "s64 ((bursts (lm_rate l) - 1) * e) = cap - e" using c by (simp add: s64_id in_s64_def)
  have w: "s64 (owed l now key - (cap - e)) = owed l now key - (cap - e)"
    by (rule s64_id) (use o c in \<open>auto simp: in_s64_def cap_def\<close>)
  have go: "\<not> (rt_Burst (lm_rate l) < 0 \<or> e \<le> 0)" using lim c by (auto simp: limiting_def)
  note ev = allow_def Let_def t sub [unfolded t] bursts_def [of "lm_rate l", symmetric] e_def [symmetric] tol w go
  show "owed l now key > cap - e \<Longrightarrow> allow key now l = (l, e - (cap - owed l now key), False)"
    by (simp add: ev)
  assume le: "owed l now key \<le> cap - e"
  define kept where "kept = (if fmlookup (lm_tat l) key = None \<and> fmsize (lm_tat l) \<ge> limiterSweepAt
                           then fmfilter (\<lambda>k. \<not> fmget (lm_tat l) now k \<le> now) (lm_tat l) else lm_tat l)"
  have "allow key now l = (l\<lparr>lm_tat := fmupd key (now + owed l now key + e) kept\<rparr>, 0, True)"
    using le by (simp add: ev kept_def)
  moreover have "owed (l\<lparr>lm_tat := fmupd key (now + owed l now key + e) kept\<rparr>) now k = (if k = key then owed l now key + e else owed l now k)" for k
    using o c by (auto simp: owed_def kept_def fmget_def split: option.splits)
  ultimately show "\<exists>l'. allow key now l = (l', 0, True) \<and> lm_rate l' = lm_rate l \<and>
      (\<forall>k. owed l' now k = (if k = key then owed l now key + e else owed l now k))" by auto
qed

lemma allow_keeps:
  assumes lim: "limiting (lm_rate l)" and k: "keeps l b" and t: "tb_clock b \<le> now"
  obtains l' b' a where "allow key now l = (l', a)" "bucket_allow (capacity (lm_rate l)) (rt_Every (lm_rate l)) key now b = (b', a)"
    "lm_rate l' = lm_rate l" "keeps l' b'" "tb_clock b' = now"
proof -
  let ?cap = "capacity (lm_rate l)" and ?e = "rt_Every (lm_rate l)" and ?b = "refill (capacity (lm_rate l)) now b"
  note r = refill_owed [OF k t]
  have cl: "tb_clock ?b = now" by (simp add: refill_def)
  note c = capacity_bounds [OF lim]
  show thesis
  proof (cases "owed l now key \<le> ?cap - ?e")
    case True
    then obtain l' where l': "allow key now l = (l', 0, True)" "lm_rate l' = lm_rate l"
      "\<forall>k. owed l' now k = (if k = key then owed l now key + ?e else owed l now k)"
      using allow_cases(2) [OF lim r(2,3) [of key]] by blast
    let ?b' = "?b\<lparr>tb_level := (tb_level ?b)(key := tb_level ?b key - ?e)\<rparr>"
    have 1: "bucket_allow ?cap ?e key now b = (?b', 0, True)" using True by (simp add: bucket_allow_def take_token_def r)
    have 2: "keeps l' ?b'" unfolding keeps_def
    proof
      fix k'
      show "tb_level ?b' k' = capacity (lm_rate l') - owed l' (tb_clock ?b') k' \<and> 0 \<le> tb_level ?b' k'"
        using l'(2) l'(3) [rule_format, of k'] r(1) [of k'] r(3) [of k'] True by (cases "k' = key") (simp_all add: cl)
    qed
    show thesis by (rule that [OF l'(1) 1 l'(2) 2]) (simp add: cl)
  next
    case False
    then have 1: "allow key now l = (l, ?e - (?cap - owed l now key), False)"
      using allow_cases(1) [OF lim r(2,3) [of key]] by simp
    have 2: "bucket_allow ?cap ?e key now b = (?b, ?e - (?cap - owed l now key), False)"
      using False by (simp add: bucket_allow_def take_token_def r)
    have 3: "keeps l ?b" using r by (simp add: keeps_def cl)
    show thesis by (rule that [OF 1 2 refl 3]) (simp add: cl)
  qed
qed

lemma new_keeps: "limiting r \<Longrightarrow> keeps (newLimiter r) (full_buckets (capacity r) t0)"
  using capacity_bounds [of r] by (simp add: keeps_def newLimiter_def full_buckets_def owed_def)

lemma all_keeps:
  "limiting (lm_rate l) \<Longrightarrow> keeps l b \<Longrightarrow> sorted (tb_clock b # map snd qs) \<Longrightarrow>
   allow_all qs l = bucket_all (capacity (lm_rate l)) (rt_Every (lm_rate l)) qs b"
proof (induction qs arbitrary: l b)
  case (Cons q qs)
  then obtain l' b' a where s: "allow (fst q) (snd q) l = (l', a)"
    "bucket_allow (capacity (lm_rate l)) (rt_Every (lm_rate l)) (fst q) (snd q) b = (b', a)"
    "lm_rate l' = lm_rate l" "keeps l' b'" "tb_clock b' = snd q"
    using allow_keeps [of l b "snd q" "fst q"] by (metis list.simps(9) sorted2)
  then show ?case using Cons.IH [of l' b'] Cons.prems by simp
qed simp

section \<open>How many requests pass\<close>

text \<open>In a bucket: what passed costs at most what was there and what was refilled since.\<close>

definition passed :: "string \<Rightarrow> (string \<times> int) list \<Rightarrow> (int \<times> bool) list \<Rightarrow> nat" where
  "passed key qs as = length (filter (\<lambda>(q, a). fst q = key \<and> snd a) (zip qs as))"

lemma length_bucket_all [simp]: "length (bucket_all cap e qs b) = length qs"
  by (induction qs arbitrary: b) (auto split: prod.splits)

lemma bucket_cost:
  assumes "sorted (tb_clock b # map snd qs)" "0 < e" "0 \<le> cap" "0 \<le> tb_level b key"
  shows "int (passed key qs (bucket_all cap e qs b)) * e \<le> tb_level b key + (last (tb_clock b # map snd qs) - tb_clock b)"
  using assms
proof (induction qs arbitrary: b)
  case (Cons q qs)
  obtain b' w ok where s: "bucket_allow cap e (fst q) (snd q) b = (b', w, ok)" by (cases "bucket_allow cap e (fst q) (snd q) b") auto
  have b': "tb_clock b' = snd q" "0 \<le> tb_level b' key"
    "tb_level b' key + (if ok \<and> fst q = key then e else 0) \<le> tb_level b key + (snd q - tb_clock b)"
    using s Cons.prems by (auto simp: bucket_allow_def take_token_def refill_def split: if_splits)
  have "int (passed key qs (bucket_all cap e qs b')) * e \<le> tb_level b' key + (last (tb_clock b' # map snd qs) - tb_clock b')"
    by (rule Cons.IH) (use Cons.prems b' in auto)
  moreover have "int (passed key (q # qs) (bucket_all cap e (q # qs) b)) * e =
      int (passed key qs (bucket_all cap e qs b')) * e + (if ok \<and> fst q = key then e else 0)"
    by (simp add: s passed_def distrib_right)
  ultimately show ?case using b' by simp
qed (simp add: passed_def)

lemma refill_refill: "0 \<le> now - tb_clock b \<Longrightarrow> refill cap now (refill cap now b) = refill cap now b"
  by (simp add: refill_def)

lemma bucket_window:
  assumes "qs \<noteq> []" "sorted (tb_clock b # map snd qs)" "0 < e" "0 \<le> cap" "0 \<le> tb_level b key"
  shows "int (passed key qs (bucket_all cap e qs b)) * e \<le> cap + (snd (last qs) - snd (hd qs))"
proof -
  let ?b = "refill cap (snd (hd qs)) b"
  have "bucket_all cap e qs ?b = bucket_all cap e qs b"
    using assms(1,2) by (cases qs) (simp_all add: bucket_allow_def refill_refill)
  moreover have "int (passed key qs (bucket_all cap e qs ?b)) * e \<le> tb_level ?b key + (last (tb_clock ?b # map snd qs) - tb_clock ?b)"
    by (rule bucket_cost) (use assms in \<open>cases qs; auto simp: refill_def\<close>)+
  moreover have "tb_level ?b key \<le> cap" "tb_clock ?b = snd (hd qs)" by (simp_all add: refill_def)
  ultimately show ?thesis using assms(1) by (simp add: last_map)
qed

lemma allow_prefix:
  "limiting (lm_rate l) \<Longrightarrow> keeps l b \<Longrightarrow> sorted (tb_clock b # map snd (xs @ ys)) \<Longrightarrow>
   \<exists>l' b'. lm_rate l' = lm_rate l \<and> keeps l' b' \<and> sorted (tb_clock b' # map snd ys) \<and>
     drop (length xs) (allow_all (xs @ ys) l) = allow_all ys l'"
proof (induction xs arbitrary: l b)
  case (Cons q xs)
  then obtain l' b' a where s: "allow (fst q) (snd q) l = (l', a)" "lm_rate l' = lm_rate l" "keeps l' b'" "tb_clock b' = snd q"
    using allow_keeps [of l b "snd q" "fst q"] by (metis append_Cons list.simps(9) sorted2)
  then show ?case using Cons.IH [of l' b'] Cons.prems by simp
qed auto

section \<open>Properties\<close>

text \<open>
  C29. The limiter is a set of token buckets: at any requests made at times that do not go back, the arrival times kept
  per key, with the keys it forgets, give exactly the decisions and waiting times of a bucket per key that starts full,
  gains one token per interval and is never forgotten. The rate must limit and its whole burst fit in a 64-bit duration.
\<close>

theorem limiter_is_token_bucket:
  assumes "limiting r" "sorted (t0 # map snd qs)"
  shows "allow_all qs (newLimiter r) = bucket_all (capacity r) (rt_Every r) qs (full_buckets (capacity r) t0)"
  using all_keeps [of "newLimiter r" "full_buckets (capacity r) t0" qs] new_keeps [OF assms(1), of t0] assms
  by (simp add: newLimiter_def full_buckets_def)

definition play_rate :: rate where
  "play_rate = \<lparr>rt_Every = 500, rt_Burst = 2\<rparr>"

definition play_requests :: "(string \<times> int) list" where
  "play_requests = [(''p'', 0), (''q'', 0), (''p'', 100), (''p'', 200), (''p'', 500), (''p'', 600), (''q'', 3000)]"

theorem limiter_is_token_bucket_witness:
  "allow_all play_requests (newLimiter play_rate) =
     bucket_all (capacity play_rate) (rt_Every play_rate) play_requests (full_buckets (capacity play_rate) 0) \<and>
   allow_all play_requests (newLimiter play_rate) =
     [(0, True), (0, True), (0, True), (300, False), (0, True), (400, False), (0, True)]"
proof (rule conjI)
  show "allow_all play_requests (newLimiter play_rate) =
     bucket_all (capacity play_rate) (rt_Every play_rate) play_requests (full_buckets (capacity play_rate) 0)"
    by (rule limiter_is_token_bucket) code_simp+
  show "allow_all play_requests (newLimiter play_rate) =
     [(0, True), (0, True), (0, True), (300, False), (0, True), (400, False), (0, True)]" by code_simp
qed

text \<open>
  C30. No caller gets more than its rate: among any consecutive requests, at most the burst and one more per interval
  that passed between the first and the last of them are allowed for a key, whatever was asked before.
\<close>

theorem limiter_bound:
  assumes "limiting r" "sorted (map snd (xs @ ys))" "ys \<noteq> []"
  shows "int (passed key ys (drop (length xs) (allow_all (xs @ ys) (newLimiter r))))
           \<le> bursts r + (snd (last ys) - snd (hd ys)) div rt_Every r"
proof -
  let ?t0 = "snd (hd (xs @ ys))"
  have "sorted (?t0 # map snd (xs @ ys))" using assms(2,3) by (cases xs; cases ys) auto
  then obtain l b where l: "lm_rate l = r" "keeps l b" "sorted (tb_clock b # map snd ys)"
    "drop (length xs) (allow_all (xs @ ys) (newLimiter r)) = allow_all ys l"
    using allow_prefix [of "newLimiter r" "full_buckets (capacity r) ?t0" xs ys] new_keeps [OF assms(1)] assms(1)
    by (auto simp: newLimiter_def full_buckets_def)
  note c = capacity_bounds [OF assms(1)]
  have "int (passed key ys (bucket_all (capacity r) (rt_Every r) ys b)) * rt_Every r \<le> capacity r + (snd (last ys) - snd (hd ys))"
    by (rule bucket_window) (use assms l c in \<open>simp_all add: keeps_levels\<close>)
  then have "int (passed key ys (allow_all ys l)) \<le> (capacity r + (snd (last ys) - snd (hd ys))) div rt_Every r"
    using all_keeps [of l b ys] l assms(1) zdiv_mono1 [OF _ c(1)] c(1) by fastforce
  then show ?thesis using c(1) l(4) by (simp add: capacity_def)
qed

theorem limiter_bound_witness:
  "int (passed ''p'' (drop 2 play_requests) (drop (length (take 2 play_requests))
     (allow_all (take 2 play_requests @ drop 2 play_requests) (newLimiter play_rate)))) \<le> 2 + (3000 - 100) div 500"
proof -
  have "limiting play_rate" "sorted (map snd (take 2 play_requests @ drop 2 play_requests))" "drop 2 play_requests \<noteq> []"
    by code_simp+
  from limiter_bound [OF this, of "''p''"]
  have "int (passed ''p'' (drop 2 play_requests) (drop (length (take 2 play_requests))
     (allow_all (take 2 play_requests @ drop 2 play_requests) (newLimiter play_rate))))
    \<le> bursts play_rate + (snd (last (drop 2 play_requests)) - snd (hd (drop 2 play_requests))) div rt_Every play_rate" .
  moreover have "bursts play_rate + (snd (last (drop 2 play_requests)) - snd (hd (drop 2 play_requests))) div rt_Every play_rate =
    2 + (3000 - 100) div 500" by code_simp
  ultimately show ?thesis by simp
qed

end
