(* ===== verification/Ring.thy ===== *)
theory Ring
  imports Prelude
begin

text \<open>
  Package \<^verbatim>\<open>internal/debugfeed\<close>, \<^verbatim>\<open>ring.go\<close>: the fixed-size buffer of the most recent events of a replica, with the
  event record of \<^verbatim>\<open>feed.go\<close>. Slots of the buffer are indexed by sequence number modulo its size. The mutex is left
  out: every operation holds it for its whole body, and \<^verbatim>\<open>Wait\<close> is a function of the rings it finds at its wake-ups; the wake-up channel is left out.

  A reader is shown to see what it would see in a log of all events that keeps nothing but the last ones.
\<close>

section \<open>The code\<close>

record feed_event =
  fe_Seq :: nat
  fe_AtMs :: int
  fe_Node :: nat
  fe_Kind :: string
  fe_From :: nat
  fe_To :: nat
  fe_Type :: string
  fe_BallotRound :: nat
  fe_BallotNode :: nat
  fe_Slot :: nat
  fe_CommitIndex :: nat
  fe_Value :: string
  fe_Detail :: string

definition KindSend :: string where "KindSend = ''send''"
definition KindRecv :: string where "KindRecv = ''recv''"
definition KindRole :: string where "KindRole = ''role''"
definition KindCommit :: string where "KindCommit = ''commit''"
definition KindApplied :: string where "KindApplied = ''applied''"

definition no_event :: feed_event where
  "no_event = \<lparr>fe_Seq = 0, fe_AtMs = 0, fe_Node = 0, fe_Kind = '''', fe_From = 0, fe_To = 0, fe_Type = '''', fe_BallotRound = 0,
     fe_BallotNode = 0, fe_Slot = 0, fe_CommitIndex = 0, fe_Value = '''', fe_Detail = ''''\<rparr>"

definition is_heartbeat :: "feed_event \<Rightarrow> bool" where
  "is_heartbeat e \<longleftrightarrow> (fe_Kind e = KindSend \<or> fe_Kind e = KindRecv) \<and> (fe_Type e = ''heartbeat'' \<or> fe_Type e = ''heartbeat_ack'')"

record ring =
  rg_buf :: "feed_event list"
  rg_last :: nat

definition NewRing :: "int \<Rightarrow> ring option" where
  "NewRing capacity = (if capacity < 1 then None else Some \<lparr>rg_buf = replicate (nat capacity) no_event, rg_last = 0\<rparr>)"

definition ring_Append :: "feed_event \<Rightarrow> ring \<Rightarrow> ring \<times> nat" where
  "ring_Append ev r =
     (let l = u64 (rg_last r + 1);
          ev' = ev\<lparr>fe_Seq := l\<rparr>
      in (r\<lparr>rg_last := l, rg_buf := (rg_buf r)[(l - 1) mod length (rg_buf r) := ev']\<rparr>, l))"

definition ring_Last :: "ring \<Rightarrow> nat" where
  "ring_Last r = rg_last r"

record page =
  pg_Next :: nat
  pg_Dropped :: nat
  pg_Events :: "feed_event list"

function read_loop :: "ring \<Rightarrow> nat \<Rightarrow> bool \<Rightarrow> nat \<Rightarrow> page \<Rightarrow> page" where
  "read_loop r limit heartbeats s p =
     (if s \<le> rg_last r \<and> length (pg_Events p) < limit
      then (let ev = rg_buf r ! ((s - 1) mod length (rg_buf r));
                p1 = p\<lparr>pg_Next := s\<rparr>
            in read_loop r limit heartbeats (s + 1)
                 (if heartbeats \<or> \<not> is_heartbeat ev then p1\<lparr>pg_Events := pg_Events p1 @ [ev]\<rparr> else p1))
      else p)"
  by pat_completeness auto
termination by (relation "measure (\<lambda>(r, limit, heartbeats, s, p). rg_last r + 1 - s)") auto

declare read_loop.simps [simp del]

definition ring_read :: "nat \<Rightarrow> int \<Rightarrow> bool \<Rightarrow> ring \<Rightarrow> page" where
  "ring_read after0 limit heartbeats r =
     (let after = (if after0 > rg_last r then 0 else after0);
          p = \<lparr>pg_Next = after, pg_Dropped = 0, pg_Events = []\<rparr>;
          first = u64 (after + 1);
          n = length (rg_buf r)
      in if rg_last r > n \<and> first \<le> rg_last r - n
         then (let oldest = rg_last r - n + 1
               in read_loop r (nat (max limit 1)) heartbeats oldest (p\<lparr>pg_Dropped := oldest - first\<rparr>))
         else read_loop r (nat (max limit 1)) heartbeats first p)"

text \<open>
  \<^verbatim>\<open>Wait\<close>: \<open>wakes\<close> are the rings it finds each time an append wakes it; the list ends when the timer or the context does.
\<close>

fun wait_loop :: "int \<Rightarrow> bool \<Rightarrow> ring list \<Rightarrow> page \<Rightarrow> page" where
  "wait_loop limit heartbeats [] p = p"
| "wait_loop limit heartbeats (r # wakes) p =
     (let p1 = ring_read (pg_Next p) limit heartbeats r;
          p2 = p1\<lparr>pg_Dropped := u64 (pg_Dropped p1 + pg_Dropped p)\<rparr>
      in if pg_Events p2 \<noteq> [] then p2 else wait_loop limit heartbeats wakes p2)"

definition ring_Wait :: "nat \<Rightarrow> int \<Rightarrow> bool \<Rightarrow> int \<Rightarrow> ring list \<Rightarrow> ring \<Rightarrow> page" where
  "ring_Wait after0 limit heartbeats wait wakes r =
     (let p = ring_read after0 limit heartbeats r
      in if pg_Events p \<noteq> [] \<or> wait \<le> 0 then p else wait_loop limit heartbeats wakes p)"

section \<open>The log of all events\<close>

fun append_all :: "feed_event list \<Rightarrow> ring \<Rightarrow> ring" where
  "append_all [] r = r"
| "append_all (e # es) r = append_all es (fst (ring_Append e r))"

fun numbered :: "nat \<Rightarrow> feed_event list \<Rightarrow> feed_event list" where
  "numbered n [] = []"
| "numbered n (e # es) = e\<lparr>fe_Seq := Suc n\<rparr> # numbered (Suc n) es"

definition visible :: "bool \<Rightarrow> feed_event \<Rightarrow> bool" where
  "visible heartbeats e \<longleftrightarrow> heartbeats \<or> \<not> is_heartbeat e"

text \<open>How many events must be examined to return \<open>k\<close> of them.\<close>

fun examined :: "bool \<Rightarrow> nat \<Rightarrow> feed_event list \<Rightarrow> nat" where
  "examined hb 0 es = 0"
| "examined hb (Suc k) [] = 0"
| "examined hb (Suc k) (e # es) = Suc (if visible hb e then examined hb k es else examined hb (Suc k) es)"

text \<open>The reference: \<open>es\<close> is the whole history, of which the last \<open>cap\<close> events are kept.\<close>

definition log_read :: "nat \<Rightarrow> nat \<Rightarrow> int \<Rightarrow> bool \<Rightarrow> feed_event list \<Rightarrow> page" where
  "log_read cap after0 limit hb es =
     (let after = (if after0 > length es then 0 else after0);
          start = max after (length es - cap);
          rest = drop start es;
          k = nat (max limit 1)
      in \<lparr>pg_Next = start + examined hb k rest, pg_Dropped = start - after, pg_Events = take k (filter (visible hb) rest)\<rparr>)"

section \<open>The ring holds the end of the log\<close>

definition holds :: "ring \<Rightarrow> feed_event list \<Rightarrow> bool" where
  "holds r es \<longleftrightarrow> rg_buf r \<noteq> [] \<and> rg_last r = length es \<and>
     (\<forall>i. i < length es \<and> length es \<le> i + length (rg_buf r) \<longrightarrow> rg_buf r ! (i mod length (rg_buf r)) = es ! i)"

lemma length_numbered [simp]: "length (numbered n es) = length es"
  by (induction es arbitrary: n) auto

lemma numbered_nth: "i < length es \<Longrightarrow> numbered n es ! i = (es ! i)\<lparr>fe_Seq := n + i + 1\<rparr>"
  by (induction es arbitrary: n i) (auto simp: nth_Cons split: nat.splits)

lemma numbered_snoc: "numbered n (es @ [e]) = numbered n es @ [e\<lparr>fe_Seq := n + length es + 1\<rparr>]"
  by (induction es arbitrary: n) auto

lemma mod_window: "i mod n = j mod n \<Longrightarrow> i < j \<Longrightarrow> j < i + n \<Longrightarrow> False" for i j n :: nat
proof -
  assume a: "i mod n = j mod n" "i < j" "j < i + n"
  then have "n dvd j - i" by (metis mod_eq_dvd_iff_nat less_imp_le_nat)
  then show False using a by (auto dest: dvd_imp_le)
qed

lemma Append_holds:
  assumes "holds r es" "length es < 2 ^ 64 - 1"
  shows "holds (fst (ring_Append e r)) (es @ [e\<lparr>fe_Seq := length es + 1\<rparr>])" (is "holds ?r _")
    "length (rg_buf (fst (ring_Append e r))) = length (rg_buf r)"
proof -
  have l: "u64 (rg_last r + 1) = length es + 1" using assms by (simp add: holds_def u64_id)
  show "length (rg_buf ?r) = length (rg_buf r)" by (simp add: ring_Append_def Let_def)
  show "holds ?r (es @ [e\<lparr>fe_Seq := length es + 1\<rparr>])" unfolding holds_def
  proof (intro conjI allI impI)
    fix i assume i: "i < length (es @ [e\<lparr>fe_Seq := length es + 1\<rparr>]) \<and> length (es @ [e\<lparr>fe_Seq := length es + 1\<rparr>]) \<le> i + length (rg_buf ?r)"
    have n: "length (rg_buf r) > 0" using assms by (simp add: holds_def)
    show "rg_buf ?r ! (i mod length (rg_buf ?r)) = (es @ [e\<lparr>fe_Seq := length es + 1\<rparr>]) ! i"
    proof (cases "i = length es")
      case True
      then show ?thesis using n l by (simp add: ring_Append_def Let_def)
    next
      case False
      then have lt: "i < length es" using i by simp
      then have "length es mod length (rg_buf r) \<noteq> i mod length (rg_buf r)"
        using mod_window [of i "length (rg_buf r)" "length es"] i by (auto simp: ring_Append_def Let_def)
      then show ?thesis using assms i lt l by (auto simp: ring_Append_def Let_def holds_def nth_append)
    qed
  qed (use assms l in \<open>auto simp: ring_Append_def Let_def holds_def\<close>)
qed

lemma append_all_holds:
  assumes "holds r es" "length es + length xs < 2 ^ 64"
  shows "holds (append_all xs r) (es @ numbered (length es) xs) \<and> length (rg_buf (append_all xs r)) = length (rg_buf r)"
  using assms
proof (induction xs arbitrary: r es)
  case (Cons x xs)
  show ?case using Cons.IH [OF Append_holds(1) [OF Cons.prems(1), of x]] Append_holds(2) [OF Cons.prems(1), of x] Cons.prems(2)
    by (simp add: append_assoc)
qed simp

lemma NewRing_holds: "NewRing cap = Some r \<Longrightarrow> holds r [] \<and> length (rg_buf r) = nat cap"
  by (auto simp: NewRing_def holds_def split: if_splits)

section \<open>Reading\<close>

lemma examined_le: "examined hb k es \<le> length es"
  by (induction hb k es rule: examined.induct) auto

lemma drop_nth: "i < length es \<Longrightarrow> drop i es = es ! i # drop (Suc i) es"
  by (simp add: Cons_nth_drop_Suc)

lemma read_loop_log:
  assumes "holds r es" "length es \<le> i + length (rg_buf r)" "i \<le> length es" "pg_Next p = i"
  shows "read_loop r (length (pg_Events p) + k) hb (i + 1) p =
    p\<lparr>pg_Next := i + examined hb k (drop i es), pg_Events := pg_Events p @ take k (filter (visible hb) (drop i es))\<rparr>"
  using assms
proof (induction "length es - i" arbitrary: i k p)
  case 0
  then show ?case by (subst read_loop.simps) (cases k; simp add: holds_def)
next
  case (Suc d)
  then have i: "i < length es" by simp
  show ?case
  proof (cases k)
    case 0
    then show ?thesis using Suc.prems by (subst read_loop.simps) simp
  next
    case (Suc k')
    have b: "rg_buf r ! (i mod length (rg_buf r)) = es ! i" and l: "rg_last r = length es"
      using Suc.prems i by (simp_all add: holds_def)
    let ?p = "if visible hb (es ! i) then p\<lparr>pg_Next := i + 1, pg_Events := pg_Events p @ [es ! i]\<rparr> else p\<lparr>pg_Next := i + 1\<rparr>"
    let ?k = "if visible hb (es ! i) then k' else Suc k'"
    have "read_loop r (length (pg_Events p) + k) hb (i + 1) p = read_loop r (length (pg_Events p) + k) hb (i + 1 + 1) ?p"
      using i Suc by (subst read_loop.simps) (simp add: b l visible_def)
    also have "length (pg_Events p) + k = length (pg_Events ?p) + ?k" using Suc by simp
    also have "read_loop r (length (pg_Events ?p) + ?k) hb (i + 1 + 1) ?p =
      ?p\<lparr>pg_Next := (i + 1) + examined hb ?k (drop (i + 1) es), pg_Events := pg_Events ?p @ take ?k (filter (visible hb) (drop (i + 1) es))\<rparr>"
      by (rule Suc.hyps(1)) (use Suc.hyps Suc.prems i in auto)
    finally show ?thesis using Suc drop_nth [OF i] by (cases "visible hb (es ! i)") simp_all
  qed
qed

lemma ring_read_log:
  assumes h: "holds r es" and n: "length es < 2 ^ 64 - 1"
  shows "ring_read after0 limit hb r = log_read (length (rg_buf r)) after0 limit hb es"
proof -
  define after where "after = (if after0 > length es then 0 else after0)"
  define k where "k = nat (max limit 1)"
  let ?n = "length (rg_buf r)" and ?p = "\<lparr>pg_Next = after, pg_Dropped = 0, pg_Events = []\<rparr>"
  have l: "rg_last r = length es" using h by (simp add: holds_def)
  have a: "after \<le> length es" by (simp add: after_def)
  have f: "u64 (after + 1) = after + 1" using a n by (intro u64_Suc) linarith
  have k: "0 < k" by (simp add: k_def less_max_iff_disj)
  note defs = ring_read_def log_read_def l Let_def after_def [symmetric] k_def [symmetric] f
  show ?thesis
  proof (cases "length es > ?n \<and> after + 1 \<le> length es - ?n")
    case True
    let ?o = "length es - ?n"
    have "?n > 0" using h by (simp add: holds_def)
    then have o: "?o + 1 \<le> length es" using True by linarith
    have "read_loop r k hb (?o + 1) (?p\<lparr>pg_Dropped := ?o + 1 - (after + 1)\<rparr>) =
        read_loop r k hb (?o + 1) (?p\<lparr>pg_Next := ?o, pg_Dropped := ?o + 1 - (after + 1)\<rparr>)"
      using o l k by (subst (1 2) read_loop.simps) (simp add: Let_def)
    also have "\<dots> = \<lparr>pg_Next = ?o + examined hb k (drop ?o es), pg_Dropped = ?o - after, pg_Events = take k (filter (visible hb) (drop ?o es))\<rparr>"
      using read_loop_log [OF h, of ?o "?p\<lparr>pg_Next := ?o, pg_Dropped := ?o + 1 - (after + 1)\<rparr>" k hb] True by simp
    finally have "read_loop r k hb (?o + 1) (?p\<lparr>pg_Dropped := ?o + 1 - (after + 1)\<rparr>) = \<dots>" .
    moreover have "max after ?o = ?o" using True by simp
    ultimately show ?thesis unfolding defs if_P [OF True] by simp
  next
    case False
    then have s: "max after (length es - ?n) = after" by auto
    have "read_loop r k hb (after + 1) ?p = \<lparr>pg_Next = after + examined hb k (drop after es), pg_Dropped = 0, pg_Events = take k (filter (visible hb) (drop after es))\<rparr>"
      using read_loop_log [OF h, of after ?p k hb] False a by auto
    then show ?thesis unfolding defs if_not_P [OF False] s by simp
  qed
qed

section \<open>Waiting\<close>

text \<open>
  A page answers a read of a log from a cursor when it accounts for every event in between: those overwritten, those
  skipped as heartbeats, and those returned.
\<close>

definition accounts :: "bool \<Rightarrow> nat \<Rightarrow> page \<Rightarrow> feed_event list \<Rightarrow> bool" where
  "accounts hb after p es \<longleftrightarrow> after \<le> pg_Next p \<and> pg_Next p \<le> length es \<and>
     (\<exists>seen. sorted_wrt (<) seen \<and> set seen \<subseteq> {after..<pg_Next p} \<and> length seen + pg_Dropped p = pg_Next p - after \<and>
        pg_Events p = filter (visible hb) (map ((!) es) seen))"

lemma take_examined: "take k (filter (visible hb) es) = filter (visible hb) (take (examined hb k es) es)"
  by (induction hb k es rule: examined.induct) auto

lemma map_nth_window: "j \<le> length es \<Longrightarrow> i \<le> j \<Longrightarrow> map ((!) es) [i..<j] = take (j - i) (drop i es)"
  by (rule nth_equalityI) auto

lemma log_read_accounts:
  assumes "after \<le> length es"
  shows "accounts hb after (log_read cap after limit hb es) es"
proof -
  define s where "s = max after (length es - cap)"
  define k where "k = nat (max limit 1)"
  define e where "e = examined hb k (drop s es)"
  have s: "after \<le> s" "s \<le> length es" using assms by (simp_all add: s_def)
  then have e: "s + e \<le> length es" using examined_le [of hb k "drop s es"] by (simp add: e_def)
  have "log_read cap after limit hb es = \<lparr>pg_Next = s + e, pg_Dropped = s - after, pg_Events = take k (filter (visible hb) (drop s es))\<rparr>"
    using assms by (simp add: log_read_def Let_def s_def k_def e_def)
  also have "take k (filter (visible hb) (drop s es)) = filter (visible hb) (map ((!) es) [s..<s + e])"
    using e by (simp add: take_examined map_nth_window e_def)
  finally have p: "log_read cap after limit hb es = \<lparr>pg_Next = s + e, pg_Dropped = s - after, pg_Events = filter (visible hb) (map ((!) es) [s..<s + e])\<rparr>" .
  show ?thesis unfolding accounts_def p using s e by (intro conjI exI [of _ "[s..<s + e]"]) auto
qed

lemma accounts_more:
  assumes a: "accounts hb after p es" "pg_Events p = []" and b: "accounts hb (pg_Next p) q es'" and pre: "es' = es @ zs"
  shows "accounts hb after (q\<lparr>pg_Dropped := pg_Dropped q + pg_Dropped p\<rparr>) es'"
proof -
  from a obtain s where s: "sorted_wrt (<) s" "set s \<subseteq> {after..<pg_Next p}" "length s + pg_Dropped p = pg_Next p - after"
    "filter (visible hb) (map ((!) es) s) = []" "after \<le> pg_Next p" "pg_Next p \<le> length es" by (auto simp: accounts_def)
  from b obtain t where t: "sorted_wrt (<) t" "set t \<subseteq> {pg_Next p..<pg_Next q}" "length t + pg_Dropped q = pg_Next q - pg_Next p"
    "pg_Events q = filter (visible hb) (map ((!) es') t)" "pg_Next p \<le> pg_Next q" "pg_Next q \<le> length es'" by (auto simp: accounts_def)
  have "map ((!) es') s = map ((!) es) s" using s pre by (auto simp: nth_append)
  then have "pg_Events q = filter (visible hb) (map ((!) es') (s @ t))" by (simp only: map_append filter_append s t append_Nil)
  moreover have "sorted_wrt (<) (s @ t)" using s t by (fastforce simp: sorted_wrt_append)
  moreover have "set (s @ t) \<subseteq> {after..<pg_Next q}" using s t by fastforce
  ultimately show ?thesis unfolding accounts_def using s t by (intro conjI exI [of _ "s @ t"]) auto
qed

fun rings_after :: "feed_event list list \<Rightarrow> ring \<Rightarrow> ring list" where
  "rings_after [] r = []"
| "rings_after (b # bs) r = append_all b r # rings_after bs (append_all b r)"

lemma accounts_longer: "accounts hb after p es \<Longrightarrow> accounts hb after p (es @ zs)"
proof -
  assume a: "accounts hb after p es"
  then obtain s where s: "sorted_wrt (<) s" "set s \<subseteq> {after..<pg_Next p}" "length s + pg_Dropped p = pg_Next p - after"
    "pg_Events p = filter (visible hb) (map ((!) es) s)" "after \<le> pg_Next p" "pg_Next p \<le> length es" by (auto simp: accounts_def)
  have "map ((!) (es @ zs)) s = map ((!) es) s" using s by (auto simp: nth_append)
  then have "pg_Events p = filter (visible hb) (map ((!) (es @ zs)) s)" by (simp only: s)
  then show ?thesis unfolding accounts_def using s by (intro conjI exI [of _ s]) auto
qed

lemma numbered_append: "numbered n (xs @ ys) = numbered n xs @ numbered (n + length xs) ys"
  by (induction xs arbitrary: n) auto

lemma wait_loop_accounts:
  assumes "holds r es" "length es + length (concat bs) < 2 ^ 64 - 1" "accounts hb after p es" "pg_Events p = []"
  shows "accounts hb after (wait_loop limit hb (rings_after bs r) p) (es @ numbered (length es) (concat bs))"
  using assms
proof (induction bs arbitrary: r es p)
  case (Cons b bs)
  let ?r = "append_all b r" and ?es = "es @ numbered (length es) b"
  have h: "holds ?r ?es" using append_all_holds [OF Cons.prems(1), of b] Cons.prems(2) by simp
  have n: "pg_Next p \<le> length ?es" using Cons.prems(3) by (simp add: accounts_def)
  let ?q = "ring_read (pg_Next p) limit hb ?r"
  have rd: "accounts hb (pg_Next p) ?q ?es"
    using log_read_accounts [OF n] ring_read_log [OF h] Cons.prems(2) by simp
  let ?q2 = "?q\<lparr>pg_Dropped := pg_Dropped ?q + pg_Dropped p\<rparr>"
  have q: "accounts hb after ?q2 ?es" by (rule accounts_more [OF Cons.prems(3,4) rd refl])
  then have "pg_Dropped ?q + pg_Dropped p < 2 ^ 64" using Cons.prems(2) by (auto simp: accounts_def)
  then have u: "u64 (pg_Dropped ?q + pg_Dropped p) = pg_Dropped ?q + pg_Dropped p" by (rule u64_id)
  have whole: "es @ numbered (length es) (concat (b # bs)) = ?es @ numbered (length ?es) (concat bs)"
    by (simp add: numbered_append)
  show ?case
  proof (cases "pg_Events ?q = []")
    case True
    then show ?thesis using Cons.IH [OF h _ q] Cons.prems(2) unfolding whole by (simp add: Let_def u)
  next
    case False
    then show ?thesis using accounts_longer [OF q] unfolding whole by (simp add: Let_def u)
  qed
qed simp

section \<open>Properties\<close>

text \<open>
  C34. The ring is a log of which only the end is kept: after any events, a read from any cursor returns what it would
  in the whole numbered history restricted to the last events the ring has room for, the same page, the same next
  cursor and the same count of dropped events, with heartbeats or without, also from a cursor ahead of the replica.
\<close>

theorem ring_is_log:
  assumes "NewRing cap = Some r" "length evs < 2 ^ 64 - 1"
  shows "ring_read after limit hb (append_all evs r) = log_read (nat cap) after limit hb (numbered 0 evs)"
  using append_all_holds [of r "[]" evs] NewRing_holds [OF assms(1)] ring_read_log [of "append_all evs r" "numbered 0 evs"] assms(2)
  by simp

definition beat :: "string \<Rightarrow> feed_event" where
  "beat v = no_event\<lparr>fe_Kind := KindSend, fe_Type := ''heartbeat'', fe_Value := v\<rparr>"

definition learnt :: "string \<Rightarrow> feed_event" where
  "learnt v = no_event\<lparr>fe_Kind := KindRecv, fe_Type := ''learn'', fe_Value := v\<rparr>"

definition sample_events :: "feed_event list" where
  "sample_events = [learnt ''a'', beat ''b'', learnt ''c'', beat ''d'', learnt ''e'', learnt ''f'']"

definition sample_ring :: ring where
  "sample_ring = the (NewRing 4)"

theorem ring_is_log_witness:
  "ring_read 1 2 False (append_all sample_events sample_ring) = log_read 4 1 2 False (numbered 0 sample_events) \<and>
   pg_Dropped (ring_read 1 2 False (append_all sample_events sample_ring)) = 1 \<and>
   map fe_Seq (pg_Events (ring_read 1 2 False (append_all sample_events sample_ring))) = [3, 5]"
proof (intro conjI)
  have "NewRing 4 = Some sample_ring" "length sample_events < 2 ^ 64 - 1" by code_simp+
  from ring_is_log [OF this, of 1 2 False]
  show "ring_read 1 2 False (append_all sample_events sample_ring) = log_read 4 1 2 False (numbered 0 sample_events)" by simp
qed code_simp+

text \<open>
  C35. A waiting reader misses nothing silently: whatever is appended while \<^verbatim>\<open>Wait\<close> waits, the page it returns accounts
  for every event between its cursor and the next one. Each of them is returned, was seen and skipped as a heartbeat,
  or is counted as dropped; those returned come in order and are the events of the history.
\<close>

theorem Wait_accounts:
  assumes "NewRing cap = Some r" "length (evs @ concat bs) < 2 ^ 64 - 1" "after \<le> length evs"
  shows "accounts hb after (ring_Wait after limit hb wait (rings_after bs (append_all evs r)) (append_all evs r)) (numbered 0 (evs @ concat bs))"
proof -
  have h: "holds (append_all evs r) (numbered 0 evs)" using append_all_holds [of r "[]" evs] NewRing_holds [OF assms(1)] assms(2) by simp
  have p: "accounts hb after (ring_read after limit hb (append_all evs r)) (numbered 0 evs)"
    using ring_read_log [OF h] log_read_accounts [of after "numbered 0 evs"] assms(2,3) by simp
  have whole: "numbered 0 (evs @ concat bs) = numbered 0 evs @ numbered (length (numbered 0 evs)) (concat bs)"
    by (simp add: numbered_append)
  show ?thesis
  proof (cases "pg_Events (ring_read after limit hb (append_all evs r)) = [] \<and> wait > 0")
    case True
    then show ?thesis using wait_loop_accounts [OF h _ p, of bs limit] assms(2) unfolding whole ring_Wait_def by (simp add: Let_def)
  next
    case False
    then have "ring_Wait after limit hb wait (rings_after bs (append_all evs r)) (append_all evs r) = ring_read after limit hb (append_all evs r)"
      by (auto simp: ring_Wait_def Let_def)
    then show ?thesis using accounts_longer [OF p] unfolding whole by simp
  qed
qed

theorem Wait_accounts_witness:
  "accounts False 1 (ring_Wait 1 5 False 10 (rings_after [[beat ''d''], [learnt ''e'']] (append_all [learnt ''a'', beat ''b''] sample_ring))
      (append_all [learnt ''a'', beat ''b''] sample_ring)) (numbered 0 ([learnt ''a'', beat ''b''] @ concat [[beat ''d''], [learnt ''e'']])) \<and>
   ring_Wait 1 5 False 10 (rings_after [[beat ''d''], [learnt ''e'']] (append_all [learnt ''a'', beat ''b''] sample_ring))
      (append_all [learnt ''a'', beat ''b''] sample_ring) = \<lparr>pg_Next = 4, pg_Dropped = 0, pg_Events = [(learnt ''e'')\<lparr>fe_Seq := 4\<rparr>]\<rparr>"
proof (rule conjI)
  have "NewRing 4 = Some sample_ring" "length ([learnt ''a'', beat ''b''] @ concat [[beat ''d''], [learnt ''e'']]) < 2 ^ 64 - 1"
    "1 \<le> length [learnt ''a'', beat ''b'']" by code_simp+
  from Wait_accounts [OF this, of False 5 10]
  show "accounts False 1 (ring_Wait 1 5 False 10 (rings_after [[beat ''d''], [learnt ''e'']] (append_all [learnt ''a'', beat ''b''] sample_ring))
      (append_all [learnt ''a'', beat ''b''] sample_ring)) (numbered 0 ([learnt ''a'', beat ''b''] @ concat [[beat ''d''], [learnt ''e'']]))" .
qed code_simp

end
