(* ===== verification/Feed.thy ===== *)
theory Feed
  imports ReplicaCore Ring
begin

text \<open>
  Package \<^verbatim>\<open>internal/debugfeed\<close>, \<^verbatim>\<open>feed.go\<close> and \<^verbatim>\<open>handler.go\<close>: the observer that records what a replica's event loop does, and the
  answers to its readers. \<open>now\<close> is the clock
  at each record. The feed is served without authentication; what it may reveal of a command is \<open>looks_same\<close>.
\<close>

section \<open>Naming a command\<close>

definition Capacity :: int where "Capacity = 4096"
definition MaxSummarisedValue :: nat where "MaxSummarisedValue = 16 * 1024"

fun code_text :: "code \<Rightarrow> string" where
  "code_text OK = ''ok''" | "code_text KeyReused = ''key_reused''" | "code_text InvalidKey = ''invalid_key''"
| "code_text OutOfOrder = ''out_of_order''" | "code_text InvalidOp = ''invalid_op''" | "code_text InvalidRules = ''invalid_rules''"
| "code_text TournamentExists = ''tournament_exists''" | "code_text UnknownTournament = ''unknown_tournament''"
| "code_text NotOpen = ''not_open''" | "code_text TournamentFull = ''tournament_full''" | "code_text AlreadyJoined = ''already_joined''"
| "code_text JurisdictionExcluded = ''jurisdiction_excluded''" | "code_text Underage = ''underage''"
| "code_text InvalidPlayer = ''invalid_player''" | "code_text NotJoined = ''not_joined''" | "code_text AlreadyScored = ''already_scored''"
| "code_text SeedMismatch = ''seed_mismatch''" | "code_text ScoreOutOfRange = ''score_out_of_range''" | "code_text NotClosed = ''not_closed''"
| "code_text InvalidExclusions = ''invalid_exclusions''" | "code_text LedgerConflict = ''ledger_conflict''"
| "code_text InvalidDevice = ''invalid_device''" | "code_text DeviceMismatch = ''device_mismatch''" | "code_text PlayerExists = ''player_exists''"
| "code_text UnknownPlayer = ''unknown_player''" | "code_text StaleSeq = ''stale_seq''" | "code_text SeqGap = ''seq_gap''"
| "code_text NotPlayTournament = ''not_play_tournament''" | "code_text PlayIntentRequired = ''play_intent_required''"
| "code_text InvalidRound = ''invalid_round''" | "code_text RoundAlreadyStarted = ''round_already_started''"
| "code_text PreviousRoundUnfinished = ''previous_round_unfinished''" | "code_text RoundNotStarted = ''round_not_started''"
| "code_text RoundFinished = ''round_finished''" | "code_text RoundExpired = ''round_expired''"
| "code_text MoveIndexMismatch = ''move_index_mismatch''" | "code_text IllegalMove = ''illegal_move''" | "code_text NotSettled = ''not_settled''"
| "code_text NoPayout = ''no_payout''" | "code_text AlreadyClaimed = ''already_claimed''"

definition shortID :: "string \<Rightarrow> string" where
  "shortID s = (if length s > MaxIDLen then take MaxIDLen s @ ''...'' else s)"

definition pair_text :: "tournament_id \<Rightarrow> player_id \<Rightarrow> string" where
  "pair_text t p = shortID t @ ''/'' @ shortID p"

definition SummariseOp :: "op \<Rightarrow> string" where
  "SummariseOp op =
     (let name = OpName op
      in case op of
           CreateTournament o' \<Rightarrow> name @ '' '' @ shortID (ct_ID o')
         | Join o' \<Rightarrow> name @ '' '' @ pair_text (jo_Tournament o') (pl_ID (jo_Player o'))
         | SubmitScore o' \<Rightarrow> name @ '' '' @ pair_text (ss_Tournament o') (ss_Player o')
         | Close o' \<Rightarrow> name @ '' '' @ shortID (cl_Tournament o')
         | Settle o' \<Rightarrow> name @ '' '' @ shortID (se_Tournament o')
         | OpenSession o' \<Rightarrow> name @ '' '' @ shortID (os_Player o')
         | Enter o' \<Rightarrow> name @ '' '' @ pair_text (et_Tournament o') (et_Player o')
         | StartRound o' \<Rightarrow> name @ '' '' @ pair_text (sr_Tournament o') (sr_Player o') @ '' r'' @ itoa (sr_Round o')
         | PlayMove o' \<Rightarrow>
             name @ '' '' @ pair_text (pm_Tournament o') (pm_Player o') @ '' r'' @ itoa (pm_Round o') @ '' m'' @ itoa (pm_MoveIndex o')
         | FinishRound o' \<Rightarrow> name @ '' '' @ pair_text (fr_Tournament o') (fr_Player o') @ '' r'' @ itoa (fr_Round o')
         | ClaimPayout o' \<Rightarrow> name @ '' '' @ pair_text (cp_Tournament o') (cp_Player o')
         | UnknownOp \<Rightarrow> ''unknown'')"

definition SummariseValue :: "command_json \<Rightarrow> paxos_value \<Rightarrow> string" where
  "SummariseValue j v =
     (if length v = 0 then ''noop''
      else if length v > MaxSummarisedValue then ''value '' @ nat_dec (length v) @ '' bytes''
      else case Decode j v of Inl e \<Rightarrow> ''undecodable'' | Inr cmd \<Rightarrow> SummariseOp (cm_Op cmd))"

section \<open>Recording\<close>

definition setBallot :: "ballot \<Rightarrow> feed_event \<Rightarrow> feed_event" where
  "setBallot b e = e\<lparr>fe_BallotRound := Round b, fe_BallotNode := Node b\<rparr>"

definition messageEvent :: "command_json \<Rightarrow> string \<Rightarrow> envelope \<Rightarrow> feed_event" where
  "messageEvent j kind env =
     (let ev = no_event\<lparr>fe_Kind := kind, fe_From := nv_From env, fe_To := nv_To env, fe_Type := TypeName (nv_Msg env)\<rparr>
      in case nv_Msg env of
           Prepare b s \<Rightarrow> (setBallot b ev)\<lparr>fe_Slot := s\<rparr>
         | Promise m \<Rightarrow>
             (setBallot (pm_Ballot m) ev)\<lparr>fe_CommitIndex := promise.pm_CommitIndex m,
                fe_Detail := ''accepted '' @ nat_dec (length (pm_Accepted m)) @
                  (if pm_Accepted m = [] then ''''
                   else '', slots '' @ nat_dec (pv_Slot (hd (pm_Accepted m))) @ ''-'' @ nat_dec (pv_Slot (last (pm_Accepted m))))\<rparr>
         | Accept b s v \<Rightarrow> (setBallot b ev)\<lparr>fe_Slot := s, fe_Value := SummariseValue j v\<rparr>
         | Accepted b s \<Rightarrow> (setBallot b ev)\<lparr>fe_Slot := s\<rparr>
         | Nack m \<Rightarrow>
             (setBallot (nk_Ballot m) ev)\<lparr>fe_Slot := nk_Slot m,
                fe_Detail := ''promised '' @ ballot_String (nk_Promised m) @
                  (if nk_LeaseRemaining m > 0 then '', lease '' @ itoa (nk_LeaseRemaining m div Millisecond) @ ''ms'' else '''')\<rparr>
         | Learn s b v \<Rightarrow> (setBallot b ev)\<lparr>fe_Slot := s, fe_Value := SummariseValue j v\<rparr>
         | LearnRequest s n \<Rightarrow> ev\<lparr>fe_Slot := s, fe_Detail := ''max '' @ itoa n\<rparr>
         | Heartbeat m \<Rightarrow>
             (setBallot (hb_Ballot m) ev)\<lparr>fe_CommitIndex := hb_CommitIndex m,
                fe_Detail := (if hb_ReadSeq m \<noteq> 0 then ''read_seq '' @ nat_dec (hb_ReadSeq m) else '''')\<rparr>
         | HeartbeatAck m \<Rightarrow>
             (setBallot (ha_Ballot m) ev)\<lparr>fe_CommitIndex := ha_CommitIndex m,
                fe_Detail := ''promised '' @ ballot_String (ha_Promised m) @
                  (if ha_ReadSeq m \<noteq> 0 then '', read_seq '' @ nat_dec (ha_ReadSeq m) else '''')\<rparr>)"

record feed =
  fd_self :: node_id
  fd_ring :: ring

definition NewFeed :: "node_id \<Rightarrow> feed option" where
  "NewFeed self = map_option (\<lambda>r. \<lparr>fd_self = self, fd_ring = r\<rparr>) (NewRing Capacity)"

definition feed_record :: "int \<Rightarrow> feed_event \<Rightarrow> feed \<Rightarrow> feed" where
  "feed_record now ev f = f\<lparr>fd_ring := fst (ring_Append (ev\<lparr>fe_Node := fd_self f, fe_AtMs := now\<rparr>) (fd_ring f))\<rparr>"

definition applied_summary :: "applied \<Rightarrow> string \<times> string" where
  "applied_summary a =
     (if ap_Err a \<noteq> None then (''undecodable'', ''skipped'')
      else if ap_NoOp a then (''noop'', [])
      else case (ap_Command a, ap_Result a) of
        (Some cmd, Some res) \<Rightarrow> (SummariseOp (cm_Op cmd), code_text (re_Code res) @ (if re_Replayed res then '', replayed'' else []))
      | _ \<Rightarrow> (''unknown'', []))"

definition applied_event :: "replica_status \<Rightarrow> applied \<Rightarrow> feed_event" where
  "applied_event cur a =
     (setBallot (st_Ballot cur) (no_event\<lparr>fe_Kind := KindApplied, fe_Slot := ap_Slot a, fe_CommitIndex := st_CommitIndex cur\<rparr>))
       \<lparr>fe_Value := fst (applied_summary a), fe_Detail := snd (applied_summary a)\<rparr>"

definition feed_Sent :: "command_json \<Rightarrow> int \<Rightarrow> envelope \<Rightarrow> feed \<Rightarrow> feed" where
  "feed_Sent j now env f = feed_record now (messageEvent j KindSend env) f"

definition feed_Received :: "command_json \<Rightarrow> int \<Rightarrow> envelope \<Rightarrow> feed \<Rightarrow> feed" where
  "feed_Received j now env f = feed_record now (messageEvent j KindRecv env) f"

definition change_events :: "replica_status \<Rightarrow> replica_status \<Rightarrow> applied list \<Rightarrow> feed_event list" where
  "change_events prev cur as =
     (if st_Role cur \<noteq> st_Role prev \<or> st_Leader cur \<noteq> st_Leader prev \<or> st_Ballot cur \<noteq> st_Ballot prev
      then [setBallot (st_Ballot cur) (no_event\<lparr>fe_Kind := KindRole, fe_Type := role_String (st_Role cur), fe_CommitIndex := st_CommitIndex cur,
              fe_Detail := (if st_Leader cur \<noteq> 0 then ''leader '' @ nat_dec (st_Leader cur) else ''leader unknown'')\<rparr>)]
      else []) @
     (if st_CommitIndex cur > st_CommitIndex prev
      then [setBallot (st_Ballot cur) (no_event\<lparr>fe_Kind := KindCommit, fe_CommitIndex := st_CommitIndex cur,
              fe_Detail := ''from '' @ nat_dec (st_CommitIndex prev)\<rparr>)]
      else []) @
     map (applied_event cur) as"

definition feed_Changed :: "int \<Rightarrow> replica_status \<Rightarrow> replica_status \<Rightarrow> applied list \<Rightarrow> feed \<Rightarrow> feed" where
  "feed_Changed now prev cur as f = fold (feed_record now) (change_events prev cur as) f"

section \<open>What the feed reveals\<close>

text \<open>Two commands look the same when they are the same operation on the same tournament, player, round and move number.\<close>

definition looks_same :: "op \<Rightarrow> op \<Rightarrow> bool" where
  "looks_same x y =
     (case x of
        CreateTournament a \<Rightarrow> (case y of CreateTournament b \<Rightarrow> ct_ID a = ct_ID b | _ \<Rightarrow> False)
      | Join a \<Rightarrow> (case y of Join b \<Rightarrow> jo_Tournament a = jo_Tournament b \<and> pl_ID (jo_Player a) = pl_ID (jo_Player b) | _ \<Rightarrow> False)
      | SubmitScore a \<Rightarrow> (case y of SubmitScore b \<Rightarrow> ss_Tournament a = ss_Tournament b \<and> ss_Player a = ss_Player b | _ \<Rightarrow> False)
      | Close a \<Rightarrow> (case y of Close b \<Rightarrow> cl_Tournament a = cl_Tournament b | _ \<Rightarrow> False)
      | Settle a \<Rightarrow> (case y of Settle b \<Rightarrow> se_Tournament a = se_Tournament b | _ \<Rightarrow> False)
      | OpenSession a \<Rightarrow> (case y of OpenSession b \<Rightarrow> os_Player a = os_Player b | _ \<Rightarrow> False)
      | Enter a \<Rightarrow> (case y of Enter b \<Rightarrow> et_Tournament a = et_Tournament b \<and> et_Player a = et_Player b | _ \<Rightarrow> False)
      | StartRound a \<Rightarrow> (case y of StartRound b \<Rightarrow> sr_Tournament a = sr_Tournament b \<and> sr_Player a = sr_Player b \<and> sr_Round a = sr_Round b | _ \<Rightarrow> False)
      | PlayMove a \<Rightarrow> (case y of PlayMove b \<Rightarrow> pm_Tournament a = pm_Tournament b \<and> pm_Player a = pm_Player b \<and> pm_Round a = pm_Round b \<and> pm_MoveIndex a = pm_MoveIndex b | _ \<Rightarrow> False)
      | FinishRound a \<Rightarrow> (case y of FinishRound b \<Rightarrow> fr_Tournament a = fr_Tournament b \<and> fr_Player a = fr_Player b \<and> fr_Round a = fr_Round b | _ \<Rightarrow> False)
      | ClaimPayout a \<Rightarrow> (case y of ClaimPayout b \<Rightarrow> cp_Tournament a = cp_Tournament b \<and> cp_Player a = cp_Player b | _ \<Rightarrow> False)
      | UnknownOp \<Rightarrow> y = UnknownOp)"

definition value_same :: "command_json \<Rightarrow> paxos_value \<Rightarrow> paxos_value \<Rightarrow> bool" where
  "value_same j v w \<longleftrightarrow> v = w \<or> v \<noteq> [] \<and> w \<noteq> [] \<and>
     (length v > MaxSummarisedValue \<and> length v = length w \<or>
      length v \<le> MaxSummarisedValue \<and> length w \<le> MaxSummarisedValue \<and>
      (case (Decode j v, Decode j w) of
         (Inl _, Inl _) \<Rightarrow> True
       | (Inr c, Inr d) \<Rightarrow> looks_same (cm_Op c) (cm_Op d)
       | _ \<Rightarrow> False))"

definition pv_same :: "pvalue \<Rightarrow> pvalue \<Rightarrow> bool" where
  "pv_same a b \<longleftrightarrow> pv_Slot a = pv_Slot b"

definition msg_same :: "command_json \<Rightarrow> message \<Rightarrow> message \<Rightarrow> bool" where
  "msg_same j x y =
     (case x of
        Accept b s v \<Rightarrow> (case y of Accept b' s' w \<Rightarrow> b = b' \<and> s = s' \<and> value_same j v w | _ \<Rightarrow> False)
      | Learn s b v \<Rightarrow> (case y of Learn s' b' w \<Rightarrow> b = b' \<and> s = s' \<and> value_same j v w | _ \<Rightarrow> False)
      | Promise m \<Rightarrow>
          (case y of
             Promise m' \<Rightarrow> pm_Ballot m = pm_Ballot m' \<and> pm_CommitIndex m = pm_CommitIndex m' \<and> list_all2 pv_same (pm_Accepted m) (pm_Accepted m')
           | _ \<Rightarrow> False)
      | _ \<Rightarrow> x = y)"

definition applied_same :: "applied \<Rightarrow> applied \<Rightarrow> bool" where
  "applied_same a b \<longleftrightarrow> ap_Slot a = ap_Slot b \<and> ap_NoOp a = ap_NoOp b \<and> (ap_Err a = None) = (ap_Err b = None) \<and>
     rel_option (\<lambda>c d. looks_same (cm_Op c) (cm_Op d)) (ap_Command a) (ap_Command b) \<and>
     rel_option (\<lambda>r s. re_Code r = re_Code s \<and> re_Replayed r = re_Replayed s) (ap_Result a) (ap_Result b)"

datatype observation = ObSent int envelope | ObReceived int envelope | ObChanged int replica_status replica_status "applied list"

fun observe :: "command_json \<Rightarrow> observation \<Rightarrow> feed \<Rightarrow> feed" where
  "observe j (ObSent now env) f = feed_Sent j now env f"
| "observe j (ObReceived now env) f = feed_Received j now env f"
| "observe j (ObChanged now prev cur as) f = feed_Changed now prev cur as f"

definition env_same :: "command_json \<Rightarrow> envelope \<Rightarrow> envelope \<Rightarrow> bool" where
  "env_same j e e' \<longleftrightarrow> nv_From e = nv_From e' \<and> nv_To e = nv_To e' \<and> msg_same j (nv_Msg e) (nv_Msg e')"

definition status_same :: "replica_status \<Rightarrow> replica_status \<Rightarrow> bool" where
  "status_same s t \<longleftrightarrow> st_Role s = st_Role t \<and> st_Leader s = st_Leader t \<and> st_Ballot s = st_Ballot t \<and> st_CommitIndex s = st_CommitIndex t"

fun ob_same :: "command_json \<Rightarrow> observation \<Rightarrow> observation \<Rightarrow> bool" where
  "ob_same j (ObSent t e) (ObSent t' e') \<longleftrightarrow> t = t' \<and> env_same j e e'"
| "ob_same j (ObReceived t e) (ObReceived t' e') \<longleftrightarrow> t = t' \<and> env_same j e e'"
| "ob_same j (ObChanged t p c as) (ObChanged t' p' c' as') \<longleftrightarrow> t = t' \<and> status_same p p' \<and> status_same c c' \<and> list_all2 applied_same as as'"
| "ob_same j _ _ \<longleftrightarrow> False"

lemma SummariseOp_same: "looks_same a b \<Longrightarrow> SummariseOp a = SummariseOp b"
  by (cases a; cases b) (simp_all add: looks_same_def SummariseOp_def)

lemma SummariseValue_same: "value_same j v w \<Longrightarrow> SummariseValue j v = SummariseValue j w"
  by (auto simp: value_same_def SummariseValue_def dest: SummariseOp_same split: sum.splits)

lemma list_all2_ends: "list_all2 P xs ys \<Longrightarrow> xs \<noteq> [] \<Longrightarrow> ys \<noteq> [] \<and> P (hd xs) (hd ys) \<and> P (last xs) (last ys)"
proof -
  assume a: "list_all2 P xs ys" "xs \<noteq> []"
  then have "ys \<noteq> []" by auto
  then show ?thesis using a by (simp add: list_all2_conv_all_nth hd_conv_nth last_conv_nth)
qed

lemma messageEvent_same:
  assumes "env_same j e e'"
  shows "messageEvent j k e = messageEvent j k e'"
proof -
  have n: "nv_From e = nv_From e'" "nv_To e = nv_To e'" and m: "msg_same j (nv_Msg e) (nv_Msg e')" using assms by (simp_all add: env_same_def)
  have t: "TypeName (nv_Msg e) = TypeName (nv_Msg e')" using m by (cases "nv_Msg e"; cases "nv_Msg e'") (simp_all add: msg_same_def TypeName_def)
  show ?thesis
  proof (cases "nv_Msg e")
    case (Promise p)
    then obtain q where q: "nv_Msg e' = Promise q" "pm_Ballot p = pm_Ballot q" "pm_CommitIndex p = pm_CommitIndex q"
      "list_all2 pv_same (pm_Accepted p) (pm_Accepted q)" using m by (cases "nv_Msg e'") (auto simp: msg_same_def)
    have "length (pm_Accepted p) = length (pm_Accepted q)" using q(4) by (rule list_all2_lengthD)
    then show ?thesis using Promise q n t list_all2_ends [OF q(4)]
      by (cases "pm_Accepted p = []") (simp_all add: messageEvent_def pv_same_def)
  qed (use m n t SummariseValue_same in \<open>cases "nv_Msg e'"; simp add: messageEvent_def msg_same_def\<close>)+
qed

lemma applied_summary_same: "applied_same a b \<Longrightarrow> applied_summary a = applied_summary b"
  by (cases "ap_Command a"; cases "ap_Command b"; cases "ap_Result a"; cases "ap_Result b")
    (auto simp: applied_same_def applied_summary_def dest: SummariseOp_same)

lemma applied_event_same:
  assumes "applied_same a b" "status_same c d"
  shows "applied_event c a = applied_event d b"
  using assms applied_summary_same [OF assms(1)] by (simp add: applied_same_def status_same_def applied_event_def)

lemma change_events_same:
  assumes "status_same p p'" "status_same c c'" "list_all2 applied_same as as'"
  shows "change_events p c as = change_events p' c' as'"
proof -
  have "map (applied_event c) as = map (applied_event c') as'"
    using assms(3) by (induction rule: list_all2_induct) (simp_all add: applied_event_same assms(2))
  then show ?thesis using assms(1,2) by (simp add: change_events_def status_same_def)
qed

lemma observe_same: "ob_same j a b \<Longrightarrow> observe j a f = observe j b f"
proof (induction j a b rule: ob_same.induct)
  case (3 j t p c as t' p' c' as')
  then show ?case using change_events_same [of p p' c c' as as'] by (simp add: feed_Changed_def)
qed (simp_all add: feed_Sent_def feed_Received_def messageEvent_same)

section \<open>Serving the feed (handler.go)\<close>

definition DefaultLimit :: nat where "DefaultLimit = 256"
definition MaxLimit :: nat where "MaxLimit = 1024"
definition MaxWait_ms :: nat where "MaxWait_ms = 2000"

text \<open>\<^verbatim>\<open>strconv.ParseUint\<close> in base 10 and 64 bits; \<^verbatim>\<open>url.Values\<close> maps a name to its values, of which the first counts.\<close>

definition ParseUint :: "string \<Rightarrow> nat option" where
  "ParseUint s =
     (if s = [] \<or> \<not> list_all (byte_between (CHR ''0'') (CHR ''9'')) s then None
      else let n = fold (\<lambda>c acc. 10 * acc + (of_char c - 48)) s 0 in if n < 2 ^ 64 then Some n else None)"

type_synonym query = "(string, string list) fmap"

definition query_Get :: "query \<Rightarrow> string \<Rightarrow> string" where
  "query_Get q name = (case fmlookup q name of Some (v # _) \<Rightarrow> v | _ \<Rightarrow> [])"

definition queryUint :: "query \<Rightarrow> string \<Rightarrow> nat \<Rightarrow> nat \<Rightarrow> nat \<Rightarrow> nat option" where
  "queryUint q name def lo hi =
     (if fmlookup q name = None then Some def
      else case ParseUint (query_Get q name) of None \<Rightarrow> None | Some n \<Rightarrow> if n < lo \<or> n > hi then None else Some n)"

datatype feed_response = MethodNotAllowed | Malformed string nat nat | Served node_id page

definition feed_Handler :: "string \<Rightarrow> query \<Rightarrow> ring list \<Rightarrow> feed \<Rightarrow> feed_response" where
  "feed_Handler verb q wakes f =
     (if verb \<noteq> ''GET'' \<and> verb \<noteq> ''HEAD'' then MethodNotAllowed
      else case queryUint q ''after'' 0 0 (2 ^ 64 - 1) of
        None \<Rightarrow> Malformed ''after'' 0 (2 ^ 64 - 1)
      | Some after \<Rightarrow>
          (case queryUint q ''limit'' DefaultLimit 1 MaxLimit of
             None \<Rightarrow> Malformed ''limit'' 1 MaxLimit
           | Some limit \<Rightarrow>
               (case queryUint q ''wait_ms'' 0 0 MaxWait_ms of
                  None \<Rightarrow> Malformed ''wait_ms'' 0 MaxWait_ms
                | Some waitMs \<Rightarrow>
                    (case queryUint q ''heartbeats'' 0 0 1 of
                       None \<Rightarrow> Malformed ''heartbeats'' 0 1
                     | Some heartbeats \<Rightarrow>
                         Served (fd_self f) (ring_Wait after (int limit) (heartbeats = 1) (int waitMs * Millisecond) wakes (fd_ring f))))))"

lemma queryUint_range: "queryUint q name def lo hi = Some n \<Longrightarrow> n = def \<or> lo \<le> n \<and> n \<le> hi"
  by (auto simp: queryUint_def split: if_splits option.splits)

lemma read_loop_length: "length (pg_Events p) \<le> limit \<Longrightarrow> length (pg_Events (read_loop r limit hb s p)) \<le> limit"
  by (induction r limit hb s p rule: read_loop.induct) (subst read_loop.simps, simp add: Let_def)

lemma ring_read_length: "length (pg_Events (ring_read a limit hb r)) \<le> nat (max limit 1)"
  by (auto simp: ring_read_def Let_def intro!: read_loop_length)

lemma wait_loop_length: "length (pg_Events p) \<le> nat (max limit 1) \<Longrightarrow> length (pg_Events (wait_loop limit hb wakes p)) \<le> nat (max limit 1)"
  by (induction wakes arbitrary: p) (simp_all add: Let_def ring_read_length)

text \<open>No response holds more than \<^verbatim>\<open>MaxLimit\<close> events, whatever is asked for and recorded.\<close>

lemma feed_Handler_bounded:
  assumes "feed_Handler verb q wakes f = Served i p"
  shows "length (pg_Events p) \<le> MaxLimit"
proof -
  from assms obtain after limit wait hb where l: "queryUint q ''limit'' DefaultLimit 1 MaxLimit = Some limit"
    and p: "p = ring_Wait after (int limit) hb wait wakes (fd_ring f)"
    by (auto simp: feed_Handler_def split: if_splits option.splits)
  have "length (pg_Events p) \<le> nat (max (int limit) 1)"
    by (auto simp: p ring_Wait_def Let_def ring_read_length wait_loop_length)
  moreover have "limit \<le> MaxLimit" "1 \<le> limit" using queryUint_range [OF l] by (auto simp: DefaultLimit_def MaxLimit_def)
  ultimately show ?thesis by simp
qed

section \<open>Properties\<close>


text \<open>The scores of two commands that differ in everything but the tournament and the player.\<close>

definition score_op :: "int \<Rightarrow> op" where
  "score_op n = SubmitScore \<lparr>ss_Tournament = ''t1'', ss_Player = ''p2'', ss_Score = n, ss_DealSeed = 7 * nat n, ss_InputDigest = itoa n\<rparr>"

definition score_applied :: "int \<Rightarrow> applied" where
  "score_applied n = \<lparr>ap_Slot = 4, ap_Key = itoa n, ap_Command = Some \<lparr>cm_Key = itoa n, cm_ReceivedAt = n, cm_Op = score_op n\<rparr>,
     ap_Result = Some key_reused, ap_NoOp = False, ap_Err = None\<rparr>"

definition score_status :: "nat \<Rightarrow> int \<Rightarrow> replica_status" where
  "score_status c n = \<lparr>st_Self = 1, st_Leader = 1, st_Role = Leader, st_Ballot = Ballot 2 1, st_Ready = True, st_CommitIndex = c, st_Applied = c,
     st_StateHash = itoa n, st_Tournaments = 1\<rparr>"

definition score_obs :: "int \<Rightarrow> observation list" where
  "score_obs n = [ObChanged 9 (score_status 3 n) (score_status 4 n) [score_applied n]]"

definition score_feed :: feed where
  "score_feed = \<lparr>fd_self = 1, fd_ring = the (NewRing 8)\<rparr>"


end
