(* ===== verification/Base64.thy ===== *)
theory Base64
  imports Prelude
begin

text \<open>
  What the session package uses of \<^verbatim>\<open>encoding/base64\<close>: \<^verbatim>\<open>RawURLEncoding.Strict()\<close>, the URL alphabet without padding whose
  unused low bits must be zero. The decoder skips line breaks, as the documentation of \<^verbatim>\<open>Strict\<close> says.
\<close>

definition b64_alphabet :: string where
  "b64_alphabet = ''ABCDEFGHIJKLMNOPQRSTUVWXYZabcdefghijklmnopqrstuvwxyz0123456789-_''"

definition b64_char :: "nat \<Rightarrow> char" where
  "b64_char n = b64_alphabet ! n"

definition b64_value :: "char \<Rightarrow> nat option" where
  "b64_value c = find (\<lambda>n. b64_char n = c) [0..<64]"

definition line_break :: "char \<Rightarrow> bool" where
  "line_break c \<longleftrightarrow> c = char_of (10 :: nat) \<or> c = char_of (13 :: nat)"

text \<open>Groups of six bits.\<close>

fun sextets :: "nat list \<Rightarrow> nat list" where
  "sextets (a # b # c # r) = (a div 4) # (a mod 4 * 16 + b div 16) # (b mod 16 * 4 + c div 64) # (c mod 64) # sextets r"
| "sextets [a, b] = [a div 4, a mod 4 * 16 + b div 16, b mod 16 * 4]"
| "sextets [a] = [a div 4, a mod 4 * 16]"
| "sextets [] = []"

fun octets :: "nat list \<Rightarrow> nat list option" where
  "octets (w # x # y # z # r) =
     map_option (\<lambda>bs. (w * 4 + x div 16) # (x mod 16 * 16 + y div 4) # (y mod 4 * 64 + z) # bs) (octets r)"
| "octets [w, x, y] = (if y mod 4 = 0 then Some [w * 4 + x div 16, x mod 16 * 16 + y div 4] else None)"
| "octets [w, x] = (if x mod 16 = 0 then Some [w * 4 + x div 16] else None)"
| "octets [w] = None"
| "octets [] = Some []"

fun b64_values :: "string \<Rightarrow> nat list option" where
  "b64_values [] = Some []"
| "b64_values (c # cs) = (case (b64_value c, b64_values cs) of (Some n, Some ns) \<Rightarrow> Some (n # ns) | _ \<Rightarrow> None)"

definition b64_encode :: "string \<Rightarrow> string" where
  "b64_encode s = map b64_char (sextets (map of_char s))"

definition b64_decode :: "string \<Rightarrow> string option" where
  "b64_decode s = map_option (map char_of) (Option.bind (b64_values (filter (\<lambda>c. \<not> line_break c) s)) octets)"

section \<open>The alphabet\<close>

lemma b64_alphabet_facts:
  "length b64_alphabet = 64" "distinct b64_alphabet" "list_all (\<lambda>c. c \<noteq> CHR ''.'' \<and> \<not> line_break c) b64_alphabet"
  by code_simp+

lemma b64_value_Some: "b64_value c = Some n \<longleftrightarrow> n < 64 \<and> b64_char n = c"
proof
  assume "b64_value c = Some n"
  then show "n < 64 \<and> b64_char n = c" by (auto simp: b64_value_def find_Some_iff)
next
  assume n: "n < 64 \<and> b64_char n = c"
  have "\<not> (\<exists>x. x \<in> set [0..<64] \<and> b64_char x = c)" if "b64_value c = None"
    using that by (simp add: b64_value_def find_None_iff)
  then obtain m where m: "b64_value c = Some m" using n by fastforce
  then have "m < 64 \<and> b64_char m = c" by (auto simp: b64_value_def find_Some_iff)
  then have "m = n" using n b64_alphabet_facts(1,2) by (auto simp: b64_char_def nth_eq_iff_index_eq)
  then show "b64_value c = Some n" using m by simp
qed

lemma b64_values_map: "(\<And>n. n \<in> set ns \<Longrightarrow> n < 64) \<Longrightarrow> b64_values (map b64_char ns) = Some ns"
proof (induction ns)
  case (Cons n ns)
  have "b64_value (b64_char n) = Some n" using Cons.prems b64_value_Some by simp
  then show ?case using Cons by simp
qed simp

lemma b64_values_Some: "b64_values s = Some ns \<Longrightarrow> s = map b64_char ns \<and> (\<forall>n \<in> set ns. n < 64)"
  by (induction s arbitrary: ns) (auto simp: b64_value_Some split: option.splits)

section \<open>Round trips\<close>

lemma sextets_less: "(\<And>b. b \<in> set bs \<Longrightarrow> b < 256) \<Longrightarrow> n \<in> set (sextets bs) \<Longrightarrow> n < 64"
proof (induction bs rule: sextets.induct)
  case (1 a b c r)
  then have "a < 256" "b < 256" "c < 256" by auto
  then have "a div 4 < 64" "a mod 4 * 16 + b div 16 < 64" "b mod 16 * 4 + c div 64 < 64" "c mod 64 < 64"
    by linarith+
  then show ?case using 1 by auto
next
  case (2 a b)
  then have "a < 256" "b < 256" by auto
  then have "a div 4 < 64" "a mod 4 * 16 + b div 16 < 64" "b mod 16 * 4 < 64" by linarith+
  then show ?case using 2 by auto
next
  case (3 a)
  then have "a < 256" by auto
  then have "a div 4 < 64" "a mod 4 * 16 < 64" by linarith+
  then show ?case using 3 by auto
qed auto

lemma digits: "r < k \<Longrightarrow> (q * k + r) div k = q" "r < k \<Longrightarrow> (q * k + r) mod k = r" for q k r :: nat
  by simp_all

lemma octets_sextets: "(\<And>b. b \<in> set bs \<Longrightarrow> b < 256) \<Longrightarrow> octets (sextets bs) = Some bs"
proof (induction bs rule: sextets.induct)
  case (1 a b c r)
  then have l: "b div 16 < 16" "c div 64 < 4" "octets (sextets r) = Some r" by (auto simp: less_mult_imp_div_less)
  show ?case by (simp add: l digits)
next
  case (2 a b)
  then have l: "b div 16 < 16" by (auto simp: less_mult_imp_div_less)
  show ?case by (simp add: l digits)
qed auto

lemma sextets_octets:
  "octets ns = Some bs \<Longrightarrow> (\<And>n. n \<in> set ns \<Longrightarrow> n < 64) \<Longrightarrow> sextets bs = ns \<and> (\<forall>b \<in> set bs. b < 256)"
proof (induction ns arbitrary: bs rule: octets.induct)
  case (1 w x y z r)
  then obtain cs where cs: "octets r = Some cs" "bs = (w * 4 + x div 16) # (x mod 16 * 16 + y div 4) # (y mod 4 * 64 + z) # cs" by auto
  have ih: "sextets cs = r" "\<forall>b \<in> set cs. b < 256" using 1 cs(1) by auto
  have l: "w < 64" "x < 64" "y < 64" "z < 64" using "1.prems"(2) by auto
  then have "x div 16 < 4" "y div 4 < 16" "w * 4 + x div 16 < 256" "x mod 16 * 16 + y div 4 < 256" "y mod 4 * 64 + z < 256" by linarith+
  then show ?case using ih l by (simp add: cs(2) digits)
next
  case (2 w x y)
  have l: "w < 64" "x < 64" "y < 64" "y mod 4 = 0" "bs = [w * 4 + x div 16, x mod 16 * 16 + y div 4]" using 2 by (auto split: if_splits)
  then have "x div 16 < 4" "y div 4 < 16" "w * 4 + x div 16 < 256" "x mod 16 * 16 + y div 4 < 256" by linarith+
  moreover have "y div 4 * 4 = y" using l(4) by auto
  ultimately show ?case by (simp add: l digits)
next
  case (3 w x)
  have l: "w < 64" "x < 64" "x mod 16 = 0" "bs = [w * 4 + x div 16]" using 3 by (auto split: if_splits)
  then have "x div 16 < 4" "w * 4 + x div 16 < 256" by linarith+
  moreover have "x div 16 * 16 = x" using l(3) by auto
  ultimately show ?case by (simp add: l digits)
qed auto

lemma b64_encode_set: "c \<in> set (b64_encode s) \<Longrightarrow> c \<noteq> CHR ''.'' \<and> \<not> line_break c"
proof -
  assume "c \<in> set (b64_encode s)"
  then obtain n where "n \<in> set (sextets (map of_char s))" "c = b64_char n" by (auto simp: b64_encode_def)
  moreover have "n < 64" by (rule sextets_less [OF _ calculation(1)]) (use char_less_256 in auto)
  ultimately have "c \<in> set b64_alphabet" using b64_alphabet_facts(1) by (simp add: b64_char_def)
  then show ?thesis using b64_alphabet_facts(3) by (simp add: list_all_iff)
qed

lemma b64_decode_encode [simp]: "b64_decode (b64_encode s) = Some s"
proof -
  have "filter (\<lambda>c. \<not> line_break c) (b64_encode s) = b64_encode s" using b64_encode_set by (simp add: filter_id_conv)
  moreover have "b64_values (b64_encode s) = Some (sextets (map of_char s))"
    unfolding b64_encode_def by (rule b64_values_map) (rule sextets_less; use char_less_256 in auto)
  moreover have "octets (sextets (map of_char s)) = Some (map of_char s)" by (rule octets_sextets) (use char_less_256 in auto)
  ultimately show ?thesis by (simp add: b64_decode_def comp_def)
qed

lemma b64_encode_decode:
  assumes "b64_decode t = Some s"
  shows "b64_encode s = filter (\<lambda>c. \<not> line_break c) t"
proof -
  from assms obtain ns bs where n: "b64_values (filter (\<lambda>c. \<not> line_break c) t) = Some ns" "octets ns = Some bs" "s = map char_of bs"
    by (auto simp: b64_decode_def bind_eq_Some_conv)
  note v = b64_values_Some [OF n(1)]
  then have "sextets bs = ns" "\<forall>b \<in> set bs. b < 256" using sextets_octets [OF n(2)] by auto
  moreover have "map of_char s = bs" using n(3) \<open>\<forall>b \<in> set bs. b < 256\<close> by (auto simp: map_idI)
  ultimately show ?thesis using v by (simp add: b64_encode_def)
qed

lemma length_sextets: "length (sextets bs) \<le> 2 * length bs"
  by (induction bs rule: sextets.induct) auto

lemma length_b64_encode: "length (b64_encode s) \<le> 2 * length s"
  using length_sextets [of "map of_char s"] by (simp add: b64_encode_def)

end
