(* ===== verification/Session.thy ===== *)
theory Session
  imports Base64
begin

text \<open>
  Package \<^verbatim>\<open>internal/session\<close>: key rings and session tokens. HMAC-SHA256, SHA-256 and the JSON codec of claims are arguments;
  splitting, trimming, hexadecimal and base64 text are modelled.

  \<^item> \<open>cj_Encode\<close> is what \<^verbatim>\<open>json.Encoder.Encode\<close> writes, with its final line break, or nothing when it fails.
  \<^item> \<open>cj_Decode\<close> is the value \<^verbatim>\<open>Decoder.Decode\<close> reads with unknown fields refused, and whether \<^verbatim>\<open>More\<close> then sees another one.
\<close>

section \<open>Strings\<close>

text \<open>\<^verbatim>\<open>strings.Split\<close> on one character, \<^verbatim>\<open>strings.Cut\<close> and \<^verbatim>\<open>strings.TrimSpace\<close>, which trims the white space of Unicode in UTF-8.\<close>

fun Split :: "char \<Rightarrow> string \<Rightarrow> string list" where
  "Split sep [] = [[]]"
| "Split sep (c # cs) =
     (if c = sep then [] # Split sep cs
      else case Split sep cs of [] \<Rightarrow> [[c]] | w # ws \<Rightarrow> (c # w) # ws)"

definition Cut :: "char \<Rightarrow> string \<Rightarrow> string \<times> string \<times> bool" where
  "Cut sep s =
     (if sep \<in> set s then (takeWhile (\<lambda>c. c \<noteq> sep) s, drop 1 (dropWhile (\<lambda>c. c \<noteq> sep) s), True) else (s, [], False))"

definition spaces :: "string list" where
  "spaces = map (map char_of) ([[9], [10], [11], [12], [13], [32], [194, 133], [194, 160], [225, 154, 128], [226, 128, 168],
     [226, 128, 169], [226, 128, 175], [226, 129, 159], [227, 128, 128]] @ map (\<lambda>n. [226, 128, n]) [128..<139 :: nat])"

function strip :: "string list \<Rightarrow> string \<Rightarrow> string" where
  "strip ws s =
     (case find (\<lambda>w. w \<noteq> [] \<and> take (length w) s = w) ws of None \<Rightarrow> s | Some w \<Rightarrow> strip ws (drop (length w) s))"
  by pat_completeness auto
termination by (relation "measure (length \<circ> snd)") (auto simp: find_Some_iff intro!: diff_less)

declare strip.simps [simp del]

definition TrimSpace :: "string \<Rightarrow> string" where
  "TrimSpace s = rev (strip (map rev spaces) (rev (strip spaces s)))"

section \<open>Keys and claims\<close>

definition Version :: string where "Version = ''v1''"
definition MaxTTL_ms :: int where "MaxTTL_ms = 24 * 60 * 60 * 1000"
definition Leeway_ms :: int where "Leeway_ms = 30 * 1000"
definition MinKeyBytes :: nat where "MinKeyBytes = 32"
definition MaxKeyIDLen :: nat where "MaxKeyIDLen = 16"
definition MaxTokenLen :: nat where "MaxTokenLen = 1024"
definition DeviceIDLen :: nat where "DeviceIDLen = 32"
definition DeviceSecretLen :: nat where "DeviceSecretLen = 64"
definition VerifierDomain :: string where "VerifierDomain = ''paxos-arena/device/v1''"

record session_key =
  sk_ID :: string
  sk_Secret :: string

record keyring =
  kr_Keys :: "session_key list"

record claims =
  cl_Player :: string
  cl_Device :: string
  cl_IssuedAtMs :: int
  cl_ExpiresAtMs :: int

datatype token_error = ErrMalformed | ErrUnknownKey | ErrBadMAC | ErrExpired | ErrNotYetValid | ErrLifetime

datatype keyring_error =
    ErrNoKeys | ErrWeakKey string nat | ErrBadKeyID | ErrDuplicateKeyID string | ErrBadKeySpec "string option"

definition key_id_char :: "char \<Rightarrow> bool" where
  "key_id_char c \<longleftrightarrow> byte_between (CHR ''a'') (CHR ''z'') c \<or> byte_between (CHR ''0'') (CHR ''9'') c \<or> c = CHR ''-''"

definition ValidKeyID :: "string \<Rightarrow> bool" where
  "ValidKeyID i \<longleftrightarrow> \<not> (length i < 1 \<or> length i > MaxKeyIDLen) \<and> list_all key_id_char i"

text \<open>\<^verbatim>\<open>ParseKeyring\<close>: the two loops, over lines and over the entries of a line, thread the keys read so far; a key id is \<^verbatim>\<open>seen\<close> when one of them has it.\<close>

definition parse_entry :: "string \<Rightarrow> session_key list \<Rightarrow> keyring_error + session_key list" where
  "parse_entry e ks =
     (let entry = TrimSpace e
      in if entry = [] then Inr ks
         else case Cut (CHR ''='') entry of (i, hexKey, ok) \<Rightarrow>
           if \<not> ok then Inl (ErrBadKeySpec None)
           else
             (let kid = TrimSpace i
              in if \<not> ValidKeyID kid then Inl ErrBadKeyID
                 else case hex_decode (TrimSpace hexKey) of
                   None \<Rightarrow> Inl (ErrBadKeySpec (Some kid))
                 | Some secret \<Rightarrow>
                     if length secret < MinKeyBytes then Inl (ErrWeakKey kid (length secret))
                     else if kid \<in> sk_ID ` set ks then Inl (ErrDuplicateKeyID kid)
                     else Inr (ks @ [\<lparr>sk_ID = kid, sk_Secret = secret\<rparr>])))"

fun parse_entries :: "string list \<Rightarrow> session_key list \<Rightarrow> keyring_error + session_key list" where
  "parse_entries [] ks = Inr ks"
| "parse_entries (e # es) ks = (case parse_entry e ks of Inl err \<Rightarrow> Inl err | Inr ks' \<Rightarrow> parse_entries es ks')"

fun parse_lines :: "string list \<Rightarrow> session_key list \<Rightarrow> keyring_error + session_key list" where
  "parse_lines [] ks = Inr ks"
| "parse_lines (l # ls) ks =
     (let line = TrimSpace l
      in if line = [] \<or> take 1 line = ''#'' then parse_lines ls ks
         else case parse_entries (Split (CHR '','') line) ks of Inl err \<Rightarrow> Inl err | Inr ks' \<Rightarrow> parse_lines ls ks')"

fun validate_keys :: "string list \<Rightarrow> session_key list \<Rightarrow> keyring_error option" where
  "validate_keys seen [] = None"
| "validate_keys seen (k # ks) =
     (if \<not> ValidKeyID (sk_ID k) then Some ErrBadKeyID
      else if length (sk_Secret k) < MinKeyBytes then Some (ErrWeakKey (sk_ID k) (length (sk_Secret k)))
      else if sk_ID k \<in> set seen then Some (ErrDuplicateKeyID (sk_ID k))
      else validate_keys (sk_ID k # seen) ks)"

definition keyring_Validate :: "keyring \<Rightarrow> keyring_error option" where
  "keyring_Validate k = (if kr_Keys k = [] then Some ErrNoKeys else validate_keys [] (kr_Keys k))"

definition ParseKeyring :: "string \<Rightarrow> keyring_error + keyring" where
  "ParseKeyring spec =
     (case parse_lines (Split (char_of (10 :: nat)) spec) [] of
        Inl err \<Rightarrow> Inl err
      | Inr ks \<Rightarrow> (case keyring_Validate \<lparr>kr_Keys = ks\<rparr> of Some err \<Rightarrow> Inl err | None \<Rightarrow> Inr \<lparr>kr_Keys = ks\<rparr>))"

definition find_key :: "keyring \<Rightarrow> string \<Rightarrow> session_key option" where
  "find_key k i = find (\<lambda>key. sk_ID key = i) (kr_Keys k)"

section \<open>Tokens\<close>

record claims_json =
  cj_Encode :: "claims \<Rightarrow> string option"
  cj_Decode :: "string \<Rightarrow> (claims \<times> bool) option"

type_synonym mac_fun = "string \<Rightarrow> string \<Rightarrow> string"

definition TrimSuffix :: "string \<Rightarrow> string \<Rightarrow> string" where
  "TrimSuffix x s = (if length x \<le> length s \<and> drop (length s - length x) s = x then take (length s - length x) s else s)"

definition encodeClaims :: "claims_json \<Rightarrow> claims \<Rightarrow> string option" where
  "encodeClaims cj c = map_option (TrimSuffix [char_of (10 :: nat)]) (cj_Encode cj c)"

datatype sign_error = SignNoKeys | EncodeFailed

definition Sign :: "mac_fun \<Rightarrow> claims_json \<Rightarrow> keyring \<Rightarrow> claims \<Rightarrow> sign_error + string" where
  "Sign mac cj k c =
     (case kr_Keys k of
        [] \<Rightarrow> Inl SignNoKeys
      | key # _ \<Rightarrow>
          (case encodeClaims cj c of
             None \<Rightarrow> Inl EncodeFailed
           | Some payload \<Rightarrow>
               (let signed = Version @ ''.'' @ sk_ID key @ ''.'' @ b64_encode payload
                in Inr (signed @ ''.'' @ b64_encode (mac (sk_Secret key) signed)))))"

definition parse_payload :: "claims_json \<Rightarrow> string \<Rightarrow> claims option" where
  "parse_payload cj payload =
     (case cj_Decode cj payload of
        None \<Rightarrow> None
      | Some (c, again) \<Rightarrow> if again then None else if encodeClaims cj c = Some payload then Some c else None)"

definition check_times :: "claims \<Rightarrow> int \<Rightarrow> token_error option" where
  "check_times c nowMs =
     (if cl_ExpiresAtMs c < cl_IssuedAtMs c \<or> s64 (cl_ExpiresAtMs c - cl_IssuedAtMs c) > MaxTTL_ms then Some ErrLifetime
      else if cl_IssuedAtMs c > s64 (nowMs + Leeway_ms) then Some ErrNotYetValid
      else if nowMs > s64 (cl_ExpiresAtMs c + Leeway_ms) then Some ErrExpired
      else None)"

definition Verify :: "mac_fun \<Rightarrow> claims_json \<Rightarrow> keyring \<Rightarrow> string \<Rightarrow> int \<Rightarrow> token_error + claims" where
  "Verify mac cj k token nowMs =
     (if length token > MaxTokenLen then Inl ErrMalformed
      else case Split (CHR ''.'') token of
        [p0, p1, p2, p3] \<Rightarrow>
          if p0 \<noteq> Version \<or> \<not> ValidKeyID p1 then Inl ErrMalformed
          else (case b64_decode p2 of
            None \<Rightarrow> Inl ErrMalformed
          | Some payload \<Rightarrow>
              (case b64_decode p3 of
                 None \<Rightarrow> Inl ErrMalformed
               | Some given \<Rightarrow>
                   if length given \<noteq> 32 then Inl ErrMalformed
                   else (case parse_payload cj payload of
                     None \<Rightarrow> Inl ErrMalformed
                   | Some c \<Rightarrow>
                       (case find_key k p1 of
                          None \<Rightarrow> Inl ErrUnknownKey
                        | Some key \<Rightarrow>
                            (let signed = take (length p0 + 1 + length p1 + 1 + length p2) token
                             in if mac (sk_Secret key) signed \<noteq> given then Inl ErrBadMAC
                                else case check_times c nowMs of Some err \<Rightarrow> Inl err | None \<Rightarrow> Inr c)))))
      | _ \<Rightarrow> Inl ErrMalformed)"

section \<open>Devices\<close>

definition lowerHex :: "string \<Rightarrow> nat \<Rightarrow> bool" where
  "lowerHex s n \<longleftrightarrow> length s = n \<and> list_all lower_hex s"

definition ValidDeviceID :: "string \<Rightarrow> bool" where
  "ValidDeviceID i \<longleftrightarrow> lowerHex i DeviceIDLen"

definition ValidDeviceSecret :: "string \<Rightarrow> bool" where
  "ValidDeviceSecret s \<longleftrightarrow> lowerHex s DeviceSecretLen"

definition NewVerifier :: "(string \<Rightarrow> string) \<Rightarrow> string \<Rightarrow> string option" where
  "NewVerifier sha secretHex =
     (if \<not> ValidDeviceSecret secretHex then None
      else case hex_decode secretHex of
        None \<Rightarrow> None
      | Some secret \<Rightarrow> Some (sha (VerifierDomain @ [char_of (0 :: nat)] @ secret)))"

section \<open>Splitting\<close>

lemma Split_nonempty: "Split sep s \<noteq> []"
  by (cases s) (auto split: list.splits)

lemma Split_word: "sep \<notin> set w \<Longrightarrow> Split sep w = [w]"
  by (induction w) auto

lemma Split_cons: "sep \<notin> set w \<Longrightarrow> Split sep (w @ sep # s) = w # Split sep s"
  by (induction w) (auto split: list.splits)

lemma Split_join:
  "Split sep s = p # ps \<Longrightarrow> s = p @ concat (map ((#) sep) ps) \<and> (\<forall>x \<in> set (p # ps). sep \<notin> set x)"
proof (induction s arbitrary: p ps)
  case (Cons c cs)
  obtain q qs where q: "Split sep cs = q # qs" using Split_nonempty by (cases "Split sep cs") auto
  note ih = Cons.IH [OF q]
  show ?case
  proof (cases "c = sep")
    case True
    then have "p = []" "ps = q # qs" using Cons.prems q by auto
    then show ?thesis using ih True by simp
  next
    case False
    then have "p = c # q" "ps = qs" using Cons.prems q by auto
    then show ?thesis using ih False by simp
  qed
qed auto

lemma last_part: "a @ sep # x = b @ sep # y \<Longrightarrow> sep \<notin> set x \<Longrightarrow> sep \<notin> set y \<Longrightarrow> a = b \<and> x = y"
  by (auto simp: append_eq_append_conv2 Cons_eq_append_conv append_eq_Cons_conv)

lemma ValidKeyID_no_dot: "ValidKeyID i \<Longrightarrow> CHR ''.'' \<notin> set i"
  by (auto simp: ValidKeyID_def list_all_iff key_id_char_def byte_between_def less_eq_char_def)

section \<open>Key rings\<close>

definition keys_ok :: "session_key list \<Rightarrow> bool" where
  "keys_ok ks \<longleftrightarrow> distinct (map sk_ID ks) \<and> (\<forall>k \<in> set ks. ValidKeyID (sk_ID k) \<and> MinKeyBytes \<le> length (sk_Secret k))"

lemma validate_keys_None:
  "validate_keys seen ks = None \<longleftrightarrow> keys_ok ks \<and> sk_ID ` set ks \<inter> set seen = {}"
  by (induction ks arbitrary: seen) (auto simp: keys_ok_def)

lemma Validate_None: "keyring_Validate k = None \<longleftrightarrow> kr_Keys k \<noteq> [] \<and> keys_ok (kr_Keys k)"
  by (simp add: keyring_Validate_def validate_keys_None)

lemma parse_entry_ok: "parse_entry e ks = Inr ks' \<Longrightarrow> keys_ok ks \<Longrightarrow> keys_ok ks' \<and> (\<exists>zs. ks' = ks @ zs)"
  by (auto simp: parse_entry_def keys_ok_def Let_def split: if_splits prod.splits option.splits)

lemma parse_entries_ok: "parse_entries es ks = Inr ks' \<Longrightarrow> keys_ok ks \<Longrightarrow> keys_ok ks'"
  by (induction es arbitrary: ks) (auto split: sum.splits dest: parse_entry_ok)

lemma parse_lines_ok: "parse_lines ls ks = Inr ks' \<Longrightarrow> keys_ok ks \<Longrightarrow> keys_ok ks'"
  by (induction ls arbitrary: ks) (auto simp: Let_def split: sum.splits if_splits dest: parse_entries_ok)

lemma find_key_first: "keyring_Validate k = None \<Longrightarrow> key \<in> set (kr_Keys k) \<Longrightarrow> find_key k (sk_ID key) = Some key"
proof -
  assume v: "keyring_Validate k = None" "key \<in> set (kr_Keys k)"
  have "distinct (map sk_ID ks) \<Longrightarrow> key \<in> set ks \<Longrightarrow> find (\<lambda>x. sk_ID x = sk_ID key) ks = Some key" for ks
    by (induction ks) (auto simp: image_iff)
  then show ?thesis using v by (auto simp: find_key_def Validate_None keys_ok_def)
qed

section \<open>Verification\<close>

lemma Version_no_dot: "CHR ''.'' \<notin> set Version"
  by code_simp

lemma token_parts:
  assumes "ValidKeyID i" "CHR ''.'' \<notin> set p" "CHR ''.'' \<notin> set m"
  shows "Split (CHR ''.'') ((Version @ ''.'' @ i @ ''.'' @ p) @ ''.'' @ m) = [Version, i, p, m]"
  using assms Version_no_dot ValidKeyID_no_dot [OF assms(1)] by (simp add: Split_cons Split_word)

lemma Verify_parts:
  assumes "token = (Version @ ''.'' @ i @ ''.'' @ p) @ ''.'' @ m" "ValidKeyID i" "CHR ''.'' \<notin> set p" "CHR ''.'' \<notin> set m"
    "b64_decode p = Some payload" "b64_decode m = Some given" "length given = 32" "parse_payload cj payload = Some c"
    "find_key k i = Some key" "length token \<le> MaxTokenLen" "check_times c now = None"
  shows "Verify mac cj k token now = (if mac (sk_Secret key) (Version @ ''.'' @ i @ ''.'' @ p) = given then Inr c else Inl ErrBadMAC)"
proof -
  have s: "take (length Version + 1 + length i + 1 + length p) token = Version @ ''.'' @ i @ ''.'' @ p"
    by (simp add: assms(1) Version_def)
  have "Split (CHR ''.'') token = [Version, i, p, m]" unfolding assms(1) by (rule token_parts) (rule assms)+
  then show ?thesis using assms(2-11) s by (simp add: Verify_def Let_def)
qed

lemma Verify_Inr:
  assumes "Verify mac cj k token now = Inr c"
  obtains i p m payload key where "token = (Version @ ''.'' @ i @ ''.'' @ p) @ ''.'' @ m" "find_key k i = Some key"
    "b64_decode p = Some payload" "b64_decode m = Some (mac (sk_Secret key) (Version @ ''.'' @ i @ ''.'' @ p))"
    "parse_payload cj payload = Some c" "check_times c now = None" "ValidKeyID i" "CHR ''.'' \<notin> set p" "CHR ''.'' \<notin> set m"
    "length (mac (sk_Secret key) (Version @ ''.'' @ i @ ''.'' @ p)) = 32"
proof -
  from assms obtain i p m payload given key where s: "Split (CHR ''.'') token = [Version, i, p, m]" "ValidKeyID i"
    "b64_decode p = Some payload" "b64_decode m = Some given" "parse_payload cj payload = Some c" "find_key k i = Some key"
    "mac (sk_Secret key) (take (length Version + 1 + length i + 1 + length p) token) = given" "check_times c now = None" "length given = 32"
    by (auto simp: Verify_def Let_def split: if_splits list.splits option.splits)
  note j = Split_join [OF s(1)]
  have t: "token = (Version @ ''.'' @ i @ ''.'' @ p) @ ''.'' @ m" using j by simp
  moreover have "take (length Version + 1 + length i + 1 + length p) token = Version @ ''.'' @ i @ ''.'' @ p"
    by (simp add: t Version_def)
  moreover have "CHR ''.'' \<notin> set p" "CHR ''.'' \<notin> set m" using j by simp_all
  ultimately show thesis using that s by simp
qed

lemma parse_payload_canonical: "parse_payload cj payload = Some c \<Longrightarrow> encodeClaims cj c = Some payload"
  by (auto simp: parse_payload_def split: option.splits if_splits)

lemma Verify_accepts:
  assumes token: "Sign mac cj k c = Inr token" "length token \<le> MaxTokenLen" and k: "kr_Keys k = key # rest"
    and find: "find_key k' (sk_ID key) = Some key" and i: "ValidKeyID (sk_ID key)"
    and json: "cj_Encode cj c = Some (payload @ [char_of (10 :: nat)])" "cj_Decode cj payload = Some (c, False)"
    and hmac: "\<And>key t. length (mac key t) = 32" and times: "check_times c now = None"
  shows "Verify mac cj k' token now = Inr c"
proof -
  have e: "encodeClaims cj c = Some payload" by (simp add: encodeClaims_def json TrimSuffix_def)
  let ?signed = "Version @ ''.'' @ sk_ID key @ ''.'' @ b64_encode payload"
  have t: "token = ?signed @ ''.'' @ b64_encode (mac (sk_Secret key) ?signed)" using token(1) by (simp add: Sign_def k e Let_def)
  have "parse_payload cj payload = Some c" by (simp add: parse_payload_def json(2) e)
  then show ?thesis
    using Verify_parts [OF t i _ _ b64_decode_encode b64_decode_encode hmac _ find token(2) times] b64_encode_set by fastforce
qed

text \<open>
  The decoder skips line breaks, and the mac does not cover its own text: line breaks can be added to or removed from the
  last part of an accepted token.
\<close>

lemma mac_line_breaks:
  assumes v: "Verify mac cj k (s @ ''.'' @ m) now = Inr c" and m: "CHR ''.'' \<notin> set m" "CHR ''.'' \<notin> set m'"
    and f: "filter (\<lambda>x. \<not> line_break x) m' = filter (\<lambda>x. \<not> line_break x) m" and l: "length (s @ ''.'' @ m') \<le> MaxTokenLen"
  shows "Verify mac cj k (s @ ''.'' @ m') now = Inr c"
proof -
  obtain i p m0 payload key where t: "s @ ''.'' @ m = (Version @ ''.'' @ i @ ''.'' @ p) @ ''.'' @ m0" "find_key k i = Some key"
    "b64_decode p = Some payload" "b64_decode m0 = Some (mac (sk_Secret key) (Version @ ''.'' @ i @ ''.'' @ p))"
    "parse_payload cj payload = Some c" "check_times c now = None" "ValidKeyID i" "CHR ''.'' \<notin> set p" "CHR ''.'' \<notin> set m0"
    "length (mac (sk_Secret key) (Version @ ''.'' @ i @ ''.'' @ p)) = 32" by (rule Verify_Inr [OF v])
  have same: "s = Version @ ''.'' @ i @ ''.'' @ p" "m0 = m" using last_part [of s "CHR ''.''" m "Version @ ''.'' @ i @ ''.'' @ p" m0] t(1,9) m(1) by simp_all
  have "b64_decode m' = Some (mac (sk_Secret key) s)" using t(4) same f by (simp add: b64_decode_def)
  then show ?thesis using Verify_parts [OF _ t(7,8) m(2) t(3) _ _ t(5,2) l t(6)] same t(10) by simp
qed

lemma s64_above: "2 ^ 63 \<le> x \<Longrightarrow> x < 2 ^ 64 \<Longrightarrow> s64 x < 0"
proof -
  assume x: "2 ^ 63 \<le> x" "x < 2 ^ 64"
  have "(x + 2 ^ 63) mod 2 ^ 64 = (x + 2 ^ 63 - 2 ^ 64) mod 2 ^ 64" by (simp only: minus_mod_self2)
  also have "\<dots> = x + 2 ^ 63 - 2 ^ 64" using x by (intro mod_pos_pos_trivial) auto
  finally show ?thesis using x by (simp add: s64_def)
qed

lemma check_times_exact:
  assumes "check_times c now = None"
    and s: "in_s64 (cl_IssuedAtMs c)" "in_s64 (cl_ExpiresAtMs c)" "0 \<le> now" "now < 2 ^ 62"
  shows "cl_IssuedAtMs c \<le> cl_ExpiresAtMs c \<and> (0 \<le> cl_IssuedAtMs c \<longrightarrow> cl_ExpiresAtMs c - cl_IssuedAtMs c \<le> MaxTTL_ms) \<and>
    cl_IssuedAtMs c \<le> now + Leeway_ms \<and> now \<le> cl_ExpiresAtMs c + Leeway_ms"
proof -
  have c: "cl_IssuedAtMs c \<le> cl_ExpiresAtMs c" "s64 (cl_ExpiresAtMs c - cl_IssuedAtMs c) \<le> MaxTTL_ms"
    "cl_IssuedAtMs c \<le> s64 (now + Leeway_ms)" "now \<le> s64 (cl_ExpiresAtMs c + Leeway_ms)"
    using assms(1) by (auto simp: check_times_def split: if_splits)
  have "s64 (now + Leeway_ms) = now + Leeway_ms" by (rule s64_id) (use s in \<open>simp add: in_s64_def Leeway_ms_def\<close>)
  moreover have "s64 (cl_ExpiresAtMs c - cl_IssuedAtMs c) = cl_ExpiresAtMs c - cl_IssuedAtMs c" if "0 \<le> cl_IssuedAtMs c"
    by (rule s64_id) (use s c that in \<open>simp add: in_s64_def\<close>)
  moreover have "s64 (cl_ExpiresAtMs c + Leeway_ms) \<le> cl_ExpiresAtMs c + Leeway_ms"
  proof (cases "cl_ExpiresAtMs c + Leeway_ms < 2 ^ 63")
    case True
    then have "s64 (cl_ExpiresAtMs c + Leeway_ms) = cl_ExpiresAtMs c + Leeway_ms"
      using s by (intro s64_id) (simp add: in_s64_def Leeway_ms_def)
    then show ?thesis by simp
  next
    case False
    then have "s64 (cl_ExpiresAtMs c + Leeway_ms) < 0" using s by (intro s64_above) (simp_all add: in_s64_def Leeway_ms_def)
    then show ?thesis using c(4) s by linarith
  qed
  ultimately show ?thesis using c by auto
qed

section \<open>Properties\<close>

text \<open>
  C33. Only well-formed key rings start a replica: a ring that \<^verbatim>\<open>ParseKeyring\<close> returns has at least one key, distinct valid
  ids and keys of at least 32 bytes, and every key of it is the one its id finds.
\<close>

theorem ParseKeyring_wf:
  assumes "ParseKeyring spec = Inr k"
  shows "keyring_Validate k = None \<and> kr_Keys k \<noteq> [] \<and> keys_ok (kr_Keys k) \<and>
    (\<forall>key \<in> set (kr_Keys k). find_key k (sk_ID key) = Some key)"
proof -
  from assms have v: "keyring_Validate k = None" by (auto simp: ParseKeyring_def split: sum.splits option.splits)
  then show ?thesis using find_key_first Validate_None by blast
qed

definition sample_spec :: string where
  "sample_spec = ''# keys'' @ [char_of (10 :: nat)] @ '' k-2 = '' @ hex_encode (replicate 32 CHR ''s'') @ '', k1='' @
     hex_encode (replicate 40 CHR ''t'') @ [char_of (13 :: nat), char_of (10 :: nat)]"

definition sample_keyring :: keyring where
  "sample_keyring = \<lparr>kr_Keys = [\<lparr>sk_ID = ''k-2'', sk_Secret = replicate 32 CHR ''s''\<rparr>, \<lparr>sk_ID = ''k1'', sk_Secret = replicate 40 CHR ''t''\<rparr>]\<rparr>"

theorem ParseKeyring_wf_witness:
  "ParseKeyring sample_spec = Inr sample_keyring \<and> find_key sample_keyring ''k1'' = Some \<lparr>sk_ID = ''k1'', sk_Secret = replicate 40 CHR ''t''\<rparr>"
proof -
  have p: "ParseKeyring sample_spec = Inr sample_keyring" by code_simp
  from ParseKeyring_wf [OF p] have "\<forall>key \<in> set (kr_Keys sample_keyring). find_key sample_keyring (sk_ID key) = Some key" by blast
  then have "find_key sample_keyring ''k1'' = Some \<lparr>sk_ID = ''k1'', sk_Secret = replicate 40 CHR ''t''\<rparr>" by (simp add: sample_keyring_def)
  with p show ?thesis by blast
qed

text \<open>
  C32. A token verifies on every replica that holds the signing key, wherever the key stands in its ring: within the
  lifetime of the claims and the leeway of the clocks, \<^verbatim>\<open>Verify\<close> returns exactly the claims \<^verbatim>\<open>Sign\<close> was given. The JSON codec
  must read back the claims it wrote, a mac has 32 bytes, and the token must fit in its bound.
\<close>

theorem Sign_Verify:
  assumes ring: "keyring_Validate k = None" "keyring_Validate k' = None" "hd (kr_Keys k) \<in> set (kr_Keys k')"
    and json: "cj_Encode cj c = Some (payload @ [char_of (10 :: nat)])" "cj_Decode cj payload = Some (c, False)"
    and hmac: "\<And>key t. length (mac key t) = 32"
    and token: "Sign mac cj k c = Inr token" "length token \<le> MaxTokenLen"
    and times: "0 \<le> cl_IssuedAtMs c" "cl_IssuedAtMs c \<le> cl_ExpiresAtMs c" "cl_ExpiresAtMs c - cl_IssuedAtMs c \<le> MaxTTL_ms"
      "cl_IssuedAtMs c - Leeway_ms \<le> now" "now \<le> cl_ExpiresAtMs c + Leeway_ms" "cl_ExpiresAtMs c < 2 ^ 62"
  shows "Verify mac cj k' token now = Inr c"
proof -
  obtain key rest where k: "kr_Keys k = key # rest" using ring(1) by (cases "kr_Keys k") (auto simp: Validate_None)
  have i: "ValidKeyID (sk_ID key)" using ring(1) k by (auto simp: Validate_None keys_ok_def)
  have find: "find_key k' (sk_ID key) = Some key" using find_key_first [OF ring(2) ring(3)] k by simp
  have "s64 (cl_ExpiresAtMs c - cl_IssuedAtMs c) = cl_ExpiresAtMs c - cl_IssuedAtMs c" "s64 (now + Leeway_ms) = now + Leeway_ms"
    "s64 (cl_ExpiresAtMs c + Leeway_ms) = cl_ExpiresAtMs c + Leeway_ms"
    by (rule s64_id; use times in \<open>simp add: in_s64_def Leeway_ms_def MaxTTL_ms_def\<close>)+
  then have "check_times c now = None" using times by (simp add: check_times_def)
  then show ?thesis by (rule Verify_accepts [OF token k find i json hmac])
qed

text \<open>
  C31. Only signed tokens verify: whatever a client sends, when \<^verbatim>\<open>Verify\<close> accepts it then a key of the ring has a mac for
  the very text before the last dot, the token ends in that mac and its payload is the canonical encoding of the claims
  returned, each up to line breaks in the base64 text. At the verifying replica's clock the claims have been issued and have
  not expired, up to the leeway; their lifetime is within the maximum when they are not issued before 1970.
\<close>

theorem Verify_only_signed:
  assumes v: "Verify mac cj k token now = Inr c"
    and s: "in_s64 (cl_IssuedAtMs c)" "in_s64 (cl_ExpiresAtMs c)" "0 \<le> now" "now < 2 ^ 62"
  shows "(\<exists>key p m payload. key \<in> set (kr_Keys k) \<and> token = (Version @ ''.'' @ sk_ID key @ ''.'' @ p) @ ''.'' @ m \<and>
      encodeClaims cj c = Some payload \<and> filter (\<lambda>x. \<not> line_break x) p = b64_encode payload \<and>
      filter (\<lambda>x. \<not> line_break x) m = b64_encode (mac (sk_Secret key) (Version @ ''.'' @ sk_ID key @ ''.'' @ p))) \<and>
    cl_IssuedAtMs c \<le> cl_ExpiresAtMs c \<and> (0 \<le> cl_IssuedAtMs c \<longrightarrow> cl_ExpiresAtMs c - cl_IssuedAtMs c \<le> MaxTTL_ms) \<and>
    cl_IssuedAtMs c \<le> now + Leeway_ms \<and> now \<le> cl_ExpiresAtMs c + Leeway_ms"
proof -
  obtain i p m payload key where t: "token = (Version @ ''.'' @ i @ ''.'' @ p) @ ''.'' @ m" "find_key k i = Some key"
    "b64_decode p = Some payload" "b64_decode m = Some (mac (sk_Secret key) (Version @ ''.'' @ i @ ''.'' @ p))"
    and pp: "parse_payload cj payload = Some c" and ct: "check_times c now = None" by (rule Verify_Inr [OF v])
  note enc = parse_payload_canonical [OF pp]
  have key: "key \<in> set (kr_Keys k)" "sk_ID key = i" using t(2) by (auto simp: find_key_def find_Some_iff)
  note b = b64_encode_decode [OF t(3)] b64_encode_decode [OF t(4)]
  have signed: "\<exists>key p m payload. key \<in> set (kr_Keys k) \<and> token = (Version @ ''.'' @ sk_ID key @ ''.'' @ p) @ ''.'' @ m \<and>
      encodeClaims cj c = Some payload \<and> filter (\<lambda>x. \<not> line_break x) p = b64_encode payload \<and>
      filter (\<lambda>x. \<not> line_break x) m = b64_encode (mac (sk_Secret key) (Version @ ''.'' @ sk_ID key @ ''.'' @ p))"
    using key t b enc by metis
  show ?thesis using signed check_times_exact [OF ct s] by blast
qed

section \<open>A sample codec\<close>

text \<open>A small injective text for claims, for the examples: the fields in order, separated by bars.\<close>

definition sample_text :: "claims \<Rightarrow> string" where
  "sample_text c = cl_Player c @ ''|'' @ cl_Device c @ ''|'' @ itoa (cl_IssuedAtMs c) @ ''|'' @ itoa (cl_ExpiresAtMs c)"

definition sample_claims :: claims where
  "sample_claims = \<lparr>cl_Player = ''ada'', cl_Device = ''d1'', cl_IssuedAtMs = 1000, cl_ExpiresAtMs = 3601000\<rparr>"

definition sample_cj :: claims_json where
  "sample_cj = \<lparr>cj_Encode = (\<lambda>c. Some (sample_text c @ [char_of (10 :: nat)])),
     cj_Decode = (\<lambda>s. if s = sample_text sample_claims then Some (sample_claims, False) else None)\<rparr>"

definition sample_mac :: mac_fun where
  "sample_mac key t = take 32 (rev t @ key @ replicate 32 CHR ''x'')"

definition sample_token :: string where
  "sample_token = projr (Sign sample_mac sample_cj sample_keyring sample_claims)"

lemma sample_mac_length: "length (sample_mac key t) = 32"
  by (simp add: sample_mac_def)

lemma sample_rings: "keyring_Validate sample_keyring = None" "keyring_Validate \<lparr>kr_Keys = rev (kr_Keys sample_keyring)\<rparr> = None"
  by code_simp+

lemma sample_signed: "Sign sample_mac sample_cj sample_keyring sample_claims = Inr sample_token" "length sample_token \<le> MaxTokenLen"
proof -
  have e: "encodeClaims sample_cj sample_claims = Some (sample_text sample_claims)"
    by (simp add: encodeClaims_def sample_cj_def TrimSuffix_def)
  show "Sign sample_mac sample_cj sample_keyring sample_claims = Inr sample_token"
    by (simp add: sample_token_def Sign_def sample_keyring_def e Let_def)
  have "length (sample_text sample_claims) = 19" by code_simp
  then have p: "length (b64_encode (sample_text sample_claims)) \<le> 38" using length_b64_encode [of "sample_text sample_claims"] by simp
  have m: "length (b64_encode (sample_mac key t)) \<le> 64" for key t
    using length_b64_encode [of "sample_mac key t"] by (simp add: sample_mac_length)
  show "length sample_token \<le> MaxTokenLen"
    using add_mono [OF p m] by (simp add: sample_token_def Sign_def sample_keyring_def e Let_def Version_def MaxTokenLen_def) (rule order_trans, assumption, simp)
qed

theorem Sign_Verify_witness:
  "Verify sample_mac sample_cj \<lparr>kr_Keys = rev (kr_Keys sample_keyring)\<rparr> sample_token 5000 = Inr sample_claims"
  by (rule Sign_Verify [where payload = "sample_text sample_claims", OF sample_rings _ _ _ sample_mac_length sample_signed(1,2)])
    (simp_all add: sample_keyring_def sample_cj_def sample_claims_def MaxTTL_ms_def Leeway_ms_def)

theorem Verify_only_signed_witness:
  "Verify sample_mac sample_cj sample_keyring sample_token 5000 = Inr sample_claims \<and>
   cl_IssuedAtMs sample_claims \<le> 5000 + Leeway_ms \<and> 5000 \<le> cl_ExpiresAtMs sample_claims + Leeway_ms"
proof -
  have "find_key sample_keyring ''k-2'' = Some \<lparr>sk_ID = ''k-2'', sk_Secret = replicate 32 CHR ''s''\<rparr>" "ValidKeyID ''k-2''"
    "check_times sample_claims 5000 = None" by code_simp+
  then have v: "Verify sample_mac sample_cj sample_keyring sample_token 5000 = Inr sample_claims"
    by (intro Verify_accepts [where payload = "sample_text sample_claims" and key = "\<lparr>sk_ID = ''k-2'', sk_Secret = replicate 32 CHR ''s''\<rparr>"
        and rest = "tl (kr_Keys sample_keyring)", OF sample_signed(1,2) _ _ _ _ _ sample_mac_length])
      (simp_all add: sample_keyring_def sample_cj_def)
  have "in_s64 (cl_IssuedAtMs sample_claims)" "in_s64 (cl_ExpiresAtMs sample_claims)"
    by (simp_all add: in_s64_def sample_claims_def)
  from Verify_only_signed [OF v this] v show ?thesis by simp
qed

end
