(* ===== verification/Wire.thy ===== *)
theory Wire
  imports LogBase Jsonx
begin

text \<open>
  Package \<^verbatim>\<open>internal/replog\<close>, \<^verbatim>\<open>codec.go\<close>: the wire form of a message between nodes. The JSON encoder and decoder of the
  standard library are the functions of \<open>wire_json\<close>; the decoder of a body is chosen by the type name.
\<close>

record wireEnvelope =
  we_From :: node_id
  we_To :: node_id
  we_Type :: string
  we_Body :: string

record wire_json =
  wj_body :: "message \<Rightarrow> string option"
  wj_wire :: "wireEnvelope \<Rightarrow> string option"
  wj_readWire :: "string \<Rightarrow> (wireEnvelope \<times> int) option"
  wj_readBody :: "string \<Rightarrow> string \<Rightarrow> (message \<times> int) option"

datatype wire_encode_error = UnknownMessage | BodyNotEncoded string | WireNotEncoded

datatype wire_decode_error =
    WireMalformed strict_error | ZeroNode | WireMissingBody | UnknownType string | BodyMalformed string strict_error

definition wire_Encode :: "wire_json \<Rightarrow> envelope \<Rightarrow> wire_encode_error + string" where
  "wire_Encode j env =
     (let typ = TypeName (nv_Msg env)
      in if typ = [] then Inl UnknownMessage
         else case wj_body j (nv_Msg env) of
           None \<Rightarrow> Inl (BodyNotEncoded typ)
         | Some body \<Rightarrow>
             (case wj_wire j \<lparr>we_From = nv_From env, we_To = nv_To env, we_Type = typ, we_Body = body\<rparr> of
                None \<Rightarrow> Inl WireNotEncoded
              | Some b \<Rightarrow> Inr b))"

definition message_types :: "string list" where
  "message_types = [''prepare'', ''promise'', ''accept'', ''accepted'', ''nack'', ''learn'', ''learn_request'', ''heartbeat'', ''heartbeat_ack'']"

definition wire_Decode :: "wire_json \<Rightarrow> string \<Rightarrow> wire_decode_error + envelope" where
  "wire_Decode j b =
     (case DecodeStrict (wj_readWire j) b of
        Inl e \<Rightarrow> Inl (WireMalformed e)
      | Inr w \<Rightarrow>
          if we_From w = 0 \<or> we_To w = 0 then Inl ZeroNode
          else if we_Body w = [] then Inl WireMissingBody
          else if we_Type w \<notin> set message_types then Inl (UnknownType (we_Type w))
          else (case DecodeStrict (wj_readBody j (we_Type w)) (we_Body w) of
                  Inl e \<Rightarrow> Inl (BodyMalformed (we_Type w) e)
                | Inr m \<Rightarrow> Inr \<lparr>nv_From = we_From w, nv_To = we_To w, nv_Msg = m\<rparr>))"

section \<open>Round trip\<close>

lemma TypeName_known: "TypeName m \<in> set message_types"
  by (cases m) (simp_all add: TypeName_def message_types_def)

text \<open>What is relied on of the JSON codec at one message: reading what was written gives it back, and no value is written as the empty text.\<close>

definition wire_reads_back :: "wire_json \<Rightarrow> envelope \<Rightarrow> bool" where
  "wire_reads_back j env \<longleftrightarrow>
     (\<forall>body. wj_body j (nv_Msg env) = Some body \<longrightarrow>
        body \<noteq> [] \<and> wj_readBody j (TypeName (nv_Msg env)) body = Some (nv_Msg env, int (length body)) \<and>
        (let w = \<lparr>we_From = nv_From env, we_To = nv_To env, we_Type = TypeName (nv_Msg env), we_Body = body\<rparr>
         in \<forall>b. wj_wire j w = Some b \<longrightarrow> wj_readWire j b = Some (w, int (length b))))"

lemma wire_Decode_from: "wire_Decode j b = Inr env \<Longrightarrow> nv_From env \<noteq> 0 \<and> nv_To env \<noteq> 0"
  by (auto simp: wire_Decode_def split: sum.splits if_splits)

lemma wire_read:
  assumes "wire_reads_back j env" "nv_From env \<noteq> 0" "nv_To env \<noteq> 0" "wire_Encode j env = Inr b"
  shows "wire_Decode j b = Inr env"
proof -
  let ?w = "\<lambda>body. \<lparr>we_From = nv_From env, we_To = nv_To env, we_Type = TypeName (nv_Msg env), we_Body = body\<rparr>"
  from assms(4) obtain body where e: "wj_body j (nv_Msg env) = Some body" "wj_wire j (?w body) = Some b"
    by (auto simp: wire_Encode_def Let_def split: if_splits option.splits)
  then have l: "body \<noteq> []" "wj_readBody j (TypeName (nv_Msg env)) body = Some (nv_Msg env, int (length body))"
    "wj_readWire j b = Some (?w body, int (length b))" using assms(1) by (auto simp: wire_reads_back_def Let_def)
  show ?thesis using DecodeStrict_whole [of "wj_readWire j", OF l(3)] DecodeStrict_whole [of "wj_readBody j (TypeName (nv_Msg env))", OF l(2)]
      l(1) assms(2,3) TypeName_known by (simp add: wire_Decode_def)
qed

text \<open>A message that is read from a text that was written is the one that was written.\<close>

lemma wire_read_same:
  assumes "wire_reads_back j env" "wire_Encode j env = Inr b" "wire_Decode j b = Inr env'"
  shows "env' = env"
proof (cases "nv_From env \<noteq> 0 \<and> nv_To env \<noteq> 0")
  case True
  then show ?thesis using wire_read [OF assms(1) _ _ assms(2)] assms(3) by simp
next
  case False
  from assms(2) obtain body where e: "wj_body j (nv_Msg env) = Some body"
    "wj_wire j \<lparr>we_From = nv_From env, we_To = nv_To env, we_Type = TypeName (nv_Msg env), we_Body = body\<rparr> = Some b"
    by (auto simp: wire_Encode_def Let_def split: if_splits option.splits)
  then have "wj_readWire j b = Some (\<lparr>we_From = nv_From env, we_To = nv_To env, we_Type = TypeName (nv_Msg env), we_Body = body\<rparr>, int (length b))"
    using assms(1) by (auto simp: wire_reads_back_def Let_def)
  then have "wire_Decode j b = Inl ZeroNode" using False by (auto simp: wire_Decode_def dest: DecodeStrict_whole)
  then show ?thesis using assms(3) by simp
qed


text \<open>A codec that can write one message, an accept request from node 1 to node 2.\<close>

definition sample_accept :: message where
  "sample_accept = Accept (Ballot 3 1) 7 ''pay''"

definition sample_wj :: wire_json where
  "sample_wj =
     (let w = \<lparr>we_From = 1, we_To = 2, we_Type = ''accept'', we_Body = ''7''\<rparr>
      in \<lparr>wj_body = (\<lambda>m. if m = sample_accept then Some ''7'' else None), wj_wire = (\<lambda>x. if x = w then Some ''127'' else None),
          wj_readWire = (\<lambda>b. if b = ''127'' then Some (w, 3) else None),
          wj_readBody = (\<lambda>t b. if b = ''7'' then Some (sample_accept, 1) else None)\<rparr>)"

definition sample_env :: envelope where
  "sample_env = \<lparr>nv_From = 1, nv_To = 2, nv_Msg = sample_accept\<rparr>"

lemma sample_wj_reads: "wire_reads_back sample_wj env"
  by (simp add: wire_reads_back_def sample_wj_def Let_def)

lemma sample_env_encodes: "wire_Encode sample_wj sample_env = Inr ''127''"
  by (simp add: wire_Encode_def sample_wj_def sample_env_def sample_accept_def TypeName_def Let_def)


end
