(* ===== verification/Transport.thy ===== *)
theory Transport
  imports LogBase
begin

text \<open>
  Package \<^verbatim>\<open>internal/transport\<close>, \<^verbatim>\<open>network.go\<close> and \<^verbatim>\<open>local.go\<close>: the fault-injecting network of the simulator and the bus
  between replicas in one process. What every transport promises to the log nodes is the locale \<open>transport\<close>: it may lose,
  repeat and reorder, but hands over only messages that were sent, to the node they are addressed to.

  \<^item> The values the random source returns in one \<^verbatim>\<open>Send\<close> are an argument, \<open>draws\<close>. Probabilities are rational numbers.
  \<^item> \<^verbatim>\<open>container/heap\<close> is a list kept in the order of \<^verbatim>\<open>Less\<close>: sequence numbers differ, so that order is total and the
    layout of the heap cannot be observed.
  \<^item> \<^verbatim>\<open>Int64N\<close> panics on a bound that is not positive; the panic is \<open>None\<close>.
\<close>

section \<open>What a transport promises\<close>

locale transport =
  fixes init :: "'s \<Rightarrow> bool"
    and step :: "'s \<Rightarrow> 's \<Rightarrow> bool"
    and inv :: "'s \<Rightarrow> bool"
    and sent :: "'s \<Rightarrow> envelope set"
    and handed :: "'s \<Rightarrow> (node_id \<times> envelope) set"
  assumes init_inv: "init s \<Longrightarrow> inv s \<and> handed s = {}"
    and step_inv: "step s s' \<Longrightarrow> inv s \<Longrightarrow> inv s'"
    and step_sent: "step s s' \<Longrightarrow> sent s \<subseteq> sent s'"
    and step_handed: "step s s' \<Longrightarrow> inv s \<Longrightarrow> (i, e) \<in> handed s' \<Longrightarrow> (i, e) \<in> handed s \<or> e \<in> sent s' \<and> nv_To e = i"
begin

lemma steps_inv: "step\<^sup>*\<^sup>* s s' \<Longrightarrow> init s \<Longrightarrow> inv s'"
  by (induction rule: rtranclp_induct) (auto simp: init_inv step_inv)

lemma invents_nothing: "step\<^sup>*\<^sup>* s s' \<Longrightarrow> init s \<Longrightarrow> (i, e) \<in> handed s' \<Longrightarrow> e \<in> sent s' \<and> nv_To e = i"
proof (induction rule: rtranclp_induct)
  case base
  then show ?case by (simp add: init_inv)
next
  case (step s1 s2)
  then have "inv s1" using steps_inv by blast
  with step show ?case using step_handed step_sent by blast
qed

end

section \<open>The simulated network (network.go)\<close>

record faults =
  fa_DropP :: rat
  fa_DupP :: rat
  fa_MinDelay :: int
  fa_MaxDelay :: int

record net_stats =
  ns_Sent :: nat
  ns_Delivered :: nat
  ns_Dropped :: nat
  ns_Duplicated :: nat
  ns_Blocked :: nat

definition no_stats :: net_stats where
  "no_stats = \<lparr>ns_Sent = 0, ns_Delivered = 0, ns_Dropped = 0, ns_Duplicated = 0, ns_Blocked = 0\<rparr>"

record delivery =
  dl_at :: int
  dl_seq :: nat
  dl_env :: envelope

definition dl_key :: "delivery \<Rightarrow> int \<times> nat" where
  "dl_key d = (dl_at d, dl_seq d)"

definition delivery_Less :: "delivery \<Rightarrow> delivery \<Rightarrow> bool" where
  "delivery_Less a b \<longleftrightarrow> (if dl_at a \<noteq> dl_at b then dl_at a < dl_at b else dl_seq a < dl_seq b)"

record network =
  nw_faults :: faults
  nw_heap :: "delivery list"
  nw_seq :: nat
  nw_blocked :: "(node_id \<times> node_id) fset"
  nw_filter :: "(envelope \<Rightarrow> bool) option"
  nw_stats :: net_stats

record draws =
  dw_drop :: rat
  dw_dup :: rat
  dw_delay1 :: int
  dw_delay2 :: int

definition NewNetwork :: "faults \<Rightarrow> network" where
  "NewNetwork f = \<lparr>nw_faults = f, nw_heap = [], nw_seq = 0, nw_blocked = {||}, nw_filter = None, nw_stats = no_stats\<rparr>"

definition SetFaults :: "faults \<Rightarrow> network \<Rightarrow> network" where
  "SetFaults f n = n\<lparr>nw_faults := f\<rparr>"

definition SetFilter :: "(envelope \<Rightarrow> bool) option \<Rightarrow> network \<Rightarrow> network" where
  "SetFilter f n = n\<lparr>nw_filter := f\<rparr>"

definition net_delay :: "faults \<Rightarrow> int \<Rightarrow> int option" where
  "net_delay f draw =
     (let lo = (if fa_MinDelay f < 0 then 0 else fa_MinDelay f); hi = fa_MaxDelay f
      in if hi \<le> lo then Some lo
         else if s64 (hi - lo + 1) \<le> 0 then None
         else Some (s64 (lo + draw)))"

definition heap_Push :: "delivery \<Rightarrow> delivery list \<Rightarrow> delivery list" where
  "heap_Push d h = insort_key dl_key d h"

definition net_push :: "int \<Rightarrow> envelope \<Rightarrow> int \<Rightarrow> network \<Rightarrow> network option" where
  "net_push now env draw n =
     (case net_delay (nw_faults n) draw of
        None \<Rightarrow> None
      | Some delay \<Rightarrow>
          Some (n\<lparr>nw_seq := nw_seq n + 1, nw_heap := heap_Push \<lparr>dl_at = s64 (now + delay), dl_seq = nw_seq n + 1, dl_env = env\<rparr> (nw_heap n)\<rparr>))"

definition net_blocks :: "network \<Rightarrow> envelope \<Rightarrow> bool" where
  "net_blocks n env \<longleftrightarrow> (nv_From env, nv_To env) |\<in>| nw_blocked n \<or> (case nw_filter n of None \<Rightarrow> False | Some f \<Rightarrow> f env)"

definition net_Send :: "int \<Rightarrow> envelope \<Rightarrow> draws \<Rightarrow> network \<Rightarrow> network option" where
  "net_Send now env dw n0 =
     (let n = n0\<lparr>nw_stats := (nw_stats n0)\<lparr>ns_Sent := ns_Sent (nw_stats n0) + 1\<rparr>\<rparr>; st = nw_stats n
      in if net_blocks n env then Some (n\<lparr>nw_stats := st\<lparr>ns_Blocked := ns_Blocked st + 1\<rparr>\<rparr>)
         else if fa_DropP (nw_faults n) > 0 \<and> dw_drop dw < fa_DropP (nw_faults n)
         then Some (n\<lparr>nw_stats := st\<lparr>ns_Dropped := ns_Dropped st + 1\<rparr>\<rparr>)
         else case net_push now env (dw_delay1 dw) n of
           None \<Rightarrow> None
         | Some n1 \<Rightarrow>
             if fa_DupP (nw_faults n1) > 0 \<and> dw_dup dw < fa_DupP (nw_faults n1)
             then net_push now env (dw_delay2 dw) (n1\<lparr>nw_stats := st\<lparr>ns_Duplicated := ns_Duplicated st + 1\<rparr>\<rparr>)
             else Some n1)"

definition net_Next :: "network \<Rightarrow> network \<times> (int \<times> envelope) option" where
  "net_Next n =
     (case nw_heap n of
        [] \<Rightarrow> (n, None)
      | d # ds \<Rightarrow>
          (n\<lparr>nw_heap := ds, nw_stats := (nw_stats n)\<lparr>ns_Delivered := ns_Delivered (nw_stats n) + 1\<rparr>\<rparr>, Some (dl_at d, dl_env d)))"

definition net_PeekTime :: "network \<Rightarrow> int option" where
  "net_PeekTime n = (case nw_heap n of [] \<Rightarrow> None | d # _ \<Rightarrow> Some (dl_at d))"

definition net_Pending :: "network \<Rightarrow> nat" where
  "net_Pending n = length (nw_heap n)"

definition net_Block :: "node_id \<Rightarrow> node_id \<Rightarrow> bool \<Rightarrow> network \<Rightarrow> network" where
  "net_Block a b on n = n\<lparr>nw_blocked := (if on then finsert (a, b) (nw_blocked n) else nw_blocked n |-| {|(a, b)|})\<rparr>"

definition net_Blocked :: "node_id \<Rightarrow> node_id \<Rightarrow> network \<Rightarrow> bool" where
  "net_Blocked a b n \<longleftrightarrow> (a, b) |\<in>| nw_blocked n"

definition net_Split :: "node_id list list \<Rightarrow> network \<Rightarrow> network" where
  "net_Split groups n =
     fold (\<lambda>(i, g). fold (\<lambda>(j, h). if i = j then id else fold (\<lambda>a. fold (\<lambda>b. net_Block a b True) h) g) (enumerate 0 groups)) (enumerate 0 groups) n"

definition net_Heal :: "network \<Rightarrow> network" where
  "net_Heal n = n\<lparr>nw_blocked := {||}, nw_filter := None\<rparr>"

definition net_Discard :: "(envelope \<Rightarrow> bool) \<Rightarrow> network \<Rightarrow> network \<times> nat" where
  "net_Discard match n =
     (let removed = length (filter (\<lambda>d. match (dl_env d)) (nw_heap n))
      in (n\<lparr>nw_heap := filter (\<lambda>d. \<not> match (dl_env d)) (nw_heap n),
            nw_stats := (nw_stats n)\<lparr>ns_Dropped := ns_Dropped (nw_stats n) + removed\<rparr>\<rparr>, removed))"

definition net_Purge :: "node_id \<Rightarrow> network \<Rightarrow> network" where
  "net_Purge node n =
     n\<lparr>nw_heap := filter (\<lambda>d. nv_To (dl_env d) \<noteq> node) (nw_heap n),
       nw_stats := (nw_stats n)\<lparr>ns_Dropped := ns_Dropped (nw_stats n) + length (filter (\<lambda>d. nv_To (dl_env d) = node) (nw_heap n))\<rparr>\<rparr>"

text \<open>A sequence of calls, with what \<^verbatim>\<open>Next\<close> returned.\<close>

datatype net_call =
    CSend int envelope draws | CNext | CBlock node_id node_id bool | CSplit "node_id list list" | CHeal | CPurge node_id
  | CDiscard "envelope \<Rightarrow> bool" | CFilter "(envelope \<Rightarrow> bool) option" | CFaults faults

definition net_call_run :: "net_call \<Rightarrow> network \<Rightarrow> (network \<times> (int \<times> envelope) list) option" where
  "net_call_run c n =
     (case c of
        CSend now env dw \<Rightarrow> map_option (\<lambda>n'. (n', [])) (net_Send now env dw n)
      | CNext \<Rightarrow> (case net_Next n of (n', r) \<Rightarrow> Some (n', case r of None \<Rightarrow> [] | Some x \<Rightarrow> [x]))
      | CBlock a b on \<Rightarrow> Some (net_Block a b on n, [])
      | CSplit gs \<Rightarrow> Some (net_Split gs n, [])
      | CHeal \<Rightarrow> Some (net_Heal n, [])
      | CPurge i \<Rightarrow> Some (net_Purge i n, [])
      | CDiscard m \<Rightarrow> Some (fst (net_Discard m n), [])
      | CFilter f \<Rightarrow> Some (SetFilter f n, [])
      | CFaults f \<Rightarrow> Some (SetFaults f n, []))"

fun net_run :: "net_call list \<Rightarrow> network \<Rightarrow> (network \<times> (int \<times> envelope) list) option" where
  "net_run [] n = Some (n, [])"
| "net_run (c # cs) n =
     (case net_call_run c n of
        None \<Rightarrow> None
      | Some (n', out) \<Rightarrow> map_option (\<lambda>(n'', out'). (n'', out @ out')) (net_run cs n'))"

section \<open>Nothing is lost track of\<close>

definition sends :: "net_call list \<Rightarrow> envelope list" where
  "sends cs = List.map_filter (\<lambda>c. case c of CSend now env dw \<Rightarrow> Some env | _ \<Rightarrow> None) cs"

lemma sends_simps [simp]: "sends [] = []" "sends (CSend now env dw # cs) = env # sends cs"
  "\<lbrakk>\<And>now env dw. c \<noteq> CSend now env dw\<rbrakk> \<Longrightarrow> sends (c # cs) = sends cs"
  by (auto simp: sends_def List.map_filter_simps split: net_call.splits)

definition balanced :: "network \<Rightarrow> bool" where
  "balanced n \<longleftrightarrow> (let st = nw_stats n in ns_Sent st + ns_Duplicated st = ns_Delivered st + ns_Dropped st + ns_Blocked st + length (nw_heap n)) \<and>
     sorted (map dl_key (nw_heap n)) \<and> distinct (map dl_seq (nw_heap n)) \<and> (\<forall>d \<in> set (nw_heap n). dl_seq d \<le> nw_seq n)"

definition queued :: "network \<Rightarrow> envelope set" where
  "queued n = dl_env ` set (nw_heap n)"

lemma stats_only [simp]: "net_blocks (n\<lparr>nw_stats := x\<rparr>) env = net_blocks n env" "queued (n\<lparr>nw_stats := x\<rparr>) = queued n"
  by (simp_all add: net_blocks_def queued_def)

lemma Less_key: "delivery_Less a b \<longleftrightarrow> dl_key a < dl_key b"
  by (auto simp: delivery_Less_def dl_key_def less_prod_def')

lemma push_facts:
  assumes "net_push now env draw n = Some n'" and "sorted (map dl_key (nw_heap n))" "distinct (map dl_seq (nw_heap n))"
    "\<forall>d \<in> set (nw_heap n). dl_seq d \<le> nw_seq n"
  shows "length (nw_heap n') = length (nw_heap n) + 1" "nw_stats n' = nw_stats n" "nw_faults n' = nw_faults n" "queued n' = insert env (queued n)"
    "sorted (map dl_key (nw_heap n'))" "distinct (map dl_seq (nw_heap n'))" "\<forall>d \<in> set (nw_heap n'). dl_seq d \<le> nw_seq n'"
proof -
  from assms(1) obtain delay where n': "n' = n\<lparr>nw_seq := nw_seq n + 1,
      nw_heap := heap_Push \<lparr>dl_at = s64 (now + delay), dl_seq = nw_seq n + 1, dl_env = env\<rparr> (nw_heap n)\<rparr>"
    by (auto simp: net_push_def split: option.splits)
  show "length (nw_heap n') = length (nw_heap n) + 1" "nw_stats n' = nw_stats n" "nw_faults n' = nw_faults n" "queued n' = insert env (queued n)"
    by (simp_all add: n' heap_Push_def queued_def set_insort_key)
  show "sorted (map dl_key (nw_heap n'))" using assms(2) by (simp add: n' heap_Push_def sorted_insort_key)
  have "mset (map dl_seq (nw_heap n')) = mset (map dl_seq ((\<lparr>dl_at = s64 (now + delay), dl_seq = nw_seq n + 1, dl_env = env\<rparr>) # nw_heap n))"
    by (simp add: n' heap_Push_def)
  moreover have "distinct (map dl_seq ((\<lparr>dl_at = s64 (now + delay), dl_seq = nw_seq n + 1, dl_env = env\<rparr>) # nw_heap n))"
    using assms(3,4) by auto
  ultimately show "distinct (map dl_seq (nw_heap n'))" using mset_eq_imp_distinct_iff by blast
  show "\<forall>d \<in> set (nw_heap n'). dl_seq d \<le> nw_seq n'" using assms(4) by (auto simp: n' heap_Push_def set_insort_key)
qed

lemma balancedD:
  assumes "balanced n"
  shows "sorted (map dl_key (nw_heap n))" "distinct (map dl_seq (nw_heap n))" "\<forall>d \<in> set (nw_heap n). dl_seq d \<le> nw_seq n"
    "ns_Sent (nw_stats n) + ns_Duplicated (nw_stats n) =
       ns_Delivered (nw_stats n) + ns_Dropped (nw_stats n) + ns_Blocked (nw_stats n) + length (nw_heap n)"
  using assms by (simp_all add: balanced_def Let_def)

lemma Send_facts:
  assumes s: "net_Send now env dw n = Some n'" and b: "balanced n"
  shows "balanced n' \<and> queued n' \<subseteq> insert env (queued n) \<and> ns_Sent (nw_stats n') = ns_Sent (nw_stats n) + 1 \<and>
    ns_Delivered (nw_stats n') = ns_Delivered (nw_stats n) \<and> (net_blocks n env \<longrightarrow> queued n' = queued n)"
proof -
  note b' = balancedD [OF b]
  let ?n = "n\<lparr>nw_stats := (nw_stats n)\<lparr>ns_Sent := ns_Sent (nw_stats n) + 1\<rparr>\<rparr>"
  consider (refused) "net_blocks n env \<or> fa_DropP (nw_faults n) > 0 \<and> dw_drop dw < fa_DropP (nw_faults n)"
    | (queued) n1 where "\<not> net_blocks n env" "net_push now env (dw_delay1 dw) ?n = Some n1"
      "n' = n1 \<or> net_push now env (dw_delay2 dw) (n1\<lparr>nw_stats := (nw_stats ?n)\<lparr>ns_Duplicated := ns_Duplicated (nw_stats ?n) + 1\<rparr>\<rparr>) = Some n'"
    using s by (auto simp: net_Send_def Let_def split: if_splits option.splits)
  then show ?thesis
  proof cases
    case refused
    then show ?thesis using s b' by (auto simp: net_Send_def Let_def balanced_def queued_def split: if_splits)
  next
    case (queued n1)
    have p: "sorted (map dl_key (nw_heap ?n))" "distinct (map dl_seq (nw_heap ?n))" "\<forall>d \<in> set (nw_heap ?n). dl_seq d \<le> nw_seq ?n" using b' by simp_all
    note f = push_facts [OF queued(2) p]
    let ?n1 = "n1\<lparr>nw_stats := (nw_stats ?n)\<lparr>ns_Duplicated := ns_Duplicated (nw_stats ?n) + 1\<rparr>\<rparr>"
    have q: "sorted (map dl_key (nw_heap ?n1))" "distinct (map dl_seq (nw_heap ?n1))" "\<forall>d \<in> set (nw_heap ?n1). dl_seq d \<le> nw_seq ?n1" using f by simp_all
    show ?thesis
    proof (cases "n' = n1")
      case True
      then show ?thesis using f b' queued(1) by (simp add: balanced_def Let_def)
    next
      case False
      then have dup: "net_push now env (dw_delay2 dw) ?n1 = Some n'" using queued(3) by blast
      note g = push_facts [OF dup q]
      show ?thesis using f g b' queued(1) by (simp add: balanced_def Let_def)
    qed
  qed
qed

lemma Block_sel [simp]: "nw_heap (net_Block a b on n) = nw_heap n" "nw_stats (net_Block a b on n) = nw_stats n"
  "nw_seq (net_Block a b on n) = nw_seq n" "nw_filter (net_Block a b on n) = nw_filter n" "nw_faults (net_Block a b on n) = nw_faults n"
  by (simp_all add: net_Block_def)

lemma fold_keeps: "(\<And>x n. x \<in> set xs \<Longrightarrow> g (f x n) = g n) \<Longrightarrow> g (fold f xs n) = g n"
  by (induction xs arbitrary: n) auto

lemma Split_sel [simp]: "nw_heap (net_Split gs n) = nw_heap n" "nw_stats (net_Split gs n) = nw_stats n" "nw_seq (net_Split gs n) = nw_seq n"
  unfolding net_Split_def by (rule fold_keeps, simp split: prod.splits, intro allI impI, rule fold_keeps,
    simp add: fold_keeps split: prod.splits)+

lemma call_facts:
  assumes r: "net_call_run c n = Some (n', out)" and b: "balanced n"
  shows "balanced n'" "queued n' \<union> snd ` set out \<subseteq> queued n \<union> set (sends [c])"
    "ns_Sent (nw_stats n') = ns_Sent (nw_stats n) + length (sends [c])" "ns_Delivered (nw_stats n') = ns_Delivered (nw_stats n) + length out"
proof -
  note b' = balancedD [OF b]
  have "balanced n' \<and> queued n' \<union> snd ` set out \<subseteq> queued n \<union> set (sends [c]) \<and>
    ns_Sent (nw_stats n') = ns_Sent (nw_stats n) + length (sends [c]) \<and> ns_Delivered (nw_stats n') = ns_Delivered (nw_stats n) + length out"
  proof (cases c)
    case (CSend now env dw)
    then have s: "net_Send now env dw n = Some n'" "out = []" using r by (auto simp: net_call_run_def)
    show ?thesis using Send_facts [OF s(1) b] by (auto simp: s(2) CSend)
  next
    case CNext
    then show ?thesis using r b' by (auto simp: net_call_run_def net_Next_def balanced_def queued_def split: list.splits)
  next
    case (CPurge i)
    then have n': "n' = net_Purge i n" "out = []" using r by (auto simp: net_call_run_def)
    have "length (filter (\<lambda>d. nv_To (dl_env d) = i) (nw_heap n)) + length (filter (\<lambda>d. nv_To (dl_env d) \<noteq> i) (nw_heap n)) = length (nw_heap n)"
      by (rule sum_length_filter_compl)
    then show ?thesis using CPurge b' by (auto simp: n' net_Purge_def balanced_def queued_def sorted_filter distinct_map_filter)
  next
    case (CDiscard m)
    then have n': "n' = fst (net_Discard m n)" "out = []" using r by (auto simp: net_call_run_def)
    have "length (filter (\<lambda>d. m (dl_env d)) (nw_heap n)) + length (filter (\<lambda>d. \<not> m (dl_env d)) (nw_heap n)) = length (nw_heap n)"
      by (rule sum_length_filter_compl)
    then show ?thesis using CDiscard b' by (auto simp: n' net_Discard_def Let_def balanced_def queued_def sorted_filter distinct_map_filter)
  qed (use r b in \<open>auto simp: net_call_run_def balanced_def queued_def net_Heal_def SetFilter_def SetFaults_def\<close>)
  then show "balanced n'" "queued n' \<union> snd ` set out \<subseteq> queued n \<union> set (sends [c])"
    "ns_Sent (nw_stats n') = ns_Sent (nw_stats n) + length (sends [c])" "ns_Delivered (nw_stats n') = ns_Delivered (nw_stats n) + length out" by blast+
qed

lemma sends_Cons: "sends (c # cs) = sends [c] @ sends cs"
  by (cases c) simp_all

lemma run_facts:
  "net_run cs n = Some (n', out) \<Longrightarrow> balanced n \<Longrightarrow>
   balanced n' \<and> queued n' \<union> snd ` set out \<subseteq> queued n \<union> set (sends cs) \<and>
   ns_Sent (nw_stats n') = ns_Sent (nw_stats n) + length (sends cs) \<and> ns_Delivered (nw_stats n') = ns_Delivered (nw_stats n) + length out"
proof (induction cs arbitrary: n out)
  case (Cons c cs)
  then obtain n1 o1 o2 where s: "net_call_run c n = Some (n1, o1)" "net_run cs n1 = Some (n', o2)" "out = o1 @ o2"
    by (auto split: option.splits)
  note f = call_facts [OF s(1) Cons.prems(2)] and g = Cons.IH [OF s(2)]
  show ?case using f g s(3) by (auto simp: sends_Cons [of c cs])
qed simp

lemma New_balanced: "balanced (NewNetwork f)" "queued (NewNetwork f) = {}"
  by (simp_all add: balanced_def NewNetwork_def no_stats_def queued_def)

text \<open>\<^verbatim>\<open>Split\<close> cuts exactly the links between different groups.\<close>

lemma fold_adds:
  "(\<And>x n. x \<in> set xs \<Longrightarrow> z |\<in>| nw_blocked (f x n) \<longleftrightarrow> z |\<in>| nw_blocked n \<or> P x) \<Longrightarrow>
   z |\<in>| nw_blocked (fold f xs n) \<longleftrightarrow> z |\<in>| nw_blocked n \<or> (\<exists>x \<in> set xs. P x)"
  by (induction xs arbitrary: n) auto

definition crossing :: "node_id list list \<Rightarrow> node_id \<Rightarrow> node_id \<Rightarrow> bool" where
  "crossing gs a b \<longleftrightarrow> (\<exists>i < length gs. \<exists>j < length gs. i \<noteq> j \<and> a \<in> set (gs ! i) \<and> b \<in> set (gs ! j))"

lemma Block_links: "z |\<in>| nw_blocked (fold (\<lambda>x. fold (\<lambda>y. net_Block x y True) h) g n) \<longleftrightarrow>
    z |\<in>| nw_blocked n \<or> (\<exists>x \<in> set g. \<exists>y \<in> set h. z = (x, y))"
  by (rule fold_adds) (rule fold_adds, auto simp: net_Block_def)

lemma enumerate_ex: "(\<exists>x \<in> set (enumerate 0 gs). P x) \<longleftrightarrow> (\<exists>i < length gs. P (i, gs ! i))"
  by (force simp: in_set_enumerate_eq)

lemma Split_blocks: "net_Blocked a b (net_Split gs n) \<longleftrightarrow> net_Blocked a b n \<or> crossing gs a b"
proof -
  let ?links = "\<lambda>(i, g) (j, h). (i :: nat) \<noteq> j \<and> a \<in> set g \<and> b \<in> set h"
  have "(a, b) |\<in>| nw_blocked (net_Split gs n) \<longleftrightarrow>
      (a, b) |\<in>| nw_blocked n \<or> (\<exists>x \<in> set (enumerate 0 gs). \<exists>y \<in> set (enumerate 0 gs). ?links x y)"
    unfolding net_Split_def by (rule fold_adds) (auto simp: Block_links split: prod.splits if_splits intro!: fold_adds)
  also have "(\<exists>x \<in> set (enumerate 0 gs). \<exists>y \<in> set (enumerate 0 gs). ?links x y) \<longleftrightarrow> crossing gs a b"
    unfolding enumerate_ex crossing_def by simp
  finally show ?thesis by (simp add: net_Blocked_def)
qed

section \<open>The network as a transport\<close>

record net_world =
  ww_net :: network
  ww_sent :: "envelope set"
  ww_handed :: "(node_id \<times> envelope) set"

inductive net_step :: "net_world \<Rightarrow> net_world \<Rightarrow> bool" where
  "net_call_run c (ww_net s) = Some (n', out) \<Longrightarrow>
   net_step s (s\<lparr>ww_net := n', ww_sent := ww_sent s \<union> set (sends [c]), ww_handed := ww_handed s \<union> (\<lambda>(at, e). (nv_To e, e)) ` set out\<rparr>)"

definition net_start :: "net_world \<Rightarrow> bool" where
  "net_start s \<longleftrightarrow> (\<exists>f. ww_net s = NewNetwork f) \<and> ww_sent s = {} \<and> ww_handed s = {}"

definition net_inv :: "net_world \<Rightarrow> bool" where
  "net_inv s \<longleftrightarrow> balanced (ww_net s) \<and> queued (ww_net s) \<subseteq> ww_sent s"

interpretation simnet: transport net_start net_step net_inv ww_sent ww_handed
proof
  show "net_start s \<Longrightarrow> net_inv s \<and> ww_handed s = {}" for s
    by (auto simp: net_start_def net_inv_def New_balanced)
next
  fix s s' i e
  assume "net_step s s'"
  then obtain c n' out where r: "net_call_run c (ww_net s) = Some (n', out)"
    and s': "s' = s\<lparr>ww_net := n', ww_sent := ww_sent s \<union> set (sends [c]), ww_handed := ww_handed s \<union> (\<lambda>(at, e). (nv_To e, e)) ` set out\<rparr>"
    by (auto elim: net_step.cases)
  show "ww_sent s \<subseteq> ww_sent s'" by (simp add: s')
  assume inv: "net_inv s"
  note f = call_facts [OF r] inv [unfolded net_inv_def]
  show "net_inv s'" using f by (auto simp: s' net_inv_def)
  show "(i, e) \<in> ww_handed s' \<Longrightarrow> (i, e) \<in> ww_handed s \<or> e \<in> ww_sent s' \<and> nv_To e = i" using f by (force simp: s')
qed

section \<open>The bus inside one process (local.go)\<close>

record local_bus =
  lb_peers :: "node_id fset"
  lb_blocked :: "(node_id \<times> node_id) fset"
  lb_filter :: "(envelope \<Rightarrow> bool) option"
  lb_stats :: net_stats

definition NewLocal :: local_bus where
  "NewLocal = \<lparr>lb_peers = {||}, lb_blocked = {||}, lb_filter = None, lb_stats = no_stats\<rparr>"

definition local_Register :: "node_id \<Rightarrow> local_bus \<Rightarrow> local_bus" where
  "local_Register i l = l\<lparr>lb_peers := finsert i (lb_peers l)\<rparr>"

definition local_Unregister :: "node_id \<Rightarrow> local_bus \<Rightarrow> local_bus" where
  "local_Unregister i l = l\<lparr>lb_peers := lb_peers l |-| {|i|}\<rparr>"

text \<open>The second component is the call of the receiver's \<^verbatim>\<open>Deliver\<close> callback, if there is one.\<close>

definition local_Send :: "envelope \<Rightarrow> local_bus \<Rightarrow> local_bus \<times> (node_id \<times> envelope) option" where
  "local_Send env l =
     (let ok = nv_To env |\<in>| lb_peers l;
          blocked = ((nv_From env, nv_To env) |\<in>| lb_blocked l \<or> (case lb_filter l of None \<Rightarrow> False | Some f \<Rightarrow> f env));
          st = (lb_stats l)\<lparr>ns_Sent := ns_Sent (lb_stats l) + 1\<rparr>;
          st' = (if blocked then st\<lparr>ns_Blocked := ns_Blocked st + 1\<rparr>
                 else if \<not> ok then st\<lparr>ns_Dropped := ns_Dropped st + 1\<rparr>
                 else st\<lparr>ns_Delivered := ns_Delivered st + 1\<rparr>)
      in (l\<lparr>lb_stats := st'\<rparr>, if \<not> blocked \<and> ok then Some (nv_To env, env) else None))"

definition set_link :: "bool \<Rightarrow> node_id \<times> node_id \<Rightarrow> (node_id \<times> node_id) fset \<Rightarrow> (node_id \<times> node_id) fset" where
  "set_link on k b = (if on then finsert k b else b |-| {|k|})"

definition local_Block :: "node_id \<Rightarrow> node_id \<Rightarrow> bool \<Rightarrow> local_bus \<Rightarrow> local_bus" where
  "local_Block a b on l = l\<lparr>lb_blocked := set_link on (a, b) (lb_blocked l)\<rparr>"

definition local_Isolate :: "node_id \<Rightarrow> bool \<Rightarrow> local_bus \<Rightarrow> local_bus" where
  "local_Isolate node on l =
     l\<lparr>lb_blocked := fold (\<lambda>i b. if i = node then b else set_link on (i, node) (set_link on (node, i) b))
        (sorted_list_of_fset (lb_peers l)) (lb_blocked l)\<rparr>"

definition local_SetFilter :: "(envelope \<Rightarrow> bool) option \<Rightarrow> local_bus \<Rightarrow> local_bus" where
  "local_SetFilter f l = l\<lparr>lb_filter := f\<rparr>"

definition local_Heal :: "local_bus \<Rightarrow> local_bus" where
  "local_Heal l = l\<lparr>lb_blocked := {||}, lb_filter := None\<rparr>"

datatype local_call =
    LSend envelope | LRegister node_id | LUnregister node_id | LBlock node_id node_id bool | LIsolate node_id bool
  | LFilter "(envelope \<Rightarrow> bool) option" | LHeal

definition local_run :: "local_call \<Rightarrow> local_bus \<Rightarrow> local_bus \<times> (node_id \<times> envelope) option" where
  "local_run c l =
     (case c of
        LSend env \<Rightarrow> local_Send env l
      | LRegister i \<Rightarrow> (local_Register i l, None)
      | LUnregister i \<Rightarrow> (local_Unregister i l, None)
      | LBlock a b on \<Rightarrow> (local_Block a b on l, None)
      | LIsolate i on \<Rightarrow> (local_Isolate i on l, None)
      | LFilter f \<Rightarrow> (local_SetFilter f l, None)
      | LHeal \<Rightarrow> (local_Heal l, None))"

lemma Isolate_links:
  "(a, b) |\<in>| lb_blocked (local_Isolate node True l) \<longleftrightarrow>
     (a, b) |\<in>| lb_blocked l \<or> a \<noteq> b \<and> (a = node \<and> b |\<in>| lb_peers l \<or> b = node \<and> a |\<in>| lb_peers l)"
proof -
  have "(a, b) |\<in>| fold (\<lambda>i s. if i = node then s else set_link True (i, node) (set_link True (node, i) s)) xs s \<longleftrightarrow>
      (a, b) |\<in>| s \<or> a \<noteq> b \<and> (a = node \<and> b \<in> set xs \<or> b = node \<and> a \<in> set xs)" for xs s
    by (induction xs arbitrary: s) (auto simp: set_link_def)
  then show ?thesis by (simp add: local_Isolate_def)
qed

record local_world =
  lw_bus :: local_bus
  lw_sent :: "envelope set"
  lw_handed :: "(node_id \<times> envelope) set"

inductive local_step :: "local_world \<Rightarrow> local_world \<Rightarrow> bool" where
  "local_run c (lw_bus s) = (l, out) \<Longrightarrow>
   local_step s (s\<lparr>lw_bus := l, lw_sent := lw_sent s \<union> (case c of LSend env \<Rightarrow> {env} | _ \<Rightarrow> {}), lw_handed := lw_handed s \<union> set_option out\<rparr>)"

definition local_start :: "local_world \<Rightarrow> bool" where
  "local_start s \<longleftrightarrow> lw_bus s = NewLocal \<and> lw_sent s = {} \<and> lw_handed s = {}"

definition local_inv :: "local_world \<Rightarrow> bool" where
  "local_inv s \<longleftrightarrow> (let st = lb_stats (lw_bus s) in ns_Sent st = ns_Delivered st + ns_Dropped st + ns_Blocked st)"

lemma local_run_out: "local_run c l = (l', Some (i, e)) \<Longrightarrow> c = LSend e \<and> i = nv_To e"
  by (cases c) (auto simp: local_run_def local_Send_def Let_def split: if_splits)

interpretation bus: transport local_start local_step local_inv lw_sent lw_handed
proof
  show "local_start s \<Longrightarrow> local_inv s \<and> lw_handed s = {}" for s
    by (simp add: local_start_def local_inv_def NewLocal_def no_stats_def)
next
  fix s s' i e
  assume "local_step s s'"
  then obtain c l out where r: "local_run c (lw_bus s) = (l, out)"
    and s': "s' = s\<lparr>lw_bus := l, lw_sent := lw_sent s \<union> (case c of LSend env \<Rightarrow> {env} | _ \<Rightarrow> {}), lw_handed := lw_handed s \<union> set_option out\<rparr>"
    by (auto elim: local_step.cases)
  show "lw_sent s \<subseteq> lw_sent s'" by (simp add: s')
  show "local_inv s \<Longrightarrow> local_inv s'" using r
    by (cases c) (auto simp: s' local_inv_def local_run_def local_Send_def local_Register_def local_Unregister_def local_Block_def
        local_Isolate_def local_SetFilter_def local_Heal_def Let_def)
  show "local_inv s \<Longrightarrow> (i, e) \<in> lw_handed s' \<Longrightarrow> (i, e) \<in> lw_handed s \<or> e \<in> lw_sent s' \<and> nv_To e = i"
    using r local_run_out [of c "lw_bus s" l] by (auto simp: s' split: local_call.splits)
qed

section \<open>Properties\<close>

text \<open>
  C40. The simulated network accounts for every message: after any calls, every message sent and every duplicate made
  has been delivered, dropped or blocked, or is still queued; what \<^verbatim>\<open>Next\<close> handed out was sent, and the queue is in the
  order of delivery time and then of sending, so the next message is the earliest.
\<close>

theorem network_accounts:
  assumes "net_run cs (NewNetwork f) = Some (n, out)"
  shows "(let st = nw_stats n in ns_Sent st = length (sends cs) \<and> ns_Delivered st = length out \<and>
      ns_Sent st + ns_Duplicated st = ns_Delivered st + ns_Dropped st + ns_Blocked st + net_Pending n) \<and>
    snd ` set out \<subseteq> set (sends cs) \<and>
    (\<forall>at e. snd (net_Next n) = Some (at, e) \<longrightarrow> (\<exists>d \<in> set (nw_heap n). dl_at d = at \<and> dl_env d = e \<and>
       (\<forall>d' \<in> set (nw_heap n). d' = d \<or> delivery_Less d d')))"
proof -
  note r = run_facts [OF assms New_balanced(1)]
  then have b: "balanced n" and q: "snd ` set out \<subseteq> set (sends cs)" by (auto simp: New_balanced)
  note b' = balancedD [OF b]
  have first: "\<exists>d \<in> set (nw_heap n). dl_at d = at \<and> dl_env d = e \<and> (\<forall>d' \<in> set (nw_heap n). d' = d \<or> delivery_Less d d')"
    if "snd (net_Next n) = Some (at, e)" for at e
  proof -
    from that obtain d ds where h: "nw_heap n = d # ds" "dl_at d = at" "dl_env d = e" by (auto simp: net_Next_def split: list.splits)
    have "delivery_Less d d'" if "d' \<in> set ds" for d'
      using that b'(1,2) h(1) by (auto simp: Less_key dl_key_def order_less_le)
    then show ?thesis using h by (intro bexI [of _ d]) auto
  qed
  show ?thesis using r b'(4) q first by (simp add: NewNetwork_def no_stats_def net_Pending_def Let_def)
qed

definition net_env :: "nat \<Rightarrow> nat \<Rightarrow> envelope" where
  "net_env a b = \<lparr>nv_From = a, nv_To = b, nv_Msg = LearnRequest 1 8\<rparr>"

definition net_calls :: "net_call list" where
  "net_calls = [CSend 0 (net_env 1 2) \<lparr>dw_drop = 1, dw_dup = 0, dw_delay1 = 7, dw_delay2 = 2\<rparr>, CSplit [[1], [2, 3]],
     CSend 1 (net_env 1 3) \<lparr>dw_drop = 1, dw_dup = 1, dw_delay1 = 0, dw_delay2 = 0\<rparr>, CHeal,
     CSend 2 (net_env 2 1) \<lparr>dw_drop = 1, dw_dup = 1, dw_delay1 = 1, dw_delay2 = 0\<rparr>, CNext, CNext]"

definition net_faults :: faults where
  "net_faults = \<lparr>fa_DropP = 1 / 4, fa_DupP = 1 / 2, fa_MinDelay = 1, fa_MaxDelay = 9\<rparr>"

definition net_end :: "network \<times> (int \<times> envelope) list" where
  "net_end = the (net_run net_calls (NewNetwork net_faults))"

lemma net_end_some: "Option.is_none (net_run net_calls (NewNetwork net_faults)) = False"
  by code_simp

lemma net_end_run: "net_run net_calls (NewNetwork net_faults) = Some (fst net_end, snd net_end)"
  using net_end_some by (simp add: net_end_def Option.is_none_def)

lemma net_end_facts:
  "map fst (snd net_end) = [3, 4]" "ns_Blocked (nw_stats (fst net_end)) = 1" "length (sends net_calls) = 3"
  by code_simp+

theorem network_accounts_witness:
  "ns_Sent (nw_stats (fst net_end)) = 3 \<and> map fst (snd net_end) = [3, 4] \<and> snd ` set (snd net_end) \<subseteq> set (sends net_calls)"
  using network_accounts [OF net_end_run] net_end_facts(1,3) by (simp add: Let_def)

end
