(* ===== verification/HttpTransport.thy ===== *)
theory HttpTransport
  imports Wire Transport
begin

text \<open>
  Package \<^verbatim>\<open>internal/transport\<close>, \<^verbatim>\<open>http.go\<close>: messages between processes, one POST each, through two bounded queues per peer.

  \<^item> A channel is the list of what it holds. \<^verbatim>\<open>Send\<close> is one step. The goroutine of an ordinary queue takes a message and posts it
    in one step; that of a bulk queue takes it, and forgets its key and posts it later, so that a \<^verbatim>\<open>Send\<close> can come in between.
  \<^item> The outcome of a POST and the reading of a request body are arguments. Log output is left out; counters are natural numbers.
\<close>

section \<open>Queues (http.go)\<close>

definition QueueSize :: nat where "QueueSize = 1024"
definition BulkQueueSize :: nat where "BulkQueueSize = 16"
definition BulkBytes :: nat where "BulkBytes = 64 * 1024"
definition MaxMessageBytes :: nat where "MaxMessageBytes = 16 * 2 ^ 20"

record httpStats =
  hs_Sent :: nat
  hs_Posted :: nat
  hs_Dropped :: nat
  hs_Coalesced :: nat
  hs_Failed :: nat
  hs_Received :: nat
  hs_Rejected :: nat

record bulkKey =
  bk_typ :: string
  bk_ballot :: ballot
  bk_slot :: slot

record http_peer =
  hp_url :: string
  hp_queue :: "envelope list"
  hp_bulk :: "envelope list"
  hp_pending :: "bulkKey fset"
  hp_taken :: "envelope option"

record http =
  ht_self :: node_id
  ht_peers :: "(node_id, http_peer) fmap"
  ht_stats :: httpStats

definition bulkKeyOf :: "message \<Rightarrow> bulkKey \<times> bool" where
  "bulkKeyOf msg =
     (case msg of
        Accept b s v \<Rightarrow> (\<lparr>bk_typ = ''accept'', bk_ballot = b, bk_slot = s\<rparr>, length v > BulkBytes)
      | Learn s b v \<Rightarrow> (\<lparr>bk_typ = ''learn'', bk_ballot = b, bk_slot = s\<rparr>, length v > BulkBytes)
      | Promise p \<Rightarrow>
          (\<lparr>bk_typ = ''promise'', bk_ballot = pm_Ballot p, bk_slot = 0\<rparr>, sum_list (map (\<lambda>pv. length (pv_Value pv)) (pm_Accepted p)) > BulkBytes)
      | _ \<Rightarrow> (\<lparr>bk_typ = '''', bk_ballot = zero_ballot, bk_slot = 0\<rparr>, False))"

definition no_http_stats :: httpStats where
  "no_http_stats = \<lparr>hs_Sent = 0, hs_Posted = 0, hs_Dropped = 0, hs_Coalesced = 0, hs_Failed = 0, hs_Received = 0, hs_Rejected = 0\<rparr>"

definition NewHTTP :: "node_id \<Rightarrow> (node_id, string) fmap \<Rightarrow> http" where
  "NewHTTP self peers =
     \<lparr>ht_self = self,
      ht_peers = fmmap (\<lambda>url. \<lparr>hp_url = url, hp_queue = [], hp_bulk = [], hp_pending = {||}, hp_taken = None\<rparr>) (fmdrop self peers),
      ht_stats = no_http_stats\<rparr>"

definition bump :: "((nat \<Rightarrow> nat) \<Rightarrow> httpStats \<Rightarrow> httpStats) \<Rightarrow> http \<Rightarrow> http" where
  "bump upd t = t\<lparr>ht_stats := upd Suc (ht_stats t)\<rparr>"

definition set_peer :: "node_id \<Rightarrow> http_peer \<Rightarrow> http \<Rightarrow> http" where
  "set_peer i p t = t\<lparr>ht_peers := fmupd i p (ht_peers t)\<rparr>"

definition http_Send :: "envelope \<Rightarrow> http \<Rightarrow> http" where
  "http_Send env t0 =
     (let t = bump hs_Sent_update t0
      in case fmlookup (ht_peers t) (nv_To env) of
           None \<Rightarrow> bump hs_Dropped_update t
         | Some p \<Rightarrow>
             (case bulkKeyOf (nv_Msg env) of (key, bulk) \<Rightarrow>
                if \<not> bulk
                then if length (hp_queue p) < QueueSize then set_peer (nv_To env) (p\<lparr>hp_queue := hp_queue p @ [env]\<rparr>) t
                     else bump hs_Dropped_update t
                else if key |\<in>| hp_pending p then bump hs_Coalesced_update t
                else
                  (let p1 = p\<lparr>hp_pending := finsert key (hp_pending p)\<rparr>
                   in if length (hp_bulk p1) < BulkQueueSize then set_peer (nv_To env) (p1\<lparr>hp_bulk := hp_bulk p1 @ [env]\<rparr>) t
                      else bump hs_Dropped_update (set_peer (nv_To env) (p1\<lparr>hp_pending := hp_pending p1 |-| {|key|}\<rparr>) t))))"

section \<open>Sending\<close>

datatype post_outcome = BadRequest | PostError | Status nat

definition http_post :: "post_outcome \<Rightarrow> http \<Rightarrow> http" where
  "http_post oc t =
     (case oc of
        BadRequest \<Rightarrow> bump hs_Failed_update t
      | PostError \<Rightarrow> bump hs_Failed_update t
      | Status s \<Rightarrow> if s < 200 \<or> s > 299 then bump hs_Failed_update t else bump hs_Posted_update t)"

text \<open>The second component is the body that is posted, if the message encodes.\<close>

definition encodeAndPost :: "wire_json \<Rightarrow> post_outcome \<Rightarrow> envelope \<Rightarrow> http \<Rightarrow> http \<times> string option" where
  "encodeAndPost j oc env t =
     (case wire_Encode j env of
        Inl e \<Rightarrow> (bump hs_Dropped_update t, None)
      | Inr b \<Rightarrow> (http_post oc t, Some b))"

definition send_queued :: "wire_json \<Rightarrow> post_outcome \<Rightarrow> node_id \<Rightarrow> http \<Rightarrow> http \<times> string option" where
  "send_queued j oc i t =
     (case fmlookup (ht_peers t) i of
        None \<Rightarrow> (t, None)
      | Some p \<Rightarrow>
          (case hp_queue p of
             [] \<Rightarrow> (t, None)
           | env # q \<Rightarrow> encodeAndPost j oc env (set_peer i (p\<lparr>hp_queue := q\<rparr>) t)))"

definition take_bulk :: "node_id \<Rightarrow> http \<Rightarrow> http" where
  "take_bulk i t =
     (case fmlookup (ht_peers t) i of
        None \<Rightarrow> t
      | Some p \<Rightarrow>
          (case (hp_taken p, hp_bulk p) of
             (None, env # q) \<Rightarrow> set_peer i (p\<lparr>hp_bulk := q, hp_taken := Some env\<rparr>) t
           | _ \<Rightarrow> t))"

definition send_bulk :: "wire_json \<Rightarrow> post_outcome \<Rightarrow> node_id \<Rightarrow> http \<Rightarrow> http \<times> string option" where
  "send_bulk j oc i t =
     (case fmlookup (ht_peers t) i of
        None \<Rightarrow> (t, None)
      | Some p \<Rightarrow>
          (case hp_taken p of
             None \<Rightarrow> (t, None)
           | Some env \<Rightarrow>
               encodeAndPost j oc env (set_peer i (p\<lparr>hp_taken := None, hp_pending := hp_pending p |-| {|fst (bulkKeyOf (nv_Msg env))|}\<rparr>) t)))"

section \<open>Receiving\<close>

datatype read_outcome = ReadBody string | ReadTooLarge | ReadError

definition read_limited :: "read_outcome \<Rightarrow> read_outcome" where
  "read_limited r = (case r of ReadBody b \<Rightarrow> if length b > MaxMessageBytes then ReadTooLarge else r | _ \<Rightarrow> r)"

text \<open>The status answered and what is handed to \<^verbatim>\<open>deliver\<close>.\<close>

definition http_Handler :: "wire_json \<Rightarrow> string \<Rightarrow> read_outcome \<Rightarrow> http \<Rightarrow> http \<times> nat \<times> envelope option" where
  "http_Handler j verb req t =
     (if verb \<noteq> ''POST'' then (bump hs_Rejected_update t, 405, None)
      else case read_limited req of
        ReadTooLarge \<Rightarrow> (bump hs_Rejected_update t, 413, None)
      | ReadError \<Rightarrow> (bump hs_Rejected_update t, 400, None)
      | ReadBody body \<Rightarrow>
          (case wire_Decode j body of
             Inl e \<Rightarrow> (bump hs_Rejected_update t, 400, None)
           | Inr env \<Rightarrow>
               if nv_To env \<noteq> ht_self t then (bump hs_Rejected_update t, 400, None)
               else (bump hs_Received_update t, 204, Some env)))"

section \<open>The invariant of the queues\<close>

definition bulk_of :: "http_peer \<Rightarrow> envelope list" where
  "bulk_of p = (case hp_taken p of None \<Rightarrow> [] | Some e \<Rightarrow> [e]) @ hp_bulk p"

definition keys_of :: "http_peer \<Rightarrow> bulkKey list" where
  "keys_of p = map (\<lambda>e. fst (bulkKeyOf (nv_Msg e))) (bulk_of p)"

definition held_msgs :: "http_peer \<Rightarrow> envelope list" where
  "held_msgs p = hp_queue p @ bulk_of p"

definition peer_ok :: "node_id \<Rightarrow> http_peer \<Rightarrow> bool" where
  "peer_ok i p \<longleftrightarrow> length (hp_queue p) \<le> QueueSize \<and> length (hp_bulk p) \<le> BulkQueueSize \<and>
     distinct (keys_of p) \<and> fset (hp_pending p) = set (keys_of p) \<and>
     (\<forall>e \<in> set (bulk_of p). snd (bulkKeyOf (nv_Msg e))) \<and> (\<forall>e \<in> set (hp_queue p). \<not> snd (bulkKeyOf (nv_Msg e))) \<and>
     (\<forall>e \<in> set (held_msgs p). nv_To e = i)"

definition held_total :: "http \<Rightarrow> nat" where
  "held_total t = (\<Sum>i \<in> fmdom' (ht_peers t). length (held_msgs (the (fmlookup (ht_peers t) i))))"

definition http_ok :: "http \<Rightarrow> bool" where
  "http_ok t \<longleftrightarrow> (\<forall>i p. fmlookup (ht_peers t) i = Some p \<longrightarrow> peer_ok i p) \<and>
     (let st = ht_stats t in hs_Sent st = hs_Posted st + hs_Dropped st + hs_Coalesced st + hs_Failed st + held_total t)"

lemma http_okD:
  assumes "http_ok t"
  shows "fmlookup (ht_peers t) i = Some p \<Longrightarrow> peer_ok i p"
    "hs_Sent (ht_stats t) = hs_Posted (ht_stats t) + hs_Dropped (ht_stats t) + hs_Coalesced (ht_stats t) + hs_Failed (ht_stats t) + held_total t"
  using assms by (simp_all add: http_ok_def Let_def)

lemma held_total_stats [simp]: "held_total (t\<lparr>ht_stats := x\<rparr>) = held_total t"
  by (simp add: held_total_def)

lemma held_total_set:
  assumes "fmlookup (ht_peers t) i = Some p"
  shows "held_total (set_peer i q t) + length (held_msgs p) = held_total t + length (held_msgs q)"
proof -
  let ?m = "ht_peers t" and ?f = "\<lambda>m k. length (held_msgs (the (fmlookup m k)))"
  have i: "i \<in> fmdom' ?m" using assms by (rule fmdom'I)
  have fin: "finite (fmdom' ?m)" by (simp add: fmdom'_alt_def)
  have d: "insert i (fmdom' ?m) = fmdom' ?m" using i by auto
  have "(\<Sum>k \<in> fmdom' ?m - {i}. ?f (fmupd i q ?m) k) = (\<Sum>k \<in> fmdom' ?m - {i}. ?f ?m k)" by (rule sum.cong) auto
  then show ?thesis
    using sum.remove [OF fin i, of "?f ?m"] sum.remove [OF fin i, of "?f (fmupd i q ?m)"] assms
    by (simp add: held_total_def set_peer_def d)
qed

lemma bump_sel [simp]: "ht_peers (bump u t) = ht_peers t" "ht_self (bump u t) = ht_self t" "ht_stats (bump u t) = u Suc (ht_stats t)"
  "held_total (bump u t) = held_total t"
  by (simp_all add: bump_def)

lemma set_peer_sel [simp]: "ht_stats (set_peer i p t) = ht_stats t" "ht_self (set_peer i p t) = ht_self t"
  "fmlookup (ht_peers (set_peer i p t)) k = (if k = i then Some p else fmlookup (ht_peers t) k)"
  by (simp_all add: set_peer_def)

lemma http_Send_ok:
  assumes ok: "http_ok t"
  shows "http_ok (http_Send env t)"
proof (cases "fmlookup (ht_peers t) (nv_To env)")
  case None
  then show ?thesis using ok by (simp add: http_Send_def Let_def http_ok_def)
next
  case (Some p)
  note po = http_okD(1) [OF ok Some] and st = http_okD(2) [OF ok]
  obtain key bulk where k: "bulkKeyOf (nv_Msg env) = (key, bulk)" by fastforce
  have keep: "http_ok (set_peer (nv_To env) q (bump hs_Sent_update t))"
    if "peer_ok (nv_To env) q" "length (held_msgs q) = Suc (length (held_msgs p))" for q
    using that st http_okD(1) [OF ok] held_total_set [of "bump hs_Sent_update t" "nv_To env" p q] Some by (auto simp: http_ok_def Let_def)
  consider (queued) "\<not> bulk" "length (hp_queue p) < QueueSize" | (full) "\<not> bulk" "\<not> length (hp_queue p) < QueueSize"
    | (again) bulk "key |\<in>| hp_pending p" | (bulk) bulk "key |\<notin>| hp_pending p" "length (hp_bulk p) < BulkQueueSize"
    | (dropped) bulk "key |\<notin>| hp_pending p" "\<not> length (hp_bulk p) < BulkQueueSize" by blast
  then show ?thesis
  proof cases
    case queued
    have "peer_ok (nv_To env) (p\<lparr>hp_queue := hp_queue p @ [env]\<rparr>)"
      using po queued k by (auto simp: peer_ok_def keys_of_def bulk_of_def held_msgs_def)
    from keep [OF this] show ?thesis using queued k Some by (simp add: http_Send_def Let_def held_msgs_def bulk_of_def)
  next
    case full
    then show ?thesis using ok k Some by (simp add: http_Send_def Let_def http_ok_def)
  next
    case again
    then show ?thesis using ok k Some by (simp add: http_Send_def Let_def http_ok_def)
  next
    case bulk
    have "peer_ok (nv_To env) (p\<lparr>hp_pending := finsert key (hp_pending p), hp_bulk := hp_bulk p @ [env]\<rparr>)"
      using po bulk k by (auto simp: peer_ok_def keys_of_def bulk_of_def held_msgs_def split: option.splits)
    from keep [OF this] show ?thesis using bulk k Some by (simp add: http_Send_def Let_def held_msgs_def bulk_of_def)
  next
    case dropped
    have same: "finsert key (hp_pending p) |-| {|key|} = hp_pending p" using dropped(2) by auto
    have "set_peer (nv_To env) p u = u" if "ht_peers u = ht_peers t" for u
    proof -
      have "fmupd (nv_To env) p (ht_peers u) = ht_peers u" using Some that by (intro fmap_ext) auto
      then show ?thesis by (simp add: set_peer_def)
    qed
    then have "http_Send env t = bump hs_Dropped_update (bump hs_Sent_update t)"
      using dropped k Some same by (simp add: http_Send_def Let_def)
    then show ?thesis using ok by (simp add: http_ok_def Let_def)
  qed
qed

lemma post_ok:
  assumes "\<And>i p. fmlookup (ht_peers t) i = Some p \<Longrightarrow> peer_ok i p"
    and "hs_Sent (ht_stats t) = hs_Posted (ht_stats t) + hs_Dropped (ht_stats t) + hs_Coalesced (ht_stats t) + hs_Failed (ht_stats t) + held_total t + 1"
  shows "http_ok (fst (encodeAndPost j oc env t))"
  using assms by (auto simp: encodeAndPost_def http_post_def http_ok_def Let_def split: sum.splits post_outcome.splits)

lemma post_peers [simp]: "ht_peers (fst (encodeAndPost j oc env t)) = ht_peers t" "ht_self (fst (encodeAndPost j oc env t)) = ht_self t"
  by (auto simp: encodeAndPost_def http_post_def split: sum.splits post_outcome.splits)

lemma post_body: "snd (encodeAndPost j oc env t) = Some b \<Longrightarrow> wire_Encode j env = Inr b"
  by (auto simp: encodeAndPost_def split: sum.splits)

lemma send_queued_ok:
  assumes ok: "http_ok t"
  shows "http_ok (fst (send_queued j oc i t))"
    "snd (send_queued j oc i t) = Some b \<Longrightarrow> \<exists>p env. fmlookup (ht_peers t) i = Some p \<and> env \<in> set (held_msgs p) \<and> wire_Encode j env = Inr b"
proof -
  have "http_ok (fst (send_queued j oc i t)) \<and> (snd (send_queued j oc i t) = Some b \<longrightarrow>
      (\<exists>p env. fmlookup (ht_peers t) i = Some p \<and> env \<in> set (held_msgs p) \<and> wire_Encode j env = Inr b))" for b
  proof (cases "\<exists>p env q. fmlookup (ht_peers t) i = Some p \<and> hp_queue p = env # q")
    case True
    then obtain p env q where p: "fmlookup (ht_peers t) i = Some p" "hp_queue p = env # q" by blast
    let ?p = "p\<lparr>hp_queue := q\<rparr>"
    have "peer_ok i ?p" using http_okD(1) [OF ok p(1)] p(2) by (auto simp: peer_ok_def keys_of_def bulk_of_def held_msgs_def)
    then have "http_ok (fst (encodeAndPost j oc env (set_peer i ?p t)))"
      using http_okD [OF ok] held_total_set [OF p(1), of ?p] p(2)
      by (intro post_ok) (auto simp: held_msgs_def bulk_of_def split: if_splits)
    then show ?thesis using p by (auto simp: send_queued_def held_msgs_def dest: post_body)
  next
    case False
    then show ?thesis using ok by (auto simp: send_queued_def split: option.splits list.splits)
  qed
  then show "http_ok (fst (send_queued j oc i t))"
    "snd (send_queued j oc i t) = Some b \<Longrightarrow> \<exists>p env. fmlookup (ht_peers t) i = Some p \<and> env \<in> set (held_msgs p) \<and> wire_Encode j env = Inr b"
    by blast+
qed

lemma take_bulk_ok:
  assumes ok: "http_ok t"
  shows "http_ok (take_bulk i t)"
proof (cases "\<exists>p env q. fmlookup (ht_peers t) i = Some p \<and> hp_taken p = None \<and> hp_bulk p = env # q")
  case True
  then obtain p env q where p: "fmlookup (ht_peers t) i = Some p" "hp_taken p = None" "hp_bulk p = env # q" by blast
  let ?p = "p\<lparr>hp_bulk := q, hp_taken := Some env\<rparr>"
  have "bulk_of ?p = bulk_of p" by (simp add: bulk_of_def p)
  then have "peer_ok i ?p" "length (held_msgs ?p) = length (held_msgs p)"
    using http_okD(1) [OF ok p(1)] p(3) by (auto simp: peer_ok_def keys_of_def held_msgs_def)
  then have "http_ok (set_peer i ?p t)" using http_okD [OF ok] held_total_set [OF p(1), of ?p] by (auto simp: http_ok_def Let_def)
  then show ?thesis using p by (simp add: take_bulk_def)
next
  case False
  then show ?thesis using ok by (auto simp: take_bulk_def split: option.splits list.splits)
qed

lemma send_bulk_ok:
  assumes ok: "http_ok t"
  shows "http_ok (fst (send_bulk j oc i t))"
    "snd (send_bulk j oc i t) = Some b \<Longrightarrow> \<exists>p env. fmlookup (ht_peers t) i = Some p \<and> env \<in> set (held_msgs p) \<and> wire_Encode j env = Inr b"
proof -
  have "http_ok (fst (send_bulk j oc i t)) \<and> (snd (send_bulk j oc i t) = Some b \<longrightarrow>
      (\<exists>p env. fmlookup (ht_peers t) i = Some p \<and> env \<in> set (held_msgs p) \<and> wire_Encode j env = Inr b))" for b
  proof (cases "\<exists>p env. fmlookup (ht_peers t) i = Some p \<and> hp_taken p = Some env")
    case True
    then obtain p env where p: "fmlookup (ht_peers t) i = Some p" "hp_taken p = Some env" by blast
    let ?p = "p\<lparr>hp_taken := None, hp_pending := hp_pending p |-| {|fst (bulkKeyOf (nv_Msg env))|}\<rparr>"
    have po: "peer_ok i p" by (rule http_okD(1) [OF ok p(1)])
    have "keys_of p = fst (bulkKeyOf (nv_Msg env)) # keys_of ?p" by (simp add: keys_of_def bulk_of_def p(2))
    then have "distinct (keys_of ?p)" "fset (hp_pending ?p) = set (keys_of ?p)" using po by (auto simp: peer_ok_def)
    then have "peer_ok i ?p" using po p(2) by (auto simp: peer_ok_def bulk_of_def held_msgs_def)
    then have "http_ok (fst (encodeAndPost j oc env (set_peer i ?p t)))"
      using http_okD [OF ok] held_total_set [OF p(1), of ?p] p(2)
      by (intro post_ok) (auto simp: held_msgs_def bulk_of_def split: if_splits)
    then show ?thesis using p by (auto simp: send_bulk_def held_msgs_def bulk_of_def dest: post_body)
  next
    case False
    then show ?thesis using ok by (auto simp: send_bulk_def split: option.splits)
  qed
  then show "http_ok (fst (send_bulk j oc i t))"
    "snd (send_bulk j oc i t) = Some b \<Longrightarrow> \<exists>p env. fmlookup (ht_peers t) i = Some p \<and> env \<in> set (held_msgs p) \<and> wire_Encode j env = Inr b"
    by blast+
qed

lemma Handler_ok:
  assumes "http_Handler j verb req t = (t', code, out)"
  shows "http_ok t \<Longrightarrow> http_ok t'" "ht_peers t' = ht_peers t" "ht_self t' = ht_self t"
    "out = Some env \<Longrightarrow> nv_To env = ht_self t \<and> code = 204 \<and> (\<exists>b. req = ReadBody b \<and> wire_Decode j b = Inr env)"
  using assms by (auto simp: http_Handler_def read_limited_def http_ok_def Let_def split: if_splits read_outcome.splits sum.splits)

section \<open>The processes and the wire between them\<close>

record http_world =
  hw_nodes :: "node_id \<Rightarrow> http"
  hw_json :: wire_json
  hw_wire :: "string set"
  hw_sent :: "envelope set"
  hw_handed :: "(node_id \<times> envelope) set"

text \<open>
  Only replicas post to the internal path: a body that a handler reads was posted by one of them, now or earlier, once or
  several times; other requests are rejected as malformed.
\<close>

inductive http_step :: "http_world \<Rightarrow> http_world \<Rightarrow> bool" where
  send: "http_step s (s\<lparr>hw_nodes := (hw_nodes s)(i := http_Send env (hw_nodes s i)), hw_sent := insert env (hw_sent s)\<rparr>)"
| queued: "send_queued (hw_json s) oc k (hw_nodes s i) = (t, b) \<Longrightarrow>
    http_step s (s\<lparr>hw_nodes := (hw_nodes s)(i := t), hw_wire := hw_wire s \<union> set_option b\<rparr>)"
| taken: "http_step s (s\<lparr>hw_nodes := (hw_nodes s)(i := take_bulk k (hw_nodes s i))\<rparr>)"
| bulk: "send_bulk (hw_json s) oc k (hw_nodes s i) = (t, b) \<Longrightarrow>
    http_step s (s\<lparr>hw_nodes := (hw_nodes s)(i := t), hw_wire := hw_wire s \<union> set_option b\<rparr>)"
| receive: "(\<And>b. req = ReadBody b \<Longrightarrow> b \<in> hw_wire s) \<Longrightarrow> http_Handler (hw_json s) verb req (hw_nodes s i) = (t, code, out) \<Longrightarrow>
    http_step s (s\<lparr>hw_nodes := (hw_nodes s)(i := t), hw_handed := hw_handed s \<union> Pair i ` set_option out\<rparr>)"

definition http_start :: "http_world \<Rightarrow> bool" where
  "http_start s \<longleftrightarrow> (\<exists>peers. hw_nodes s = (\<lambda>i. NewHTTP i (peers i))) \<and> (\<forall>env. wire_reads_back (hw_json s) env) \<and>
     hw_wire s = {} \<and> hw_sent s = {} \<and> hw_handed s = {}"

definition held_set :: "http \<Rightarrow> envelope set" where
  "held_set t = {e. \<exists>i p. fmlookup (ht_peers t) i = Some p \<and> e \<in> set (held_msgs p)}"

definition http_inv :: "http_world \<Rightarrow> bool" where
  "http_inv s \<longleftrightarrow> (\<forall>i. http_ok (hw_nodes s i) \<and> ht_self (hw_nodes s i) = i \<and> held_set (hw_nodes s i) \<subseteq> hw_sent s) \<and>
     (\<forall>env. wire_reads_back (hw_json s) env) \<and> (\<forall>b \<in> hw_wire s. \<exists>env \<in> hw_sent s. wire_Encode (hw_json s) env = Inr b)"

lemma held_set_peer:
  "set (held_msgs q) \<subseteq> S \<Longrightarrow> held_set t \<subseteq> S \<Longrightarrow> held_set (set_peer i q t) \<subseteq> S"
  by (auto simp: held_set_def split: if_splits)

lemma held_set_bump [simp]: "held_set (bump u t) = held_set t"
  by (simp add: held_set_def)

lemma held_set_mem: "fmlookup (ht_peers t) i = Some p \<Longrightarrow> set (held_msgs p) \<subseteq> held_set t"
  by (auto simp: held_set_def)

lemma http_Send_held: "held_set (http_Send env t) \<subseteq> insert env (held_set t)" "ht_self (http_Send env t) = ht_self t"
proof -
  show "ht_self (http_Send env t) = ht_self t" by (simp add: http_Send_def Let_def split: option.splits prod.splits)
  show "held_set (http_Send env t) \<subseteq> insert env (held_set t)"
  proof (cases "fmlookup (ht_peers t) (nv_To env)")
    case (Some p)
    have q: "held_set (set_peer (nv_To env) q (bump hs_Sent_update t)) \<subseteq> insert env (held_set t)"
      if "set (held_msgs q) \<subseteq> insert env (set (held_msgs p))" for q
      using that held_set_mem [OF Some] by (intro held_set_peer) auto
    show ?thesis using Some
      by (simp add: http_Send_def Let_def subset_insertI split: prod.splits, intro allI impI conjI)
        (rule q; auto simp: held_msgs_def bulk_of_def split: option.splits)+
  qed (simp add: http_Send_def Let_def subset_insertI)
qed

lemma post_held [simp]: "held_set (fst (encodeAndPost j oc env t)) = held_set t"
  by (simp add: held_set_def)

lemma sender_held:
  "held_set (fst (send_queued j oc k t)) \<subseteq> held_set t" "ht_self (fst (send_queued j oc k t)) = ht_self t"
  "held_set (take_bulk k t) \<subseteq> held_set t" "ht_self (take_bulk k t) = ht_self t"
  "held_set (fst (send_bulk j oc k t)) \<subseteq> held_set t" "ht_self (fst (send_bulk j oc k t)) = ht_self t"
proof -
  have part: "held_set (set_peer k q t) \<subseteq> held_set t" if "fmlookup (ht_peers t) k = Some p" "set (held_msgs q) \<subseteq> set (held_msgs p)" for p q
    using that held_set_mem [OF that(1)] by (intro held_set_peer) auto
  have 1: "held_set (set_peer k (p\<lparr>hp_queue := q\<rparr>) t) \<subseteq> held_set t" if "fmlookup (ht_peers t) k = Some p" "hp_queue p = e # q" for p e q
    by (rule part [OF that(1)]) (use that(2) in \<open>auto simp: held_msgs_def bulk_of_def\<close>)
  have 2: "held_set (set_peer k (p\<lparr>hp_bulk := q, hp_taken := Some e\<rparr>) t) \<subseteq> held_set t"
    if "fmlookup (ht_peers t) k = Some p" "hp_bulk p = e # q" for p e q
    by (rule part [OF that(1)]) (use that(2) in \<open>auto simp: held_msgs_def bulk_of_def\<close>)
  have 3: "held_set (set_peer k (p\<lparr>hp_taken := None, hp_pending := x\<rparr>) t) \<subseteq> held_set t" if "fmlookup (ht_peers t) k = Some p" for p x
    by (rule part [OF that]) (auto simp: held_msgs_def bulk_of_def)
  show "held_set (fst (send_queued j oc k t)) \<subseteq> held_set t" using 1 by (simp add: send_queued_def split: option.splits list.splits)
  show "held_set (take_bulk k t) \<subseteq> held_set t" using 2 by (simp add: take_bulk_def split: option.splits list.splits)
  show "held_set (fst (send_bulk j oc k t)) \<subseteq> held_set t" using 3 by (simp add: send_bulk_def split: option.splits)
  show "ht_self (fst (send_queued j oc k t)) = ht_self t" "ht_self (take_bulk k t) = ht_self t" "ht_self (fst (send_bulk j oc k t)) = ht_self t"
    by (simp_all add: send_queued_def take_bulk_def send_bulk_def split: option.splits list.splits)
qed

lemma NewHTTP_ok: "http_ok (NewHTTP i peers)" "held_set (NewHTTP i peers) = {}" "ht_self (NewHTTP i peers) = i"
  by (auto simp: http_ok_def NewHTTP_def no_http_stats_def peer_ok_def keys_of_def bulk_of_def held_msgs_def held_set_def held_total_def
      fmdom'_alt_def Let_def)

lemma http_inv_node:
  assumes "http_inv s" "http_ok t" "ht_self t = i" "held_set t \<subseteq> hw_sent s"
    "\<And>b. b \<in> W \<Longrightarrow> \<exists>env \<in> hw_sent s. wire_Encode (hw_json s) env = Inr b"
  shows "http_inv (s\<lparr>hw_nodes := (hw_nodes s)(i := t), hw_wire := hw_wire s \<union> W\<rparr>)"
  using assms by (auto simp: http_inv_def)

lemma http_invD:
  assumes "http_inv s"
  shows "http_ok (hw_nodes s i)" "ht_self (hw_nodes s i) = i" "held_set (hw_nodes s i) \<subseteq> hw_sent s" "wire_reads_back (hw_json s) env"
    "b \<in> hw_wire s \<Longrightarrow> \<exists>env \<in> hw_sent s. wire_Encode (hw_json s) env = Inr b"
  using assms by (auto simp: http_inv_def)

lemma http_step_inv:
  assumes "http_step s s'" "http_inv s"
  shows "http_inv s'"
  using assms
proof (induction rule: http_step.induct)
  case (send s env i)
  note d = http_invD [OF send]
  show ?case using d http_Send_ok [OF d(1) [of i]] http_Send_held [of env "hw_nodes s i"]
    by (fastforce simp: http_inv_def)
next
  case (queued s oc k i t b)
  note d = http_invD [OF queued(2)]
  have t: "t = fst (send_queued (hw_json s) oc k (hw_nodes s i))" "b = snd (send_queued (hw_json s) oc k (hw_nodes s i))"
    using queued(1) by simp_all
  show ?case
  proof (rule http_inv_node [OF queued(2)])
    show "http_ok t" "ht_self t = i" "held_set t \<subseteq> hw_sent s"
      using send_queued_ok(1) [OF d(1)] sender_held(1,2) d(2,3) by (auto simp: t) blast
    show "\<exists>env \<in> hw_sent s. wire_Encode (hw_json s) env = Inr x" if "x \<in> set_option b" for x
      using that send_queued_ok(2) [OF d(1) [of i]] held_set_mem d(3) [of i] by (auto simp: t) blast
  qed
next
  case (taken s i k)
  note d = http_invD [OF taken]
  have "http_inv (s\<lparr>hw_nodes := (hw_nodes s)(i := take_bulk k (hw_nodes s i)), hw_wire := hw_wire s \<union> {}\<rparr>)"
    by (rule http_inv_node [OF taken]) (use take_bulk_ok [OF d(1)] sender_held(3,4) d(2,3) in \<open>auto\<close>, blast)
  then show ?case by simp
next
  case (bulk s oc k i t b)
  note d = http_invD [OF bulk(2)]
  have t: "t = fst (send_bulk (hw_json s) oc k (hw_nodes s i))" "b = snd (send_bulk (hw_json s) oc k (hw_nodes s i))"
    using bulk(1) by simp_all
  show ?case
  proof (rule http_inv_node [OF bulk(2)])
    show "http_ok t" "ht_self t = i" "held_set t \<subseteq> hw_sent s"
      using send_bulk_ok(1) [OF d(1)] sender_held(5,6) d(2,3) by (auto simp: t) blast
    show "\<exists>env \<in> hw_sent s. wire_Encode (hw_json s) env = Inr x" if "x \<in> set_option b" for x
      using that send_bulk_ok(2) [OF d(1) [of i]] held_set_mem d(3) [of i] by (auto simp: t) blast
  qed
next
  case (receive req s verb i t code out)
  note d = http_invD [OF receive(3)] and h = Handler_ok [OF receive(2)]
  have "held_set t = held_set (hw_nodes s i)" using h(2) by (simp add: held_set_def)
  then have "http_inv (s\<lparr>hw_nodes := (hw_nodes s)(i := t), hw_wire := hw_wire s \<union> {}\<rparr>)"
    using h d by (intro http_inv_node [OF receive(3)]) auto
  then show ?case by (simp add: http_inv_def)
qed

interpretation web: transport http_start http_step http_inv hw_sent hw_handed
proof
  show "http_start s \<Longrightarrow> http_inv s \<and> hw_handed s = {}" for s
    by (auto simp: http_start_def http_inv_def NewHTTP_ok)
  show "http_step s s' \<Longrightarrow> http_inv s \<Longrightarrow> http_inv s'" for s s' by (rule http_step_inv)
  show "http_step s s' \<Longrightarrow> hw_sent s \<subseteq> hw_sent s'" for s s' by (induction rule: http_step.induct) auto
  fix s s' i e
  assume "http_step s s'" "http_inv s" "(i, e) \<in> hw_handed s'"
  then show "(i, e) \<in> hw_handed s \<or> e \<in> hw_sent s' \<and> nv_To e = i"
  proof (induction rule: http_step.induct)
    case (receive req s verb k t code out)
    show ?case
    proof (cases "(i, e) \<in> hw_handed s")
      case False
      then have o: "out = Some e" "k = i" using receive(4) by auto
      obtain b where b: "req = ReadBody b" "wire_Decode (hw_json s) b = Inr e" "nv_To e = i"
        using Handler_ok(4) [OF receive(2) o(1)] http_invD(2) [OF receive(3)] o(2) by auto
      obtain env where "env \<in> hw_sent s" "wire_Encode (hw_json s) env = Inr b"
        using http_invD(5) [OF receive(3) receive(1) [OF b(1)]] by blast
      then show ?thesis using wire_read_same [OF http_invD(4) [OF receive(3)] _ b(2)] b(3) by auto
    qed simp
  qed auto
qed

section \<open>A sample run\<close>

definition web_start :: http_world where
  "web_start = \<lparr>hw_nodes = (\<lambda>i. NewHTTP i (fmap_of_list [(1, ''a''), (2, ''b'')])), hw_json = sample_wj, hw_wire = {}, hw_sent = {}, hw_handed = {}\<rparr>"

definition web_sent :: http_world where
  "web_sent = web_start\<lparr>hw_nodes := (hw_nodes web_start)(1 := http_Send sample_env (hw_nodes web_start 1)), hw_sent := insert sample_env (hw_sent web_start)\<rparr>"

definition web_posted :: http_world where
  "web_posted =
     (let r = send_queued (hw_json web_sent) (Status 204) 2 (hw_nodes web_sent 1)
      in web_sent\<lparr>hw_nodes := (hw_nodes web_sent)(1 := fst r), hw_wire := hw_wire web_sent \<union> set_option (snd r)\<rparr>)"

definition web_end :: http_world where
  "web_end =
     (let r = http_Handler (hw_json web_posted) ''POST'' (ReadBody ''127'') (hw_nodes web_posted 2)
      in web_posted\<lparr>hw_nodes := (hw_nodes web_posted)(2 := fst r), hw_handed := hw_handed web_posted \<union> Pair 2 ` set_option (snd (snd r))\<rparr>)"

lemma web_facts: "snd (send_queued (hw_json web_sent) (Status 204) 2 (hw_nodes web_sent 1)) = Some ''127''"
  "snd (snd (http_Handler (hw_json web_posted) ''POST'' (ReadBody ''127'') (hw_nodes web_posted 2))) = Some sample_env"
  by code_simp+

lemma web_starts: "http_start web_start"
  by (auto simp: http_start_def web_start_def sample_wj_reads)

lemma web_run: "http_step\<^sup>*\<^sup>* web_start web_end"
proof -
  have 1: "http_step web_start web_sent" unfolding web_sent_def by (rule http_step.send)
  have 2: "http_step web_sent web_posted" unfolding web_posted_def Let_def by (rule http_step.queued) (rule prod.collapse [symmetric])
  have w: "''127'' \<in> hw_wire web_posted" using web_facts(1) by (simp add: web_posted_def Let_def)
  have "http_step web_posted web_end" unfolding web_end_def Let_def
    by (rule http_step.receive [where req = "ReadBody ''127''" and verb = "''POST''" and
          code = "fst (snd (http_Handler (hw_json web_posted) ''POST'' (ReadBody ''127'') (hw_nodes web_posted 2)))"])
      (simp_all add: w)
  then show ?thesis using 1 2 by (meson converse_rtranclp_into_rtranclp r_into_rtranclp)
qed

section \<open>Properties\<close>



text \<open>
  C37. The queues of every peer stay within their sizes, the bulk queue never holds two copies of a message, the keys that
  suppress retransmissions are exactly those of the bulk messages not yet on their way, and every message sent has been
  posted, dropped, coalesced or refused by the peer, or is still held.
\<close>

theorem http_queues:
  assumes "http_start s" "http_step\<^sup>*\<^sup>* s s'"
  shows "(\<forall>k p. fmlookup (ht_peers (hw_nodes s' i)) k = Some p \<longrightarrow> length (hp_queue p) \<le> QueueSize \<and> length (hp_bulk p) \<le> BulkQueueSize \<and>
      distinct (keys_of p) \<and> fset (hp_pending p) = set (keys_of p)) \<and>
    (let st = ht_stats (hw_nodes s' i) in
       hs_Sent st = hs_Posted st + hs_Dropped st + hs_Coalesced st + hs_Failed st + held_total (hw_nodes s' i))"
proof -
  have "http_inv s'" by (rule web.steps_inv [OF assms(2,1)])
  then show ?thesis using http_invD(1) [of s' i] by (auto simp: http_ok_def peer_ok_def Let_def)
qed

theorem http_queues_witness:
  "hs_Sent (ht_stats (hw_nodes web_end 1)) = 1 \<and> hs_Posted (ht_stats (hw_nodes web_end 1)) = 1 \<and> held_total (hw_nodes web_end 1) = 0"
proof -
  have "hs_Sent (ht_stats (hw_nodes web_end 1)) = 1 \<and> hs_Posted (ht_stats (hw_nodes web_end 1)) = 1" by code_simp
  with http_queues [OF web_starts web_run, of 1] show ?thesis by (simp add: Let_def)
qed

end
