(* ===== verification/Spec2Isabelle.thy ===== *)
theory Spec2Isabelle
  imports Synod Outcomes LogCluster LogLoops Wal Service Limiter Feed Session HttpTransport
begin

text \<open>
  A verification library for \<^verbatim>\<open>paxos-arena\<close>, a tournament service replicated with multi-Paxos.

  \<^bold>\<open>The program.\<close> Every replica runs a log node (\<^verbatim>\<open>internal/replog\<close>) that agrees with the other replicas on
  one value per slot, and a deterministic state machine (\<^verbatim>\<open>internal/tournament\<close>) that applies the values
  in slot order. The state machine runs tournaments of a card game (\<^verbatim>\<open>internal/game\<close>), moves money in a
  double-entry ledger (\<^verbatim>\<open>internal/ledger\<close>) and answers every command with a result that is recorded under
  the command's idempotency key. \<^verbatim>\<open>internal/paxos\<close> holds the rules both protocols share and the
  single-decree reference protocol.

  \<^bold>\<open>Theories and what they model.\<close>
  \<^item> \<open>Prelude\<close>: wrapped 64-bit arithmetic, decimal and hexadecimal text, big-endian bytes, finite maps with
    their keys in order; the shared lemmas.
  \<^item> \<open>Voting\<close>, \<open>Paxos\<close>, \<open>Synod\<close>: quorums and the abstract voting contract (locale \<open>voting_system\<close>); ballots,
    \<^verbatim>\<open>MayPromise\<close>, \<^verbatim>\<open>MayAccept\<close>, \<^verbatim>\<open>Choose\<close>, the acceptor and the proposer (\<^verbatim>\<open>paxos.go\<close>, \<^verbatim>\<open>acceptor.go\<close>,
    \<^verbatim>\<open>proposer.go\<close>); the message-passing protocol they form, with agreement.
  \<^item> \<open>Ledger\<close>: postings, the book, \<^verbatim>\<open>Post\<close>, the queries and the self-check of \<^verbatim>\<open>ledger.go\<close>.
  \<^item> \<open>Game\<close>: cards, seeds, the unbiased shuffle, the board, moves and replay of \<^verbatim>\<open>game.go\<close> and \<^verbatim>\<open>rules.go\<close>.
  \<^item> \<open>Tournament\<close>, \<open>Compute\<close>, \<open>State\<close>: the records, commands, codes and validation of \<^verbatim>\<open>tournament.go\<close>,
    \<^verbatim>\<open>play.go\<close> and \<^verbatim>\<open>codec.go\<close>; standings, pool and payouts of \<^verbatim>\<open>compute.go\<close>; every command handler, read and
    the hash chain of \<^verbatim>\<open>state.go\<close> and \<^verbatim>\<open>play_state.go\<close>. A panic of the source is the value \<open>None\<close>.
  \<^item> \<open>Replicas\<close>, \<open>Money\<close>, \<open>Machine\<close>, \<open>Outcomes\<close>: determinism across replicas and the idempotency table; the
    invariant of the money; the invariant of the whole state; the properties of every reachable state.
  \<^item> \<open>LogBase\<close>, \<open>LogNode\<close>: configuration, messages, events and the durable store (locale \<open>durable_store\<close>,
    interpreted on \<^verbatim>\<open>MemStore\<close> and on the list of saved records) and every handler of \<^verbatim>\<open>node.go\<close>, with every
    outcome of a save.
  \<^item> \<open>LogVotes\<close>, \<open>LogSteps\<close>, \<open>LogHandlers\<close>, \<open>LogPhase2\<close>, \<open>LogPropose\<close>, \<open>LogPhase1\<close>, \<open>LogCalls\<close>, \<open>LogKeeps\<close>: the
    invariant of a cluster of log nodes and that every handler and call keeps it; each slot interprets
    \<open>voting_system\<close>.
  \<^item> \<open>LogCluster\<close>, \<open>LogLoops\<close>: the cluster as a transition system with loss, repetition, reordering, failing
    saves and restarts, its safety, and the loops of a node.
  \<^item> \<open>Jsonx\<close>, \<open>Codec\<close>: the strict decoder of \<^verbatim>\<open>jsonx.go\<close> and the command codec of \<^verbatim>\<open>tournament/codec.go\<close> around a JSON
    codec that is an argument; the round trip of a command.
  \<^item> \<open>Wal\<close>: the write-ahead log of \<^verbatim>\<open>wal.go\<close>, framing, scan, recovery and every save with its failures. What
    is recovered after a crash is what was acknowledged.
  \<^item> \<open>ReplicaCore\<close>, \<open>ReplicaSystem\<close>: a log node with its state machine (\<^verbatim>\<open>replica/core.go\<close>) and the service of
    replicas as a transition system; replicas never diverge and record one result per key.
  \<^item> \<open>Runner\<close>, \<open>RunnerInv\<close>, \<open>RunnerSafe\<close>: the event loop of \<^verbatim>\<open>replica/runner.go\<close>, its invariant, and that every
    request is answered once, with what is recorded.
  \<^item> \<open>Service\<close>: the event loops of all replicas over a network, with restarts. Its steps are steps of \<open>ReplicaSystem\<close>,
    so two clients that send the same command to any two replicas are told the same.
  \<^item> \<open>Limiter\<close>: the rate limiter of \<^verbatim>\<open>intent/limit.go\<close>, equal to token buckets.
  \<^item> \<open>Ring\<close>, \<open>Feed\<close>: the event buffer of \<^verbatim>\<open>debugfeed/ring.go\<close>, equal to a log of which the end is kept; the events that
    \<^verbatim>\<open>feed.go\<close> records, which reveal nothing of a command but its name and identifiers, and \<^verbatim>\<open>handler.go\<close>.
  \<^item> \<open>Wire\<close>, \<open>Transport\<close>, \<open>HttpTransport\<close>: the wire codec of \<^verbatim>\<open>replog/codec.go\<close>; the contract of a transport (locale
    \<open>transport\<close>: nothing is delivered that was not sent to that node), which is what the transition system of
    \<open>LogCluster\<close> assumes of its network, interpreted on \<^verbatim>\<open>network.go\<close>, \<^verbatim>\<open>local.go\<close> and \<^verbatim>\<open>http.go\<close>.
  \<^item> \<open>Base64\<close>, \<open>Session\<close>: the base64 text the tokens use; key rings, tokens and device verifiers of \<^verbatim>\<open>session\<close>, with
    the round trip of a token and what an accepted token proves.

  \<^bold>\<open>Bounds and fuel.\<close> \<^verbatim>\<open>drainQueue\<close> is bounded by the length of the queue and \<^verbatim>\<open>advanceCommit\<close> by the number of
  chosen slots; \<open>LogLoops\<close> proves that neither bound is ever reached early. The shuffle is a partial
  function whose result is proved to exist. The cluster theorems take calls while rounds and slots are
  below the end of the 64-bit range (\<open>in_range\<close>; draining events is not restricted), and for clusters of at least two nodes: with one node a
  proposal is chosen inside the call that makes it, before the slot counter advances. \<^verbatim>\<open>ApplyCommitted\<close> is a
  partial function proved to return on every replica of the service.

  \<^bold>\<open>Arguments of the model.\<close> SHA-256 and HMAC-SHA-256, and the hash of a value's canonical encoding, are
  arguments of the definitions that use them. So are the JSON codecs of commands, messages, claims and log
  records, CRC-32C, the outcome of every file operation and every request, the random source of the simulated network, and what other goroutines do between two events of the event loop.

  \<^bold>\<open>Not modelled.\<close> JSON text (\<^verbatim>\<open>encoding/json\<close>); the interleaving of goroutines inside one operation; the HTTP routes
  and JSON views of \<^verbatim>\<open>api\<close> and \<^verbatim>\<open>intent\<close>; process start-up (\<^verbatim>\<open>cmd\<close>); the randomised simulator and its checkers (\<^verbatim>\<open>sim\<close>), which
  test the code modelled here.
\<close>

end
